(* ===== verification/Replob_Prelude.thy ===== *)
theory Replob_Prelude
  imports Main "HOL-Library.Word" "HOL-Library.AList" "HOL-Library.Sublist"
    "HOL-Library.Product_Lexorder"
begin

text \<open>
  What the components share: the exceptions the code throws, the machine integers
  it counts with, the retry loop around an atomic compare-and-exchange, and lemmas on
  words, maps and lists that the library does not state in the form the proofs use.

  Named collections: \<open>js_bits\<close> turns a question on the flag word of a journey into
  one on its bits; \<open>step_defs\<close> holds the definitions a step of the code unfolds to.
\<close>

named_theorems js_bits \<open>flags of a journey as bits of its word\<close>
named_theorems step_defs \<open>definitions that make up one step of the code\<close>

unbundle bit_operations_syntax

section \<open>Exceptions\<close>

text \<open>
  The exceptions of \<open>include/synca/once/oers.h\<close>, \<open>network.h\<close>, \<open>node.h\<close> and
  \<open>connector.h\<close>, the failed \<open>VERIFY\<close> of \<open>common.h\<close> and the standard library's
  \<open>out_of_range\<close>. An operation that may throw returns a value of \<open>exn + 'a\<close>.
\<close>

datatype exn =
    Verification string
  | CancelledEvent
  | TimedoutEvent
  | NetworkError
  | ConnectorError string
  | NodeError string
  | OutOfRange
  | LogicError string

type_synonym 'a outcome = "exn + 'a"

definition VERIFY :: "bool \<Rightarrow> string \<Rightarrow> unit outcome" where
  "VERIFY c msg = (if c then Inr () else Inl (Verification msg))"

lemma VERIFY_simps [simp]:
  "VERIFY True msg = Inr ()"
  "VERIFY False msg = Inl (Verification msg)"
  by (simp_all add: VERIFY_def)

section \<open>Identifiers\<close>

text \<open>\<open>id_t\<close> is \<open>uint64_t\<close> in \<open>node.h\<close>; nodes, messages and steps are numbered with it.\<close>

type_synonym id64 = "64 word"
type_synonym node_id = id64
type_synonym message_id = id64
type_synonym step_id = id64
type_synonym msg_id = "node_id \<times> message_id"

lemma unat_Suc_not_max:
  fixes a :: "'a::len word"
  assumes "a \<noteq> - 1"
  shows "unat (a + 1) = Suc (unat a)"
proof -
  have "1 + a \<noteq> 0"
    using assms by (metis add.commute eq_neg_iff_add_eq_0)
  then show ?thesis by (simp add: unatSuc add.commute)
qed

lemma word_less_Suc_not_max:
  fixes a :: "'a::len word"
  assumes "a \<noteq> - 1"
  shows "b < a + 1 \<longleftrightarrow> b \<le> a"
  using unat_Suc_not_max [OF assms] by (simp only: word_less_nat_alt word_le_nat_alt less_Suc_eq_le)

section \<open>Lists\<close>

lemma distinct_concat_nth:
  assumes "\<And>j. j < length l \<Longrightarrow> distinct (f (l ! j))"
    and "\<And>i j. \<lbrakk>i < length l; j < length l; i \<noteq> j\<rbrakk> \<Longrightarrow> set (f (l ! i)) \<inter> set (f (l ! j)) = {}"
  shows "distinct (concat (map f l))"
  using assms
proof (induction l)
  case (Cons a l)
  have "distinct (f a)" using Cons.prems(1) [of 0] by simp
  moreover have "set (f a) \<inter> set (f x) = {}" if "x \<in> set l" for x
  proof -
    from that obtain j where "j < length l" "x = l ! j" by (auto simp: in_set_conv_nth)
    with Cons.prems(2) [of 0 "Suc j"] show ?thesis by simp
  qed
  moreover have "distinct (concat (map f l))"
  proof (rule Cons.IH)
    show "distinct (f (l ! j))" if "j < length l" for j
      using Cons.prems(1) [of "Suc j"] that by simp
    show "set (f (l ! i)) \<inter> set (f (l ! j)) = {}" if "i < length l" "j < length l" "i \<noteq> j" for i j
      using Cons.prems(2) [of "Suc i" "Suc j"] that by simp
  qed
  ultimately show ?case by auto
qed simp

lemma prefixI_nth:
  assumes "length xs \<le> length ys" and "\<And>j. j < length xs \<Longrightarrow> xs ! j = ys ! j"
  shows "prefix xs ys"
proof -
  have "xs = take (length xs) ys" using assms by (intro nth_equalityI) simp_all
  then show ?thesis by (metis take_is_prefix)
qed

lemma update_nonmem: "k \<notin> fst ` set al \<Longrightarrow> AList.update k v al = al @ [(k, v)]"
  by (induction al) auto

lemma count_list_update:
  "i < length xs \<Longrightarrow> count_list (xs[i := y]) x + (if xs ! i = x then 1 else 0) =
     count_list xs x + (if y = x then 1 else 0)"
proof (induction xs arbitrary: i)
  case (Cons a xs)
  show ?case
  proof (cases i)
    case (Suc j)
    then show ?thesis using Cons.IH [of j] Cons.prems by auto
  qed simp
qed simp

lemma count_list_pos: "i < length xs \<Longrightarrow> xs ! i = x \<Longrightarrow> 0 < count_list xs x"
  by (metis count_list_0_iff gr0I nth_mem)

lemma filter_length_update:
  "i < length xs \<Longrightarrow> length (filter P (xs[i := y])) + (if P (xs ! i) then 1 else 0) =
     length (filter P xs) + (if P y then 1 else 0)"
proof (induction xs arbitrary: i)
  case (Cons a xs)
  show ?case
  proof (cases i)
    case (Suc j)
    then show ?thesis using Cons.IH [of j] Cons.prems by auto
  qed simp
qed simp

lemma filter_length_pos: "i < length xs \<Longrightarrow> P (xs ! i) \<Longrightarrow> 0 < length (filter P xs)"
  by (metis filter_empty_conv length_greater_0_conv nth_mem)

lemma set_update_old: "x \<in> set xs \<Longrightarrow> xs ! i \<noteq> x \<Longrightarrow> x \<in> set (xs[i := w])"
  by (auto simp: in_set_conv_nth nth_list_update) (metis nth_list_update_neq)

section \<open>Compare-and-exchange loops\<close>

text \<open>
  The lock-free operations load a word into \<open>prev\<close> and then loop: from \<open>prev\<close> they
  either leave without writing or compute a new word and try
  \<open>compare_exchange_weak (prev, new)\<close>. When the exchange fails (the word has another
  value, or it fails spuriously) \<open>prev\<close> becomes the current value and the loop goes on.
  What the other threads do is the list of attempts: the value the word has at each
  exchange, and whether that exchange fails spuriously.
\<close>

datatype ('r, 'w) cas_plan = Leave 'r | Swap 'w 'r

fun cas_loop :: "('w \<Rightarrow> ('r, 'w) cas_plan) \<Rightarrow> 'w \<Rightarrow> ('w \<times> bool) list \<Rightarrow> ('r \<times> 'w option) option" where
  "cas_loop plan prev [] =
     (case plan prev of Leave r \<Rightarrow> Some (r, None) | Swap w r \<Rightarrow> None)"
| "cas_loop plan prev ((cur, spurious) # attempts) =
     (case plan prev of
        Leave r \<Rightarrow> Some (r, None)
      | Swap w r \<Rightarrow>
          if cur = prev \<and> \<not> spurious then Some (r, Some w) else cas_loop plan cur attempts)"

text \<open>The same decision taken at once, on the value the word has.\<close>

definition cas_atomic :: "('w \<Rightarrow> ('r, 'w) cas_plan) \<Rightarrow> 'w \<Rightarrow> 'r \<times> 'w" where
  "cas_atomic plan cur = (case plan cur of Leave r \<Rightarrow> (r, cur) | Swap w r \<Rightarrow> (r, w))"

text \<open>
  A loop that returns behaves as the atomic decision at one value the word really had:
  the value of the successful exchange, or the last value loaded before it left.
\<close>

lemma cas_loop_linearises:
  assumes "cas_loop plan prev attempts = Some (r, wr)"
  shows "\<exists>cur \<in> insert prev (fst ` set attempts).
           fst (cas_atomic plan cur) = r \<and>
           (case wr of None \<Rightarrow> snd (cas_atomic plan cur) = cur
                     | Some w \<Rightarrow> snd (cas_atomic plan cur) = w \<and> cur \<in> fst ` set attempts)"
  using assms
proof (induction attempts arbitrary: prev)
  case Nil
  then show ?case by (auto simp: cas_atomic_def split: cas_plan.splits)
next
  case (Cons a attempts)
  obtain cur spurious where a: "a = (cur, spurious)" by (cases a)
  show ?case
  proof (cases "plan prev")
    case (Leave x)
    with Cons.prems a show ?thesis by (auto simp: cas_atomic_def)
  next
    case (Swap w x)
    show ?thesis
    proof (cases "cur = prev \<and> \<not> spurious")
      case True
      with Cons.prems a Swap show ?thesis by (auto simp: cas_atomic_def)
    next
      case False
      with Cons.prems a Swap have "cas_loop plan cur attempts = Some (r, wr)" by auto
      from Cons.IH [OF this] a show ?thesis by (force split: option.splits)
    qed
  qed
qed

text \<open>Without interference the first exchange that is not spurious ends the loop.\<close>

lemma cas_loop_undisturbed:
  "cas_loop plan cur (replicate n (cur, True) @ [(cur, False)]) =
     Some (fst (cas_atomic plan cur),
           case plan cur of Leave r \<Rightarrow> None | Swap w r \<Rightarrow> Some w)"
  by (induction n) (auto simp: cas_atomic_def split: cas_plan.splits)

section \<open>Reachable states\<close>

text \<open>
  Safety of a component under every interleaving is an invariant of its step relation.
  The interface is a start state, a step relation and a predicate that holds at the
  start and is kept by every step; what the client gets is the predicate in every state
  a run can reach.
\<close>

locale step_system =
  fixes start :: "'s \<Rightarrow> bool"
    and step :: "'s \<Rightarrow> 's \<Rightarrow> bool"
    and inv :: "'s \<Rightarrow> bool"
  assumes inv_start: "start s \<Longrightarrow> inv s"
    and inv_step: "inv s \<Longrightarrow> step s t \<Longrightarrow> inv t"
begin

lemma inv_steps: "step\<^sup>*\<^sup>* s t \<Longrightarrow> inv s \<Longrightarrow> inv t"
  by (induction rule: rtranclp_induct) (auto intro: inv_step)

lemma inv_reachable: "start s \<Longrightarrow> step\<^sup>*\<^sup>* s t \<Longrightarrow> inv t"
  using inv_start inv_steps by blast

end

end
