(* ===== verification/JourneyState.thy ===== *)
theory JourneyState
  imports Replob_Prelude
begin

text \<open>
  \<open>JourneyState\<close> (\<open>src/journey.h\<close>, \<open>src/journey.cpp\<close>): the atomic word through which a
  coroutine and the threads that wake, cancel or time it out agree on who may schedule
  it next. Its low five bits are flags, the rest counts the events raised.

  Every operation is a function of the word; those that call \<open>proceed()\<close> say so in
  their result. An operation with a retry loop is given twice: as the loop, over the
  values the word takes while other threads write it, and as the decision it takes.
\<close>

section \<open>The word\<close>

type_synonym jstate = "32 word"

definition FlagEntered :: jstate where "FlagEntered = push_bit 0 1"
definition FlagEventsEnabled :: jstate where "FlagEventsEnabled = push_bit 1 1"
definition FlagDone :: jstate where "FlagDone = push_bit 2 1"
definition FlagCancelled :: jstate where "FlagCancelled = push_bit 3 1"
definition FlagTimedout :: jstate where "FlagTimedout = push_bit 4 1"
definition ValueCounter :: jstate where "ValueCounter = push_bit 5 1"
definition MaskCounter :: jstate where "MaskCounter = NOT (ValueCounter - 1)"

definition js_initial :: jstate where "js_initial = FlagEntered OR FlagEventsEnabled"

lemmas flag_defs = FlagEntered_def FlagEventsEnabled_def FlagDone_def FlagCancelled_def
  FlagTimedout_def ValueCounter_def MaskCounter_def

text \<open>The flags as bits; the proofs below never look at the numbers.\<close>

abbreviation entered :: "jstate \<Rightarrow> bool" where "entered s \<equiv> bit s 0"
abbreviation enabled :: "jstate \<Rightarrow> bool" where "enabled s \<equiv> bit s 1"
abbreviation is_done :: "jstate \<Rightarrow> bool" where "is_done s \<equiv> bit s 2"
abbreviation cancelled :: "jstate \<Rightarrow> bool" where "cancelled s \<equiv> bit s 3"
abbreviation timedout :: "jstate \<Rightarrow> bool" where "timedout s \<equiv> bit s 4"

lemma bit_push_bit_1: "bit (push_bit k 1 :: jstate) n \<longleftrightarrow> n = k \<and> k < 32"
  by (auto simp: bit_exp_iff possible_bit_word)

lemma flag_bits [js_bits]:
  "bit FlagEntered n \<longleftrightarrow> n = 0"
  "bit FlagEventsEnabled n \<longleftrightarrow> n = 1"
  "bit FlagDone n \<longleftrightarrow> n = 2"
  "bit FlagCancelled n \<longleftrightarrow> n = 3"
  "bit FlagTimedout n \<longleftrightarrow> n = 4"
  unfolding flag_defs bit_push_bit_1 by simp_all

lemma and_flag_eq_0:
  assumes "\<And>n. bit f n \<longleftrightarrow> n = k" and "k < 32"
  shows "s AND f = 0 \<longleftrightarrow> \<not> bit (s :: jstate) k"
proof
  assume "s AND f = 0"
  then have "\<not> bit (s AND f) k" by simp
  with assms show "\<not> bit s k" by (simp add: bit_and_iff)
next
  assume "\<not> bit s k"
  with assms(1) show "s AND f = 0"
    by (intro bit_word_eqI) (auto simp: bit_and_iff)
qed

lemma flag_test [js_bits]:
  "s AND FlagEntered = 0 \<longleftrightarrow> \<not> entered s"
  "s AND FlagEventsEnabled = 0 \<longleftrightarrow> \<not> enabled s"
  "s AND FlagDone = 0 \<longleftrightarrow> \<not> is_done s"
  "s AND FlagCancelled = 0 \<longleftrightarrow> \<not> cancelled s"
  "s AND FlagTimedout = 0 \<longleftrightarrow> \<not> timedout s"
  by (rule and_flag_eq_0; simp add: flag_bits)+

lemma flag_test_or [js_bits]:
  "s AND (a OR b) = 0 \<longleftrightarrow> s AND a = 0 \<and> s AND b = (0 :: jstate)"
  by (simp add: bit.conj_disj_distrib or_eq_0_iff)

lemma MaskCounter_bits [js_bits]: "bit MaskCounter n \<longleftrightarrow> 5 \<le> n \<and> n < 32"
proof -
  have "ValueCounter - 1 = (mask 5 :: jstate)"
    by (simp add: ValueCounter_def mask_eq_exp_minus_1)
  then have eq: "MaskCounter = NOT (mask 5)"
    by (simp only: MaskCounter_def)
  show ?thesis
    unfolding eq bit_not_iff bit_mask_iff possible_bit_word by auto
qed

text \<open>Adding to the counter leaves the flags alone.\<close>

lemma flags_add_counter [js_bits]:
  assumes "n < 5"
  shows "bit (s + ValueCounter) n = bit s n"
proof -
  have "unat (s + ValueCounter) = take_bit 32 (unat s + 32)"
    by (simp add: ValueCounter_def unat_word_ariths take_bit_eq_mod)
  moreover have "take_bit 5 (unat s + 32) = take_bit 5 (unat s)"
    by (simp add: take_bit_eq_mod)
  ultimately have "take_bit 5 (unat (s + ValueCounter)) = take_bit 5 (unat s)"
    by simp
  then have "bit (unat (s + ValueCounter)) n = bit (unat s) n"
    using assms by (metis bit_take_bit_iff)
  then show ?thesis using assms by (simp add: bit_unsigned_iff)
qed

lemma counter_add [js_bits]:
  "(s + ValueCounter) AND MaskCounter = (s AND MaskCounter) + ValueCounter"
proof -
  have split: "s = (s AND MaskCounter) + (s AND NOT MaskCounter)" for s :: jstate
  proof -
    have "(s AND MaskCounter) AND (s AND NOT MaskCounter) = 0"
      by (intro bit_word_eqI) (auto simp: bit_and_iff bit_not_iff)
    then have "(s AND MaskCounter) + (s AND NOT MaskCounter) =
        (s AND MaskCounter) OR (s AND NOT MaskCounter)"
      by (rule disjunctive_add_eq_or)
    also have "\<dots> = s"
      by (intro bit_word_eqI) (auto simp: bit_and_iff bit_or_iff bit_not_iff)
    finally show ?thesis by simp
  qed
  have flags: "(s + ValueCounter) AND NOT MaskCounter = s AND NOT MaskCounter"
    by (intro bit_word_eqI) (auto simp: bit_and_iff bit_not_iff js_bits)
  have "((s + ValueCounter) AND MaskCounter) + (s AND NOT MaskCounter) = s + ValueCounter"
    using split [of "s + ValueCounter"] by (simp only: flags)
  also have "\<dots> = ((s AND MaskCounter) + (s AND NOT MaskCounter)) + ValueCounter"
    using split [of s] by simp
  also have "\<dots> = ((s AND MaskCounter) + ValueCounter) + (s AND NOT MaskCounter)"
    by (simp only: add.assoc add.commute [of ValueCounter])
  finally show ?thesis by (rule add_right_imp_eq)
qed

section \<open>The operations\<close>

definition mayProceed :: "jstate \<Rightarrow> bool" where
  "mayProceed state \<longleftrightarrow>
     state AND FlagDone \<noteq> 0 \<or>
     (state AND FlagEventsEnabled \<noteq> 0 \<and> state AND (FlagCancelled OR FlagTimedout) \<noteq> 0)"

text \<open>\<open>fetch_and\<close> and \<open>fetch_or\<close>: the old word and the new one.\<close>

definition resetFlags0 :: "jstate \<Rightarrow> jstate \<Rightarrow> jstate \<times> jstate" where
  "resetFlags0 flags state = (state, state AND NOT flags)"

definition setFlags0 :: "jstate \<Rightarrow> jstate \<Rightarrow> jstate \<times> jstate" where
  "setFlags0 flags state = (state, state OR flags)"

definition js_disableEvents :: "jstate \<Rightarrow> bool \<times> jstate" where
  "js_disableEvents state =
     (let (old, state') = resetFlags0 FlagEventsEnabled state
      in (old AND FlagEventsEnabled \<noteq> 0, state'))"

definition js_enableEvents :: "jstate \<Rightarrow> jstate" where
  "js_enableEvents state = snd (setFlags0 FlagEventsEnabled state)"

definition js_isDone :: "jstate \<Rightarrow> bool" where
  "js_isDone state \<longleftrightarrow> state AND FlagDone \<noteq> 0"

definition js_counter :: "jstate \<Rightarrow> jstate" where
  "js_counter state = state AND MaskCounter"

definition js_isEventsEnabled :: "jstate \<Rightarrow> bool" where
  "js_isEventsEnabled state \<longleftrightarrow> state AND FlagEventsEnabled \<noteq> 0"

text \<open>\<open>done\<close> and \<open>releaseAndDone\<close> return whether they call \<open>proceed()\<close>.\<close>

definition js_done :: "jstate \<Rightarrow> bool \<times> jstate" where
  "js_done state =
     (let (old, state') = setFlags0 (FlagDone OR FlagEntered) state
      in (old AND FlagEntered = 0, state'))"

definition js_releaseAndDone :: "bool \<Rightarrow> jstate \<Rightarrow> bool \<times> jstate" where
  "js_releaseAndDone wasEventsEnabled state =
     (if \<not> wasEventsEnabled then js_done state
      else let (old, state') = setFlags0 (FlagDone OR FlagEntered OR FlagEventsEnabled) state
           in (old AND FlagEntered = 0, state'))"

definition js_detachDoers :: "jstate \<Rightarrow> jstate" where
  "js_detachDoers state = snd (resetFlags0 FlagDone (state + ValueCounter))"

text \<open>
  \<open>handleRaiseEvents\<close> and \<open>handleEvents\<close> decide on an event word read earlier and then
  reset flags of the word as it is by then. \<open>js_handleEvents\<close> is the case of no write
  in between.
\<close>

definition handleRaiseEvents :: "jstate \<Rightarrow> jstate \<Rightarrow> unit outcome \<times> jstate" where
  "handleRaiseEvents eventFlag state =
     (if eventFlag AND FlagCancelled \<noteq> 0
      then (Inl CancelledEvent,
            snd (resetFlags0 (FlagCancelled OR FlagTimedout OR FlagDone) state))
      else if eventFlag AND FlagTimedout \<noteq> 0
      then (Inl TimedoutEvent, snd (resetFlags0 (FlagTimedout OR FlagDone) state))
      else (Inr (), state))"

definition handleEvents_on :: "jstate \<Rightarrow> jstate \<Rightarrow> unit outcome \<times> jstate" where
  "handleEvents_on event state =
     (if event AND FlagEventsEnabled \<noteq> 0
      then case VERIFY (event AND (FlagCancelled OR FlagTimedout OR FlagDone) \<noteq> 0)
                  ''Must have event'' of
             Inl e \<Rightarrow> (Inl e, state)
           | Inr _ \<Rightarrow>
               (case handleRaiseEvents event state of
                  (Inl e, state') \<Rightarrow> (Inl e, state')
                | (Inr _, state') \<Rightarrow> (Inr (), snd (resetFlags0 FlagDone state')))
      else case VERIFY (event AND FlagDone \<noteq> 0) ''Must be done'' of
             Inl e \<Rightarrow> (Inl e, state)
           | Inr _ \<Rightarrow> (Inr (), snd (resetFlags0 FlagDone state)))"

definition js_handleEvents :: "jstate \<Rightarrow> unit outcome \<times> jstate" where
  "js_handleEvents state = handleEvents_on state state"

definition js_enableEventsAndCheck :: "jstate \<Rightarrow> unit outcome \<times> jstate" where
  "js_enableEventsAndCheck state =
     (let (old, state') = setFlags0 FlagEventsEnabled state in handleRaiseEvents old state')"

text \<open>
  The retry loops. \<open>resetEntered_plan\<close> leaves (and calls \<open>proceed()\<close>: \<open>True\<close>) when there
  is something to handle; \<open>acquire_plan\<close> leaves with \<open>False\<close> when the counter moved;
  \<open>addRaiseEvent_plan\<close> always writes, and tells whether it then calls \<open>proceed()\<close>.
\<close>

definition resetEntered_plan :: "jstate \<Rightarrow> (bool, jstate) cas_plan" where
  "resetEntered_plan prev =
     (if mayProceed prev then Leave True else Swap (prev AND NOT FlagEntered) False)"

definition acquire_plan :: "jstate \<Rightarrow> jstate \<Rightarrow> (bool, jstate) cas_plan" where
  "acquire_plan oldCounter prev =
     (let counter = prev AND MaskCounter
      in if oldCounter \<noteq> counter then Leave False
         else Swap (prev AND NOT FlagEventsEnabled) True)"

definition addRaiseEvent_plan :: "jstate \<Rightarrow> jstate \<Rightarrow> (bool, jstate) cas_plan" where
  "addRaiseEvent_plan eventFlag prev =
     (let next = prev OR eventFlag
      in if prev AND FlagEventsEnabled \<noteq> 0
         then Swap ((next + ValueCounter) OR FlagEntered) (next AND FlagEntered = 0)
         else Swap next False)"

definition resetEnteredAndCheckEvents_loop ::
  "jstate \<Rightarrow> (jstate \<times> bool) list \<Rightarrow> (bool \<times> jstate option) option" where
  "resetEnteredAndCheckEvents_loop loaded attempts = cas_loop resetEntered_plan loaded attempts"

definition acquire_loop ::
  "jstate \<Rightarrow> bool \<Rightarrow> jstate \<Rightarrow> (jstate \<times> bool) list \<Rightarrow> (bool \<times> jstate option) option" where
  "acquire_loop oldCounter wasEventsEnabled loaded attempts =
     (if \<not> wasEventsEnabled then Some (True, None)
      else cas_loop (acquire_plan oldCounter) loaded attempts)"

definition addRaiseEvent_loop ::
  "jstate \<Rightarrow> jstate \<Rightarrow> (jstate \<times> bool) list \<Rightarrow> (bool \<times> jstate option) option" where
  "addRaiseEvent_loop eventFlag loaded attempts =
     cas_loop (addRaiseEvent_plan eventFlag) loaded attempts"

text \<open>The same operations decided at once.\<close>

definition js_resetEnteredAndCheckEvents :: "jstate \<Rightarrow> bool \<times> jstate" where
  "js_resetEnteredAndCheckEvents state = cas_atomic resetEntered_plan state"

definition js_acquire :: "jstate \<Rightarrow> bool \<Rightarrow> jstate \<Rightarrow> bool \<times> jstate" where
  "js_acquire oldCounter wasEventsEnabled state =
     (if \<not> wasEventsEnabled then (True, state)
      else cas_atomic (acquire_plan oldCounter) state)"

definition addRaiseEvent :: "jstate \<Rightarrow> jstate \<Rightarrow> bool \<times> jstate" where
  "addRaiseEvent eventFlag state = cas_atomic (addRaiseEvent_plan eventFlag) state"

definition js_cancel :: "jstate \<Rightarrow> bool \<times> jstate" where
  "js_cancel state = addRaiseEvent FlagCancelled state"

definition js_timedout :: "jstate \<Rightarrow> bool \<times> jstate" where
  "js_timedout state = addRaiseEvent FlagTimedout state"

section \<open>The operations as bits\<close>

lemma mayProceed_bits [js_bits]:
  "mayProceed s \<longleftrightarrow> is_done s \<or> enabled s \<and> (cancelled s \<or> timedout s)"
  by (auto simp: mayProceed_def js_bits)

lemma counter_eqI:
  assumes "\<And>n. 5 \<le> n \<Longrightarrow> bit s n = bit t n"
  shows "js_counter s = js_counter t"
  unfolding js_counter_def
  by (intro bit_word_eqI) (auto simp: bit_and_iff js_bits assms)

lemma js_initial_bits [js_bits]: "bit js_initial n \<longleftrightarrow> n = 0 \<or> n = 1"
  by (auto simp: js_initial_def bit_or_iff js_bits)

lemma js_done_bits [js_bits]:
  "fst (js_done s) \<longleftrightarrow> \<not> entered s"
  "bit (snd (js_done s)) n \<longleftrightarrow> bit s n \<or> n = 0 \<or> n = 2"
  by (auto simp: js_done_def setFlags0_def bit_or_iff js_bits)

lemma js_releaseAndDone_bits [js_bits]:
  "fst (js_releaseAndDone we s) \<longleftrightarrow> \<not> entered s"
  "bit (snd (js_releaseAndDone we s)) n \<longleftrightarrow> bit s n \<or> n = 0 \<or> n = 2 \<or> we \<and> n = 1"
  by (auto simp: js_releaseAndDone_def setFlags0_def bit_or_iff js_bits)

lemma js_disableEvents_bits [js_bits]:
  "fst (js_disableEvents s) \<longleftrightarrow> enabled s"
  "bit (snd (js_disableEvents s)) n \<longleftrightarrow> bit s n \<and> n \<noteq> 1"
  by (auto simp: js_disableEvents_def resetFlags0_def bit_and_iff bit_not_iff js_bits
      dest: bit_imp_le_length)

lemma js_enableEvents_bits [js_bits]:
  "bit (js_enableEvents s) n \<longleftrightarrow> bit s n \<or> n = 1"
  by (auto simp: js_enableEvents_def setFlags0_def bit_or_iff js_bits)

lemma js_queries_bits [js_bits]:
  "js_isDone s \<longleftrightarrow> is_done s"
  "js_isEventsEnabled s \<longleftrightarrow> enabled s"
  by (auto simp: js_isDone_def js_isEventsEnabled_def js_bits)

lemma js_detachDoers_bits [js_bits]:
  "n < 5 \<Longrightarrow> bit (js_detachDoers s) n \<longleftrightarrow> bit s n \<and> n \<noteq> 2"
  by (auto simp: js_detachDoers_def resetFlags0_def bit_and_iff bit_not_iff js_bits)

lemma js_resetEntered_bits [js_bits]:
  "fst (js_resetEnteredAndCheckEvents s) \<longleftrightarrow> mayProceed s"
  "bit (snd (js_resetEnteredAndCheckEvents s)) n \<longleftrightarrow> bit s n \<and> (n = 0 \<longrightarrow> mayProceed s)"
  by (auto simp: js_resetEnteredAndCheckEvents_def cas_atomic_def resetEntered_plan_def
      bit_and_iff bit_not_iff flag_bits dest: bit_imp_le_length)

lemma js_acquire_bits [js_bits]:
  "fst (js_acquire c we s) \<longleftrightarrow> \<not> we \<or> c = js_counter s"
  "bit (snd (js_acquire c we s)) n \<longleftrightarrow> bit s n \<and> \<not> (n = 1 \<and> we \<and> c = js_counter s)"
  by (auto simp: js_acquire_def cas_atomic_def acquire_plan_def js_counter_def Let_def
      bit_and_iff bit_not_iff flag_bits dest: bit_imp_le_length)

lemma addRaiseEvent_bits [js_bits]:
  assumes "\<And>n. bit f n \<longleftrightarrow> n = k" and "3 \<le> k" and "k < 5"
  shows "fst (addRaiseEvent f s) \<longleftrightarrow> enabled s \<and> \<not> entered s"
    and "n < 5 \<Longrightarrow> bit (snd (addRaiseEvent f s)) n \<longleftrightarrow> bit s n \<or> n = k \<or> n = 0 \<and> enabled s"
  using assms
  by (auto simp: addRaiseEvent_def cas_atomic_def addRaiseEvent_plan_def Let_def
      bit_or_iff js_bits)

lemma js_cancel_bits [js_bits]:
  "fst (js_cancel s) \<longleftrightarrow> enabled s \<and> \<not> entered s"
  "n < 5 \<Longrightarrow> bit (snd (js_cancel s)) n \<longleftrightarrow> bit s n \<or> n = 3 \<or> n = 0 \<and> enabled s"
  by (simp_all add: js_cancel_def addRaiseEvent_bits [where k = 3] flag_bits)

lemma js_timedout_bits [js_bits]:
  "fst (js_timedout s) \<longleftrightarrow> enabled s \<and> \<not> entered s"
  "n < 5 \<Longrightarrow> bit (snd (js_timedout s)) n \<longleftrightarrow> bit s n \<or> n = 4 \<or> n = 0 \<and> enabled s"
  by (simp_all add: js_timedout_def addRaiseEvent_bits [where k = 4] flag_bits)

text \<open>What \<open>handleEvents\<close> answers and which flags it clears, by the event it read.\<close>

lemma handleEvents_on_result [js_bits]:
  "fst (handleEvents_on e s) =
     (if enabled e
      then if cancelled e then Inl CancelledEvent
           else if timedout e then Inl TimedoutEvent
           else if is_done e then Inr () else Inl (Verification ''Must have event'')
      else if is_done e then Inr () else Inl (Verification ''Must be done''))"
  by (simp add: handleEvents_on_def handleRaiseEvents_def js_bits)

lemma handleEvents_on_bits [js_bits]:
  "bit (snd (handleEvents_on e s)) n \<longleftrightarrow>
     bit s n \<and>
     \<not> (n = 2 \<and> (is_done e \<or> enabled e \<and> (cancelled e \<or> timedout e))) \<and>
     \<not> (n = 3 \<and> enabled e \<and> cancelled e) \<and>
     \<not> (n = 4 \<and> enabled e \<and> (cancelled e \<or> timedout e))"
  by (auto simp: handleEvents_on_def handleRaiseEvents_def resetFlags0_def VERIFY_def
      bit_and_iff bit_or_iff bit_not_iff js_bits dest: bit_imp_le_length)

text \<open>The counter moves only when an event is raised with events enabled, or on a detach.\<close>

lemma counter_kept [js_bits]:
  "js_counter (snd (js_done s)) = js_counter s"
  "js_counter (snd (js_releaseAndDone we s)) = js_counter s"
  "js_counter (snd (js_disableEvents s)) = js_counter s"
  "js_counter (js_enableEvents s) = js_counter s"
  "js_counter (snd (js_resetEnteredAndCheckEvents s)) = js_counter s"
  "js_counter (snd (js_acquire c we s)) = js_counter s"
  "js_counter (snd (handleEvents_on e s)) = js_counter s"
  by (rule counter_eqI; auto simp: js_bits)+

lemma counter_or_flag:
  assumes "\<And>n. bit f n \<Longrightarrow> n < 5"
  shows "js_counter (s OR f) = js_counter s"
  using assms by (intro counter_eqI) (auto simp: bit_or_iff dest: leD)

lemma counter_and_not_flag:
  assumes "\<And>n. bit f n \<Longrightarrow> n < 5"
  shows "js_counter (s AND NOT f) = js_counter s"
  using assms
  by (intro counter_eqI) (auto simp: bit_and_iff bit_not_iff dest: leD bit_imp_le_length)

lemma counter_raise:
  assumes "\<And>n. bit f n \<Longrightarrow> n < 5"
  shows "js_counter (snd (addRaiseEvent f s)) = js_counter s + (if enabled s then ValueCounter else 0)"
proof -
  have "js_counter ((s OR f) + ValueCounter) = js_counter (s OR f) + ValueCounter"
    unfolding js_counter_def by (rule counter_add)
  then show ?thesis
    using counter_or_flag [OF assms, where s = s] counter_or_flag [of FlagEntered "(s OR f) + ValueCounter"]
    by (auto simp: addRaiseEvent_def cas_atomic_def addRaiseEvent_plan_def Let_def js_bits)
qed

lemma counter_cancel [js_bits]:
  "js_counter (snd (js_cancel s)) = js_counter s + (if enabled s then ValueCounter else 0)"
  "js_counter (snd (js_timedout s)) = js_counter s + (if enabled s then ValueCounter else 0)"
  unfolding js_cancel_def js_timedout_def
  by (rule counter_raise; simp add: flag_bits)+

lemma counter_detach [js_bits]:
  "js_counter (js_detachDoers s) = js_counter s + ValueCounter"
proof -
  have "js_counter (s + ValueCounter) = js_counter s + ValueCounter"
    unfolding js_counter_def by (rule counter_add)
  then show ?thesis
    using counter_and_not_flag [of FlagDone "s + ValueCounter"]
    by (simp add: js_detachDoers_def resetFlags0_def js_bits)
qed

section \<open>The retry loops\<close>

text \<open>
  A loop whose plan never leaves ends at the first exchange that meets the value seen just
  before it, unless that exchange fails spuriously, and writes what the plan makes of it.
\<close>

lemma cas_loop_swaps:
  assumes "\<And>v. plan v = Swap (new v) (result v)"
  shows "cas_loop plan loaded attempts = None \<longleftrightarrow>
      (\<forall>i < length attempts. snd (attempts ! i) \<or> fst (attempts ! i) \<noteq> (loaded # map fst attempts) ! i)"
    and "cas_loop plan loaded attempts = Some (r, wr) \<Longrightarrow>
      \<exists>i < length attempts. let v = fst (attempts ! i) in
        r = result v \<and> wr = Some (new v) \<and> v = (loaded # map fst attempts) ! i \<and> \<not> snd (attempts ! i)"
proof -
  show "cas_loop plan loaded attempts = None \<longleftrightarrow>
      (\<forall>i < length attempts. snd (attempts ! i) \<or> fst (attempts ! i) \<noteq> (loaded # map fst attempts) ! i)"
  proof (induction attempts arbitrary: loaded)
    case (Cons a attempts)
    obtain v b where a: "a = (v, b)" by (cases a)
    show ?case by (cases "v = loaded \<and> \<not> b") (use Cons.IH [of v] in \<open>auto simp: a assms All_less_Suc2\<close>)
  qed (simp add: assms)
  show "cas_loop plan loaded attempts = Some (r, wr) \<Longrightarrow>
      \<exists>i < length attempts. let v = fst (attempts ! i) in
        r = result v \<and> wr = Some (new v) \<and> v = (loaded # map fst attempts) ! i \<and> \<not> snd (attempts ! i)"
  proof (induction attempts arbitrary: loaded)
    case (Cons a attempts)
    then show ?case
      by (cases a) (auto simp: assms Ex_less_Suc2 Let_def split: if_splits)
  qed (simp add: assms)
qed

lemma addRaiseEvent_plan_swaps:
  "addRaiseEvent_plan f v = Swap (snd (addRaiseEvent f v)) (fst (addRaiseEvent f v))"
  by (simp add: addRaiseEvent_def cas_atomic_def addRaiseEvent_plan_def Let_def)

text \<open>C23: The lock-free loop of \<open>addRaiseEvent\<close> (\<open>cancel\<close>, which raises bit 3, and \<open>timedout\<close>,
  which raises bit 4), whatever other threads write between its exchanges: it goes on exactly
  while every exchange fails spuriously or meets another value than the one seen before it; when
  it returns, one exchange has taken the word from the value it had there to one with the flag
  of the event set, and, only if events are enabled, with \<open>entered\<close> set and the counter one
  further, all other flags as they were; and it calls \<open>proceed()\<close> exactly when events were
  enabled and the journey was not entered at that exchange.\<close>

theorem addRaiseEvent_takes_effect:
  assumes "f = FlagCancelled \<and> k = 3 \<or> f = FlagTimedout \<and> k = 4"
  shows "(addRaiseEvent_loop f loaded attempts = None \<longleftrightarrow>
      (\<forall>i < length attempts. snd (attempts ! i) \<or> fst (attempts ! i) \<noteq> (loaded # map fst attempts) ! i)) \<and>
    (\<forall>proceeds written. addRaiseEvent_loop f loaded attempts = Some (proceeds, written) \<longrightarrow>
      (\<exists>i w. i < length attempts \<and> \<not> snd (attempts ! i) \<and> written = Some w \<and>
        (let v = fst (attempts ! i) in
           (\<forall>n < 5. bit w n \<longleftrightarrow> bit v n \<or> n = k \<or> n = 0 \<and> enabled v) \<and>
           js_counter w = js_counter v + (if enabled v then ValueCounter else 0) \<and>
           (proceeds \<longleftrightarrow> enabled v \<and> \<not> entered v))))"
proof -
  note swaps = cas_loop_swaps [of "addRaiseEvent_plan f", OF addRaiseEvent_plan_swaps]
  have bits: "fst (addRaiseEvent f v) \<longleftrightarrow> enabled v \<and> \<not> entered v"
    "n < 5 \<Longrightarrow> bit (snd (addRaiseEvent f v)) n \<longleftrightarrow> bit v n \<or> n = k \<or> n = 0 \<and> enabled v"
    "js_counter (snd (addRaiseEvent f v)) = js_counter v + (if enabled v then ValueCounter else 0)" for v n
  proof -
    have f: "\<And>n. bit f n \<longleftrightarrow> n = k" "3 \<le> k" "k < 5" using assms by (auto simp: flag_bits)
    show "fst (addRaiseEvent f v) \<longleftrightarrow> enabled v \<and> \<not> entered v"
      by (rule addRaiseEvent_bits(1) [OF f])
    show "n < 5 \<Longrightarrow> bit (snd (addRaiseEvent f v)) n \<longleftrightarrow> bit v n \<or> n = k \<or> n = 0 \<and> enabled v"
      by (rule addRaiseEvent_bits(2) [OF f])
    show "js_counter (snd (addRaiseEvent f v)) = js_counter v + (if enabled v then ValueCounter else 0)"
      by (rule counter_raise) (use f in auto)
  qed
  show ?thesis
    unfolding addRaiseEvent_loop_def using swaps(1) by (auto dest!: swaps(2) simp: Let_def bits)
qed

lemma addRaiseEvent_takes_effect_witness:
  "addRaiseEvent_loop FlagCancelled 3 [(3, True), (7, False), (7, False)] = Some (False, Some 47) \<and>
   cancelled (47 :: jstate)"
proof -
  let ?as = "[(3, True), (7, False), (7, False)] :: (jstate \<times> bool) list"
  have run: "addRaiseEvent_loop FlagCancelled 3 ?as = Some (False, Some 47)"
    by code_simp
  have flag: "FlagCancelled = FlagCancelled \<and> (3 :: nat) = 3 \<or> FlagCancelled = FlagTimedout \<and> (3 :: nat) = 4"
    by simp
  from addRaiseEvent_takes_effect [OF flag, of 3 ?as, THEN conjunct2, rule_format, OF run]
  obtain w :: jstate and v where "Some 47 = Some w" "\<forall>n < 5. bit w n \<longleftrightarrow> bit v n \<or> n = 3 \<or> n = 0 \<and> enabled v"
    unfolding Let_def by blast
  then show ?thesis using run by simp
qed

end
