(* ===== verification/Journey.thy ===== *)
theory Journey
  imports JourneyState
begin

text \<open>
  One journey (\<open>src/journey.cpp\<close>, \<open>src/coro.cpp\<close>): a coroutine, the word of
  \<open>JourneyState\<close> and the scheduler that runs \<open>proceed0\<close>. The step relation interleaves,
  one access to the word at a time, the coroutine itself, the thread that leaves
  \<open>proceed0\<close> after a yield, and any number of other threads that call \<open>done\<close>,
  \<open>releaseAndDone\<close>, \<open>acquire\<close>, \<open>cancel\<close> and \<open>timedout\<close>.
\<close>

section \<open>The coroutine\<close>

datatype coro_state = Suspended | Running | Completed

definition coro_resume :: "coro_state \<Rightarrow> coro_state outcome" where
  "coro_resume c =
     (case VERIFY (c = Suspended) ''Coro must be suspended'' of
        Inl e \<Rightarrow> Inl e
      | Inr _ \<Rightarrow> Inr Running)"

definition coro_yield :: "coro_state \<Rightarrow> coro_state outcome" where
  "coro_yield c =
     (case VERIFY (c = Running) ''Coro must be running'' of
        Inl e \<Rightarrow> Inl e
      | Inr _ \<Rightarrow> Inr Suspended)"

text \<open>The handler returned: \<open>starter0\<close> marks the coroutine completed and leaves it.\<close>

definition coro_finish :: "coro_state \<Rightarrow> coro_state" where
  "coro_finish c = Completed"

definition isCompleted :: "coro_state \<Rightarrow> bool" where
  "isCompleted c \<longleftrightarrow> c = Completed"

section \<open>The journey and its threads\<close>

text \<open>
  \<open>exit_pc\<close>: where a thread is in \<open>resetEnteredAndCheckEvents\<close> after \<open>resume\<close> returned.
  \<open>caller_pc\<close>: where another thread is in a call on the word; \<open>CProceed\<close> means it has
  won the right to call \<open>proceed()\<close> and has not called it yet.
  \<open>own_pc\<close>: where the coroutine itself is in an operation with two accesses.
\<close>

datatype exit_pc = NoExit | ExitLoad | ExitLoop jstate | ExitProceed

datatype caller_pc = CIdle | CRaise jstate jstate | CAcquire jstate jstate | CProceed

datatype own_pc = OUser | OHandle jstate | OCheck jstate | ODetach

record jsys =
  jword :: jstate
  coro :: coro_state
  pend :: nat
  exit_at :: exit_pc
  own_at :: own_pc
  callers :: "nat \<Rightarrow> caller_pc"
  deleted :: bool
  failed :: bool

text \<open>\<open>Journey::start\<close>: the journey is created, and \<open>start0\<close> schedules it once.\<close>

definition jsys_start :: "jsys \<Rightarrow> bool" where
  "jsys_start s \<longleftrightarrow> jword s = js_initial \<and> coro s = Suspended \<and> pend s = 1 \<and> exit_at s = NoExit \<and>
     own_at s = OUser \<and> (\<forall>t. callers s t = CIdle) \<and> \<not> deleted s \<and> \<not> failed s"

text \<open>
  \<open>proceed()\<close> schedules \<open>proceed0\<close>; on a deleted journey that is a use after free.
\<close>

definition jsys_proceed :: "jsys \<Rightarrow> jsys" where
  "jsys_proceed s = (if deleted s then s\<lparr>failed := True\<rparr> else s\<lparr>pend := Suc (pend s)\<rparr>)"

text \<open>
  \<open>proceed0\<close> as the scheduler runs it: \<open>resume\<close> throws unless the coroutine is suspended,
  and running it while another thread still leaves the previous \<open>proceed0\<close>, or after
  \<open>delete this\<close>, is a failure too.
\<close>

definition jsys_resume :: "jsys \<Rightarrow> jsys" where
  "jsys_resume s =
     (if deleted s \<or> exit_at s \<noteq> NoExit then s\<lparr>pend := pend s - 1, failed := True\<rparr>
      else case coro_resume (coro s) of
             Inl e \<Rightarrow> s\<lparr>pend := pend s - 1, failed := True\<rparr>
           | Inr c \<Rightarrow> s\<lparr>pend := pend s - 1, coro := c\<rparr>)"

definition caller_after :: "bool \<Rightarrow> caller_pc" where
  "caller_after proceeds = (if proceeds then CProceed else CIdle)"

definition set_caller :: "nat \<Rightarrow> caller_pc \<Rightarrow> jsys \<Rightarrow> jsys" where
  "set_caller t c s = s\<lparr>callers := (callers s)(t := c)\<rparr>"

subsection \<open>The coroutine and its scheduler\<close>

inductive own_step :: "jsys \<Rightarrow> jsys \<Rightarrow> bool" where
  resume: "0 < pend s \<Longrightarrow> own_step s (jsys_resume s)"
| yield: "\<lbrakk>own_at s = OUser; coro_yield (coro s) = Inr c\<rbrakk> \<Longrightarrow>
     own_step s (s\<lparr>coro := c, exit_at := ExitLoad\<rparr>)"
| finish: "\<lbrakk>own_at s = OUser; coro s = Running\<rbrakk> \<Longrightarrow>
     own_step s (s\<lparr>coro := coro_finish (coro s), deleted := isCompleted (coro_finish (coro s))\<rparr>)"
| exit_load: "exit_at s = ExitLoad \<Longrightarrow> own_step s (s\<lparr>exit_at := ExitLoop (jword s)\<rparr>)"
| exit_leave: "\<lbrakk>exit_at s = ExitLoop prev; resetEntered_plan prev = Leave r\<rbrakk> \<Longrightarrow>
     own_step s (s\<lparr>exit_at := ExitProceed\<rparr>)"
| exit_swap: "\<lbrakk>exit_at s = ExitLoop prev; resetEntered_plan prev = Swap w r; jword s = prev\<rbrakk> \<Longrightarrow>
     own_step s (s\<lparr>jword := w, exit_at := NoExit\<rparr>)"
| exit_retry: "\<lbrakk>exit_at s = ExitLoop prev; resetEntered_plan prev = Swap w r\<rbrakk> \<Longrightarrow>
     own_step s (s\<lparr>exit_at := ExitLoop (jword s)\<rparr>)"
| exit_proceed: "exit_at s = ExitProceed \<Longrightarrow>
     own_step s (jsys_proceed (s\<lparr>exit_at := NoExit\<rparr>))"
| disable: "\<lbrakk>coro s = Running; own_at s = OUser\<rbrakk> \<Longrightarrow>
     own_step s (s\<lparr>jword := snd (js_disableEvents (jword s))\<rparr>)"
| enable: "\<lbrakk>coro s = Running; own_at s = OUser\<rbrakk> \<Longrightarrow>
     own_step s (s\<lparr>jword := js_enableEvents (jword s)\<rparr>)"
| check_set: "\<lbrakk>coro s = Running; own_at s = OUser\<rbrakk> \<Longrightarrow>
     own_step s (s\<lparr>jword := snd (setFlags0 FlagEventsEnabled (jword s)), own_at := OCheck (jword s)\<rparr>)"
| check_handle: "\<lbrakk>coro s = Running; own_at s = OCheck old\<rbrakk> \<Longrightarrow>
     own_step s (s\<lparr>jword := snd (handleRaiseEvents old (jword s)), own_at := OUser\<rparr>)"
| handle_load: "\<lbrakk>coro s = Running; own_at s = OUser\<rbrakk> \<Longrightarrow>
     own_step s (s\<lparr>own_at := OHandle (jword s)\<rparr>)"
| handle: "\<lbrakk>coro s = Running; own_at s = OHandle e\<rbrakk> \<Longrightarrow>
     own_step s (s\<lparr>jword := snd (handleEvents_on e (jword s)), own_at := OUser\<rparr>)"
| detach_add: "\<lbrakk>coro s = Running; own_at s = OUser\<rbrakk> \<Longrightarrow>
     own_step s (s\<lparr>jword := jword s + ValueCounter, own_at := ODetach\<rparr>)"
| detach_reset: "\<lbrakk>coro s = Running; own_at s = ODetach\<rbrakk> \<Longrightarrow>
     own_step s (s\<lparr>jword := snd (resetFlags0 FlagDone (jword s)), own_at := OUser\<rparr>)"

subsection \<open>The other threads\<close>

inductive caller_step :: "jsys \<Rightarrow> jsys \<Rightarrow> bool" where
  call_done: "\<lbrakk>callers s t = CIdle; js_done (jword s) = (p, w)\<rbrakk> \<Longrightarrow>
     caller_step s (set_caller t (caller_after p) (s\<lparr>jword := w\<rparr>))"
| call_release: "\<lbrakk>callers s t = CIdle; js_releaseAndDone we (jword s) = (p, w)\<rbrakk> \<Longrightarrow>
     caller_step s (set_caller t (caller_after p) (s\<lparr>jword := w\<rparr>))"
| raise_load: "\<lbrakk>callers s t = CIdle; f = FlagCancelled \<or> f = FlagTimedout\<rbrakk> \<Longrightarrow>
     caller_step s (set_caller t (CRaise f (jword s)) s)"
| raise_swap: "\<lbrakk>callers s t = CRaise f prev; addRaiseEvent_plan f prev = Swap w p; jword s = prev\<rbrakk> \<Longrightarrow>
     caller_step s (set_caller t (caller_after p) (s\<lparr>jword := w\<rparr>))"
| raise_retry: "callers s t = CRaise f prev \<Longrightarrow>
     caller_step s (set_caller t (CRaise f (jword s)) s)"
| acquire_load: "callers s t = CIdle \<Longrightarrow>
     caller_step s (set_caller t (CAcquire c (jword s)) s)"
| acquire_leave: "\<lbrakk>callers s t = CAcquire c prev; acquire_plan c prev = Leave r\<rbrakk> \<Longrightarrow>
     caller_step s (set_caller t CIdle s)"
| acquire_swap: "\<lbrakk>callers s t = CAcquire c prev; acquire_plan c prev = Swap w r; jword s = prev\<rbrakk> \<Longrightarrow>
     caller_step s (set_caller t CIdle (s\<lparr>jword := w\<rparr>))"
| acquire_retry: "\<lbrakk>callers s t = CAcquire c prev; acquire_plan c prev = Swap w r\<rbrakk> \<Longrightarrow>
     caller_step s (set_caller t (CAcquire c (jword s)) s)"
| call_proceed: "callers s t = CProceed \<Longrightarrow>
     caller_step s (set_caller t CIdle (jsys_proceed s))"

definition jsys_step :: "jsys \<Rightarrow> jsys \<Rightarrow> bool" where
  "jsys_step s s' \<longleftrightarrow> own_step s s' \<or> caller_step s s'"

section \<open>The invariant\<close>

text \<open>
  \<open>active\<close>: the right to run the journey is in use (scheduled, running, leaving) or used
  up (completed). \<open>owed\<close>: the threads that hold that right and have not called
  \<open>proceed()\<close> yet. The flag \<open>entered\<close> says exactly that somebody has it.
\<close>

definition active :: "jsys \<Rightarrow> bool" where
  "active s \<longleftrightarrow> coro s \<noteq> Suspended \<or> exit_at s \<noteq> NoExit \<or> pend s \<noteq> 0"

definition owed :: "jsys \<Rightarrow> nat set" where
  "owed s = {t. callers s t = CProceed}"

definition jsys_inv :: "jsys \<Rightarrow> bool" where
  "jsys_inv s \<longleftrightarrow>
     \<not> failed s \<and>
     deleted s = (coro s = Completed) \<and>
     (coro s \<noteq> Suspended \<longrightarrow> exit_at s = NoExit \<and> pend s = 0) \<and>
     (exit_at s \<noteq> NoExit \<longrightarrow> pend s = 0) \<and>
     pend s \<le> 1 \<and>
     (\<forall>f prev. \<forall>t. callers s t = CRaise f prev \<longrightarrow> f = FlagCancelled \<or> f = FlagTimedout) \<and>
     (if active s then owed s = {} \<and> entered (jword s)
      else if entered (jword s) then (\<exists>t. owed s = {t}) else owed s = {}) \<and>
     (mayProceed (jword s) \<longrightarrow> entered (jword s))"

lemma owed_set_caller [simp]:
  "owed (set_caller t c s) = (if c = CProceed then insert t (owed s) else owed s - {t})"
  by (auto simp: owed_def set_caller_def)

lemma owed_iff: "t \<in> owed s \<longleftrightarrow> callers s t = CProceed"
  by (simp add: owed_def)

lemma set_caller_simps [simp]:
  "active (set_caller t c s) = active s"
  "jword (set_caller t c s) = jword s"
  "coro (set_caller t c s) = coro s"
  "pend (set_caller t c s) = pend s"
  "exit_at (set_caller t c s) = exit_at s"
  "own_at (set_caller t c s) = own_at s"
  "deleted (set_caller t c s) = deleted s"
  "failed (set_caller t c s) = failed s"
  "callers (set_caller t c s) = (callers s)(t := c)"
  by (simp_all add: set_caller_def active_def)

lemma frame_simps [simp]:
  "owed (s\<lparr>jword := w\<rparr>) = owed s"
  "active (s\<lparr>jword := w\<rparr>) = active s"
  "owed (s\<lparr>pend := n\<rparr>) = owed s"
  by (simp_all add: owed_def active_def)

lemma raise_plan_bits:
  assumes "f = FlagCancelled \<or> f = FlagTimedout" and "addRaiseEvent_plan f prev = Swap w p"
  shows "p = (enabled prev \<and> \<not> entered prev)"
    and "entered w \<longleftrightarrow> entered prev \<or> enabled prev"
    and "mayProceed w \<longrightarrow> mayProceed prev \<or> entered w"
  using assms
  by (auto simp: addRaiseEvent_plan_def Let_def bit_or_iff js_bits split: if_splits)

lemma resetEntered_plan_bits:
  assumes "resetEntered_plan prev = Swap w r"
  shows "\<not> mayProceed prev" and "\<not> entered w" and "mayProceed w = mayProceed prev"
  using assms
  by (auto simp: resetEntered_plan_def bit_and_iff bit_not_iff js_bits split: if_splits)

lemma acquire_plan_bits:
  assumes "acquire_plan c prev = Swap w r"
  shows "entered w = entered prev" and "mayProceed w \<longrightarrow> mayProceed prev"
  using assms
  by (auto simp: acquire_plan_def Let_def bit_and_iff bit_not_iff js_bits split: if_splits)

lemma own_word_bits:
  "entered (snd (js_disableEvents w)) = entered w"
  "entered (js_enableEvents w) = entered w"
  "entered (snd (setFlags0 FlagEventsEnabled w)) = entered w"
  "entered (snd (handleRaiseEvents e w)) = entered w"
  "entered (snd (handleEvents_on e w)) = entered w"
  "entered (w + ValueCounter) = entered w"
  "entered (snd (resetFlags0 FlagDone w)) = entered w"
  by (auto simp: js_bits setFlags0_def resetFlags0_def handleRaiseEvents_def
      bit_or_iff bit_and_iff bit_not_iff)

lemma own_step_inv: "own_step s s' \<Longrightarrow> jsys_inv s \<Longrightarrow> jsys_inv s'"
proof (induction rule: own_step.induct)
  case (resume s)
  then show ?case
    by (auto simp: jsys_inv_def jsys_resume_def active_def owed_def coro_resume_def VERIFY_def
        split: if_splits)
next
  case (exit_swap s prev w r)
  with resetEntered_plan_bits [OF exit_swap(2)] show ?case
    by (auto simp: jsys_inv_def active_def owed_def split: if_splits)
next
  case (exit_proceed s)
  then show ?case
    by (auto simp: jsys_inv_def jsys_proceed_def active_def owed_def split: if_splits)
next
  case (yield s c)
  then show ?case
    by (auto simp: jsys_inv_def active_def owed_def coro_yield_def VERIFY_def split: if_splits)
qed (auto simp: jsys_inv_def active_def owed_def own_word_bits coro_finish_def isCompleted_def
    split: if_splits)

lemma caller_moves_word:
  assumes inv: "jsys_inv s" and t: "callers s t \<noteq> CProceed"
    and p: "p \<longrightarrow> \<not> entered (jword s)" and np: "\<not> p \<longrightarrow> entered w = entered (jword s)"
    and e: "p \<longrightarrow> entered w" and m: "mayProceed w \<longrightarrow> mayProceed (jword s) \<or> entered w"
  shows "jsys_inv (set_caller t (caller_after p) (s\<lparr>jword := w\<rparr>))"
proof (cases p)
  case True
  with p inv have "\<not> entered (jword s)" and "\<not> active s" and "owed s = {}"
    by (auto simp: jsys_inv_def split: if_splits)
  with True inv e show ?thesis
    by (auto simp: jsys_inv_def caller_after_def)
next
  case False
  with t have "owed s - {t} = owed s" by (simp add: owed_iff)
  with False inv np m show ?thesis
    by (auto simp: jsys_inv_def caller_after_def split: if_splits)
qed

lemma caller_step_inv: "caller_step s s' \<Longrightarrow> jsys_inv s \<Longrightarrow> jsys_inv s'"
proof (induction rule: caller_step.induct)
  case (call_done s t p w)
  then have w: "w = snd (js_done (jword s))" and p: "p = fst (js_done (jword s))" by simp_all
  show ?case
    by (rule caller_moves_word [OF call_done(3)]) (auto simp: call_done(1) w p js_bits)
next
  case (call_release s t we p w)
  then have w: "w = snd (js_releaseAndDone we (jword s))" and p: "p = fst (js_releaseAndDone we (jword s))"
    by simp_all
  show ?case
    by (rule caller_moves_word [OF call_release(3)]) (auto simp: call_release(1) w p js_bits)
next
  case (raise_swap s t f prev w p)
  then have f: "f = FlagCancelled \<or> f = FlagTimedout"
    by (auto simp: jsys_inv_def)
  show ?case
    by (rule caller_moves_word [OF raise_swap(4)])
      (use raise_plan_bits [OF f raise_swap(2)] raise_swap(1,3) in auto)
next
  case (acquire_swap s t c prev w r)
  have "jsys_inv (set_caller t (caller_after False) (s\<lparr>jword := w\<rparr>))"
    by (rule caller_moves_word [OF acquire_swap(4)])
      (use acquire_plan_bits [OF acquire_swap(2)] acquire_swap(1,3) in auto)
  then show ?case by (simp add: caller_after_def)
next
  case (call_proceed s t)
  then have "owed s = {t}" and "\<not> active s" and "entered (jword s)"
    by (auto simp: jsys_inv_def owed_iff [symmetric] split: if_splits)
  with call_proceed show ?case
    by (auto simp: jsys_inv_def jsys_proceed_def active_def)
next
  case (raise_load s t f)
  then show ?case
    by (auto simp: jsys_inv_def owed_iff split: if_splits)
next
  case (raise_retry s t f prev)
  then show ?case
    by (auto simp: jsys_inv_def owed_iff split: if_splits)
next
  case (acquire_load s t c)
  then show ?case
    by (auto simp: jsys_inv_def owed_iff split: if_splits)
next
  case (acquire_leave s t c prev r)
  then show ?case
    by (auto simp: jsys_inv_def owed_iff split: if_splits)
next
  case (acquire_retry s t c prev w r)
  then show ?case
    by (auto simp: jsys_inv_def owed_iff split: if_splits)
qed

interpretation journey: step_system jsys_start jsys_step jsys_inv
proof unfold_locales
  show "jsys_start s \<Longrightarrow> jsys_inv s" for s
    by (auto simp: jsys_start_def jsys_inv_def active_def owed_def js_bits)
next
  show "jsys_inv s \<Longrightarrow> jsys_step s t \<Longrightarrow> jsys_inv t" for s t
    by (auto simp: jsys_step_def intro: own_step_inv caller_step_inv)
qed

section \<open>Waking up\<close>

text \<open>
  The code that is already at work (the thread leaving \<open>proceed0\<close>, the scheduler, a thread
  inside a call) brings a suspended journey with something to handle back. A step of it is one
  of the journey's own, or one that takes a thread on in a call it has begun; a thread that is
  in no call makes none.
\<close>

definition jsys_work :: "jsys \<Rightarrow> jsys \<Rightarrow> bool" where
  "jsys_work s s' \<longleftrightarrow> own_step s s' \<or>
     (caller_step s s' \<and> (\<exists>t. callers s t \<noteq> CIdle \<and> callers s' t \<noteq> callers s t))"

lemma work_steps: "jsys_work s s' \<Longrightarrow> jsys_step s s'"
  by (auto simp: jsys_work_def jsys_step_def)

lemma work_no_call: "own_step s s' \<Longrightarrow> callers s' = callers s"
  by (induction rule: own_step.induct)
    (auto simp: jsys_resume_def jsys_proceed_def split: sum.split)

text \<open>No call begins: a thread that is in none stays so.\<close>

lemma work_idle: "jsys_work s s' \<Longrightarrow> callers s u = CIdle \<Longrightarrow> callers s' u = CIdle"
  unfolding jsys_work_def
  by (auto simp: work_no_call elim!: caller_step.cases)
    (auto simp: set_caller_def jsys_proceed_def caller_after_def split: if_splits)

lemma own_works: "own_step s u \<Longrightarrow> jsys_work s u"
  by (simp add: jsys_work_def)

lemma proceed_works: "callers s t = CProceed \<Longrightarrow> jsys_work s (set_caller t CIdle (jsys_proceed s))"
  unfolding jsys_work_def
  by (intro disjI2 conjI caller_step.call_proceed exI [of _ t]) (simp_all add: set_caller_def)

lemma works_inv: "jsys_work\<^sup>*\<^sup>* s t \<Longrightarrow> jsys_inv s \<Longrightarrow> jsys_inv t"
  by (induction rule: rtranclp_induct) (auto intro: journey.inv_step work_steps)

lemma reaches_own: "own_step s u \<Longrightarrow> P u \<Longrightarrow> \<exists>u. jsys_work\<^sup>*\<^sup>* s u \<and> P u"
  using own_works by blast

lemma reaches_proceed:
  "callers s t = CProceed \<Longrightarrow> P (set_caller t CIdle (jsys_proceed s)) \<Longrightarrow> \<exists>u. jsys_work\<^sup>*\<^sup>* s u \<and> P u"
  using proceed_works by blast

lemma wake_from_pend:
  assumes "jsys_inv s" and "pend s \<noteq> 0"
  shows "\<exists>s'. jsys_work s s' \<and> coro s' = Running"
proof -
  from assms have "\<not> deleted s" "exit_at s = NoExit" "coro s = Suspended"
    by (auto simp: jsys_inv_def)
  then have "coro (jsys_resume s) = Running"
    by (simp add: jsys_resume_def coro_resume_def)
  moreover have "jsys_work s (jsys_resume s)"
    using assms(2) by (intro own_works own_step.resume) simp
  ultimately show ?thesis by blast
qed

lemma wake_from_right:
  assumes "jsys_inv s" and "pend s \<noteq> 0 \<or> exit_at s = ExitProceed \<or> owed s \<noteq> {}"
  shows "\<exists>s'. jsys_work\<^sup>*\<^sup>* s s' \<and> coro s' = Running"
proof -
  have "\<exists>u. jsys_work\<^sup>*\<^sup>* s u \<and> pend u \<noteq> 0"
    using assms(2)
  proof (elim disjE)
    assume "pend s \<noteq> 0" then show ?thesis by blast
  next
    assume e: "exit_at s = ExitProceed"
    with assms(1) have "\<not> deleted s" by (auto simp: jsys_inv_def)
    then have "pend (jsys_proceed (s\<lparr>exit_at := NoExit\<rparr>)) \<noteq> 0"
      by (simp add: jsys_proceed_def)
    with own_step.exit_proceed [OF e] show ?thesis by (rule reaches_own)
  next
    assume "owed s \<noteq> {}"
    then obtain t where t: "callers s t = CProceed" by (auto simp: owed_def)
    with assms(1) have "\<not> deleted s"
      by (auto simp: jsys_inv_def active_def owed_iff [symmetric] split: if_splits)
    then have "pend (set_caller t CIdle (jsys_proceed s)) \<noteq> 0"
      by (simp add: jsys_proceed_def)
    then show ?thesis by (rule reaches_proceed [OF t])
  qed
  then obtain u where u: "jsys_work\<^sup>*\<^sup>* s u" "pend u \<noteq> 0" by blast
  from works_inv [OF u(1) assms(1)] u show ?thesis
    using wake_from_pend by (meson rtranclp.rtrancl_into_rtrancl)
qed

lemma exit_to_right:
  assumes e: "exit_at s = ExitLoop prev" and m: "mayProceed (jword s)"
  shows "\<exists>u. jsys_work\<^sup>*\<^sup>* s u \<and> exit_at u = ExitProceed"
proof (cases "mayProceed prev")
  case True
  then have "resetEntered_plan prev = Leave True" by (simp add: resetEntered_plan_def)
  from own_step.exit_leave [OF e this] show ?thesis by (rule reaches_own) simp
next
  case False
  then obtain w r where "resetEntered_plan prev = Swap w r"
    by (simp add: resetEntered_plan_def)
  from own_step.exit_retry [OF e this]
  have 1: "jsys_work s (s\<lparr>exit_at := ExitLoop (jword s)\<rparr>)" by (rule own_works)
  have "resetEntered_plan (jword s) = Leave True" using m by (simp add: resetEntered_plan_def)
  then have "own_step (s\<lparr>exit_at := ExitLoop (jword s)\<rparr>) (s\<lparr>exit_at := ExitProceed\<rparr>)"
    using own_step.exit_leave [of "s\<lparr>exit_at := ExitLoop (jword s)\<rparr>"] by simp
  then have "jsys_work (s\<lparr>exit_at := ExitLoop (jword s)\<rparr>) (s\<lparr>exit_at := ExitProceed\<rparr>)"
    by (rule own_works)
  with 1 have "jsys_work\<^sup>*\<^sup>* s (s\<lparr>exit_at := ExitProceed\<rparr>)"
    by (meson converse_rtranclp_into_rtranclp r_into_rtranclp)
  then show ?thesis by force
qed

lemma wake_up:
  assumes inv: "jsys_inv s" and "coro s = Suspended" and m: "mayProceed (jword s)"
  shows "\<exists>s'. jsys_work\<^sup>*\<^sup>* s s' \<and> coro s' = Running"
proof (cases "exit_at s")
  case NoExit
  with assms have "pend s \<noteq> 0 \<or> owed s \<noteq> {}"
    by (auto simp: jsys_inv_def active_def split: if_splits)
  with inv wake_from_right show ?thesis by blast
next
  case ExitProceed
  with inv wake_from_right show ?thesis by blast
next
  case (ExitLoop prev)
  from exit_to_right [OF this m] obtain u where "jsys_work\<^sup>*\<^sup>* s u" "exit_at u = ExitProceed"
    by blast
  with works_inv [OF _ inv] wake_from_right show ?thesis
    by (meson rtranclp_trans)
next
  case ExitLoad
  let ?t = "s\<lparr>exit_at := ExitLoop (jword s)\<rparr>"
  have 1: "jsys_work s ?t" using own_step.exit_load [OF ExitLoad] by (rule own_works)
  have "jsys_inv ?t" by (rule journey.inv_step [OF inv work_steps [OF 1]])
  moreover from exit_to_right [of ?t "jword s"] m obtain u
    where u: "jsys_work\<^sup>*\<^sup>* ?t u" "exit_at u = ExitProceed" by auto
  ultimately have "\<exists>s'. jsys_work\<^sup>*\<^sup>* u s' \<and> coro s' = Running"
    using works_inv [OF u(1)] wake_from_right u(2) by blast
  with 1 u show ?thesis
    by (meson converse_rtranclp_into_rtranclp rtranclp_trans)
qed

section \<open>Waiting\<close>

text \<open>
  The waits of \<open>Journey\<close>, with what the other threads do during \<open>suspend()\<close> as a function
  of the word: from the word when the coroutine yields to the word when it is resumed.
\<close>

type_synonym suspension = "jstate \<Rightarrow> jstate"

definition journey_waitForDone :: "suspension \<Rightarrow> jstate \<Rightarrow> unit outcome \<times> jstate" where
  "journey_waitForDone suspend w =
     js_handleEvents (if js_isDone w then w else suspend w)"

definition journey_reschedule :: "suspension \<Rightarrow> jstate \<Rightarrow> unit outcome \<times> jstate" where
  "journey_reschedule suspend w = js_handleEvents (suspend (snd (js_done w)))"

text \<open>
  \<open>EventsGuard\<close> and \<open>DtorEventsGuard\<close> around a body: the first checks for events when it
  closes, the second only enables them again.
\<close>

definition with_EventsGuard ::
  "(jstate \<Rightarrow> jstate) \<Rightarrow> jstate \<Rightarrow> unit outcome \<times> jstate" where
  "with_EventsGuard body w =
     (let (wasEnabled, w1) = js_disableEvents w; w2 = body w1
      in if wasEnabled then js_enableEventsAndCheck w2 else (Inr (), w2))"

definition with_DtorEventsGuard ::
  "(jstate \<Rightarrow> 'a \<times> jstate) \<Rightarrow> jstate \<Rightarrow> 'a \<times> jstate" where
  "with_DtorEventsGuard body w =
     (let (wasEnabled, w1) = js_disableEvents w; (r, w2) = body w1
      in (r, if wasEnabled then js_enableEvents w2 else w2))"

text \<open>
  \<open>waitForDoneAlways\<close> suspends a second time, with events off and the children
  cancelled, when it was woken by an event; \<open>suspend2\<close> includes the cancellation.
\<close>

definition journey_waitForDoneAlways ::
  "suspension \<Rightarrow> suspension \<Rightarrow> jstate \<Rightarrow> unit outcome \<times> jstate" where
  "journey_waitForDoneAlways suspend1 suspend2 w =
     (let w1 = (if js_isDone w then w
                else let w' = suspend1 w
                     in if js_isDone w' then w'
                        else snd (with_DtorEventsGuard (\<lambda>v. ((), suspend2 v)) w'))
      in js_handleEvents w1)"

definition journey_waitForDoneAlwaysGuarded ::
  "suspension \<Rightarrow> jstate \<Rightarrow> unit outcome \<times> jstate" where
  "journey_waitForDoneAlwaysGuarded suspend w =
     with_DtorEventsGuard
       (\<lambda>v. js_handleEvents (if js_isDone v then v else suspend v)) w"

lemma handleEvents_outcome:
  "mayProceed w \<Longrightarrow>
     fst (js_handleEvents w) =
       (if enabled w \<and> cancelled w then Inl CancelledEvent
        else if enabled w \<and> timedout w then Inl TimedoutEvent else Inr ())
     \<and> \<not> mayProceed (snd (js_handleEvents w))"
  by (auto simp: js_handleEvents_def js_bits)

lemma enableEventsAndCheck_outcome:
  "fst (js_enableEventsAndCheck w) =
     (if cancelled w then Inl CancelledEvent else if timedout w then Inl TimedoutEvent else Inr ())"
  by (simp add: js_enableEventsAndCheck_def setFlags0_def handleRaiseEvents_def js_bits
      bit.conj_disj_distrib2)

section \<open>What a journey promises\<close>

text \<open>The state after \<open>Journey::start\<close>, and after the scheduler ran it and \<open>done\<close> came.\<close>

definition jsys_first :: jsys where
  "jsys_first = \<lparr>jword = js_initial, coro = Suspended, pend = 1, exit_at = NoExit,
     own_at = OUser, callers = (\<lambda>t. CIdle), deleted = False, failed = False\<rparr>"

lemma jsys_first_start: "jsys_start jsys_first"
  by (simp add: jsys_start_def jsys_first_def)

lemma jsys_first_resumed: "jsys_step\<^sup>*\<^sup>* jsys_first (jsys_resume jsys_first)"
  by (intro r_into_rtranclp) (simp add: jsys_step_def own_step.resume jsys_first_def)

lemma jsys_first_done:
  "jsys_step\<^sup>*\<^sup>* jsys_first (set_caller 7 CIdle (jsys_first\<lparr>jword := snd (js_done js_initial)\<rparr>))"
proof -
  have "js_done (jword jsys_first) = (False, snd (js_done js_initial))"
    by (intro prod_eqI) (simp_all add: jsys_first_def js_bits)
  moreover have "callers jsys_first 7 = CIdle" by (simp add: jsys_first_def)
  ultimately show ?thesis
    using caller_step.call_done [of jsys_first 7] by (fastforce simp: jsys_step_def caller_after_def)
qed

text \<open>C21: However the threads that wake, cancel, time out and run a journey interleave, one
  access to its word at a time, the journey is scheduled at most once at a time, it never
  runs on two threads, is never resumed while the previous \<open>proceed0\<close> still leaves, and is
  never touched after \<open>delete this\<close>.\<close>

theorem journey_runs_alone:
  assumes "jsys_start s0" and "jsys_step\<^sup>*\<^sup>* s0 s"
  shows "\<not> failed s \<and> pend s \<le> 1 \<and>
    (coro s \<noteq> Suspended \<longrightarrow> pend s = 0 \<and> exit_at s = NoExit \<and> (\<forall>t. callers s t \<noteq> CProceed))"
  using journey.inv_reachable [OF assms]
  by (auto simp: jsys_inv_def active_def owed_def split: if_splits)

lemma journey_runs_alone_witness:
  "\<not> failed (jsys_resume jsys_first) \<and> pend (jsys_resume jsys_first) = 0 \<and>
   exit_at (jsys_resume jsys_first) = NoExit \<and> callers (jsys_resume jsys_first) 1 \<noteq> CProceed"
proof -
  have "coro (jsys_resume jsys_first) \<noteq> Suspended"
    by (simp add: jsys_resume_def jsys_first_def coro_resume_def)
  with journey_runs_alone [OF jsys_first_start jsys_first_resumed] show ?thesis by blast
qed

text \<open>C22: No wake-up is lost: whenever a journey is suspended and its word says that it may
  proceed (done, or an event while events are on), the threads that are already at work bring
  it back to running without any further call: there is a run to \<open>Running\<close> in which the
  scheduler, the thread that leaves \<open>proceed0\<close> and calls that have begun make all the steps, and
  no thread begins a call.\<close>

theorem journey_wakes_up:
  assumes "jsys_start s0" and "jsys_step\<^sup>*\<^sup>* s0 s"
    and "coro s = Suspended" and "mayProceed (jword s)"
  shows "\<exists>s'. jsys_work\<^sup>*\<^sup>* s s' \<and> coro s' = Running"
  using wake_up [OF journey.inv_reachable [OF assms(1,2)] assms(3,4)] .

lemma journey_wakes_up_witness:
  "\<exists>s'. jsys_work\<^sup>*\<^sup>* (set_caller 7 CIdle (jsys_first\<lparr>jword := snd (js_done js_initial)\<rparr>)) s' \<and>
     coro s' = Running"
  by (rule journey_wakes_up [OF jsys_first_start jsys_first_done])
    (simp_all add: jsys_first_def js_bits)

text \<open>\<open>waitForDone\<close> returns normally exactly when it was woken by \<open>done\<close> and no event
  that it may see is pending, throws the cancellation before the timeout otherwise, never
  fails its own \<open>VERIFY\<close>, and leaves no flag behind that would let a later wait pass.\<close>

theorem waitForDone_outcome:
  assumes "v = (if js_isDone w then w else suspend w)" and "mayProceed v"
  shows "fst (journey_waitForDone suspend w) =
      (if enabled v \<and> cancelled v then Inl CancelledEvent
       else if enabled v \<and> timedout v then Inl TimedoutEvent else Inr ()) \<and>
    \<not> mayProceed (snd (journey_waitForDone suspend w))"
  using handleEvents_outcome [OF assms(2)] assms(1)
  by (simp_all add: journey_waitForDone_def)

lemma waitForDone_outcome_witness:
  "fst (journey_waitForDone (\<lambda>w. snd (js_timedout (snd (js_cancel w)))) js_initial) = Inl CancelledEvent"
  using waitForDone_outcome [OF refl, of js_initial "\<lambda>w. snd (js_timedout (snd (js_cancel w)))"]
  by (simp add: js_bits)

end
