(* ===== verification/Oers.thy ===== *)
theory Oers
  imports Journey
begin

text \<open>
  The handles on a journey that other code keeps (\<open>src/oers.cpp\<close>): \<open>Doer\<close> wakes it,
  \<open>Goer\<close> raises events on it, and \<open>DetachableDoer\<close> wakes it only if it still waits for
  the same thing. Also the queue of \<open>include/synca/common.h\<close> in which mutexes and
  channels keep such handles, and the loop with which both look for one that is live.

  \<open>words\<close> gives the word of every journey; an operation that calls \<open>proceed()\<close> on
  journeys returns them in a list.
\<close>

section \<open>Doer and Goer\<close>

type_synonym words = "nat \<Rightarrow> jstate"

definition on_journey :: "(jstate \<Rightarrow> bool \<times> jstate) \<Rightarrow> nat \<Rightarrow> words \<Rightarrow> nat list \<times> words" where
  "on_journey operation j ws =
     (let (proceeds, w) = operation (ws j) in (if proceeds then [j] else [], ws(j := w)))"

definition doer_done :: "nat \<Rightarrow> words \<Rightarrow> nat list \<times> words" where
  "doer_done j ws = on_journey js_done j ws"

text \<open>A default-constructed \<open>Goer\<close> has no journey and does nothing.\<close>

definition goer_cancel :: "nat option \<Rightarrow> words \<Rightarrow> nat list \<times> words" where
  "goer_cancel g ws = (case g of None \<Rightarrow> ([], ws) | Some j \<Rightarrow> on_journey js_cancel j ws)"

definition goer_timedout :: "nat option \<Rightarrow> words \<Rightarrow> nat list \<times> words" where
  "goer_timedout g ws = (case g of None \<Rightarrow> ([], ws) | Some j \<Rightarrow> on_journey js_timedout j ws)"

section \<open>DetachableDoer\<close>

record detachable_doer =
  dd_state :: nat
  dd_counter :: jstate
  dd_eventsEnabled :: bool

definition dd_make :: "nat \<Rightarrow> words \<Rightarrow> detachable_doer" where
  "dd_make j ws = \<lparr>dd_state = j, dd_counter = js_counter (ws j),
                    dd_eventsEnabled = js_isEventsEnabled (ws j)\<rparr>"

definition dd_acquire :: "detachable_doer \<Rightarrow> words \<Rightarrow> bool \<times> words" where
  "dd_acquire d ws =
     (let (ok, w) = js_acquire (dd_counter d) (dd_eventsEnabled d) (ws (dd_state d))
      in (ok, ws(dd_state d := w)))"

definition dd_releaseAndDone :: "detachable_doer \<Rightarrow> words \<Rightarrow> nat list \<times> words" where
  "dd_releaseAndDone d ws =
     on_journey (js_releaseAndDone (dd_eventsEnabled d)) (dd_state d) ws"

definition dd_done :: "detachable_doer \<Rightarrow> words \<Rightarrow> nat list \<times> words" where
  "dd_done d ws =
     (case dd_acquire d ws of
        (True, ws') \<Rightarrow> dd_releaseAndDone d ws'
      | (False, ws') \<Rightarrow> ([], ws'))"

definition dd_live :: "detachable_doer \<Rightarrow> words \<Rightarrow> bool" where
  "dd_live d ws \<longleftrightarrow> \<not> dd_eventsEnabled d \<or> dd_counter d = js_counter (ws (dd_state d))"

lemma dd_acquire_live: "fst (dd_acquire d ws) = dd_live d ws"
  by (simp add: dd_acquire_def dd_live_def js_bits split_beta)

lemma dd_acquire_dead: "\<not> dd_live d ws \<Longrightarrow> snd (dd_acquire d ws) = ws"
  by (auto simp: dd_acquire_def dd_live_def js_acquire_def cas_atomic_def acquire_plan_def
      js_counter_def Let_def)

lemma dd_acquire_bits:
  "bit (snd (dd_acquire d ws) j) n \<longleftrightarrow>
     bit (ws j) n \<and> \<not> (n = 1 \<and> j = dd_state d \<and> dd_eventsEnabled d \<and> dd_live d ws)"
  by (auto simp: dd_acquire_def dd_live_def js_bits split_beta)

lemma dd_release_bits:
  "bit (snd (dd_releaseAndDone d ws) j) n \<longleftrightarrow>
     bit (ws j) n \<or> j = dd_state d \<and> (n = 0 \<or> n = 2 \<or> dd_eventsEnabled d \<and> n = 1)"
  by (auto simp: dd_releaseAndDone_def on_journey_def js_bits split_beta)

lemma dd_make_live: "dd_live (dd_make j ws) ws"
  by (simp add: dd_live_def dd_make_def)

subsection \<open>Events make older doers stale\<close>

datatype jevent = Cancel | Timeout | Detach

fun raise_event :: "jevent \<Rightarrow> jstate \<Rightarrow> jstate" where
  "raise_event Cancel w = snd (js_cancel w)"
| "raise_event Timeout w = snd (js_timedout w)"
| "raise_event Detach w = js_detachDoers w"

lemma raise_event_counter:
  assumes "enabled w"
  shows "js_counter (raise_event e w) = js_counter w + ValueCounter" and "enabled (raise_event e w)"
  using assms by (cases e; simp add: js_bits)+

lemma raise_events_counter:
  assumes "enabled w"
  shows "js_counter (fold raise_event es w) = js_counter w + of_nat (length es) * ValueCounter"
    and "enabled (fold raise_event es w)"
  using assms
  by (induction es arbitrary: w) (simp_all add: raise_event_counter algebra_simps del: One_nat_def)

lemma counter_multiple_nonzero:
  assumes "0 < n" and "n < 2 ^ 27"
  shows "of_nat n * ValueCounter \<noteq> 0"
proof -
  have "unat (of_nat n * ValueCounter) = n * 32 mod 2 ^ 32"
    by (simp add: ValueCounter_def unat_word_ariths unat_of_nat mod_mult_left_eq)
  also have "\<dots> = n * 32" using assms by simp
  finally show ?thesis using assms by auto
qed

lemma counter_multiple_wraps: "of_nat (2 ^ 27) * ValueCounter = 0"
  by (simp add: ValueCounter_def)

section \<open>Looking for a live handle\<close>

text \<open>
  \<open>Mutex::Impl::unlock\<close> and \<open>Channel::put\<close> pop handles until one is acquired. What they
  need of a handle: \<open>acquire\<close> answers whether it is live, and does nothing to the rest
  of the world when it is not.
\<close>

fun first_acquired :: "('d \<Rightarrow> 's \<Rightarrow> bool \<times> 's) \<Rightarrow> 'd list \<Rightarrow> 's \<Rightarrow> 'd option \<times> 'd list \<times> 's" where
  "first_acquired acq [] s = (None, [], s)"
| "first_acquired acq (d # ds) s =
     (case acq d s of
        (True, s') \<Rightarrow> (Some d, ds, s')
      | (False, s') \<Rightarrow> first_acquired acq ds s')"

locale acquirable =
  fixes acq :: "'d \<Rightarrow> 's \<Rightarrow> bool \<times> 's"
    and live :: "'d \<Rightarrow> 's \<Rightarrow> bool"
  assumes acquire_live: "fst (acq d s) = live d s"
    and acquire_dead: "\<not> live d s \<Longrightarrow> snd (acq d s) = s"
begin

lemma acquire_cases:
  "acq d s = (if live d s then (True, snd (acq d s)) else (False, s))"
  using acquire_live [of d s] acquire_dead [of d s] by (cases "acq d s") auto

lemma first_acquired_spec:
  "first_acquired acq ds s =
     (case dropWhile (\<lambda>d. \<not> live d s) ds of
        [] \<Rightarrow> (None, [], s)
      | d # ds' \<Rightarrow> (Some d, ds', snd (acq d s)))"
proof (induction ds)
  case (Cons d ds)
  then show ?case
    using acquire_cases [of d s] by (cases "live d s") (auto split: prod.splits bool.splits)
qed simp

lemma first_acquired_None:
  "first_acquired acq ds s = (None, ds', s') \<Longrightarrow> ds' = [] \<and> s' = s \<and> (\<forall>d \<in> set ds. \<not> live d s)"
  by (auto simp: first_acquired_spec split: list.splits)

lemma first_acquired_Some:
  assumes "first_acquired acq ds s = (Some d, ds', s')"
  shows "live d s" and "s' = snd (acq d s)"
    and "\<exists>dead. ds = dead @ d # ds' \<and> (\<forall>x \<in> set dead. \<not> live x s)"
proof -
  from assms have e: "dropWhile (\<lambda>d. \<not> live d s) ds = d # ds'" and "s' = snd (acq d s)"
    by (auto simp: first_acquired_spec split: list.splits)
  then show "live d s" and "s' = snd (acq d s)"
    using hd_dropWhile [of "\<lambda>d. \<not> live d s" ds] by auto
  have "ds = takeWhile (\<lambda>d. \<not> live d s) ds @ d # ds'"
    by (metis e takeWhile_dropWhile_id)
  then show "\<exists>dead. ds = dead @ d # ds' \<and> (\<forall>x \<in> set dead. \<not> live x s)"
    by (metis set_takeWhileD)
qed

end

interpretation dd: acquirable dd_acquire dd_live
  by unfold_locales (simp_all add: dd_acquire_live dd_acquire_dead)

section \<open>The queue\<close>

text \<open>
  \<open>Queue\<close> over \<open>std::queue\<close>. \<open>pop\<close> on an empty queue reads \<open>front()\<close> of an empty
  container, which has no defined result: \<open>None\<close>.
\<close>

definition q_new :: "'a list" where "q_new = []"

definition q_empty :: "'a list \<Rightarrow> bool" where "q_empty q \<longleftrightarrow> q = []"

definition q_pop :: "'a list \<Rightarrow> ('a \<times> 'a list) option" where
  "q_pop q = (case q of [] \<Rightarrow> None | t # q' \<Rightarrow> Some (t, q'))"

definition q_push :: "'a list \<Rightarrow> 'a \<Rightarrow> 'a list" where
  "q_push q t = q @ [t]"

definition q_swap :: "'a list \<Rightarrow> 'a list \<Rightarrow> 'a list \<times> 'a list" where
  "q_swap q q' = (q', q)"

locale fifo =
  fixes new :: 'q
    and empty :: "'q \<Rightarrow> bool"
    and pop :: "'q \<Rightarrow> ('a \<times> 'q) option"
    and push :: "'q \<Rightarrow> 'a \<Rightarrow> 'q"
    and items :: "'q \<Rightarrow> 'a list"
  assumes items_new: "items new = []"
    and empty_items: "empty q \<longleftrightarrow> items q = []"
    and items_push: "items (push q t) = items q @ [t]"
    and pop_empty: "items q = [] \<Longrightarrow> pop q = None"
    and pop_items: "items q = t # ts \<Longrightarrow> \<exists>q'. pop q = Some (t, q') \<and> items q' = ts"
begin

lemma pop_defined: "\<not> empty q \<Longrightarrow> pop q \<noteq> None"
  using pop_items [of q] empty_items [of q] by (cases "items q") auto

lemma pop_SomeD: "pop q = Some (t, q') \<Longrightarrow> items q = t # items q'"
  using pop_items [of q] pop_empty [of q] by (cases "items q") auto

lemma items_fold_push: "items (fold (\<lambda>t q. push q t) ts q) = items q @ ts"
  by (induction ts arbitrary: q) (simp_all add: items_push)

end

interpretation q: fifo q_new q_empty q_pop q_push "\<lambda>q. q"
  by unfold_locales (auto simp: q_new_def q_empty_def q_pop_def q_push_def)

section \<open>What a detachable doer promises\<close>

text \<open>A detachable doer taken while events are on is stale after any cancellations,
  timeouts and detachments of its journey, up to \<open>2 ^ 27 - 1\<close> of them: \<open>acquire\<close> refuses,
  and changes no word, so a waiter that gave up is never woken for an old wait.\<close>

theorem stale_doer_refused:
  assumes "enabled (ws0 j)" and "ws j = fold raise_event es (ws0 j)"
    and "es \<noteq> []" and "length es < 2 ^ 27"
  shows "dd_acquire (dd_make j ws0) ws = (False, ws)"
proof -
  have "js_counter (ws j) \<noteq> js_counter (ws0 j)"
    using raise_events_counter(1) [OF assms(1), of es] counter_multiple_nonzero [of "length es"] assms(2-4)
    by simp
  then have "\<not> dd_live (dd_make j ws0) ws"
    using assms(1) by (simp add: dd_live_def dd_make_def js_bits)
  then show ?thesis
    by (intro prod_eqI) (simp_all add: dd_acquire_live dd_acquire_dead)
qed

lemma stale_doer_refused_witness:
  "dd_acquire (dd_make 5 (\<lambda>_. js_initial)) ((\<lambda>_. js_initial)(5 := snd (js_cancel js_initial))) =
     (False, (\<lambda>_. js_initial)(5 := snd (js_cancel js_initial)))"
  by (rule stale_doer_refused [where es = "[Cancel]"]) (simp_all add: js_bits)

text \<open>The bound is tight: the counter has 27 bits, so after exactly \<open>2 ^ 27\<close> events the old
  doer is taken for a current one and \<open>acquire\<close> succeeds.\<close>

theorem stale_doer_after_wrap:
  assumes "enabled (ws0 j)" and "ws j = fold raise_event es (ws0 j)" and "length es = 2 ^ 27"
  shows "fst (dd_acquire (dd_make j ws0) ws)"
proof -
  have "js_counter (ws j) = js_counter (ws0 j)"
    using raise_events_counter(1) [OF assms(1), of es] assms(2,3) counter_multiple_wraps by simp
  then show ?thesis by (simp add: dd_acquire_live dd_live_def dd_make_def)
qed

lemma stale_doer_after_wrap_witness:
  "fst (dd_acquire (dd_make 5 (\<lambda>_. js_initial))
     ((\<lambda>_. js_initial)(5 := fold raise_event (replicate (2 ^ 27) Detach) js_initial)))"
  by (rule stale_doer_after_wrap [where es = "replicate (2 ^ 27) Detach"])
    (simp_all only: fun_upd_same length_replicate js_bits simp_thms one_neq_zero refl)

text \<open>A run of events, with the answers whether each called \<open>proceed()\<close>.\<close>

fun raise_all :: "jevent list \<Rightarrow> jstate \<Rightarrow> bool list \<times> jstate" where
  "raise_all [] w = ([], w)"
| "raise_all (e # es) w =
     (let (p, w1) = (case e of Cancel \<Rightarrow> js_cancel w | Timeout \<Rightarrow> js_timedout w
                       | Detach \<Rightarrow> (False, js_detachDoers w));
          (ps, w2) = raise_all es w1
      in (p # ps, w2))"

lemma raise_all_disabled:
  assumes "\<not> enabled w"
  shows "True \<notin> set (fst (raise_all es w)) \<and> \<not> enabled (snd (raise_all es w)) \<and>
     (cancelled (snd (raise_all es w)) \<longleftrightarrow> cancelled w \<or> Cancel \<in> set es) \<and>
     (timedout (snd (raise_all es w)) \<longleftrightarrow> timedout w \<or> Timeout \<in> set es)"
  using assms
proof (induction es arbitrary: w)
  case (Cons e es)
  let ?w1 = "snd (case e of Cancel \<Rightarrow> js_cancel w | Timeout \<Rightarrow> js_timedout w
                       | Detach \<Rightarrow> (False, js_detachDoers w))"
  from Cons.prems have "\<not> enabled ?w1" by (cases e) (simp_all add: js_bits)
  from Cons.IH [OF this] Cons.prems show ?case
    by (cases e) (auto simp: js_bits split_beta)
qed simp

text \<open>Cancellations and timeouts raised between the opening and the closing of a
  \<open>DtorEventsGuard\<close> are neither seen inside it nor lost: none of them schedules the journey
  while the guard is open, and when it closes events are as they were before, and exactly
  the raised flags are pending.\<close>

theorem guard_keeps_events:
  "\<exists>ps w'. with_DtorEventsGuard (raise_all es) w = (ps, w') \<and> True \<notin> set ps \<and>
     enabled w' = enabled w \<and>
     cancelled w' = (cancelled w \<or> Cancel \<in> set es) \<and>
     timedout w' = (timedout w \<or> Timeout \<in> set es)"
proof -
  have "\<not> enabled (snd (js_disableEvents w))" by (simp add: js_bits)
  note raise_all_disabled [OF this, of es]
  then show ?thesis
    by (simp add: with_DtorEventsGuard_def split_beta Let_def js_bits)
qed

end
