(* ===== verification/Mutex.thy ===== *)
theory Mutex
  imports Oers
begin

text \<open>
  The mutex for journeys (\<open>src/mutex.cpp\<close>): a flag and a queue of detachable doers,
  both under a \<open>std::mutex\<close>, so that \<open>lock\<close> up to its wait and \<open>unlock\<close> each are one
  step. The step relation below runs any number of journeys on one mutex, with events
  raised at any time, and with every wait of a journey being a wait for this mutex.
\<close>

section \<open>The operations\<close>

record mutex =
  acquired :: bool
  doers :: "detachable_doer list"

definition mutex_new :: mutex where
  "mutex_new = \<lparr>acquired = False, doers = q_new\<rparr>"

text \<open>\<open>lock\<close> up to \<open>waitForDone\<close>: it returns at once or goes on to wait.\<close>

datatype lock_result = Locked | Waits

definition mutex_lock :: "nat \<Rightarrow> words \<Rightarrow> mutex \<Rightarrow> lock_result \<times> mutex" where
  "mutex_lock j ws m =
     (if \<not> acquired m then (Locked, m\<lparr>acquired := True\<rparr>)
      else (Waits, m\<lparr>doers := q_push (doers m) (dd_make j ws)\<rparr>))"

definition mutex_unlock :: "words \<Rightarrow> mutex \<Rightarrow> nat list \<times> words \<times> mutex" where
  "mutex_unlock ws m =
     (case first_acquired dd_acquire (doers m) ws of
        (Some d, ds, ws') \<Rightarrow>
          (let (proceeds, ws'') = dd_releaseAndDone d ws' in (proceeds, ws'', m\<lparr>doers := ds\<rparr>))
      | (None, ds, ws') \<Rightarrow> ([], ws', m\<lparr>doers := ds, acquired := False\<rparr>))"

lemma mutex_unlock_hand_over:
  assumes "doers m = dead @ d # ds" and "\<forall>x \<in> set dead. \<not> dd_live x ws" and "dd_live d ws"
  shows "mutex_unlock ws m =
      (let (p, ws') = dd_releaseAndDone d (snd (dd_acquire d ws)) in (p, ws', m\<lparr>doers := ds\<rparr>))"
proof -
  have "dropWhile (\<lambda>d. \<not> dd_live d ws) (doers m) = d # ds"
    using assms by (simp add: dropWhile_append)
  then show ?thesis by (simp add: mutex_unlock_def dd.first_acquired_spec)
qed

lemma mutex_unlock_free:
  assumes "\<forall>x \<in> set (doers m). \<not> dd_live x ws"
  shows "mutex_unlock ws m = ([], ws, m\<lparr>doers := [], acquired := False\<rparr>)"
proof -
  have "dropWhile (\<lambda>d. \<not> dd_live d ws) (doers m) = []"
    using assms by (simp add: dropWhile_eq_Nil_conv)
  then have "first_acquired dd_acquire (doers m) ws = (None, [], ws)"
    by (simp only: dd.first_acquired_spec list.case)
  then show ?thesis by (simp add: mutex_unlock_def)
qed

lemma mutex_unlock_cases:
  obtains (free) ds where "mutex_unlock ws m = ([], ws, m\<lparr>doers := ds, acquired := False\<rparr>)"
  | (hand_over) d ds p where "d \<in> set (doers m)" "dd_live d ws"
      "mutex_unlock ws m = (p, snd (dd_releaseAndDone d (snd (dd_acquire d ws))), m\<lparr>doers := ds\<rparr>)"
proof (cases "first_acquired dd_acquire (doers m) ws")
  case (fields dopt ds ws')
  show ?thesis
  proof (cases dopt)
    case None
    with fields dd.first_acquired_None [of "doers m" ws ds ws'] show ?thesis
      by (intro free [of ds]) (simp add: mutex_unlock_def)
  next
    case (Some d)
    with fields dd.first_acquired_Some [of "doers m" ws d ds ws'] show ?thesis
      by (intro hand_over [of d "fst (dd_releaseAndDone d ws')" ds])
        (auto simp: mutex_unlock_def split_beta)
  qed
qed

section \<open>Journeys sharing a mutex\<close>

datatype mmode = MOut | MWait | MIn

record msys =
  mx :: mutex
  ws :: words
  mode :: "nat \<Rightarrow> mmode"

definition msys_start :: "msys \<Rightarrow> bool" where
  "msys_start s \<longleftrightarrow> mx s = mutex_new \<and> (\<forall>j. mode s j = MOut) \<and> (\<forall>j. \<not> is_done (ws s j))"

definition set_mode :: "nat \<Rightarrow> mmode \<Rightarrow> msys \<Rightarrow> msys" where
  "set_mode j md s = s\<lparr>mode := (mode s)(j := md)\<rparr>"

text \<open>
  \<open>wake\<close> is the end of \<open>lock\<close>'s \<open>waitForDone\<close>: the journey runs again when it may proceed,
  and \<open>lock\<close> returns or throws as \<open>handleEvents\<close> does. \<open>elsewhere\<close> is whatever a journey
  does to its own word outside \<open>lock\<close>, as long as it leaves no \<open>done\<close> behind.
\<close>

inductive msys_step :: "msys \<Rightarrow> msys \<Rightarrow> bool" where
  lock: "\<lbrakk>mode s j = MOut; mutex_lock j (ws s) (mx s) = (Locked, m)\<rbrakk> \<Longrightarrow>
     msys_step s (set_mode j MIn (s\<lparr>mx := m\<rparr>))"
| lock_wait: "\<lbrakk>mode s j = MOut; mutex_lock j (ws s) (mx s) = (Waits, m)\<rbrakk> \<Longrightarrow>
     msys_step s (set_mode j MWait (s\<lparr>mx := m\<rparr>))"
| unlock: "\<lbrakk>mode s j = MIn; mutex_unlock (ws s) (mx s) = (p, w, m)\<rbrakk> \<Longrightarrow>
     msys_step s (set_mode j MOut (s\<lparr>mx := m, ws := w\<rparr>))"
| cancel: "msys_step s (s\<lparr>ws := snd (goer_cancel (Some j) (ws s))\<rparr>)"
| timeout: "msys_step s (s\<lparr>ws := snd (goer_timedout (Some j) (ws s))\<rparr>)"
| wake: "\<lbrakk>mode s j = MWait; mayProceed (ws s j); js_handleEvents (ws s j) = (Inr (), w)\<rbrakk> \<Longrightarrow>
     msys_step s (set_mode j MIn (s\<lparr>ws := (ws s)(j := w)\<rparr>))"
| wake_event: "\<lbrakk>mode s j = MWait; mayProceed (ws s j); js_handleEvents (ws s j) = (Inl e, w)\<rbrakk> \<Longrightarrow>
     msys_step s (set_mode j MOut (s\<lparr>ws := (ws s)(j := w)\<rparr>))"
| guards: "\<lbrakk>mode s j \<noteq> MWait; w = js_enableEvents (ws s j) \<or> w = snd (js_disableEvents (ws s j))\<rbrakk> \<Longrightarrow>
     msys_step s (s\<lparr>ws := (ws s)(j := w)\<rparr>)"
| elsewhere: "\<lbrakk>mode s j \<noteq> MWait; \<not> is_done w\<rbrakk> \<Longrightarrow>
     msys_step s (s\<lparr>ws := (ws s)(j := w)\<rparr>)"

text \<open>
  The right to the mutex is in at most one place: with the mutex itself when it is free,
  with the journey inside, or with the journey it was handed to, as its \<open>done\<close> flag.
\<close>

definition inside :: "msys \<Rightarrow> nat set" where "inside s = {j. mode s j = MIn}"

definition granted :: "msys \<Rightarrow> nat set" where "granted s = {j. is_done (ws s j)}"

definition msys_inv :: "msys \<Rightarrow> bool" where
  "msys_inv s \<longleftrightarrow>
     (\<not> acquired (mx s) \<longrightarrow> inside s = {} \<and> granted s = {}) \<and>
     inside s \<inter> granted s = {} \<and>
     (\<forall>a \<in> inside s \<union> granted s. \<forall>b \<in> inside s \<union> granted s. a = b)"

definition msys_lost :: "msys \<Rightarrow> bool" where
  "msys_lost s \<longleftrightarrow> acquired (mx s) \<and> inside s = {} \<and> granted s = {}"

lemma inside_iff: "j \<in> inside s \<longleftrightarrow> mode s j = MIn"
  by (simp add: inside_def)

lemma set_mode_simps [simp]:
  "mx (set_mode j md s) = mx s"
  "ws (set_mode j md s) = ws s"
  "granted (set_mode j md s) = granted s"
  "inside (set_mode j md s) = (if md = MIn then insert j (inside s) else inside s - {j})"
  by (auto simp: set_mode_def granted_def inside_def)

lemma inside_simps [simp]:
  "inside (s\<lparr>mx := m\<rparr>) = inside s"
  "inside (s\<lparr>ws := w\<rparr>) = inside s"
  "granted (s\<lparr>mx := m\<rparr>) = granted s"
  by (simp_all add: inside_def granted_def)

lemma granted_event [simp]:
  "granted (s\<lparr>ws := snd (goer_cancel (Some j) (ws s))\<rparr>) = granted s"
  "granted (s\<lparr>ws := snd (goer_timedout (Some j) (ws s))\<rparr>) = granted s"
  by (auto simp: granted_def goer_cancel_def goer_timedout_def on_journey_def js_bits split_beta)

lemma granted_upd: "granted (s\<lparr>ws := (ws s)(j := w)\<rparr>) =
    (if is_done w then insert j (granted s) else granted s - {j})"
  by (auto simp: granted_def)

lemma granted_handle:
  assumes "js_handleEvents (ws s j) = (r, w)" and "mayProceed (ws s j)"
  shows "granted (s\<lparr>ws := (ws s)(j := w)\<rparr>) = granted s - {j}"
    and "r = Inr () \<Longrightarrow> j \<in> granted s"
proof -
  have w: "w = snd (handleEvents_on (ws s j) (ws s j))" and r: "r = fst (handleEvents_on (ws s j) (ws s j))"
    using assms(1) by (simp_all add: js_handleEvents_def)
  from assms(2) have "\<not> is_done w" by (auto simp: w js_bits)
  then show "granted (s\<lparr>ws := (ws s)(j := w)\<rparr>) = granted s - {j}"
    by (simp add: granted_upd)
  show "r = Inr () \<Longrightarrow> j \<in> granted s"
    by (auto simp: r granted_def js_bits split: if_splits)
qed

lemma granted_hand_over:
  "granted (s\<lparr>ws := snd (dd_releaseAndDone d (snd (dd_acquire d (ws s))))\<rparr>) =
     insert (dd_state d) (granted s)"
  by (auto simp: granted_def dd_release_bits dd_acquire_bits)

lemma only_holder:
  assumes "A \<inter> G = {}" and one: "\<forall>a \<in> A \<union> G. \<forall>b \<in> A \<union> G. a = b" and "j \<in> A"
  shows "A = {j}" and "G = {}"
proof -
  from \<open>j \<in> A\<close> one have "x = j" if "x \<in> A \<union> G" for x using that by (meson UnI1)
  with assms show "A = {j}" and "G = {}" by blast+
qed

lemma msys_step_inv: "msys_step s t \<Longrightarrow> msys_inv s \<Longrightarrow> msys_inv t"
proof (induction rule: msys_step.induct)
  case (unlock s j p w m)
  then have "j \<in> inside s" by (simp add: inside_iff)
  with unlock(3) have only: "inside s = {j}" "granted s = {}"
    using only_holder [of "inside s" "granted s" j] by (simp_all add: msys_inv_def)
  show ?case
  proof (cases "ws s" "mx s" rule: mutex_unlock_cases)
    case (free ds)
    with unlock(2) have "w = ws s" "\<not> acquired m" by auto
    with only show ?thesis by (auto simp: msys_inv_def granted_def)
  next
    case (hand_over d ds p')
    with unlock(2) have "w = snd (dd_releaseAndDone d (snd (dd_acquire d (ws s))))"
      and "acquired m = acquired (mx s)" by auto
    with only unlock(3) granted_hand_over [where s = "s\<lparr>mx := m\<rparr>" and d = d] show ?thesis
      by (auto simp: msys_inv_def)
  qed
next
  case (wake s j w)
  from granted_handle [OF wake(3,2)] have "j \<in> granted s" 
    and "granted (s\<lparr>ws := (ws s)(j := w)\<rparr>) = granted s - {j}" by simp_all
  with wake(4) show ?case by (auto simp: msys_inv_def)
next
  case (wake_event s j e w)
  from granted_handle(1) [OF wake_event(3,2)] wake_event(4) show ?case
    by (auto simp: msys_inv_def)
next
  case (guards s j w)
  then have "granted (s\<lparr>ws := (ws s)(j := w)\<rparr>) = granted s"
    by (auto simp: granted_def js_bits)
  with guards show ?case by (simp add: msys_inv_def)
next
  case (elsewhere s j w)
  then show ?case by (auto simp: msys_inv_def granted_upd)
qed (auto simp: msys_inv_def mutex_lock_def split: if_splits)

interpretation mutex: step_system msys_start msys_step msys_inv
proof unfold_locales
  show "msys_start s \<Longrightarrow> msys_inv s" for s
    by (auto simp: msys_start_def msys_inv_def inside_def granted_def)
qed (rule msys_step_inv)

text \<open>Once nobody has the right, nobody gets it again.\<close>

lemma msys_lost_step: "msys_step s t \<Longrightarrow> msys_lost s \<Longrightarrow> msys_lost t"
proof (induction rule: msys_step.induct)
  case (wake s j w)
  from granted_handle(2) [OF wake(3,2)] wake(4) show ?case by (auto simp: msys_lost_def)
next
  case (wake_event s j e w)
  from granted_handle(1) [OF wake_event(3,2)] wake_event(4) show ?case
    by (auto simp: msys_lost_def)
next
  case (guards s j w)
  then have "granted (s\<lparr>ws := (ws s)(j := w)\<rparr>) = granted s"
    by (auto simp: granted_def js_bits)
  with guards show ?case by (simp add: msys_lost_def)
next
  case (elsewhere s j w)
  then show ?case by (auto simp: msys_lost_def granted_upd)
next
  case (unlock s j p w m)
  then show ?case by (auto simp: msys_lost_def inside_def)
qed (auto simp: msys_lost_def mutex_lock_def split: if_splits)

interpretation mutex_lost: step_system msys_lost msys_step msys_lost
  by unfold_locales (auto intro: msys_lost_step)

section \<open>What a client gets\<close>

lemma lost_on_cancel:
  assumes inv: "msys_inv s" and wait: "mode s j = MWait"
    and granted: "is_done (ws s j)" and events: "enabled (ws s j)"
  shows "\<exists>t. msys_step\<^sup>*\<^sup>* s t \<and> msys_lost t"
proof -
  let ?u = "s\<lparr>ws := snd (goer_cancel (Some j) (ws s))\<rparr>"
  have u: "ws ?u j = snd (js_cancel (ws s j))"
    by (simp add: goer_cancel_def on_journey_def split_beta)
  have "fst (js_handleEvents (ws ?u j)) = Inl CancelledEvent" and may: "mayProceed (ws ?u j)"
    unfolding u using granted events by (auto simp: js_handleEvents_def js_bits)
  then obtain w where w: "js_handleEvents (ws ?u j) = (Inl CancelledEvent, w)"
    by (metis prod.collapse)
  let ?t = "set_mode j MOut (?u\<lparr>ws := (ws ?u)(j := w)\<rparr>)"
  have "msys_step s ?u" by (rule msys_step.cancel)
  moreover have "msys_step ?u ?t"
    by (rule msys_step.wake_event [OF _ may w]) (simp add: wait)
  ultimately have steps: "msys_step\<^sup>*\<^sup>* s ?t"
    by (meson converse_rtranclp_into_rtranclp r_into_rtranclp)
  have g: "j \<in> granted s" using granted by (simp add: granted_def)
  have "granted s = {j}" and "inside s = {}"
    using only_holder [of "granted s" "inside s" j] inv g by (auto simp: msys_inv_def Un_commute)
  moreover have "acquired (mx s)"
    using inv g by (auto simp: msys_inv_def)
  ultimately have "msys_lost ?t"
    using granted_handle(1) [OF w may] by (simp add: msys_lost_def)
  with steps show ?thesis by blast
qed

lemma lost_forever:
  assumes "msys_lost t" and "msys_step\<^sup>*\<^sup>* t u"
  shows "mode u i \<noteq> MIn"
  using mutex_lost.inv_reachable [OF assms] inside_iff [of i u] by (simp add: msys_lost_def)

text \<open>A run to use the theorems on: 1 locks, 2 waits, 1 unlocks and so hands over to 2.\<close>

lemma hand_over_run:
  shows "\<exists>s0 s. msys_start s0 \<and> msys_step\<^sup>*\<^sup>* s0 s \<and>
    mode s 2 = MWait \<and> is_done (ws s 2) \<and> enabled (ws s 2)"
proof -
  let ?w = "\<lambda>_ :: nat. js_initial"
  let ?s0 = "\<lparr>mx = mutex_new, ws = ?w, mode = \<lambda>_. MOut\<rparr>"
  let ?d = "dd_make 2 ?w"
  let ?m1 = "\<lparr>acquired = True, doers = []\<rparr>" and ?m2 = "\<lparr>acquired = True, doers = [?d]\<rparr>"
  let ?s1 = "set_mode 1 MIn (?s0\<lparr>mx := ?m1\<rparr>)"
  let ?s2 = "set_mode 2 MWait (?s1\<lparr>mx := ?m2\<rparr>)"
  have 1: "msys_step ?s0 ?s1"
    by (rule msys_step.lock) (simp_all add: mutex_lock_def mutex_new_def q_new_def)
  have 2: "msys_step ?s1 ?s2"
    by (rule msys_step.lock_wait) (simp_all add: set_mode_def mutex_lock_def q_push_def)
  obtain p w where w: "dd_releaseAndDone ?d (snd (dd_acquire ?d ?w)) = (p, w)" by fastforce
  let ?s3 = "set_mode 1 MOut (?s2\<lparr>mx := ?m2\<lparr>doers := []\<rparr>, ws := w\<rparr>)"
  have "mutex_unlock ?w ?m2 = (p, w, ?m2\<lparr>doers := []\<rparr>)"
    using mutex_unlock_hand_over [of ?m2 "[]" ?d "[]" ?w] dd_make_live [of 2 ?w] w by simp
  then have "msys_step ?s2 ?s3"
    by (intro msys_step.unlock) (simp_all add: set_mode_def)
  with 1 2 have "msys_step\<^sup>*\<^sup>* ?s0 ?s3"
    by (meson converse_rtranclp_into_rtranclp r_into_rtranclp)
  moreover have "bit (w 2) n \<longleftrightarrow> n = 0 \<or> n = 2 \<or> n = 1" for n
  proof -
    have "w = snd (dd_releaseAndDone ?d (snd (dd_acquire ?d ?w)))" using w by simp
    moreover have "dd_state ?d = 2" and "dd_eventsEnabled ?d"
      by (simp_all add: dd_make_def js_bits)
    ultimately show ?thesis
      using dd_make_live [of 2 ?w] by (auto simp: dd_release_bits dd_acquire_bits js_initial_bits)
  qed
  ultimately show ?thesis
    by (intro exI [of _ ?s0] exI [of _ ?s3])
      (simp add: msys_start_def js_bits set_mode_def)
qed

text \<open>C24: Mutual exclusion: however journeys lock, unlock, wait, are cancelled and are timed
  out, at most one of them is past \<open>lock\<close> and before its \<open>unlock\<close>, and while one is there
  the mutex is acquired and no waiting journey holds a grant.\<close>

theorem mutex_mutual_exclusion:
  assumes "msys_start s0" and "msys_step\<^sup>*\<^sup>* s0 s" and "mode s i = MIn"
  shows "acquired (mx s) \<and> (\<forall>j. mode s j = MIn \<longrightarrow> j = i) \<and> (\<forall>j. \<not> is_done (ws s j))"
proof -
  from mutex.inv_reachable [OF assms(1,2)] have inv: "msys_inv s" .
  with assms(3) have "inside s = {i}" and "granted s = {}"
    using only_holder [of "inside s" "granted s" i] by (simp_all add: msys_inv_def inside_iff)
  then show ?thesis
    using inv by (auto simp: msys_inv_def inside_def granted_def)
qed

lemma mutex_mutual_exclusion_witness:
  "\<exists>s :: msys. mode s 1 = MIn \<and> acquired (mx s) \<and> (\<forall>j. mode s j = MIn \<longrightarrow> j = 1)"
proof -
  let ?init = "\<lparr>mx = mutex_new, ws = \<lambda>_. js_initial, mode = \<lambda>_. MOut\<rparr>"
  let ?s = "set_mode 1 MIn (?init\<lparr>mx := \<lparr>acquired = True, doers = []\<rparr>\<rparr>)"
  have start: "msys_start ?init" by (simp add: msys_start_def js_bits)
  have "msys_step ?init ?s"
    by (rule msys_step.lock) (simp_all add: mutex_lock_def mutex_new_def q_new_def)
  then have steps: "msys_step\<^sup>*\<^sup>* ?init ?s" by (rule r_into_rtranclp)
  have md: "mode ?s 1 = MIn" by (simp add: set_mode_def)
  from mutex_mutual_exclusion [OF start steps md] md show ?thesis by blast
qed

text \<open>\<open>unlock\<close> serves the waiters in order: it drops the waiters at the front that gave
  up, hands the mutex (still acquired) to the first that waits, setting its \<open>done\<close> flag and
  scheduling it unless it is scheduled already, and touches the word of no other journey.\<close>

theorem mutex_unlock_in_order:
  assumes "doers m = dead @ d # rest" and "\<forall>x \<in> set dead. \<not> dd_live x wds" and "dd_live d wds"
  shows "\<exists>w. mutex_unlock wds m =
      (if entered (wds (dd_state d)) then [] else [dd_state d], wds(dd_state d := w), m\<lparr>doers := rest\<rparr>) \<and>
      is_done w \<and> entered w"
proof -
  let ?j = "dd_state d"
  let ?w = "snd (js_releaseAndDone (dd_eventsEnabled d) (snd (dd_acquire d wds) ?j))"
  have a: "snd (dd_acquire d wds) = wds(?j := snd (dd_acquire d wds) ?j)"
    by (simp add: dd_acquire_def split_beta)
  have "entered (snd (dd_acquire d wds) ?j) = entered (wds ?j)"
    by (simp add: dd_acquire_bits)
  then have "dd_releaseAndDone d (snd (dd_acquire d wds)) =
      (if entered (wds ?j) then [] else [?j], wds(?j := ?w))"
    by (simp add: dd_releaseAndDone_def on_journey_def split_beta js_bits)
      (metis a fun_upd_upd)
  then show ?thesis
    using mutex_unlock_hand_over [OF assms] by (intro exI [of _ ?w]) (simp add: js_bits)
qed

lemma mutex_unlock_in_order_witness:
  "\<exists>w. mutex_unlock ((\<lambda>_. js_initial)(5 := snd (js_cancel js_initial)))
      \<lparr>acquired = True, doers = [dd_make 5 (\<lambda>_. js_initial), dd_make 6 (\<lambda>_. js_initial)]\<rparr> =
     ([], ((\<lambda>_. js_initial)(5 := snd (js_cancel js_initial)))(6 := w), \<lparr>acquired = True, doers = []\<rparr>) \<and>
     is_done w \<and> entered w"
proof -
  have "\<not> dd_live (dd_make 5 (\<lambda>_. js_initial)) ((\<lambda>_. js_initial)(5 := snd (js_cancel js_initial)))"
    by (simp add: dd_live_def dd_make_def js_bits) (simp add: ValueCounter_def)
  moreover have "dd_live (dd_make 6 (\<lambda>_. js_initial)) ((\<lambda>_. js_initial)(5 := snd (js_cancel js_initial)))"
    by (simp add: dd_live_def dd_make_def)
  ultimately show ?thesis
    using mutex_unlock_in_order [of "\<lparr>acquired = True, doers = [dd_make 5 (\<lambda>_. js_initial), dd_make 6 (\<lambda>_. js_initial)]\<rparr>"
        "[dd_make 5 (\<lambda>_. js_initial)]" "dd_make 6 (\<lambda>_. js_initial)" "[]"
        "(\<lambda>_. js_initial)(5 := snd (js_cancel js_initial))"]
    by (simp add: dd_make_def js_initial_bits)
qed

text \<open>A mutex is lost when the journey it was handed to is cancelled before it runs again:
  \<open>handleEvents\<close> throws although the journey was given the mutex, so \<open>lock\<close> never returns
  and nobody unlocks. From there on no journey ever gets past \<open>lock\<close>.\<close>

theorem mutex_lost_on_cancel:
  assumes "msys_start s0" and "msys_step\<^sup>*\<^sup>* s0 s"
    and "mode s j = MWait" and "is_done (ws s j)" and "enabled (ws s j)"
  shows "\<exists>t. msys_step\<^sup>*\<^sup>* s t \<and> (\<forall>u. msys_step\<^sup>*\<^sup>* t u \<longrightarrow> (\<forall>i. mode u i \<noteq> MIn))"
  using lost_on_cancel [OF mutex.inv_reachable [OF assms(1,2)] assms(3-5)] lost_forever by blast

lemma mutex_lost_on_cancel_witness:
  "\<exists>s0 t. msys_start s0 \<and> msys_step\<^sup>*\<^sup>* s0 t \<and>
     (\<forall>u. msys_step\<^sup>*\<^sup>* t u \<longrightarrow> (\<forall>i. mode u i \<noteq> MIn))"
proof -
  from hand_over_run obtain s0 s where r: "msys_start s0" "msys_step\<^sup>*\<^sup>* s0 s"
    "mode s 2 = MWait" "is_done (ws s 2)" "enabled (ws s 2)" by blast
  from mutex_lost_on_cancel [OF this] r(1,2) show ?thesis by (meson rtranclp_trans)
qed

end
