(* ===== verification/Channel.thy ===== *)
theory Channel
  imports Oers
begin

text \<open>
  The channel between journeys (\<open>include/synca/channel.h\<close>): a queue of values and a queue
  of waiting getters, under one \<open>std::mutex\<close>. A waiting \<open>get\<close> keeps its result in two
  variables of its frame, \<open>val\<close> and \<open>wasSet\<close>, which the waiter points to: \<open>frames\<close> maps a
  frame to the value it was given, \<open>None\<close> while \<open>wasSet\<close> is false.
\<close>

section \<open>The operations\<close>

record waiter =
  w_frame :: nat
  w_doer :: detachable_doer

record 'a channel =
  queue :: "'a list"
  waiters :: "waiter list"
  closed :: bool

definition channel_new :: "'a channel" where
  "channel_new = \<lparr>queue = q_new, waiters = q_new, closed = False\<rparr>"

type_synonym 'a frames = "nat \<rightharpoonup> 'a"

definition waiter_acquire :: "waiter \<Rightarrow> words \<Rightarrow> bool \<times> words" where
  "waiter_acquire w ws = dd_acquire (w_doer w) ws"

definition waiter_set :: "waiter \<Rightarrow> 'a \<Rightarrow> words \<times> 'a frames \<Rightarrow> nat list \<times> words \<times> 'a frames" where
  "waiter_set w v state =
     (let (ws, fr) = state; (proceeds, ws') = dd_releaseAndDone (w_doer w) ws
      in (proceeds, ws', fr(w_frame w \<mapsto> v)))"

definition waiter_reset :: "waiter \<Rightarrow> words \<Rightarrow> nat list \<times> words" where
  "waiter_reset w ws = dd_done (w_doer w) ws"

definition channel_put ::
  "'a \<Rightarrow> words \<times> 'a frames \<Rightarrow> 'a channel \<Rightarrow>
     unit outcome \<times> nat list \<times> (words \<times> 'a frames) \<times> 'a channel" where
  "channel_put v state c =
     (case VERIFY (\<not> closed c) ''Channel was closed'' of
        Inl e \<Rightarrow> (Inl e, [], state, c)
      | Inr _ \<Rightarrow>
          (case first_acquired waiter_acquire (waiters c) (fst state) of
             (Some w, rest, ws) \<Rightarrow>
               (let (proceeds, ws', fr) = waiter_set w v (ws, snd state)
                in (Inr (), proceeds, (ws', fr), c\<lparr>waiters := rest\<rparr>))
           | (None, rest, ws) \<Rightarrow>
               (Inr (), [], (ws, snd state),
                c\<lparr>waiters := rest, queue := q_push (queue c) v\<rparr>)))"

text \<open>
  \<open>get\<close> up to its wait: a value, which is in \<open>val\<close> then, the answer that the channel is closed,
  or a new waiter with a frame that was not set. After the wait it answers \<open>wasSet\<close>.
\<close>

datatype 'a got = Got 'a | Nothing | Waiting

definition channel_get ::
  "nat \<Rightarrow> nat \<Rightarrow> words \<times> 'a frames \<Rightarrow> 'a channel \<Rightarrow> 'a got \<times> (words \<times> 'a frames) \<times> 'a channel" where
  "channel_get j frame state c =
     (if \<not> q_empty (queue c)
      then case q_pop (queue c) of
             Some (v, q') \<Rightarrow> (Got v, (fst state, (snd state)(frame \<mapsto> v)), c\<lparr>queue := q'\<rparr>)
           | None \<Rightarrow> (Nothing, state, c)
      else if closed c then (Nothing, state, c)
      else (Waiting, (fst state, (snd state)(frame := None)),
            c\<lparr>waiters := q_push (waiters c) \<lparr>w_frame = frame, w_doer = dd_make j (fst state)\<rparr>\<rparr>))"

definition channel_get_end :: "nat \<Rightarrow> 'a frames \<Rightarrow> 'a got" where
  "channel_get_end frame fr = (case fr frame of Some v \<Rightarrow> Got v | None \<Rightarrow> Nothing)"

definition channel_empty :: "'a channel \<Rightarrow> bool" where
  "channel_empty c \<longleftrightarrow> q_empty (queue c)"

definition channel_open :: "'a channel \<Rightarrow> 'a channel" where
  "channel_open c = c\<lparr>closed := False\<rparr>"

fun reset_all :: "waiter list \<Rightarrow> words \<Rightarrow> nat list \<times> words" where
  "reset_all [] ws = ([], ws)"
| "reset_all (w # rest) ws =
     (let (p, ws') = waiter_reset w ws; (ps, ws'') = reset_all rest ws' in (p @ ps, ws''))"

definition channel_close :: "words \<Rightarrow> 'a channel \<Rightarrow> nat list \<times> words \<times> 'a channel" where
  "channel_close ws c =
     (if closed c then ([], ws, c)
      else let (none, waiting) = q_swap (waiters c) q_new;
               (proceeds, ws') = reset_all waiting ws
           in (proceeds, ws', c\<lparr>closed := True, waiters := none\<rparr>))"

interpretation waiter: acquirable waiter_acquire "\<lambda>w. dd_live (w_doer w)"
  by unfold_locales (simp_all add: waiter_acquire_def dd_acquire_live dd_acquire_dead)

section \<open>Iteration\<close>

text \<open>
  \<open>Iterator\<close>: the value it holds, and whether it still refers to the channel. \<open>++\<close> is a \<open>get\<close>,
  whose answer is the argument here; \<open>range_for\<close> is the loop \<open>for (auto&& v: channel)\<close>, on the
  answers its calls of \<open>get\<close> receive, and stops with them when a \<open>get\<close> waits.
\<close>

record 'a iterator =
  it_val :: "'a option"
  it_bound :: bool

definition iter_end :: "'a iterator" where
  "iter_end = \<lparr>it_val = None, it_bound = False\<rparr>"

definition iter_advance :: "'a option \<Rightarrow> 'a iterator \<Rightarrow> 'a iterator" where
  "iter_advance answer it =
     (case answer of Some v \<Rightarrow> it\<lparr>it_val := Some v\<rparr> | None \<Rightarrow> it\<lparr>it_bound := False\<rparr>)"

definition iter_begin :: "'a option \<Rightarrow> 'a iterator" where
  "iter_begin answer = iter_advance answer \<lparr>it_val = None, it_bound = True\<rparr>"

definition iter_differ :: "'a iterator \<Rightarrow> 'a iterator \<Rightarrow> bool" where
  "iter_differ i j \<longleftrightarrow> it_bound i \<noteq> it_bound j"

fun range_for :: "('a \<Rightarrow> 's \<Rightarrow> 's) \<Rightarrow> 'a iterator \<Rightarrow> 'a option list \<Rightarrow> 's \<Rightarrow> 's \<times> 'a option list" where
  "range_for body it [] s =
     (if iter_differ it iter_end then (body (the (it_val it)) s, []) else (s, []))"
| "range_for body it (a # as) s =
     (if iter_differ it iter_end then range_for body (iter_advance a it) as (body (the (it_val it)) s)
      else (s, a # as))"

text \<open>The loop runs its body on the values received, in order, and ends with the first \<open>get\<close>
  that returns false.\<close>

lemma range_for_bound:
  "range_for body \<lparr>it_val = Some v, it_bound = True\<rparr> (map Some vs @ None # rest) s = (fold body (v # vs) s, rest)"
proof (induction vs arbitrary: v s)
  case Nil
  show ?case by (cases rest) (simp_all add: iter_differ_def iter_end_def iter_advance_def)
qed (simp add: iter_differ_def iter_end_def iter_advance_def)

lemma range_for_values:
  "range_for body (iter_begin (Some v)) (map Some vs @ None # rest) s = (fold body (v # vs) s, rest)"
  "range_for body (iter_begin None) rest s = (s, rest)"
  by (simp add: iter_begin_def iter_advance_def range_for_bound)
    (cases rest; simp add: iter_begin_def iter_advance_def iter_differ_def iter_end_def)

section \<open>Using the channel\<close>

text \<open>
  The calls of \<open>get\<close> are numbered, and the number of a call is that of its frame: what the
  frame of call \<open>t\<close> holds is what \<open>get\<close> or \<open>Waiter::set\<close> wrote there. \<open>calls\<close> tells where a
  call is; \<open>accepted\<close> records the values that \<open>put\<close> took, in order. Between operations the words
  may change in any way: the theorem does not rest on what else the journeys do.
\<close>

datatype 'a call = NotCalled | CallWaits nat | CallReturns "'a got" | CallThrows exn

record 'a chsys =
  chan :: "'a channel"
  memory :: "words \<times> 'a frames"
  tickets :: nat
  calls :: "nat \<Rightarrow> 'a call"
  accepted :: "'a list"

definition chsys_start :: "'a chsys \<Rightarrow> bool" where
  "chsys_start s \<longleftrightarrow> chan s = channel_new \<and> snd (memory s) = Map.empty \<and> tickets s = 0 \<and>
     calls s = (\<lambda>_. NotCalled) \<and> accepted s = []"

inductive chsys_step :: "'a chsys \<Rightarrow> 'a chsys \<Rightarrow> bool" where
  put_taken: "channel_put v (memory s) (chan s) = (Inr (), p, st', c') \<Longrightarrow>
     chsys_step s (s\<lparr>chan := c', memory := st', accepted := accepted s @ [v]\<rparr>)"
| put_refused: "channel_put v (memory s) (chan s) = (Inl e, p, st', c') \<Longrightarrow>
     chsys_step s (s\<lparr>chan := c', memory := st'\<rparr>)"
| get_returns: "\<lbrakk>channel_get j (tickets s) (memory s) (chan s) = (r, st', c'); r \<noteq> Waiting\<rbrakk> \<Longrightarrow>
     chsys_step s (s\<lparr>chan := c', memory := st', tickets := Suc (tickets s),
       calls := (calls s)(tickets s := CallReturns r)\<rparr>)"
| get_waits: "channel_get j (tickets s) (memory s) (chan s) = (Waiting, st', c') \<Longrightarrow>
     chsys_step s (s\<lparr>chan := c', memory := st', tickets := Suc (tickets s),
       calls := (calls s)(tickets s := CallWaits j)\<rparr>)"
| get_wakes: "\<lbrakk>calls s t = CallWaits j; memory s = (ws, fr); mayProceed (ws j);
      js_handleEvents (ws j) = (Inr (), w)\<rbrakk> \<Longrightarrow>
     chsys_step s (s\<lparr>memory := (ws(j := w), fr), calls := (calls s)(t := CallReturns (channel_get_end t fr))\<rparr>)"
| get_event: "\<lbrakk>calls s t = CallWaits j; memory s = (ws, fr); mayProceed (ws j);
      js_handleEvents (ws j) = (Inl e, w)\<rbrakk> \<Longrightarrow>
     chsys_step s (s\<lparr>memory := (ws(j := w), fr), calls := (calls s)(t := CallThrows e)\<rparr>)"
| close: "channel_close (fst (memory s)) (chan s) = (p, w, c') \<Longrightarrow>
     chsys_step s (s\<lparr>chan := c', memory := (w, snd (memory s))\<rparr>)"
| reopen: "chsys_step s (s\<lparr>chan := channel_open (chan s)\<rparr>)"
| others: "chsys_step s (s\<lparr>memory := (w, snd (memory s))\<rparr>)"

text \<open>The values in the frames of the first \<open>n\<close> calls, in the order of the calls.\<close>

definition given :: "'a frames \<Rightarrow> nat \<Rightarrow> 'a list" where
  "given fr n = concat (map (\<lambda>t. case fr t of None \<Rightarrow> [] | Some v \<Rightarrow> [v]) [0..<n])"

lemma given_Suc: "given fr (Suc n) = given fr n @ (case fr n of None \<Rightarrow> [] | Some v \<Rightarrow> [v])"
  by (simp add: given_def)

lemma given_cong: "(\<And>t. t < n \<Longrightarrow> fr t = fr' t) \<Longrightarrow> given fr n = given fr' n"
  unfolding given_def by (intro arg_cong [where f = concat] map_cong) simp_all

text \<open>A value written behind all others comes last.\<close>

lemma given_write:
  assumes "t < n" and "\<forall>u \<ge> t. fr u = None"
  shows "given (fr(t \<mapsto> v)) n = given fr n @ [v]"
  using assms(1)
proof (induction n)
  case (Suc n)
  show ?case
  proof (cases "t = n")
    case True
    have "given (fr(n \<mapsto> v)) n = given fr n" by (rule given_cong) simp
    moreover have "given (fr(n \<mapsto> v)) (Suc n) = given (fr(n \<mapsto> v)) n @ [v]" by (simp only: given_Suc fun_upd_same option.case)
    moreover have "given fr (Suc n) = given fr n" using True assms(2) by (simp add: given_Suc)
    ultimately show ?thesis using True by (simp only:)
  next
    case False
    with Suc assms(2) show ?thesis by (simp add: given_Suc)
  qed
qed simp

text \<open>
  Values that nobody took yet are in the queue, in the order of their \<open>put\<close>s; getters wait only
  while the queue is empty, in the order of their calls, behind every call that was given a value.
\<close>

definition chsys_inv :: "'a chsys \<Rightarrow> bool" where
  "chsys_inv s \<longleftrightarrow>
     accepted s = given (snd (memory s)) (tickets s) @ queue (chan s) \<and>
     (queue (chan s) = [] \<or> waiters (chan s) = []) \<and>
     sorted_wrt (<) (map w_frame (waiters (chan s))) \<and>
     (\<forall>w \<in> set (waiters (chan s)). w_frame w < tickets s \<and> (\<forall>u \<ge> w_frame w. snd (memory s) u = None)) \<and>
     (\<forall>u \<ge> tickets s. snd (memory s) u = None \<and> calls s u = NotCalled) \<and>
     (\<forall>t v. calls s t = CallReturns (Got v) \<longrightarrow> snd (memory s) t = Some v)"

lemma put_cases:
  obtains (refused) "closed c" "channel_put v mem c = (Inl (Verification ''Channel was closed''), [], mem, c)"
  | (queued) "\<not> closed c" "\<forall>w \<in> set (waiters c). \<not> dd_live (w_doer w) (fst mem)"
      "channel_put v mem c = (Inr (), [], mem, c\<lparr>waiters := [], queue := queue c @ [v]\<rparr>)"
  | (handed) dead w rest where "\<not> closed c" "waiters c = dead @ w # rest"
      "\<forall>x \<in> set dead. \<not> dd_live (w_doer x) (fst mem)" "dd_live (w_doer w) (fst mem)"
      "channel_put v mem c =
        (let (p, st') = waiter_set w v (snd (waiter_acquire w (fst mem)), snd mem)
         in (Inr (), p, st', c\<lparr>waiters := rest\<rparr>))"
proof (cases "closed c")
  case True
  then show ?thesis by (intro refused) (simp_all add: channel_put_def)
next
  case False
  obtain wo rest ws' where fa: "first_acquired waiter_acquire (waiters c) (fst mem) = (wo, rest, ws')"
    by (metis prod_cases3)
  show ?thesis
  proof (cases wo)
    case None
    with fa waiter.first_acquired_None [of "waiters c" "fst mem" rest ws'] False show ?thesis
      by (intro queued) (auto simp: channel_put_def q_push_def)
  next
    case (Some w)
    with fa waiter.first_acquired_Some [of "waiters c" "fst mem" w rest ws']
    obtain dead where "waiters c = dead @ w # rest" "\<forall>x \<in> set dead. \<not> dd_live (w_doer x) (fst mem)"
      "dd_live (w_doer w) (fst mem)" "ws' = snd (waiter_acquire w (fst mem))"
      by auto
    with fa Some False show ?thesis
      by (intro handed [of dead w rest]) (auto simp: channel_put_def split_beta)
  qed
qed

lemma get_cases:
  obtains (item) v q where "queue c = v # q" "channel_get j f mem c = (Got v, (fst mem, (snd mem)(f \<mapsto> v)), c\<lparr>queue := q\<rparr>)"
  | (shut) "queue c = []" "closed c" "channel_get j f mem c = (Nothing, mem, c)"
  | (wait) "queue c = []" "\<not> closed c"
      "channel_get j f mem c = (Waiting, (fst mem, (snd mem)(f := None)),
         c\<lparr>waiters := waiters c @ [\<lparr>w_frame = f, w_doer = dd_make j (fst mem)\<rparr>]\<rparr>)"
proof (cases "queue c")
  case (Cons v q)
  then show ?thesis
    by (intro item [of v q]) (simp_all add: channel_get_def q_empty_def q_pop_def)
next
  case Nil
  then show ?thesis
    using shut wait by (cases "closed c") (simp_all add: channel_get_def q_empty_def q_push_def)
qed

lemma close_chan:
  "snd (snd (channel_close ws c)) = (if closed c then c else c\<lparr>closed := True, waiters := []\<rparr>)"
  by (simp add: channel_close_def q_swap_def q_new_def split_beta)

lemma put_inv:
  assumes "chsys_inv s" and "channel_put v (memory s) (chan s) = (Inr (), p, st', c')"
  shows "chsys_inv (s\<lparr>chan := c', memory := st', accepted := accepted s @ [v]\<rparr>)"
proof (rule put_cases [where c = "chan s" and mem = "memory s" and v = v])
  assume "closed (chan s)" "channel_put v (memory s) (chan s) = (Inl (Verification ''Channel was closed''), [], memory s, chan s)"
  with assms(2) show ?thesis by simp
next
  assume "\<not> closed (chan s)" "\<forall>w \<in> set (waiters (chan s)). \<not> dd_live (w_doer w) (fst (memory s))"
    "channel_put v (memory s) (chan s) = (Inr (), [], memory s, (chan s)\<lparr>waiters := [], queue := queue (chan s) @ [v]\<rparr>)"
  with assms show ?thesis by (auto simp: chsys_inv_def)
next
  fix dead w rest
  assume wl: "waiters (chan s) = dead @ w # rest"
    and put: "channel_put v (memory s) (chan s) =
        (let (p, st') = waiter_set w v (snd (waiter_acquire w (fst (memory s))), snd (memory s))
         in (Inr (), p, st', (chan s)\<lparr>waiters := rest\<rparr>))"
  let ?fr = "snd (memory s)" and ?t = "w_frame w"
  have st: "snd st' = ?fr(?t \<mapsto> v)" and c': "c' = (chan s)\<lparr>waiters := rest\<rparr>"
    using put assms(2) by (auto simp: waiter_set_def split_beta)
  have t: "?t < tickets s" "\<forall>u \<ge> ?t. ?fr u = None" and q: "queue (chan s) = []"
    and rest: "\<forall>x \<in> set rest. ?t < w_frame x"
    using assms(1) wl by (auto simp: chsys_inv_def sorted_wrt_append)
  have "given (?fr(?t \<mapsto> v)) (tickets s) = given ?fr (tickets s) @ [v]" by (rule given_write [OF t])
  moreover have "t \<noteq> ?t" if "calls s t = CallReturns (Got x)" for t x
    using that assms(1) t(2) by (auto simp: chsys_inv_def)
  ultimately show ?thesis
    using assms(1) t q rest wl unfolding chsys_inv_def
    by (auto simp: st c' sorted_wrt_append)
qed

lemma get_inv:
  assumes "chsys_inv s" and "channel_get j (tickets s) (memory s) (chan s) = (r, st', c')"
  shows "chsys_inv (s\<lparr>chan := c', memory := st', tickets := Suc (tickets s),
    calls := (calls s)(tickets s := if r = Waiting then CallWaits j else CallReturns r)\<rparr>)"
proof (rule get_cases [where c = "chan s" and mem = "memory s" and j = j and f = "tickets s"])
  fix v q
  assume "queue (chan s) = v # q"
    and "channel_get j (tickets s) (memory s) (chan s) =
      (Got v, (fst (memory s), (snd (memory s))(tickets s \<mapsto> v)), (chan s)\<lparr>queue := q\<rparr>)"
  moreover have "given ((snd (memory s))(tickets s \<mapsto> v)) (tickets s) = given (snd (memory s)) (tickets s)"
    by (rule given_cong) simp
  ultimately show ?thesis using assms by (auto simp: chsys_inv_def given_Suc)
next
  assume "queue (chan s) = []" "closed (chan s)"
    "channel_get j (tickets s) (memory s) (chan s) = (Nothing, memory s, chan s)"
  with assms show ?thesis by (auto simp: chsys_inv_def given_Suc less_Suc_eq)
next
  assume "queue (chan s) = []" "\<not> closed (chan s)"
    "channel_get j (tickets s) (memory s) (chan s) = (Waiting, (fst (memory s), (snd (memory s))(tickets s := None)),
         (chan s)\<lparr>waiters := waiters (chan s) @ [\<lparr>w_frame = tickets s, w_doer = dd_make j (fst (memory s))\<rparr>]\<rparr>)"
  moreover have "(snd (memory s))(tickets s := None) = snd (memory s)"
    using assms(1) by (simp add: chsys_inv_def fun_upd_idem)
  ultimately show ?thesis
    using assms by (auto simp: chsys_inv_def given_Suc less_Suc_eq sorted_wrt_append)
qed

lemma chsys_step_inv: "chsys_step s t \<Longrightarrow> chsys_inv s \<Longrightarrow> chsys_inv t"
proof (induction rule: chsys_step.induct)
  case (put_taken v s p st' c')
  then show ?case by (intro put_inv)
next
  case (put_refused v s e p st' c')
  show ?case
    by (rule put_cases [where c = "chan s" and mem = "memory s" and v = v]) (use put_refused in \<open>auto simp: split_beta Let_def\<close>)
next
  case (get_returns j s r st' c')
  then show ?case using get_inv [of s j r st' c'] by simp
next
  case (get_waits j s st' c')
  then show ?case using get_inv [of s j Waiting st' c'] by simp
next
  case (get_wakes s t j ws fr w)
  then have "t < tickets s" unfolding chsys_inv_def by (metis call.distinct(1) not_less)
  with get_wakes show ?case by (auto simp: chsys_inv_def channel_get_end_def split: option.splits)
next
  case (get_event s t j ws fr e w)
  then have "t < tickets s" unfolding chsys_inv_def by (metis call.distinct(1) not_less)
  with get_event show ?case by (auto simp: chsys_inv_def)
next
  case (close s p w c')
  then show ?case
    using close_chan [of "fst (memory s)" "chan s"] by (auto simp: chsys_inv_def)
qed (auto simp: chsys_inv_def channel_open_def)

interpretation channel: step_system chsys_start chsys_step chsys_inv
proof unfold_locales
  show "chsys_start s \<Longrightarrow> chsys_inv s" for s :: "'a chsys"
    by (auto simp: chsys_start_def chsys_inv_def channel_new_def q_new_def given_def)
qed (rule chsys_step_inv)

text \<open>\<open>close\<close> wakes the getters that still wait: their \<open>done\<close> flag is set.\<close>

lemma dd_done_bits:
  "bit (snd (dd_done d ws) j) n \<longleftrightarrow>
     bit (ws j) n \<or> j = dd_state d \<and> dd_live d ws \<and> (n = 0 \<or> n = 2 \<or> dd_eventsEnabled d \<and> n = 1)"
proof (cases "dd_live d ws")
  case True
  then have "snd (dd_done d ws) = snd (dd_releaseAndDone d (snd (dd_acquire d ws)))"
    using dd_acquire_live [of d ws] by (auto simp: dd_done_def split: prod.splits bool.splits)
  with True show ?thesis by (auto simp: dd_release_bits dd_acquire_bits)
next
  case False
  then have "snd (dd_done d ws) = ws"
    using dd_acquire_live [of d ws] dd_acquire_dead [of d ws]
    by (auto simp: dd_done_def split: prod.splits bool.splits)
  with False show ?thesis by simp
qed

lemma dd_live_done: "dd_live d (snd (dd_done d' ws)) = dd_live d ws"
proof -
  have "js_counter (snd (dd_done d' ws) j) = js_counter (ws j)" for j
    by (rule counter_eqI) (auto simp: dd_done_bits)
  then show ?thesis by (simp add: dd_live_def)
qed

lemma reset_all_done:
  "is_done (snd (reset_all wl ws) j) \<longleftrightarrow>
     is_done (ws j) \<or> (\<exists>w \<in> set wl. dd_state (w_doer w) = j \<and> dd_live (w_doer w) ws)"
proof (induction wl arbitrary: ws)
  case (Cons w wl)
  show ?case
    using Cons [of "snd (waiter_reset w ws)"]
    by (auto simp: split_beta waiter_reset_def dd_live_done dd_done_bits)
qed simp

section \<open>What a channel promises\<close>

text \<open>C26: A channel neither loses, duplicates nor reorders values on its own side: in every run,
  whatever wakes or interrupts the getters, the values that \<open>put\<close> accepted are, in the order of
  their \<open>put\<close>s, those written into the frames of the calls of \<open>get\<close>, in the order of the calls,
  followed by those still in the queue; getters wait only while it is empty; and a call that
  returned a value returned the one in its frame. (The frame of a call that an event ended before
  it could return may hold a value, which is lost then.)\<close>

theorem channel_fifo:
  assumes "chsys_start s0" and "chsys_step\<^sup>*\<^sup>* s0 s"
  shows "accepted s = given (snd (memory s)) (tickets s) @ queue (chan s) \<and>
    (queue (chan s) = [] \<or> waiters (chan s) = []) \<and>
    (\<forall>t v. calls s t = CallReturns (Got v) \<longrightarrow> snd (memory s) t = Some v)"
  using channel.inv_reachable [OF assms] by (simp add: chsys_inv_def)

text \<open>Journey 3 waits in the first call when 4 is put.\<close>

definition chan_waiting :: "nat chsys" where
  "chan_waiting = \<lparr>chan = channel_new\<lparr>waiters := [\<lparr>w_frame = 0, w_doer = dd_make 3 (\<lambda>_. js_initial)\<rparr>]\<rparr>,
     memory = (\<lambda>_. js_initial, Map.empty), tickets = 1, calls = (\<lambda>_. NotCalled)(0 := CallWaits 3), accepted = []\<rparr>"

lemma chan_waiting_run: "\<exists>s0. chsys_start s0 \<and> chsys_step\<^sup>*\<^sup>* s0 chan_waiting"
proof -
  let ?s0 = "\<lparr>chan = channel_new, memory = (\<lambda>_. js_initial, Map.empty), tickets = 0,
    calls = (\<lambda>_. NotCalled), accepted = []\<rparr> :: nat chsys"
  have "chsys_start ?s0" by (simp add: chsys_start_def)
  moreover have "channel_get 3 (tickets ?s0) (memory ?s0) (chan ?s0) =
      (Waiting, memory ?s0, chan chan_waiting)"
    by (simp add: channel_get_def channel_new_def q_new_def q_empty_def q_push_def chan_waiting_def)
  from chsys_step.get_waits [OF this] have "chsys_step ?s0 chan_waiting"
    by (simp add: chan_waiting_def)
  ultimately show ?thesis by blast
qed

lemma channel_fifo_witness:
  "\<exists>s :: nat chsys. accepted s = [4] \<and> snd (memory s) 0 = Some 4 \<and>
     accepted s = given (snd (memory s)) 1 @ queue (chan s)"
proof -
  obtain s0 where s0: "chsys_start s0" "chsys_step\<^sup>*\<^sup>* s0 chan_waiting" using chan_waiting_run by blast
  obtain r p st c' where put: "channel_put 4 (memory chan_waiting) (chan chan_waiting) = (r, p, st, c')"
    by (rule prod_cases4)
  have "snd st = [0 \<mapsto> 4] \<and> r = Inr ()"
    by (rule put_cases [where c = "chan chan_waiting" and mem = "memory chan_waiting" and v = 4])
      (use put in \<open>auto simp: chan_waiting_def channel_new_def dd_make_live waiter_set_def split_beta
        Cons_eq_append_conv\<close>)
  with put have st: "snd st = [0 \<mapsto> 4]" "channel_put 4 (memory chan_waiting) (chan chan_waiting) = (Inr (), p, st, c')"
    by simp_all
  from chsys_step.put_taken [OF st(2)] s0(2)
  have run: "chsys_step\<^sup>*\<^sup>* s0 (chan_waiting\<lparr>chan := c', memory := st, accepted := accepted chan_waiting @ [4]\<rparr>)"
    by (rule rtranclp.rtrancl_into_rtrancl [rotated])
  from channel_fifo [OF s0(1) run] st(1) show ?thesis
    by (intro exI [of _ "chan_waiting\<lparr>chan := c', memory := st, accepted := accepted chan_waiting @ [4]\<rparr>"])
      (simp add: chan_waiting_def)
qed

text \<open>\<open>close\<close> wakes exactly the getters that still wait, once: their journeys are done,
  no frame got a value, so their \<open>get\<close> answers that there is none; the channel is closed and
  has no waiters, a later \<open>put\<close> throws and a second \<open>close\<close> does nothing.\<close>

theorem close_wakes_waiters:
  assumes "\<not> closed c" and "channel_close ws c = (proceeds, ws', c')"
  shows "(\<forall>j. is_done (ws' j) = (is_done (ws j) \<or>
            j \<in> (\<lambda>w. dd_state (w_doer w)) ` {w \<in> set (waiters c). dd_live (w_doer w) ws})) \<and>
    c' = c\<lparr>closed := True, waiters := []\<rparr> \<and>
    channel_close ws' c' = ([], ws', c') \<and>
    fst (channel_put v (ws', fr) c') = Inl (Verification ''Channel was closed'')"
proof -
  have c': "c' = c\<lparr>closed := True, waiters := []\<rparr>"
    using close_chan [of ws c] assms by simp
  have "ws' = snd (reset_all (waiters c) ws)"
    using assms by (auto simp: channel_close_def q_swap_def split_beta)
  with c' show ?thesis
    by (auto simp: reset_all_done channel_close_def channel_put_def)
qed

lemma close_wakes_waiters_witness:
  "\<exists>p ws' c'. channel_close (\<lambda>_. js_initial)
      \<lparr>queue = [], waiters = [\<lparr>w_frame = 0, w_doer = dd_make 3 (\<lambda>_. js_initial)\<rparr>], closed = False\<rparr> = (p, ws', c') \<and>
     is_done (ws' 3) \<and> fst (channel_put (1 :: nat) (ws', Map.empty) c') = Inl (Verification ''Channel was closed'')"
proof -
  let ?c = "\<lparr>queue = [], waiters = [\<lparr>w_frame = 0, w_doer = dd_make 3 (\<lambda>_. js_initial)\<rparr>], closed = False\<rparr> :: nat channel"
  obtain p ws' c' where r: "channel_close (\<lambda>_. js_initial) ?c = (p, ws', c')"
    by (rule prod_cases3)
  have "dd_live (dd_make 3 (\<lambda>_. js_initial)) (\<lambda>_. js_initial)" by (rule dd_make_live)
  moreover have "dd_state (dd_make 3 (\<lambda>_. js_initial)) = 3" by (simp add: dd_make_def)
  ultimately show ?thesis
    using close_wakes_waiters [OF _ r, of 1 Map.empty] r by auto
qed

text \<open>A value is lost when the getter it was handed to is cancelled before it runs again:
  \<open>put\<close> succeeds and leaves the value in the getter's frame only, not in the queue; the
  cancellation then makes the getter's wait throw, so its \<open>get\<close> never returns the value.\<close>

theorem channel_value_lost_on_cancel:
  assumes "\<not> closed c" and "waiters c = w # rest" and "queue c = []"
    and "w_doer w = dd_make j ws0" and "enabled (ws0 j)" and "js_counter (ws j) = js_counter (ws0 j)"
    and "channel_put v (ws, fr) c = (r, p, (ws', fr'), c')"
  shows "r = Inr () \<and> queue c' = [] \<and> waiters c' = rest \<and> fr' (w_frame w) = Some v \<and>
    fst (js_handleEvents (snd (goer_cancel (Some j) ws') j)) = Inl CancelledEvent"
proof -
  have d: "dd_state (w_doer w) = j" "dd_eventsEnabled (w_doer w)" and live: "dd_live (w_doer w) ws"
    using assms(4-6) by (simp_all add: dd_make_def dd_live_def js_bits)
  have "first_acquired waiter_acquire (waiters c) ws = (Some w, rest, snd (waiter_acquire w ws))"
    using assms(2) live by (simp add: waiter.first_acquired_spec del: first_acquired.simps)
  then have put: "channel_put v (ws, fr) c =
      (let (p, st') = waiter_set w v (snd (waiter_acquire w ws), fr) in (Inr (), p, st', c\<lparr>waiters := rest\<rparr>))"
    using assms(1) by (simp add: channel_put_def split_beta)
  then have "ws' = snd (dd_releaseAndDone (w_doer w) (snd (dd_acquire (w_doer w) ws)))"
    using assms(7) by (auto simp: waiter_set_def waiter_acquire_def split_beta)
  then have "enabled (ws' j)" using d by (simp add: dd_release_bits)
  then show ?thesis
    using put assms(3,7)
    by (auto simp: waiter_set_def split_beta goer_cancel_def on_journey_def js_handleEvents_def js_bits)
qed

lemma channel_value_lost_on_cancel_witness:
  "\<exists>p ws' fr' c'. channel_put (8 :: nat) (\<lambda>_. js_initial, Map.empty)
      \<lparr>queue = [], waiters = [\<lparr>w_frame = 0, w_doer = dd_make 3 (\<lambda>_. js_initial)\<rparr>], closed = False\<rparr> =
        (Inr (), p, (ws', fr'), c') \<and> queue c' = [] \<and>
     fst (js_handleEvents (snd (goer_cancel (Some 3) ws') 3)) = Inl CancelledEvent"
proof -
  let ?c = "\<lparr>queue = [], waiters = [\<lparr>w_frame = 0, w_doer = dd_make 3 (\<lambda>_. js_initial)\<rparr>], closed = False\<rparr> :: nat channel"
  obtain r p st c' where "channel_put 8 (\<lambda>_. js_initial, Map.empty) ?c = (r, p, st, c')"
    by (rule prod_cases4)
  moreover obtain ws' fr' where "st = (ws', fr')" by (rule prod.exhaust)
  ultimately have r: "channel_put 8 (\<lambda>_. js_initial, Map.empty) ?c = (r, p, (ws', fr'), c')"
    by simp
  note lost = channel_value_lost_on_cancel [where w = "\<lparr>w_frame = 0, w_doer = dd_make 3 (\<lambda>_. js_initial)\<rparr>"
      and rest = "[]" and j = 3 and ?ws0.0 = "\<lambda>_. js_initial", OF _ _ _ _ _ _ r]
  have "r = Inr () \<and> queue c' = [] \<and>
      fst (js_handleEvents (snd (goer_cancel (Some 3) ws') 3)) = Inl CancelledEvent"
    using lost by (simp add: js_initial_bits)
  with r show ?thesis by blast
qed

end
