(* ===== verification/Completers.thy ===== *)
theory Completers
  imports Oers
begin

text \<open>
  Waiting for child journeys (\<open>src/core.cpp\<close>, \<open>include/synca/once/core.h\<close>): \<open>Completer\<close>
  with \<open>Awaiter\<close>, \<open>Completer2\<close> with \<open>Awaiter2\<close>, \<open>AsyncWaiter\<close>, \<open>goAnyWait\<close> and
  \<open>DetachableAwaiter\<close>. The first three count unfinished children in one atomic
  counter, and the child that brings it to zero calls \<open>doer_.done()\<close> in a second step. The
  object that holds the counter and the doer is on the stack of the parent; what matters is
  that no child touches it after the parent destroyed it, and that the parent is woken.

  Children count in \<open>int\<close>; there are fewer of them than 2^31, so the model counts in
  integers.
\<close>

section \<open>A counter shared with children\<close>

text \<open>
  A child runs its handler, or has brought the counter to zero and still has to call
  \<open>done\<close>, or will not touch the object any more.
\<close>

datatype kid = KRun | KNotify | KEnd

record group =
  g_counter :: int
  g_kids :: "kid list"
  g_done :: bool
  g_gone :: bool
  g_failed :: bool

text \<open>
  \<open>g_done\<close> is the flag \<open>FlagDone\<close> of the parent, \<open>g_gone\<close> says that the object was
  destroyed, \<open>g_failed\<close> that it was used afterwards.
\<close>

definition touch :: "'z group_scheme \<Rightarrow> 'z group_scheme" where
  "touch g = g\<lparr>g_failed := g_failed g \<or> g_gone g\<rparr>"

definition completer_add :: "int \<Rightarrow> 'z group_scheme \<Rightarrow> bool \<times> 'z group_scheme" where
  "completer_add v g = (let old = g_counter g in (old + v = 0, touch (g\<lparr>g_counter := old + v\<rparr>)))"

definition completer_isDone :: "'z group_scheme \<Rightarrow> bool" where
  "completer_isDone g \<longleftrightarrow> g_counter g = 0"

text \<open>The end of the handler of child \<open>i\<close>, returned or thrown: \<open>dec\<close>.\<close>

definition kid_dec :: "nat \<Rightarrow> 'z group_scheme \<Rightarrow> 'z group_scheme" where
  "kid_dec i g =
     (let (zero, g) = completer_add (- 1) g
      in g\<lparr>g_kids := (g_kids g)[i := if zero then KNotify else KEnd]\<rparr>)"

definition kid_notify :: "nat \<Rightarrow> 'z group_scheme \<Rightarrow> 'z group_scheme" where
  "kid_notify i g = touch (g\<lparr>g_done := True, g_kids := (g_kids g)[i := KEnd]\<rparr>)"

inductive kid_step :: "'z group_scheme \<Rightarrow> 'z group_scheme \<Rightarrow> bool" where
  dec: "\<lbrakk>i < length (g_kids g); g_kids g ! i = KRun\<rbrakk> \<Longrightarrow> kid_step g (kid_dec i g)"
| notify: "\<lbrakk>i < length (g_kids g); g_kids g ! i = KNotify\<rbrakk> \<Longrightarrow> kid_step g (kid_notify i g)"

definition running :: "'z group_scheme \<Rightarrow> nat" where
  "running g = count_list (g_kids g) KRun"

definition notifying :: "'z group_scheme \<Rightarrow> nat" where
  "notifying g = count_list (g_kids g) KNotify"

text \<open>Before the parent counted its \<open>k\<close> children in; and after, while it waits.\<close>

definition collecting :: "int \<Rightarrow> 'z group_scheme \<Rightarrow> bool" where
  "collecting k g \<longleftrightarrow> \<not> g_gone g \<and> \<not> g_failed g \<and> \<not> g_done g \<and> notifying g = 0 \<and>
     g_counter g = int (running g) - k \<and> (k < 0 \<or> int (running g) \<le> k)"

definition pending :: "'z group_scheme \<Rightarrow> bool" where
  "pending g \<longleftrightarrow> \<not> g_gone g \<and> \<not> g_failed g \<and> g_counter g = int (running g) \<and>
     (if running g = 0 then notifying g = (if g_done g then 0 else 1) else notifying g = 0 \<and> \<not> g_done g)"

text \<open>No child will touch the object again.\<close>

definition quiet :: "'z group_scheme \<Rightarrow> bool" where
  "quiet g \<longleftrightarrow> running g = 0 \<and> notifying g = 0 \<and> \<not> g_failed g"

lemma kid_dec_kids: "g_kids (kid_dec i g) = (g_kids g)[i := if g_counter g = 1 then KNotify else KEnd]"
  by (simp add: kid_dec_def completer_add_def touch_def Let_def)

lemma kid_notify_kids: "g_kids (kid_notify i g) = (g_kids g)[i := KEnd]"
  by (simp add: kid_notify_def touch_def)

lemma kid_dec_counts:
  assumes "i < length (g_kids g)" "g_kids g ! i = KRun"
  shows "Suc (running (kid_dec i g)) = running g"
    "notifying (kid_dec i g) = notifying g + (if g_counter g = 1 then 1 else 0)"
  using count_list_update [OF assms(1), of _ KRun] count_list_update [OF assms(1), of _ KNotify] assms(2)
  by (simp_all add: kid_dec_kids running_def notifying_def)

lemma kid_notify_counts:
  assumes "i < length (g_kids g)" "g_kids g ! i = KNotify"
  shows "running (kid_notify i g) = running g" "Suc (notifying (kid_notify i g)) = notifying g"
  using count_list_update [OF assms(1), of KEnd KRun] count_list_update [OF assms(1), of KEnd KNotify] assms(2)
  by (simp_all add: kid_notify_kids running_def notifying_def)

lemma kid_fields [simp]:
  "g_gone (kid_dec i g) = g_gone g" "g_done (kid_dec i g) = g_done g"
  "g_failed (kid_dec i g) = (g_failed g \<or> g_gone g)" "g_counter (kid_dec i g) = g_counter g - 1"
  "g_gone (kid_notify i g) = g_gone g" "g_done (kid_notify i g) = True"
  "g_failed (kid_notify i g) = (g_failed g \<or> g_gone g)" "g_counter (kid_notify i g) = g_counter g"
  "group.more (kid_dec i g) = group.more g" "group.more (kid_notify i g) = group.more g"
  by (simp_all add: kid_dec_def kid_notify_def completer_add_def touch_def Let_def)

lemma kid_step_more: "kid_step g h \<Longrightarrow> group.more h = group.more g"
  by (auto elim: kid_step.cases)

lemma kid_step_collecting:
  assumes "kid_step g h" "collecting k g"
  shows "collecting k h"
  using assms(1)
proof cases
  case (dec i)
  have "g_counter g \<noteq> 1" using assms(2) kid_dec_counts(1) [OF dec(2,3)] by (auto simp: collecting_def)
  then show ?thesis using assms(2) kid_dec_counts [OF dec(2,3)] dec(1) by (auto simp: collecting_def)
next
  case (notify i)
  then show ?thesis using assms(2) kid_notify_counts(2) [OF notify(2,3)] by (simp add: collecting_def)
qed

lemma kid_step_pending:
  assumes "kid_step g h" "pending g"
  shows "pending h"
  using assms(1)
proof cases
  case (dec i)
  then show ?thesis using assms(2) kid_dec_counts [OF dec(2,3)]
    by (auto simp: pending_def split: if_splits)
next
  case (notify i)
  then show ?thesis using assms(2) kid_notify_counts [OF notify(2,3)]
    by (auto simp: pending_def split: if_splits)
qed

lemma kid_step_quiet:
  assumes "kid_step g h"
  shows "\<not> quiet g"
  using assms
proof cases
  case (dec i)
  then show ?thesis using kid_dec_counts(1) [OF dec(2,3)] by (simp add: quiet_def)
next
  case (notify i)
  then show ?thesis using kid_notify_counts(2) [OF notify(2,3)] by (simp add: quiet_def)
qed

lemma quiet_ended: "quiet g \<Longrightarrow> set (g_kids g) \<subseteq> {KEnd}"
proof
  fix x assume "quiet g" "x \<in> set (g_kids g)"
  then show "x \<in> {KEnd}"
    by (cases x) (auto simp: quiet_def running_def notifying_def count_list_0_iff)
qed

text \<open>Nothing is lost: a parent that waits is done, or a child has still a step to make.\<close>

lemma pending_live:
  assumes "pending g" "\<not> g_done g"
  shows "\<exists>h. kid_step g h"
proof -
  have "0 < running g \<or> 0 < notifying g" using assms by (auto simp: pending_def split: if_splits)
  then have "KRun \<in> set (g_kids g) \<or> KNotify \<in> set (g_kids g)"
    by (metis running_def notifying_def count_list_0_iff less_irrefl)
  then show ?thesis by (auto simp: in_set_conv_nth intro: kid_step.intros)
qed

section \<open>Awaiter\<close>

text \<open>
  The parent is in user code, suspended in \<open>waitForDoneAlways\<close>, or suspended with events
  off, after it cancelled its children; \<open>aw_dtor\<close>: it is in the destructor.
\<close>

datatype wait_pc = NotWaiting | Waiting | Forced

record awaiter = group +
  aw_goers :: nat
  aw_pc :: wait_pc
  aw_dtor :: bool

definition awaiter_new :: awaiter where
  "awaiter_new = \<lparr>g_counter = 0, g_kids = [], g_done = False, g_gone = False, g_failed = False,
                  aw_goers = 0, aw_pc = NotWaiting, aw_dtor = False\<rparr>"

definition awaiter_empty :: "awaiter \<Rightarrow> bool" where
  "awaiter_empty a \<longleftrightarrow> aw_goers a = 0"

definition awaiter_go :: "awaiter \<Rightarrow> awaiter" where
  "awaiter_go a = a\<lparr>g_kids := g_kids a @ [KRun], aw_goers := Suc (aw_goers a)\<rparr>"

text \<open>\<open>completer_.add\<close>, called by the parent: it may find all children done.\<close>

definition awaiter_add :: "awaiter \<Rightarrow> awaiter" where
  "awaiter_add a =
     (let (zero, a) = completer_add (int (aw_goers a)) a in if zero then a\<lparr>g_done := True\<rparr> else a)"

text \<open>The end of the wait: \<open>cleanup\<close>, and \<open>handleEvents\<close>, which takes the done flag.\<close>

definition awaiter_finish :: "awaiter \<Rightarrow> awaiter" where
  "awaiter_finish a = a\<lparr>aw_goers := 0, g_done := False, aw_pc := NotWaiting, g_gone := aw_dtor a\<rparr>"

definition awaiter_wait :: "awaiter \<Rightarrow> awaiter" where
  "awaiter_wait a =
     (if awaiter_empty a then a
      else let a = awaiter_add a in if g_done a then awaiter_finish a else a\<lparr>aw_pc := Waiting\<rparr>)"

definition awaiter_destroy :: "awaiter \<Rightarrow> awaiter" where
  "awaiter_destroy a =
     (if awaiter_empty a then a\<lparr>g_gone := True\<rparr>
      else let a = awaiter_add a\<lparr>aw_dtor := True\<rparr>
           in if g_done a then awaiter_finish a else a\<lparr>aw_pc := Forced\<rparr>)"

inductive awaiter_step :: "awaiter \<Rightarrow> awaiter \<Rightarrow> bool" where
  kid: "kid_step a b \<Longrightarrow> awaiter_step a b"
| go: "\<lbrakk>\<not> g_gone a; aw_pc a = NotWaiting\<rbrakk> \<Longrightarrow> awaiter_step a (awaiter_go a)"
| wait: "\<lbrakk>\<not> g_gone a; aw_pc a = NotWaiting\<rbrakk> \<Longrightarrow> awaiter_step a (awaiter_wait a)"
| destroy: "\<lbrakk>\<not> g_gone a; aw_pc a = NotWaiting\<rbrakk> \<Longrightarrow> awaiter_step a (awaiter_destroy a)"
| wake: "\<lbrakk>aw_pc a \<noteq> NotWaiting; g_done a\<rbrakk> \<Longrightarrow> awaiter_step a (awaiter_finish a)"
| event: "\<lbrakk>aw_pc a = Waiting; \<not> g_done a\<rbrakk> \<Longrightarrow> awaiter_step a (a\<lparr>aw_pc := Forced\<rparr>)"

definition awaiter_inv :: "awaiter \<Rightarrow> bool" where
  "awaiter_inv a \<longleftrightarrow>
     (if aw_pc a \<noteq> NotWaiting then pending a
      else if g_gone a then quiet a
      else collecting (int (aw_goers a)) a \<and> \<not> aw_dtor a)"

lemma counts_update [simp]:
  "running (a\<lparr>aw_goers := n\<rparr>) = running a" "notifying (a\<lparr>aw_goers := n\<rparr>) = notifying a"
  "running (a\<lparr>aw_pc := p\<rparr>) = running a" "notifying (a\<lparr>aw_pc := p\<rparr>) = notifying a"
  "running (a\<lparr>aw_dtor := d\<rparr>) = running a" "notifying (a\<lparr>aw_dtor := d\<rparr>) = notifying a"
  for a :: awaiter
  by (simp_all add: running_def notifying_def)

lemma group_counts_update [simp]:
  "running (g\<lparr>g_counter := c\<rparr>) = running g" "notifying (g\<lparr>g_counter := c\<rparr>) = notifying g"
  "running (g\<lparr>g_done := d\<rparr>) = running g" "notifying (g\<lparr>g_done := d\<rparr>) = notifying g"
  "running (g\<lparr>g_gone := x\<rparr>) = running g" "notifying (g\<lparr>g_gone := x\<rparr>) = notifying g"
  "running (g\<lparr>g_failed := y\<rparr>) = running g" "notifying (g\<lparr>g_failed := y\<rparr>) = notifying g"
  "running (g\<lparr>g_kids := g_kids g @ [KRun]\<rparr>) = Suc (running g)"
  "notifying (g\<lparr>g_kids := g_kids g @ [KRun]\<rparr>) = notifying g"
  by (simp_all add: running_def notifying_def)

text \<open>Counting the children in ends the collecting, in one of two ways.\<close>

lemma collecting_add:
  assumes "collecting (int n) g" "completer_add (int n) g = (zero, h)"
  shows "if zero then quiet h \<and> g_counter h = 0 else pending h"
    and "\<not> g_done h" "\<not> g_gone h" "\<not> g_failed h" "zero \<longleftrightarrow> running h = 0"
  using assms by (auto simp: collecting_def pending_def quiet_def completer_add_def touch_def Let_def)

lemma awaiter_add_cases:
  assumes "collecting (int (aw_goers a)) a"
  shows "if g_done (awaiter_add a) then quiet (awaiter_add a) \<and> g_counter (awaiter_add a) = 0
         else pending (awaiter_add a)"
    "\<not> g_gone (awaiter_add a)" "\<not> g_failed (awaiter_add a)"
  using assms
  by (auto simp: awaiter_add_def collecting_def pending_def quiet_def completer_add_def touch_def Let_def)

lemma pending_done:
  "pending g \<Longrightarrow> g_done g \<Longrightarrow> quiet g \<and> g_counter g = 0"
  by (auto simp: pending_def quiet_def split: if_splits)

lemma awaiter_finish_inv:
  "quiet a \<Longrightarrow> g_counter a = 0 \<Longrightarrow> awaiter_inv (awaiter_finish a)"
  by (auto simp: awaiter_inv_def awaiter_finish_def quiet_def collecting_def)

lemma pending_update [simp]:
  "pending (a\<lparr>aw_pc := p\<rparr>) = pending a" "pending (a\<lparr>aw_dtor := d\<rparr>) = pending a"
  "quiet (a\<lparr>aw_dtor := d\<rparr>) = quiet a"
  for a :: awaiter
  by (simp_all add: pending_def quiet_def)

lemma awaiter_step_inv:
  assumes "awaiter_inv a" "awaiter_step a b"
  shows "awaiter_inv b"
  using assms(2)
proof cases
  case kid
  then have "group.more b = group.more a" by (rule kid_step_more)
  then have eq: "aw_goers b = aw_goers a" "aw_pc b = aw_pc a" "aw_dtor b = aw_dtor a"
    by (cases a; cases b; simp)+
  have "g_gone b = g_gone a" using kid by cases simp_all
  with eq assms(1) kid_step_pending [OF kid] kid_step_collecting [OF kid] kid_step_quiet [OF kid]
  show ?thesis by (auto simp: awaiter_inv_def split: if_splits)
next
  case go
  then show ?thesis using assms(1) by (auto simp: awaiter_inv_def awaiter_go_def collecting_def)
next
  case wait
  then have "collecting (int (aw_goers a)) a" using assms(1) by (simp add: awaiter_inv_def)
  note c = awaiter_add_cases [OF this]
  show ?thesis
  proof (cases "awaiter_empty a")
    case False
    with c wait show ?thesis
      by (cases "g_done (awaiter_add a)")
        (auto simp: awaiter_wait_def Let_def awaiter_finish_inv, simp add: awaiter_inv_def)
  qed (use wait assms(1) in \<open>simp add: awaiter_wait_def\<close>)
next
  case destroy
  then have k: "collecting (int (aw_goers a)) a" using assms(1) by (simp add: awaiter_inv_def)
  note c = awaiter_add_cases [OF this]
  show ?thesis
  proof (cases "awaiter_empty a")
    case True
    with k destroy show ?thesis
      by (simp add: awaiter_destroy_def awaiter_empty_def awaiter_inv_def collecting_def quiet_def)
  next
    case False
    with c destroy show ?thesis
      by (cases "g_done (awaiter_add a)")
        (auto simp: awaiter_destroy_def Let_def awaiter_finish_inv, simp add: awaiter_inv_def)
  qed
next
  case wake
  then have "pending a" using assms(1) by (simp add: awaiter_inv_def)
  from pending_done [OF this] wake show ?thesis by (simp add: awaiter_finish_inv)
next
  case event
  then show ?thesis using assms(1) by (simp add: awaiter_inv_def)
qed

lemma awaiter_new_inv: "a = awaiter_new \<Longrightarrow> awaiter_inv a"
  by (simp add: awaiter_inv_def awaiter_new_def collecting_def running_def notifying_def)

interpretation awaiter: step_system "\<lambda>a. a = awaiter_new" awaiter_step awaiter_inv
  by unfold_locales (blast intro: awaiter_new_inv awaiter_step_inv)+

text \<open>C30: An \<open>Awaiter\<close> is safe whatever events interrupt its parent: it is never used after
  its destructor, which returns only when no child will touch it again; and while the
  parent is suspended it is woken already, or a child is still to make a step.\<close>

theorem awaiter_outlives_children:
  assumes "awaiter_step\<^sup>*\<^sup>* awaiter_new a"
  shows "\<not> g_failed a \<and> (g_gone a \<longrightarrow> set (g_kids a) \<subseteq> {KEnd}) \<and>
         (aw_pc a \<noteq> NotWaiting \<longrightarrow> g_done a \<or> (\<exists>b. kid_step a b))"
proof -
  have inv: "awaiter_inv a" using awaiter.inv_reachable [OF refl assms] .
  have "\<not> g_failed a"
    using inv by (auto simp: awaiter_inv_def pending_def collecting_def quiet_def split: if_splits)
  moreover have "set (g_kids a) \<subseteq> {KEnd}" if "g_gone a"
    using inv that by (intro quiet_ended) (auto simp: awaiter_inv_def pending_def split: if_splits)
  moreover have "g_done a \<or> (\<exists>b. kid_step a b)" if "aw_pc a \<noteq> NotWaiting"
    using inv that pending_live [of a] by (auto simp: awaiter_inv_def)
  ultimately show ?thesis by blast
qed

text \<open>Two children; the parent is interrupted while it waits, forces them to end and returns.\<close>

definition awaiter_waiting :: awaiter where
  "awaiter_waiting = awaiter_wait (kid_dec 0 (awaiter_go (awaiter_go awaiter_new)))"

definition awaiter_run :: awaiter where
  "awaiter_run = awaiter_destroy (awaiter_finish (kid_notify 1 (kid_dec 1
     (awaiter_waiting\<lparr>aw_pc := Forced\<rparr>))))"

lemma awaiter_outlives_children_witness:
  "\<not> g_failed awaiter_run \<and> g_gone awaiter_run \<and> set (g_kids awaiter_run) \<subseteq> {KEnd}"
proof -
  let ?f = "awaiter_waiting\<lparr>aw_pc := Forced\<rparr>"
  have "awaiter_step\<^sup>*\<^sup>* awaiter_new (awaiter_go awaiter_new)"
    by (intro r_into_rtranclp awaiter_step.go) code_simp+
  also have "awaiter_step\<^sup>*\<^sup>* \<dots> (awaiter_go (awaiter_go awaiter_new))"
    by (intro r_into_rtranclp awaiter_step.go) code_simp+
  also have "awaiter_step\<^sup>*\<^sup>* \<dots> (kid_dec 0 (awaiter_go (awaiter_go awaiter_new)))"
    by (intro r_into_rtranclp awaiter_step.kid kid_step.dec) code_simp+
  also have "awaiter_step\<^sup>*\<^sup>* \<dots> awaiter_waiting"
    unfolding awaiter_waiting_def by (intro r_into_rtranclp awaiter_step.wait) code_simp+
  also have "awaiter_step\<^sup>*\<^sup>* \<dots> ?f"
    by (intro r_into_rtranclp awaiter_step.event) code_simp+
  also have "awaiter_step\<^sup>*\<^sup>* \<dots> (kid_dec 1 ?f)"
    by (intro r_into_rtranclp awaiter_step.kid kid_step.dec) code_simp+
  also have "awaiter_step\<^sup>*\<^sup>* \<dots> (kid_notify 1 (kid_dec 1 ?f))"
    by (intro r_into_rtranclp awaiter_step.kid kid_step.notify) code_simp+
  also have "awaiter_step\<^sup>*\<^sup>* \<dots> (awaiter_finish (kid_notify 1 (kid_dec 1 ?f)))"
    by (intro r_into_rtranclp awaiter_step.wake) code_simp+
  also have "awaiter_step\<^sup>*\<^sup>* \<dots> awaiter_run"
    unfolding awaiter_run_def by (intro r_into_rtranclp awaiter_step.destroy) code_simp+
  finally have "awaiter_step\<^sup>*\<^sup>* awaiter_new awaiter_run" .
  moreover have "g_gone awaiter_run" by code_simp
  ultimately show ?thesis using awaiter_outlives_children by blast
qed

section \<open>Awaiter2\<close>

text \<open>
  \<open>jobs_\<close> counts down while children are started, and is made positive when they are
  counted in. The destructor runs with events off.
\<close>

record awaiter2 = group +
  a2_jobs :: int
  a2_goers :: nat
  a2_waits :: bool
  a2_dtor :: bool

definition awaiter2_new :: awaiter2 where
  "awaiter2_new = \<lparr>g_counter = 0, g_kids = [], g_done = False, g_gone = False, g_failed = False,
                   a2_jobs = 0, a2_goers = 0, a2_waits = False, a2_dtor = False\<rparr>"

definition completer2_start :: "awaiter2 \<Rightarrow> awaiter2" where
  "completer2_start a = a\<lparr>a2_jobs := a2_jobs a - 1\<rparr>"

definition awaiter2_go :: "awaiter2 \<Rightarrow> awaiter2" where
  "awaiter2_go a = completer2_start (a\<lparr>g_kids := g_kids a @ [KRun], a2_goers := Suc (a2_goers a)\<rparr>)"

text \<open>\<open>wait0\<close>: whether the parent has to call \<open>waitForDone\<close>.\<close>

definition completer2_wait0 :: "awaiter2 \<Rightarrow> bool \<times> awaiter2" where
  "completer2_wait0 a =
     (if a2_jobs a < 0
      then let a = a\<lparr>a2_jobs := - a2_jobs a\<rparr>; (zero, a) = completer_add (a2_jobs a) a in (\<not> zero, a)
      else (g_counter a \<noteq> 0, a))"

text \<open>
  What follows \<open>wait0\<close>: \<open>jobs_\<close> is reset, the goers are forgotten, and a destructor is
  complete.
\<close>

definition awaiter2_finish :: "awaiter2 \<Rightarrow> awaiter2" where
  "awaiter2_finish a =
     a\<lparr>a2_jobs := 0, a2_goers := 0, a2_waits := False, g_gone := a2_dtor a\<rparr>"

definition awaiter2_wait :: "awaiter2 \<Rightarrow> awaiter2" where
  "awaiter2_wait a =
     (if a2_jobs a = 0 then awaiter2_finish a
      else let (suspend, a) = completer2_wait0 a
           in if suspend then a\<lparr>a2_waits := True\<rparr> else awaiter2_finish a)"

definition awaiter2_destroy :: "awaiter2 \<Rightarrow> awaiter2" where
  "awaiter2_destroy a =
     (if a2_goers a = 0 then a\<lparr>g_gone := True\<rparr> else awaiter2_wait (a\<lparr>a2_dtor := True\<rparr>))"

text \<open>
  \<open>waitForDone\<close> returns, or throws the event the parent was woken by; either takes the
  done flag. \<open>events\<close> says whether the parent can be cancelled or time out.
\<close>

definition awaiter2_wake :: "awaiter2 \<Rightarrow> awaiter2" where
  "awaiter2_wake a = awaiter2_finish (a\<lparr>g_done := False\<rparr>)"

definition awaiter2_event :: "awaiter2 \<Rightarrow> awaiter2" where
  "awaiter2_event a = a\<lparr>g_done := False, a2_waits := False\<rparr>"

inductive awaiter2_step :: "bool \<Rightarrow> awaiter2 \<Rightarrow> awaiter2 \<Rightarrow> bool" for events where
  kid: "kid_step a b \<Longrightarrow> awaiter2_step events a b"
| go: "\<lbrakk>\<not> g_gone a; \<not> a2_waits a\<rbrakk> \<Longrightarrow> awaiter2_step events a (awaiter2_go a)"
| wait: "\<lbrakk>\<not> g_gone a; \<not> a2_waits a\<rbrakk> \<Longrightarrow> awaiter2_step events a (awaiter2_wait a)"
| destroy: "\<lbrakk>\<not> g_gone a; \<not> a2_waits a\<rbrakk> \<Longrightarrow> awaiter2_step events a (awaiter2_destroy a)"
| wake: "\<lbrakk>a2_waits a; g_done a\<rbrakk> \<Longrightarrow> awaiter2_step events a (awaiter2_wake a)"
| event: "\<lbrakk>events; a2_waits a; \<not> a2_dtor a\<rbrakk> \<Longrightarrow> awaiter2_step events a (awaiter2_event a)"

definition awaiter2_inv :: "awaiter2 \<Rightarrow> bool" where
  "awaiter2_inv a \<longleftrightarrow>
     (if a2_waits a then pending a
      else if g_gone a then quiet a
      else collecting (int (a2_goers a)) a \<and> a2_jobs a = - int (a2_goers a) \<and> \<not> a2_dtor a)"

lemma awaiter2_update [simp]:
  "running (a\<lparr>a2_jobs := j\<rparr>) = running a" "notifying (a\<lparr>a2_jobs := j\<rparr>) = notifying a"
  "running (a\<lparr>a2_goers := n\<rparr>) = running a" "notifying (a\<lparr>a2_goers := n\<rparr>) = notifying a"
  "running (a\<lparr>a2_waits := p\<rparr>) = running a" "notifying (a\<lparr>a2_waits := p\<rparr>) = notifying a"
  "running (a\<lparr>a2_dtor := d\<rparr>) = running a" "notifying (a\<lparr>a2_dtor := d\<rparr>) = notifying a"
  "pending (a\<lparr>a2_waits := p\<rparr>) = pending a"
  for a :: awaiter2
  by (simp_all add: running_def notifying_def pending_def)

lemma awaiter2_finish_inv:
  "quiet a \<Longrightarrow> g_counter a = 0 \<Longrightarrow> \<not> g_done a \<Longrightarrow> awaiter2_inv (awaiter2_finish a)"
  by (auto simp: awaiter2_inv_def awaiter2_finish_def quiet_def collecting_def)

text \<open>A first wait, of the program or of the destructor.\<close>

lemma awaiter2_wait_inv:
  assumes "collecting (int (a2_goers a)) a" "a2_jobs a = - int (a2_goers a)" "\<not> a2_waits a"
  shows "awaiter2_inv (awaiter2_wait a)"
proof (cases "a2_goers a = 0")
  case True
  with assms have "quiet a" "g_counter a = 0" "\<not> g_done a" by (auto simp: collecting_def quiet_def)
  with True assms show ?thesis by (simp add: awaiter2_wait_def awaiter2_finish_inv)
next
  case False
  let ?a = "a\<lparr>a2_jobs := int (a2_goers a)\<rparr>"
  obtain zero b where add: "completer_add (int (a2_goers a)) ?a = (zero, b)" by (cases "completer_add (int (a2_goers a)) ?a")
  have "collecting (int (a2_goers a)) ?a" using assms(1) by (simp add: collecting_def)
  note c = collecting_add [OF this add]
  have "awaiter2_wait a = (if zero then awaiter2_finish b else b\<lparr>a2_waits := True\<rparr>)"
    using False assms(2) add by (simp add: awaiter2_wait_def completer2_wait0_def Let_def)
  with c show ?thesis by (auto simp: awaiter2_finish_inv) (simp add: awaiter2_inv_def)
qed

lemma awaiter2_step_inv:
  assumes "awaiter2_inv a" "awaiter2_step False a b"
  shows "awaiter2_inv b"
  using assms(2)
proof cases
  case kid
  then have "group.more b = group.more a" by (rule kid_step_more)
  then have eq: "a2_goers b = a2_goers a" "a2_jobs b = a2_jobs a" "a2_waits b = a2_waits a" "a2_dtor b = a2_dtor a"
    by (cases a; cases b; simp)+
  have "g_gone b = g_gone a" using kid by cases simp_all
  with eq assms(1) kid_step_pending [OF kid] kid_step_collecting [OF kid] kid_step_quiet [OF kid]
  show ?thesis by (auto simp: awaiter2_inv_def split: if_splits)
next
  case go
  then show ?thesis using assms(1)
    by (auto simp: awaiter2_inv_def awaiter2_go_def completer2_start_def collecting_def)
next
  case wait
  then show ?thesis using assms(1) awaiter2_wait_inv [of a] by (simp add: awaiter2_inv_def)
next
  case destroy
  then have k: "collecting (int (a2_goers a)) a" "a2_jobs a = - int (a2_goers a)"
    using assms(1) by (simp_all add: awaiter2_inv_def)
  show ?thesis
  proof (cases "a2_goers a = 0")
    case True
    with k destroy show ?thesis
      by (simp add: awaiter2_destroy_def awaiter2_inv_def collecting_def quiet_def)
  next
    case False
    have "collecting (int (a2_goers a)) (a\<lparr>a2_dtor := True\<rparr>)" using k(1) by (simp add: collecting_def)
    with False k(2) destroy awaiter2_wait_inv [of "a\<lparr>a2_dtor := True\<rparr>"] show ?thesis
      by (simp add: awaiter2_destroy_def)
  qed
next
  case wake
  then have "pending a" using assms(1) by (simp add: awaiter2_inv_def)
  from pending_done [OF this] wake show ?thesis
    by (auto simp: awaiter2_wake_def quiet_def intro!: awaiter2_finish_inv)
qed simp

lemma awaiter2_new_inv: "a = awaiter2_new \<Longrightarrow> awaiter2_inv a"
  by (simp add: awaiter2_inv_def awaiter2_new_def collecting_def running_def notifying_def)

interpretation awaiter2: step_system "\<lambda>a. a = awaiter2_new" "awaiter2_step False" awaiter2_inv
  by unfold_locales (blast intro: awaiter2_new_inv awaiter2_step_inv)+

text \<open>An \<open>Awaiter2\<close> whose parent is neither cancelled nor times out is never used after
  its destructor, which returns only when no child will touch it again; a suspended parent
  is woken already or a child is still to make a step; and no done flag is left behind.\<close>

theorem awaiter2_outlives_children:
  assumes "(awaiter2_step False)\<^sup>*\<^sup>* awaiter2_new a"
  shows "\<not> g_failed a \<and> (g_gone a \<longrightarrow> set (g_kids a) \<subseteq> {KEnd}) \<and>
         (a2_waits a \<longrightarrow> g_done a \<or> (\<exists>b. kid_step a b)) \<and>
         (\<not> g_gone a \<and> \<not> a2_waits a \<longrightarrow> \<not> g_done a)"
proof -
  have inv: "awaiter2_inv a" using awaiter2.inv_reachable [OF refl assms] .
  have "\<not> g_failed a"
    using inv by (auto simp: awaiter2_inv_def pending_def collecting_def quiet_def split: if_splits)
  moreover have "set (g_kids a) \<subseteq> {KEnd}" if "g_gone a"
    using inv that by (intro quiet_ended) (auto simp: awaiter2_inv_def pending_def split: if_splits)
  moreover have "g_done a \<or> (\<exists>b. kid_step a b)" if "a2_waits a"
    using inv that pending_live [of a] by (auto simp: awaiter2_inv_def)
  moreover have "\<not> g_done a" if "\<not> g_gone a" "\<not> a2_waits a"
    using inv that by (simp add: awaiter2_inv_def collecting_def)
  ultimately show ?thesis by blast
qed

definition awaiter2_waiting :: awaiter2 where
  "awaiter2_waiting = awaiter2_wait (awaiter2_go awaiter2_new)"

lemma awaiter2_waiting_reached: "(awaiter2_step e)\<^sup>*\<^sup>* awaiter2_new awaiter2_waiting"
proof -
  have "(awaiter2_step e)\<^sup>*\<^sup>* awaiter2_new (awaiter2_go awaiter2_new)"
    by (intro r_into_rtranclp awaiter2_step.go) code_simp+
  also have "(awaiter2_step e)\<^sup>*\<^sup>* \<dots> awaiter2_waiting"
    unfolding awaiter2_waiting_def by (intro r_into_rtranclp awaiter2_step.wait) code_simp+
  finally show ?thesis .
qed

text \<open>\<open>goWait2\<close>: one journey per handler, and the wait.\<close>

definition goWait2 :: "nat \<Rightarrow> awaiter2" where
  "goWait2 n = awaiter2_wait ((awaiter2_go ^^ n) awaiter2_new)"

lemma awaiter2_gos:
  "(awaiter2_go ^^ n) awaiter2_new =
     \<lparr>g_counter = 0, g_kids = replicate n KRun, g_done = False, g_gone = False, g_failed = False,
      a2_jobs = - int n, a2_goers = n, a2_waits = False, a2_dtor = False\<rparr>"
  by (induction n)
    (simp_all add: awaiter2_new_def awaiter2_go_def completer2_start_def replicate_append_same)

lemma goWait2_reached: "(awaiter2_step e)\<^sup>*\<^sup>* awaiter2_new (goWait2 n)"
proof -
  have "(awaiter2_step e)\<^sup>*\<^sup>* awaiter2_new ((awaiter2_go ^^ n) awaiter2_new)"
  proof (induction n)
    case (Suc n)
    have "awaiter2_step e ((awaiter2_go ^^ n) awaiter2_new) ((awaiter2_go ^^ Suc n) awaiter2_new)"
      unfolding funpow.simps o_apply
      by (rule awaiter2_step.go) (simp_all add: awaiter2_gos)
    with Suc show ?case by (rule rtranclp.rtrancl_into_rtrancl)
  qed simp
  moreover have "awaiter2_step e ((awaiter2_go ^^ n) awaiter2_new) (goWait2 n)"
    unfolding goWait2_def by (rule awaiter2_step.wait) (simp_all add: awaiter2_gos)
  ultimately show ?thesis by (rule rtranclp.rtrancl_into_rtrancl)
qed

text \<open>With handlers it waits for every one of them; without any it returns at once.\<close>

lemma goWait2_waits: "a2_waits (goWait2 n) \<longleftrightarrow> 0 < n"
  by (simp add: goWait2_def awaiter2_gos awaiter2_wait_def completer2_wait0_def completer_add_def
      touch_def awaiter2_finish_def Let_def)

lemma awaiter2_outlives_children_witness:
  "\<exists>b. kid_step awaiter2_waiting b"
proof -
  have "a2_waits awaiter2_waiting" "\<not> g_done awaiter2_waiting" by code_simp+
  then show ?thesis using awaiter2_outlives_children [OF awaiter2_waiting_reached] by blast
qed

text \<open>
  The run that fails: the parent is cancelled in its wait; the last child then brings the
  counter to zero and has not called \<open>done\<close> yet; the destructor waits a second time, sees
  zero, and returns.
\<close>

definition awaiter2_raced :: awaiter2 where
  "awaiter2_raced = awaiter2_destroy (kid_dec 0 (awaiter2_event awaiter2_waiting))"

text \<open>When the parent of an \<open>Awaiter2\<close> is cancelled while it waits, the destructor can
  return while a child is about to call \<open>done\<close> on the doer that was destroyed with it.\<close>

theorem awaiter2_used_after_destruction:
  "\<exists>a. (awaiter2_step True)\<^sup>*\<^sup>* awaiter2_new a \<and> g_gone a \<and> g_kids a = [KNotify] \<and>
       (\<exists>b. kid_step a b \<and> g_failed b)"
proof -
  note awaiter2_waiting_reached [of True]
  also have "(awaiter2_step True)\<^sup>*\<^sup>* awaiter2_waiting (awaiter2_event awaiter2_waiting)"
    by (intro r_into_rtranclp awaiter2_step.event) code_simp+
  also have "(awaiter2_step True)\<^sup>*\<^sup>* \<dots> (kid_dec 0 (awaiter2_event awaiter2_waiting))"
    by (intro r_into_rtranclp awaiter2_step.kid kid_step.dec) code_simp+
  also have "(awaiter2_step True)\<^sup>*\<^sup>* \<dots> awaiter2_raced"
    unfolding awaiter2_raced_def by (intro r_into_rtranclp awaiter2_step.destroy) code_simp+
  finally have r: "(awaiter2_step True)\<^sup>*\<^sup>* awaiter2_new awaiter2_raced" .
  have "kid_step awaiter2_raced (kid_notify 0 awaiter2_raced)"
    by (rule kid_step.notify) code_simp+
  moreover have "g_failed (kid_notify 0 awaiter2_raced)" by code_simp
  moreover have "g_gone awaiter2_raced" "g_kids awaiter2_raced = [KNotify]" by code_simp+
  ultimately show ?thesis using r by blast
qed

section \<open>AsyncWaiter\<close>

text \<open>
  The counter starts at one, for the parent; \<open>inc\<close> before a child is started. \<open>wait\<close> takes
  the parent's one away.
\<close>

record async_waiter = group +
  as_waits :: bool
  as_waited :: bool

definition async_new :: async_waiter where
  "async_new = \<lparr>g_counter = 1, g_kids = [], g_done = False, g_gone = False, g_failed = False,
                as_waits = False, as_waited = False\<rparr>"

definition async_go :: "async_waiter \<Rightarrow> async_waiter" where
  "async_go a = a\<lparr>g_counter := g_counter a + 1, g_kids := g_kids a @ [KRun]\<rparr>"

definition async_wait :: "async_waiter \<Rightarrow> async_waiter" where
  "async_wait a =
     (let old = g_counter a; a = a\<lparr>g_counter := old - 1\<rparr>
      in if old \<noteq> 1 then a\<lparr>as_waits := True\<rparr> else a\<lparr>as_waited := True\<rparr>)"

definition async_wake :: "async_waiter \<Rightarrow> async_waiter" where
  "async_wake a = a\<lparr>g_done := False, as_waits := False, as_waited := True\<rparr>"

inductive async_step :: "async_waiter \<Rightarrow> async_waiter \<Rightarrow> bool" where
  kid: "kid_step a b \<Longrightarrow> async_step a b"
| go: "\<lbrakk>\<not> as_waits a; \<not> as_waited a\<rbrakk> \<Longrightarrow> async_step a (async_go a)"
| wait: "\<lbrakk>\<not> as_waits a; \<not> as_waited a\<rbrakk> \<Longrightarrow> async_step a (async_wait a)"
| wake: "\<lbrakk>as_waits a; g_done a\<rbrakk> \<Longrightarrow> async_step a (async_wake a)"

definition async_inv :: "async_waiter \<Rightarrow> bool" where
  "async_inv a \<longleftrightarrow>
     (if as_waits a then pending a
      else if as_waited a then quiet a else collecting (- 1) a)"

lemma async_step_inv:
  assumes "async_inv a" "async_step a b"
  shows "async_inv b"
  using assms(2)
proof cases
  case kid
  then have "group.more b = group.more a" by (rule kid_step_more)
  then have "as_waits b = as_waits a" "as_waited b = as_waited a" by (cases a; cases b; simp)+
  with assms(1) kid_step_pending [OF kid] kid_step_collecting [OF kid] kid_step_quiet [OF kid]
  show ?thesis by (auto simp: async_inv_def split: if_splits)
next
  case go
  then show ?thesis using assms(1)
    by (auto simp: async_inv_def async_go_def collecting_def running_def notifying_def)
next
  case wait
  then show ?thesis using assms(1)
    by (auto simp: async_inv_def async_wait_def Let_def collecting_def pending_def quiet_def
        running_def notifying_def)
next
  case wake
  then have "pending a" using assms(1) by (simp add: async_inv_def)
  from pending_done [OF this] wake show ?thesis
    by (simp add: async_inv_def async_wake_def quiet_def running_def notifying_def)
qed

lemma async_new_inv: "a = async_new \<Longrightarrow> async_inv a"
  by (simp add: async_inv_def async_new_def collecting_def running_def notifying_def)

interpretation async_waiter: step_system "\<lambda>a. a = async_new" async_step async_inv
  by unfold_locales (blast intro: async_new_inv async_step_inv)+

text \<open>After \<open>wait\<close> returned no child is left, and while it waits one of them still moves.\<close>

lemma async_waiter_waits:
  assumes "async_step\<^sup>*\<^sup>* async_new a"
  shows "(as_waited a \<and> \<not> as_waits a \<longrightarrow> set (g_kids a) \<subseteq> {KEnd}) \<and>
         (as_waits a \<longrightarrow> g_done a \<or> (\<exists>b. kid_step a b))"
proof -
  have inv: "async_inv a" using async_waiter.inv_reachable [OF refl assms] .
  have "as_waited a \<and> \<not> as_waits a \<longrightarrow> set (g_kids a) \<subseteq> {KEnd}"
    using inv quiet_ended [of a] by (simp add: async_inv_def)
  moreover have "as_waits a \<longrightarrow> g_done a \<or> (\<exists>b. kid_step a b)"
  proof (cases "g_done a")
    case False
    then show ?thesis using inv pending_live [of a] by (simp add: async_inv_def)
  qed simp
  ultimately show ?thesis by blast
qed

section \<open>goAnyWait\<close>

text \<open>
  Every child calls its handler through a reference into the frame of \<open>goAnyWait\<close>; the
  first that returns stores its index there and wakes the parent. \<open>an_index\<close> is \<open>None\<close>
  for the initial \<open>-1\<close>.
\<close>

datatype any_kid = AStart | ARun | AEnd

record anywait =
  an_kids :: "any_kid list"
  an_counter :: nat
  an_index :: "nat option"
  an_done :: bool
  an_returned :: bool
  an_failed :: bool

definition goAnyWait :: "nat \<Rightarrow> anywait outcome" where
  "goAnyWait n =
     (case VERIFY (1 \<le> n) ''Handlers amount must be positive'' of
        Inl e \<Rightarrow> Inl e
      | Inr _ \<Rightarrow> Inr \<lparr>an_kids = replicate n AStart, an_counter = 0, an_index = None,
                      an_done = False, an_returned = False, an_failed = False\<rparr>)"

definition any_call :: "nat \<Rightarrow> anywait \<Rightarrow> anywait" where
  "any_call i a = a\<lparr>an_kids := (an_kids a)[i := ARun], an_failed := an_failed a \<or> an_returned a\<rparr>"

definition any_end :: "nat \<Rightarrow> anywait \<Rightarrow> anywait" where
  "any_end i a =
     (let a = a\<lparr>an_counter := Suc (an_counter a), an_kids := (an_kids a)[i := AEnd]\<rparr>
      in if an_counter a = 1
         then a\<lparr>an_index := Some i, an_done := True, an_failed := an_failed a \<or> an_returned a\<rparr>
         else a)"

text \<open>What \<open>goAnyWait\<close> does once it is woken.\<close>

definition any_result :: "anywait \<Rightarrow> nat outcome" where
  "any_result a =
     (case an_index a of
        Some i \<Rightarrow> (case VERIFY (i < length (an_kids a)) ''Incorrect index returned'' of
                     Inl e \<Rightarrow> Inl e | Inr _ \<Rightarrow> Inr i)
      | None \<Rightarrow> Inl (Verification ''Incorrect index returned''))"

inductive any_step :: "anywait \<Rightarrow> anywait \<Rightarrow> bool" where
  call: "\<lbrakk>i < length (an_kids a); an_kids a ! i = AStart\<rbrakk> \<Longrightarrow> any_step a (any_call i a)"
| finish: "\<lbrakk>i < length (an_kids a); an_kids a ! i = ARun\<rbrakk> \<Longrightarrow> any_step a (any_end i a)"
| return: "an_done a \<Longrightarrow> any_step a (a\<lparr>an_done := False, an_returned := True\<rparr>)"

definition any_inv :: "nat \<Rightarrow> anywait \<Rightarrow> bool" where
  "any_inv n a \<longleftrightarrow> length (an_kids a) = n \<and>
     (case an_index a of
        None \<Rightarrow> an_counter a = 0 \<and> \<not> an_done a \<and> \<not> an_returned a
      | Some i \<Rightarrow> 0 < an_counter a \<and> i < n \<and> an_kids a ! i = AEnd)"

lemma any_step_inv:
  assumes "any_inv n a" "any_step a b"
  shows "any_inv n b"
  using assms(2,1)
  by cases (auto simp: any_inv_def any_call_def any_end_def Let_def nth_list_update split: option.splits)

lemma any_new_inv: "goAnyWait n = Inr a \<Longrightarrow> any_inv n a"
  by (auto simp: any_inv_def goAnyWait_def VERIFY_def split: if_splits)

interpretation anywait: step_system "\<lambda>a. goAnyWait n = Inr a" any_step "any_inv n" for n
  by unfold_locales (blast intro: any_new_inv any_step_inv)+

text \<open>The index \<open>goAnyWait\<close> returns is that of a handler that has returned.\<close>

lemma goAnyWait_returns_finished:
  assumes "goAnyWait n = Inr a" "any_step\<^sup>*\<^sup>* a b" "an_done b \<or> an_returned b"
  shows "\<exists>i < n. any_result b = Inr i \<and> an_kids b ! i = AEnd"
proof -
  have "any_inv n b" using anywait.inv_reachable [OF assms(1,2)] .
  with assms(3) show ?thesis by (auto simp: any_inv_def any_result_def split: option.splits)
qed

text \<open>
  But it does not wait for the others: one that starts after it returned calls a handler
  that is not there any more.
\<close>

definition any_late :: anywait where
  "any_late = (any_end 0 (any_call 0 \<lparr>an_kids = [AStart, AStart], an_counter = 0, an_index = None,
     an_done = False, an_returned = False, an_failed = False\<rparr>))\<lparr>an_done := False, an_returned := True\<rparr>"

lemma goAnyWait_dangling_handler:
  "\<exists>a b. goAnyWait 2 = Inr a \<and> any_step\<^sup>*\<^sup>* a b \<and> an_failed b"
proof -
  let ?a = "\<lparr>an_kids = [AStart, AStart], an_counter = 0, an_index = None,
             an_done = False, an_returned = False, an_failed = False\<rparr>"
  have g: "goAnyWait 2 = Inr ?a" by (simp add: goAnyWait_def numeral_2_eq_2)
  have "any_step\<^sup>*\<^sup>* ?a (any_call 0 ?a)" by (intro r_into_rtranclp any_step.call) code_simp+
  also have "any_step\<^sup>*\<^sup>* \<dots> (any_end 0 (any_call 0 ?a))"
    by (intro r_into_rtranclp any_step.finish) code_simp+
  also have "any_step\<^sup>*\<^sup>* \<dots> any_late"
    unfolding any_late_def by (intro r_into_rtranclp any_step.return) code_simp+
  also have "any_step\<^sup>*\<^sup>* \<dots> (any_call 1 any_late)"
    by (intro r_into_rtranclp any_step.call) code_simp+
  finally have "any_step\<^sup>*\<^sup>* ?a (any_call 1 any_late)" .
  moreover have "an_failed (any_call 1 any_late)" by code_simp
  ultimately show ?thesis using g by blast
qed

section \<open>DetachableAwaiter\<close>

text \<open>
  The children of one group share a detachable doer of the parent \<open>j\<close>, which is done when
  the last of them, or the parent, drops it. \<open>da_own\<close>: the parent holds it; \<open>da_kids\<close>: the
  number of children that do.
\<close>

record detachable_awaiter =
  da_doer :: "detachable_doer option"
  da_own :: bool
  da_kids :: nat

definition da_new :: detachable_awaiter where
  "da_new = \<lparr>da_doer = None, da_own = False, da_kids = 0\<rparr>"

definition da_go :: "nat \<Rightarrow> detachable_awaiter \<Rightarrow> words \<Rightarrow> detachable_awaiter" where
  "da_go j a ws =
     (let a = (if da_own a then a else a\<lparr>da_doer := Some (dd_make j ws), da_own := True\<rparr>)
      in a\<lparr>da_kids := Suc (da_kids a)\<rparr>)"

definition da_drop :: "detachable_awaiter \<Rightarrow> words \<Rightarrow> nat list \<times> words" where
  "da_drop a ws =
     (case da_doer a of
        Some d \<Rightarrow> if \<not> da_own a \<and> da_kids a = 0 then dd_done d ws else ([], ws)
      | None \<Rightarrow> ([], ws))"

definition da_kid_end :: "detachable_awaiter \<Rightarrow> words \<Rightarrow> detachable_awaiter \<times> nat list \<times> words" where
  "da_kid_end a ws = (let a = a\<lparr>da_kids := da_kids a - 1\<rparr> in (a, da_drop a ws))"

text \<open>\<open>wait\<close> up to \<open>waitForDone\<close>, and the destructor; the flag says whether to wait.\<close>

definition da_wait :: "detachable_awaiter \<Rightarrow> words \<Rightarrow> bool \<times> detachable_awaiter \<times> nat list \<times> words" where
  "da_wait a ws =
     (if \<not> da_own a then (False, a, [], ws)
      else let a = a\<lparr>da_own := False\<rparr> in (True, a, da_drop a ws))"

definition da_destroy :: "nat \<Rightarrow> detachable_awaiter \<Rightarrow> words \<Rightarrow> detachable_awaiter \<times> nat list \<times> words" where
  "da_destroy j a ws =
     (if \<not> da_own a then (a, [], ws)
      else let a = a\<lparr>da_own := False\<rparr>; (ps, ws) = da_drop a ws
           in (a, ps, ws(j := js_detachDoers (ws j))))"

text \<open>Children of a \<open>DetachableAwaiter\<close> that outlive it do not disturb the parent: when
  the group was detached with events on, the end of the last child, after any further
  events up to 2^27 - 2, changes no word and schedules nothing.\<close>

theorem detached_children_are_silent:
  assumes "enabled (ws0 j)" and "da_own a" "0 < da_kids a" and "da_doer a = Some (dd_make j ws0)"
    and "ws j = fold raise_event es (ws0 j)"
    and "da_destroy j a ws = (b, ps, ws1)"
    and "ws2 j = fold raise_event es' (ws1 j)" and "Suc (length es + length es') < 2 ^ 27"
  shows "ps = [] \<and> snd (da_kid_end b ws2) = ([], ws2)"
proof -
  have b: "b = a\<lparr>da_own := False\<rparr>" "ps = []" "ws1 j = js_detachDoers (ws j)"
    using assms(2-6) by (auto simp: da_destroy_def da_drop_def Let_def)
  have "ws2 j = fold raise_event (es @ Detach # es') (ws0 j)"
    using assms(5,7) b(3) by simp
  then have "js_counter (ws2 j) \<noteq> js_counter (ws0 j)"
    using raise_events_counter(1) [OF assms(1), of "es @ Detach # es'"]
      counter_multiple_nonzero [of "length (es @ Detach # es')"] assms(8) by simp
  then have dead: "\<not> dd_live (dd_make j ws0) ws2"
    using assms(1) by (simp add: dd_live_def dd_make_def js_bits)
  then have "dd_done (dd_make j ws0) ws2 = ([], ws2)"
    by (simp add: dd_done_def dd_acquire_live dd_acquire_dead split_beta)
  then show ?thesis using b assms(4) by (simp add: da_kid_end_def da_drop_def Let_def)
qed

lemma detached_children_are_silent_witness:
  "snd (da_kid_end (fst (da_destroy 0 (da_go 0 da_new (\<lambda>_. js_initial)) (\<lambda>_. js_initial)))
        ((\<lambda>_. js_initial)(0 := js_detachDoers js_initial))) =
     ([], (\<lambda>_. js_initial)(0 := js_detachDoers js_initial))"
proof -
  let ?a = "da_go 0 da_new (\<lambda>_. js_initial)"
  have "enabled js_initial" by (simp add: js_bits)
  moreover have "da_own ?a" "0 < da_kids ?a" "da_doer ?a = Some (dd_make 0 (\<lambda>_. js_initial))"
    by (simp_all add: da_go_def da_new_def Let_def)
  moreover have "da_destroy 0 ?a (\<lambda>_. js_initial) = (fst (da_destroy 0 ?a (\<lambda>_. js_initial)), [],
      (\<lambda>_. js_initial)(0 := js_detachDoers js_initial))"
    by (simp add: da_destroy_def da_drop_def da_go_def da_new_def Let_def)
  ultimately show ?thesis
    using detached_children_are_silent [where ws0 = "\<lambda>_. js_initial" and es = "[]" and es' = "[]" and j = 0]
    by simp
qed

section \<open>Events, as the functions of core.h name them\<close>

definition core_disableEvents :: "jstate \<Rightarrow> bool \<times> jstate" where
  "core_disableEvents w = js_disableEvents w"

text \<open>The body is that of \<open>enableEventsAndCheck\<close>.\<close>

definition core_disableEventsAndCheck :: "jstate \<Rightarrow> unit outcome \<times> jstate" where
  "core_disableEventsAndCheck w = js_enableEventsAndCheck w"

lemma disableEventsAndCheck_enables: "enabled (snd (core_disableEventsAndCheck w))"
  by (simp add: core_disableEventsAndCheck_def js_enableEventsAndCheck_def handleRaiseEvents_def
      setFlags0_def resetFlags0_def js_bits Let_def)
    (simp add: bit_or_iff bit_and_iff bit_not_iff possible_bit_word js_bits)

end
