(* ===== verification/GoResults.thy ===== *)
theory GoResults
  imports Replob_Prelude
begin

text \<open>
  \<open>goAnyResult\<close> (\<open>include/synca/once/core.h\<close>) and \<open>goWait\<close> (\<open>src/core.cpp\<close>): children that share an
  object through a \<open>shared_ptr\<close>, whose destructor runs with the last reference. The children
  reach the handlers, and \<open>goAnyResult\<close>'s result, by reference into the frame of the parent.
  A step of the model is one access to the shared object or to that frame.
\<close>

section \<open>goAnyResult\<close>

text \<open>
  Where a holder of the reference is: before its handler, in it, before \<open>++ counter\<close> with the
  result it proposes, before the result is written, before \<open>done\<close>, before it drops its
  reference, or over. The flag of the middle three says that it is in \<open>~Counter\<close>.
\<close>

datatype 'a any_pc =
    ArStart
  | ArHandler
  | ArBump "'a option" bool
  | ArWrite "'a option" bool
  | ArWake bool
  | ArRelease
  | ArEnd

text \<open>
  Holder 0 is the parent, which drops its reference at the end of the lambda it gave to
  \<open>deferProceed\<close>. \<open>ar_values\<close> records what the handlers returned, \<open>ar_badHandler\<close> that a handler
  was called, and \<open>ar_badWrite\<close> that the result was written, in a frame that is gone.
\<close>

record 'a anyresult =
  ar_pcs :: "'a any_pc list"
  ar_refs :: nat
  ar_counter :: nat
  ar_result :: "'a option"
  ar_done :: bool
  ar_returned :: bool
  ar_values :: "'a list"
  ar_badHandler :: bool
  ar_badWrite :: bool

definition goAnyResult :: "nat \<Rightarrow> 'a anyresult" where
  "goAnyResult n = \<lparr>ar_pcs = ArRelease # replicate n ArStart, ar_refs = Suc n, ar_counter = 0,
     ar_result = None, ar_done = False, ar_returned = False, ar_values = [],
     ar_badHandler = False, ar_badWrite = False\<rparr>"

definition ar_set :: "nat \<Rightarrow> 'a any_pc \<Rightarrow> 'a anyresult \<Rightarrow> 'a anyresult" where
  "ar_set i pc a = a\<lparr>ar_pcs := (ar_pcs a)[i := pc]\<rparr>"

definition any_start :: "nat \<Rightarrow> 'a anyresult \<Rightarrow> 'a anyresult" where
  "any_start i a = ar_set i ArHandler (a\<lparr>ar_badHandler := ar_badHandler a \<or> ar_returned a\<rparr>)"

text \<open>The handler returned an empty result or threw; or it returned a value.\<close>

definition any_nothing :: "nat \<Rightarrow> 'a anyresult \<Rightarrow> 'a anyresult" where
  "any_nothing i a = ar_set i ArRelease a"

definition any_value :: "nat \<Rightarrow> 'a \<Rightarrow> 'a anyresult \<Rightarrow> 'a anyresult" where
  "any_value i v a = ar_set i (ArBump (Some v) False) (a\<lparr>ar_values := v # ar_values a\<rparr>)"

text \<open>\<open>tryProceed\<close>: the holder that brings the counter to one proceeds.\<close>

definition after_proceed :: "bool \<Rightarrow> 'a any_pc" where
  "after_proceed dtor = (if dtor then ArEnd else ArRelease)"

definition any_bump :: "nat \<Rightarrow> 'a option \<Rightarrow> bool \<Rightarrow> 'a anyresult \<Rightarrow> 'a anyresult" where
  "any_bump i r dtor a =
     (let a = a\<lparr>ar_counter := Suc (ar_counter a)\<rparr>
      in ar_set i (if ar_counter a = 1 then ArWrite r dtor else after_proceed dtor) a)"

definition any_write :: "nat \<Rightarrow> 'a option \<Rightarrow> bool \<Rightarrow> 'a anyresult \<Rightarrow> 'a anyresult" where
  "any_write i r dtor a =
     ar_set i (ArWake dtor) (a\<lparr>ar_result := r, ar_badWrite := ar_badWrite a \<or> ar_returned a\<rparr>)"

definition any_wake :: "nat \<Rightarrow> bool \<Rightarrow> 'a anyresult \<Rightarrow> 'a anyresult" where
  "any_wake i dtor a = ar_set i (after_proceed dtor) (a\<lparr>ar_done := True\<rparr>)"

definition any_release :: "nat \<Rightarrow> 'a anyresult \<Rightarrow> 'a anyresult" where
  "any_release i a =
     (let a = a\<lparr>ar_refs := ar_refs a - 1\<rparr>
      in ar_set i (if ar_refs a = 0 then ArBump None True else ArEnd) a)"

inductive holder_step :: "'a anyresult \<Rightarrow> 'a anyresult \<Rightarrow> bool" where
  start: "\<lbrakk>i < length (ar_pcs a); ar_pcs a ! i = ArStart\<rbrakk> \<Longrightarrow> holder_step a (any_start i a)"
| empty: "\<lbrakk>i < length (ar_pcs a); ar_pcs a ! i = ArHandler\<rbrakk> \<Longrightarrow> holder_step a (any_nothing i a)"
| result: "\<lbrakk>i < length (ar_pcs a); ar_pcs a ! i = ArHandler\<rbrakk> \<Longrightarrow> holder_step a (any_value i v a)"
| bump: "\<lbrakk>i < length (ar_pcs a); ar_pcs a ! i = ArBump r d\<rbrakk> \<Longrightarrow> holder_step a (any_bump i r d a)"
| deliver: "\<lbrakk>i < length (ar_pcs a); ar_pcs a ! i = ArWrite r d\<rbrakk> \<Longrightarrow> holder_step a (any_write i r d a)"
| wake: "\<lbrakk>i < length (ar_pcs a); ar_pcs a ! i = ArWake d\<rbrakk> \<Longrightarrow> holder_step a (any_wake i d a)"
| release: "\<lbrakk>i < length (ar_pcs a); ar_pcs a ! i = ArRelease\<rbrakk> \<Longrightarrow> holder_step a (any_release i a)"

text \<open>
  The parent returns from \<open>waitForDone\<close> when it is done, or an event ends its wait.
\<close>

definition parent_waits :: "'a anyresult \<Rightarrow> bool" where
  "parent_waits a \<longleftrightarrow> ar_pcs a ! 0 = ArEnd \<and> \<not> ar_returned a"

inductive anyresult_step :: "'a anyresult \<Rightarrow> 'a anyresult \<Rightarrow> bool" where
  holder: "holder_step a b \<Longrightarrow> anyresult_step a b"
| return: "\<lbrakk>parent_waits a; ar_done a\<rbrakk> \<Longrightarrow> anyresult_step a (a\<lparr>ar_returned := True\<rparr>)"

inductive anyresult_event :: "'a anyresult \<Rightarrow> 'a anyresult \<Rightarrow> bool" where
  event: "parent_waits a \<Longrightarrow> anyresult_event a (a\<lparr>ar_returned := True\<rparr>)"

subsection \<open>One holder proceeds\<close>

fun holds_ref :: "'a any_pc \<Rightarrow> bool" where
  "holds_ref (ArBump _ d) = (\<not> d)"
| "holds_ref (ArWrite _ d) = (\<not> d)"
| "holds_ref (ArWake d) = (\<not> d)"
| "holds_ref ArEnd = False"
| "holds_ref _ = True"

fun proceeds :: "'a any_pc \<Rightarrow> bool" where
  "proceeds (ArWrite _ _) = True"
| "proceeds (ArWake _) = True"
| "proceeds _ = False"

definition refs_held :: "'a anyresult \<Rightarrow> nat" where
  "refs_held a = length (filter holds_ref (ar_pcs a))"

definition proceeding :: "'a anyresult \<Rightarrow> nat" where
  "proceeding a = length (filter proceeds (ar_pcs a))"

text \<open>What a holder may propose, or be about to write, or have written.\<close>

definition proposal_ok :: "'a option \<Rightarrow> 'a anyresult \<Rightarrow> bool" where
  "proposal_ok r a \<longleftrightarrow>
     (case r of Some v \<Rightarrow> v \<in> set (ar_values a)
      | None \<Rightarrow> ar_values a = [] \<and> ar_refs a = 0)"

definition pc_ok :: "'a anyresult \<Rightarrow> 'a any_pc \<Rightarrow> bool" where
  "pc_ok a pc \<longleftrightarrow>
     (case pc of ArBump r d \<Rightarrow> (case r of Some v \<Rightarrow> \<not> d \<and> v \<in> set (ar_values a) | None \<Rightarrow> d \<and> ar_refs a = 0)
      | ArWrite r d \<Rightarrow> proposal_ok r a \<and> (r = None \<longleftrightarrow> d)
      | ArWake d \<Rightarrow> proposal_ok (ar_result a) a
      | _ \<Rightarrow> True)"

definition anyresult_inv :: "'a anyresult \<Rightarrow> bool" where
  "anyresult_inv a \<longleftrightarrow>
     ar_refs a = refs_held a \<and>
     proceeding a + (if ar_done a then 1 else 0) = (if ar_counter a = 0 then 0 else 1) \<and>
     (\<forall>pc \<in> set (ar_pcs a). pc_ok a pc) \<and>
     (ar_done a \<longrightarrow> proposal_ok (ar_result a) a) \<and>
     (ar_values a \<noteq> [] \<and> ar_counter a = 0 \<longrightarrow> (\<exists>v. ArBump (Some v) False \<in> set (ar_pcs a))) \<and>
     (ar_refs a = 0 \<and> ar_counter a = 0 \<longrightarrow> ArBump None True \<in> set (ar_pcs a))"

lemma value_proposed:
  "anyresult_inv a \<Longrightarrow> ar_values a \<noteq> [] \<Longrightarrow> ar_counter a = 0 \<Longrightarrow> \<exists>v. ArBump (Some v) False \<in> set (ar_pcs a)"
  unfolding anyresult_inv_def by blast

lemma held_member: "pc \<in> set (ar_pcs a) \<Longrightarrow> holds_ref pc \<Longrightarrow> 0 < refs_held a"
  by (auto simp: refs_held_def filter_empty_conv)

lemma ar_set_fields [simp]:
  "ar_pcs (ar_set i pc a) = (ar_pcs a)[i := pc]" "ar_refs (ar_set i pc a) = ar_refs a"
  "ar_counter (ar_set i pc a) = ar_counter a" "ar_result (ar_set i pc a) = ar_result a"
  "ar_done (ar_set i pc a) = ar_done a" "ar_returned (ar_set i pc a) = ar_returned a"
  "ar_values (ar_set i pc a) = ar_values a" "ar_badHandler (ar_set i pc a) = ar_badHandler a"
  "ar_badWrite (ar_set i pc a) = ar_badWrite a"
  by (simp_all add: ar_set_def)

lemma holder_counts:
  assumes "i < length (ar_pcs a)" "ar_pcs b = (ar_pcs a)[i := pc]"
  shows "refs_held b + (if holds_ref (ar_pcs a ! i) then 1 else 0) = refs_held a + (if holds_ref pc then 1 else 0)"
    and "proceeding b + (if proceeds (ar_pcs a ! i) then 1 else 0) = proceeding a + (if proceeds pc then 1 else 0)"
  using filter_length_update [OF assms(1), of holds_ref pc] filter_length_update [OF assms(1), of proceeds pc] assms(2)
  by (simp_all add: refs_held_def proceeding_def)

lemma pcs_ok_update:
  assumes "\<forall>q \<in> set (ar_pcs a). pc_ok b q" "pc_ok b pc" "ar_pcs b = (ar_pcs a)[i := pc]"
  shows "\<forall>q \<in> set (ar_pcs b). pc_ok b q"
  using assms set_update_subset_insert [of "ar_pcs a" i pc] by auto

lemma pc_ok_mono:
  assumes "pc_ok a q" "ar_result b = ar_result a \<or> (\<forall>d. q \<noteq> ArWake d)"
    "set (ar_values a) \<subseteq> set (ar_values b)" "ar_refs a = 0 \<longrightarrow> ar_refs b = 0 \<and> ar_values b = ar_values a"
  shows "pc_ok b q"
  using assms by (auto simp: pc_ok_def proposal_ok_def split: any_pc.splits option.splits)

lemma proposal_ok_mono:
  assumes "proposal_ok r a" "set (ar_values a) \<subseteq> set (ar_values b)"
    "ar_refs a = 0 \<longrightarrow> ar_refs b = 0 \<and> ar_values b = ar_values a"
  shows "proposal_ok r b"
  using assms by (auto simp: proposal_ok_def split: option.splits)

text \<open>A holder that neither proposes nor proceeds moves on.\<close>

lemma holder_moves:
  assumes inv: "anyresult_inv a" and i: "i < length (ar_pcs a)" "ar_pcs a ! i = p"
    and b: "ar_pcs b = (ar_pcs a)[i := q]" "ar_refs b = ar_refs a" "ar_counter b = ar_counter a"
      "ar_result b = ar_result a" "ar_done b = ar_done a"
    and p: "p = ArStart \<and> q = ArHandler \<and> ar_values b = ar_values a \<or>
      p = ArHandler \<and> q = ArRelease \<and> ar_values b = ar_values a \<or>
      p = ArHandler \<and> q = ArBump (Some v) False \<and> ar_values b = v # ar_values a"
  shows "anyresult_inv b"
proof -
  have "refs_held a > 0"
    unfolding refs_held_def using i p by (intro filter_length_pos [of i]) auto
  then have r: "ar_refs a > 0" using inv by (simp add: anyresult_inv_def)
  have c: "refs_held b = refs_held a" "proceeding b = proceeding a"
    using holder_counts [OF i(1) b(1)] i(2) p by auto
  have vs: "set (ar_values a) \<subseteq> set (ar_values b)" using p by auto
  have "\<forall>pc \<in> set (ar_pcs b). pc_ok b pc"
  proof (rule pcs_ok_update [OF _ _ b(1)])
    show "\<forall>pc \<in> set (ar_pcs a). pc_ok b pc"
      using inv r vs b(4) by (auto simp: anyresult_inv_def intro: pc_ok_mono)
    show "pc_ok b q" using p by (auto simp: pc_ok_def)
  qed
  moreover have "\<exists>v. ArBump (Some v) False \<in> set (ar_pcs b)" if "ar_values b \<noteq> []" "ar_counter b = 0"
  proof (cases "q = ArBump (Some v) False")
    case True
    then show ?thesis using b(1) set_update_memI [OF i(1)] by auto
  next
    case False
    then have "ar_values a \<noteq> []" "ar_counter a = 0" using that b(3) p by auto
    then obtain w where "ArBump (Some w) False \<in> set (ar_pcs a)" using value_proposed [OF inv] by blast
    then have "ArBump (Some w) False \<in> set (ar_pcs b)" unfolding b(1) using i(2) p by (intro set_update_old) auto
    then show ?thesis by blast
  qed
  moreover have "proposal_ok (ar_result b) b" if "ar_done b"
    using inv that b(4,5) vs r by (auto simp: anyresult_inv_def intro: proposal_ok_mono)
  ultimately show ?thesis using inv c b r by (simp add: anyresult_inv_def)
qed

lemma any_bump_inv:
  assumes inv: "anyresult_inv a" and i: "i < length (ar_pcs a)" "ar_pcs a ! i = ArBump r d"
  shows "anyresult_inv (any_bump i r d a)"
proof -
  have ok: "pc_ok a (ArBump r d)" using inv i nth_mem [OF i(1)] by (auto simp: anyresult_inv_def)
  have hl: "holds_ref (after_proceed d) = (\<not> d)" "\<not> proceeds (after_proceed d)" by (simp_all add: after_proceed_def)
  define b where "b = any_bump i r d a"
  define q where "q = (if ar_counter a = 0 then ArWrite r d else after_proceed d)"
  have b: "ar_pcs b = (ar_pcs a)[i := q]" "ar_refs b = ar_refs a" "ar_counter b = Suc (ar_counter a)"
    "ar_result b = ar_result a" "ar_done b = ar_done a" "ar_values b = ar_values a"
    by (simp_all add: b_def q_def any_bump_def Let_def)
  have c: "refs_held b = refs_held a" "proceeding b = proceeding a + (if ar_counter a = 0 then 1 else 0)"
    using holder_counts [OF i(1) b(1)] i(2) hl by (auto simp: q_def split: if_splits)
  have "pc_ok b q"
  proof (cases "ar_counter a = 0")
    case True
    have "ar_values a = []" if "r = None"
    proof (rule ccontr)
      assume "ar_values a \<noteq> []"
      then obtain v where "ArBump (Some v) False \<in> set (ar_pcs a)" using value_proposed [OF inv] True by blast
      then have "refs_held a > 0" by (rule held_member) simp
      moreover have "ar_refs a = 0" using ok that by (auto simp: pc_ok_def)
      ultimately show False using inv by (simp add: anyresult_inv_def)
    qed
    then show ?thesis using ok True b
      by (auto simp: q_def pc_ok_def proposal_ok_def split: option.splits)
  next
    case False
    then show ?thesis by (simp add: q_def pc_ok_def after_proceed_def)
  qed
  moreover have "\<forall>pc \<in> set (ar_pcs a). pc_ok b pc"
    using inv b by (auto simp: anyresult_inv_def intro: pc_ok_mono)
  ultimately have "\<forall>pc \<in> set (ar_pcs b). pc_ok b pc" using pcs_ok_update b(1) by blast
  moreover have "ar_done b \<longrightarrow> proposal_ok (ar_result b) b"
    using inv b by (auto simp: anyresult_inv_def intro: proposal_ok_mono)
  ultimately show ?thesis using inv b c unfolding b_def [symmetric]
    by (auto simp: anyresult_inv_def split: if_splits)
qed

lemma any_write_inv:
  assumes inv: "anyresult_inv a" and i: "i < length (ar_pcs a)" "ar_pcs a ! i = ArWrite r d"
  shows "anyresult_inv (any_write i r d a)"
proof -
  define b where "b = any_write i r d a"
  have b: "ar_pcs b = (ar_pcs a)[i := ArWake d]" "ar_refs b = ar_refs a" "ar_counter b = ar_counter a"
    "ar_result b = r" "ar_done b = ar_done a" "ar_values b = ar_values a"
    by (simp_all add: b_def any_write_def)
  have c: "refs_held b = refs_held a" "proceeding b = proceeding a"
    using holder_counts [OF i(1) b(1)] i(2) by auto
  have p: "0 < proceeding a" unfolding proceeding_def using i by (intro filter_length_pos [of i]) auto
  then have one: "proceeding a = 1" "\<not> ar_done a" "ar_counter a \<noteq> 0"
    using inv by (auto simp: anyresult_inv_def split: if_splits)
  have ok: "pc_ok a (ArWrite r d)" using inv i nth_mem [OF i(1)] by (auto simp: anyresult_inv_def)
  have "\<forall>pc \<in> set (ar_pcs b). pc_ok b pc"
  proof
    fix pc assume "pc \<in> set (ar_pcs b)"
    then have "pc = ArWake d \<or> pc \<in> set (ar_pcs a)"
      using b(1) set_update_subset_insert [of "ar_pcs a" i "ArWake d"] by auto
    moreover have "pc_ok b (ArWake e)" for e using ok b by (auto simp: pc_ok_def proposal_ok_def split: option.splits)
    moreover have "pc_ok b pc" if "pc \<in> set (ar_pcs a)" "\<forall>e. pc \<noteq> ArWake e"
      using inv that b by (auto simp: anyresult_inv_def intro: pc_ok_mono)
    ultimately show "pc_ok b pc" by blast
  qed
  then show ?thesis using inv b c one unfolding b_def [symmetric] by (simp add: anyresult_inv_def)
qed

lemma any_wake_inv:
  assumes inv: "anyresult_inv a" and i: "i < length (ar_pcs a)" "ar_pcs a ! i = ArWake d"
  shows "anyresult_inv (any_wake i d a)"
proof -
  have hl: "holds_ref (after_proceed d) = (\<not> d)" "\<not> proceeds (after_proceed d)" by (simp_all add: after_proceed_def)
  define b where "b = any_wake i d a"
  have b: "ar_pcs b = (ar_pcs a)[i := after_proceed d]" "ar_refs b = ar_refs a" "ar_counter b = ar_counter a"
    "ar_result b = ar_result a" "ar_done b" "ar_values b = ar_values a"
    by (simp_all add: b_def any_wake_def)
  have p: "0 < proceeding a" unfolding proceeding_def using i by (intro filter_length_pos [of i]) auto
  then have one: "proceeding a = 1" "\<not> ar_done a" "ar_counter a \<noteq> 0"
    using inv by (auto simp: anyresult_inv_def split: if_splits)
  have c: "refs_held b = refs_held a" "proceeding b = 0"
    using holder_counts [OF i(1) b(1)] i(2) hl one by (auto split: if_splits)
  have ok: "pc_ok a (ArWake d)" using inv i nth_mem [OF i(1)] by (auto simp: anyresult_inv_def)
  have "pc_ok b (after_proceed d)" by (simp add: pc_ok_def after_proceed_def)
  moreover have "\<forall>pc \<in> set (ar_pcs a). pc_ok b pc"
    using inv b by (auto simp: anyresult_inv_def intro: pc_ok_mono)
  ultimately have "\<forall>pc \<in> set (ar_pcs b). pc_ok b pc" using pcs_ok_update b(1) by blast
  moreover have "proposal_ok (ar_result b) b" using ok b by (auto simp: pc_ok_def proposal_ok_def split: option.splits)
  ultimately show ?thesis using inv b c one unfolding b_def [symmetric] by (simp add: anyresult_inv_def)
qed

lemma any_release_inv:
  assumes inv: "anyresult_inv a" and i: "i < length (ar_pcs a)" "ar_pcs a ! i = ArRelease"
  shows "anyresult_inv (any_release i a)"
proof -
  define b where "b = any_release i a"
  define q :: "'a any_pc" where "q = (if ar_refs a - 1 = 0 then ArBump None True else ArEnd)"
  have b: "ar_pcs b = (ar_pcs a)[i := q]" "ar_refs b = ar_refs a - 1" "ar_counter b = ar_counter a"
    "ar_result b = ar_result a" "ar_done b = ar_done a" "ar_values b = ar_values a"
    by (simp_all add: b_def q_def any_release_def Let_def)
  have r: "0 < refs_held a" "ar_refs a = refs_held a"
    using held_member [OF nth_mem [OF i(1)]] i(2) inv by (simp_all add: anyresult_inv_def)
  have c: "Suc (refs_held b) = refs_held a" "proceeding b = proceeding a"
    using holder_counts [OF i(1) b(1)] i(2) by (auto simp: q_def split: if_splits)
  have "\<forall>pc \<in> set (ar_pcs b). pc_ok b pc"
  proof (rule pcs_ok_update [OF _ _ b(1)])
    show "\<forall>pc \<in> set (ar_pcs a). pc_ok b pc"
      using inv b by (auto simp: anyresult_inv_def intro: pc_ok_mono)
    show "pc_ok b q" using b(2) by (simp add: q_def pc_ok_def)
  qed
  moreover have "\<exists>v. ArBump (Some v) False \<in> set (ar_pcs b)" if "ar_values b \<noteq> []" "ar_counter b = 0"
  proof -
    have "ar_values a \<noteq> []" "ar_counter a = 0" using that unfolding b(3,6) by simp_all
    then obtain v where "ArBump (Some v) False \<in> set (ar_pcs a)" using value_proposed [OF inv] by blast
    then have "ArBump (Some v) False \<in> set (ar_pcs b)" unfolding b(1) using i(2) by (intro set_update_old) auto
    then show ?thesis by blast
  qed
  moreover have "ArBump None True \<in> set (ar_pcs b)" if "ar_refs b = 0"
    using that b(1,2) set_update_memI [OF i(1), of "ArBump None True"] by (simp add: q_def)
  moreover have "ar_done b \<longrightarrow> proposal_ok (ar_result b) b"
    using inv b by (auto simp: anyresult_inv_def intro: proposal_ok_mono)
  ultimately show ?thesis using inv b c r unfolding b_def [symmetric] by (simp add: anyresult_inv_def)
qed

lemma holder_step_inv:
  assumes "holder_step a b" "anyresult_inv a"
  shows "anyresult_inv b"
  using assms(1)
proof cases
  case (start i)
  then show ?thesis using holder_moves [OF assms(2) start(2,3), of b ArHandler] by (simp add: any_start_def)
next
  case (empty i)
  then show ?thesis using holder_moves [OF assms(2) empty(2,3), of b ArRelease] by (simp add: any_nothing_def)
next
  case (result i v)
  then show ?thesis using holder_moves [OF assms(2) result(2,3), of b "ArBump (Some v) False" v] by (simp add: any_value_def)
next
  case bump
  then show ?thesis using any_bump_inv assms(2) by blast
next
  case deliver
  then show ?thesis using any_write_inv assms(2) by blast
next
  case wake
  then show ?thesis using any_wake_inv assms(2) by blast
next
  case release
  then show ?thesis using any_release_inv assms(2) by blast
qed

definition anyresult_ok :: "'a anyresult \<Rightarrow> bool" where
  "anyresult_ok a \<longleftrightarrow> anyresult_inv a \<and> ar_pcs a \<noteq> [] \<and> \<not> ar_badWrite a \<and> (ar_returned a \<longrightarrow> ar_done a)"

lemma holder_step_kept:
  assumes "holder_step a b"
  shows "length (ar_pcs b) = length (ar_pcs a)" "ar_returned b = ar_returned a"
    "ar_done a \<Longrightarrow> ar_done b"
  using assms
  by (cases; simp add: any_start_def any_nothing_def any_value_def any_bump_def any_write_def
      any_wake_def any_release_def Let_def)+

lemma holder_step_badWrite:
  assumes "holder_step a b" "anyresult_ok a"
  shows "\<not> ar_badWrite b"
  using assms(1)
proof cases
  case (deliver i r d)
  have "0 < proceeding a" unfolding proceeding_def using deliver by (intro filter_length_pos [of i]) auto
  then have "\<not> ar_done a" using assms(2) by (auto simp: anyresult_ok_def anyresult_inv_def split: if_splits)
  then show ?thesis using deliver assms(2) by (simp add: any_write_def anyresult_ok_def)
qed (use assms(2) in \<open>simp_all add: anyresult_ok_def any_start_def any_nothing_def any_value_def
      any_bump_def any_wake_def any_release_def Let_def\<close>)

lemma anyresult_step_ok:
  assumes "anyresult_ok a" "anyresult_step a b"
  shows "anyresult_ok b"
  using assms(2)
proof cases
  case holder
  have "ar_pcs b \<noteq> []" using holder_step_kept(1) [OF holder] assms(1) by (auto simp: anyresult_ok_def)
  then show ?thesis
    using holder_step_kept [OF holder] holder_step_inv [OF holder] holder_step_badWrite [OF holder assms(1)] assms(1)
    by (auto simp: anyresult_ok_def)
next
  case return
  have p: "proposal_ok r (a\<lparr>ar_returned := True\<rparr>) = proposal_ok r a" for r
    by (cases r) (simp_all add: proposal_ok_def)
  have "pc_ok (a\<lparr>ar_returned := True\<rparr>) pc = pc_ok a pc" for pc
    by (cases pc) (simp_all add: pc_ok_def p split: option.split)
  then have "anyresult_inv (a\<lparr>ar_returned := True\<rparr>) = anyresult_inv a"
    by (simp add: p anyresult_inv_def refs_held_def proceeding_def)
  then show ?thesis using assms(1) return by (simp add: anyresult_ok_def)
qed

lemma goAnyResult_ok: "a = goAnyResult n \<Longrightarrow> anyresult_ok a"
proof -
  have "filter holds_ref (replicate n ArStart) = replicate n ArStart" "filter proceeds (replicate n ArStart) = []"
    by (induction n) simp_all
  then show "anyresult_ok a" if "a = goAnyResult n"
    using that by (auto simp: anyresult_ok_def anyresult_inv_def goAnyResult_def refs_held_def
        proceeding_def pc_ok_def)
qed

interpretation anyresult: step_system "\<lambda>a. a = goAnyResult n" anyresult_step anyresult_ok for n
  by unfold_locales (blast intro: goAnyResult_ok anyresult_step_ok)+

text \<open>C29: When no event interrupts the parent, \<open>goAnyResult\<close> returns a value one of the handlers
  returned, or an empty result when every child has ended and none returned a value; the result
  is written while its frame is there, in every interleaving of the children.\<close>

theorem anyResult_first:
  assumes "anyresult_step\<^sup>*\<^sup>* (goAnyResult n) a" "ar_returned a"
  shows "\<not> ar_badWrite a \<and>
    (case ar_result a of Some v \<Rightarrow> v \<in> set (ar_values a) | None \<Rightarrow> ar_values a = [] \<and> refs_held a = 0)"
proof -
  have "anyresult_ok a" using anyresult.inv_reachable [OF refl assms(1)] .
  then show ?thesis using assms(2)
    by (auto simp: anyresult_ok_def anyresult_inv_def proposal_ok_def split: option.splits)
qed

lemma holder_live: "i < length (ar_pcs a) \<Longrightarrow> ar_pcs a ! i \<noteq> ArEnd \<Longrightarrow> \<exists>b. holder_step a b"
  by (cases "ar_pcs a ! i") (blast intro: holder_step.intros)+

text \<open>\<open>goAnyResult\<close> is never stuck, also when no handler returns a value, when all of them
  throw, or when there is none: some child can go on, or the parent can return.\<close>

theorem anyResult_not_stuck:
  assumes "anyresult_step\<^sup>*\<^sup>* (goAnyResult n) a" "\<not> ar_returned a"
  shows "\<exists>b. anyresult_step a b"
proof (cases "\<forall>pc \<in> set (ar_pcs a). pc = ArEnd")
  case False
  then obtain i where "i < length (ar_pcs a)" "ar_pcs a ! i \<noteq> ArEnd" by (auto simp: in_set_conv_nth)
  then show ?thesis using holder_live anyresult_step.holder by blast
next
  case True
  have ok: "anyresult_ok a" using anyresult.inv_reachable [OF refl assms(1)] .
  have "refs_held a = 0" "proceeding a = 0"
    using True by (auto simp: refs_held_def proceeding_def filter_empty_conv)
  moreover have "ArBump None True \<notin> set (ar_pcs a)" using True by auto
  ultimately have "ar_done a" using ok by (auto simp: anyresult_ok_def anyresult_inv_def split: if_splits)
  moreover have "parent_waits a"
    using True ok assms(2) nth_mem [of 0 "ar_pcs a"] by (auto simp: parent_waits_def anyresult_ok_def)
  ultimately show ?thesis using anyresult_step.return by blast
qed

subsection \<open>A run\<close>

abbreviation ars :: "nat any_pc list \<Rightarrow> nat \<Rightarrow> nat \<Rightarrow> nat option \<Rightarrow> bool \<Rightarrow> bool \<Rightarrow> nat list \<Rightarrow> bool \<Rightarrow> bool \<Rightarrow> nat anyresult" where
  "ars pcs refs k r d ret vs bh bw \<equiv>
     \<lparr>ar_pcs = pcs, ar_refs = refs, ar_counter = k, ar_result = r, ar_done = d, ar_returned = ret,
      ar_values = vs, ar_badHandler = bh, ar_badWrite = bw\<rparr>"

lemmas any_eval = goAnyResult_def ar_set_def any_start_def any_nothing_def any_value_def any_bump_def
  any_write_def any_wake_def any_release_def after_proceed_def parent_waits_def

text \<open>One child; its frame may be gone (\<open>ret\<close>) before it starts.\<close>

lemma one_child_first:
  "anyresult_step\<^sup>*\<^sup>* (goAnyResult 1) (ars [ArEnd, ArStart] 1 0 None False False [] False False)"
  using anyresult_step.holder [OF holder_step.release, of 0 "goAnyResult 1 :: nat anyresult"]
  by (intro r_into_rtranclp) (simp add: any_eval)

lemma one_child_delivers:
  "anyresult_step\<^sup>*\<^sup>* (ars [ArEnd, ArStart] 1 0 None False ret [] False False)
     (ars [ArEnd, ArRelease] 1 1 (Some 5) True ret [5] ret ret)"
proof -
  have "anyresult_step (ars [ArEnd, ArStart] 1 0 None False ret [] False False)
      (ars [ArEnd, ArHandler] 1 0 None False ret [] ret False)"
    using anyresult_step.holder [OF holder_step.start, of 1 "ars [ArEnd, ArStart] 1 0 None False ret [] False False"]
    by (simp add: any_eval)
  moreover have "anyresult_step (ars [ArEnd, ArHandler] 1 0 None False ret [] ret False)
      (ars [ArEnd, ArBump (Some 5) False] 1 0 None False ret [5] ret False)"
    using anyresult_step.holder [OF holder_step.result, of 1 "ars [ArEnd, ArHandler] 1 0 None False ret [] ret False" 5]
    by (simp add: any_eval)
  moreover have "anyresult_step (ars [ArEnd, ArBump (Some 5) False] 1 0 None False ret [5] ret False)
      (ars [ArEnd, ArWrite (Some 5) False] 1 1 None False ret [5] ret False)"
    using anyresult_step.holder [OF holder_step.bump, of 1 "ars [ArEnd, ArBump (Some 5) False] 1 0 None False ret [5] ret False" "Some 5" False]
    by (simp add: any_eval)
  moreover have "anyresult_step (ars [ArEnd, ArWrite (Some 5) False] 1 1 None False ret [5] ret False)
      (ars [ArEnd, ArWake False] 1 1 (Some 5) False ret [5] ret ret)"
    using anyresult_step.holder [OF holder_step.deliver, of 1 "ars [ArEnd, ArWrite (Some 5) False] 1 1 None False ret [5] ret False" "Some 5" False]
    by (simp add: any_eval)
  moreover have "anyresult_step (ars [ArEnd, ArWake False] 1 1 (Some 5) False ret [5] ret ret)
      (ars [ArEnd, ArRelease] 1 1 (Some 5) True ret [5] ret ret)"
    using anyresult_step.holder [OF holder_step.wake, of 1 "ars [ArEnd, ArWake False] 1 1 (Some 5) False ret [5] ret ret" False]
    by (simp add: any_eval)
  ultimately show ?thesis by (meson converse_rtranclp_into_rtranclp rtranclp.rtrancl_refl)
qed

lemma anyResult_first_witness:
  "\<exists>a. anyresult_step\<^sup>*\<^sup>* (goAnyResult 1) a \<and> ar_returned a \<and> ar_result a = Some (5::nat) \<and> 5 \<in> set (ar_values a)"
proof -
  let ?a = "ars [ArEnd, ArRelease] 1 1 (Some 5) True True [5] False False"
  have "anyresult_step (ars [ArEnd, ArRelease] 1 1 (Some 5) True False [5] False False) ?a"
    using anyresult_step.return [of "ars [ArEnd, ArRelease] 1 1 (Some 5) True False [5] False False"]
    by (simp add: any_eval)
  then have r: "anyresult_step\<^sup>*\<^sup>* (goAnyResult 1) ?a"
    using one_child_first one_child_delivers [of False] by (meson rtranclp.rtrancl_into_rtrancl rtranclp_trans)
  from anyResult_first [OF r] have "5 \<in> set (ar_values ?a)" by simp
  with r show ?thesis by (intro exI [of _ ?a]) simp
qed

lemma anyResult_not_stuck_witness: "\<exists>b. anyresult_step (goAnyResult 0 :: nat anyresult) b"
  by (rule anyResult_not_stuck [OF rtranclp.rtrancl_refl]) (simp add: goAnyResult_def)

text \<open>When an event interrupts the parent of \<open>goAnyResult\<close>, a child calls its handler and
  writes its result through references into a frame that is gone.\<close>

theorem anyResult_interrupted_dangles:
  "\<exists>a b c. anyresult_step\<^sup>*\<^sup>* (goAnyResult 1) a \<and> anyresult_event a b \<and> anyresult_step\<^sup>*\<^sup>* b c \<and>
     ar_badHandler c \<and> ar_badWrite c \<and> ar_result c = Some (5::nat)"
proof -
  have "anyresult_event (ars [ArEnd, ArStart] 1 0 None False False [] False False)
      (ars [ArEnd, ArStart] 1 0 None False True [] False False)"
    using anyresult_event.event [of "ars [ArEnd, ArStart] 1 0 None False False [] False False"]
    by (simp add: any_eval)
  with one_child_first one_child_delivers [of True] show ?thesis
    by (intro exI [of _ "ars [ArEnd, ArStart] 1 0 None False False [] False False"]
        exI [of _ "ars [ArEnd, ArStart] 1 0 None False True [] False False"]
        exI [of _ "ars [ArEnd, ArRelease] 1 1 (Some 5) True True [5] True True"]) simp
qed

section \<open>goWait\<close>

text \<open>
  The shared object of \<open>goWait\<close> only proceeds when its last reference goes. Holder 0 is again the
  parent's lambda.
\<close>

datatype gw_pc = GwStart | GwHandler | GwRelease | GwWake | GwEnd

record gowait =
  gw_pcs :: "gw_pc list"
  gw_refs :: nat
  gw_done :: bool
  gw_returned :: bool
  gw_bad :: bool

definition goWait :: "nat \<Rightarrow> gowait" where
  "goWait n = \<lparr>gw_pcs = GwRelease # replicate n GwStart, gw_refs = Suc n, gw_done = False,
     gw_returned = False, gw_bad = False\<rparr>"

definition gw_set :: "nat \<Rightarrow> gw_pc \<Rightarrow> gowait \<Rightarrow> gowait" where
  "gw_set i pc g = g\<lparr>gw_pcs := (gw_pcs g)[i := pc]\<rparr>"

text \<open>\<open>handler()\<close> through the reference, its end, and the end of the journey.\<close>

definition gw_call :: "nat \<Rightarrow> gowait \<Rightarrow> gowait" where
  "gw_call i g = gw_set i GwHandler (g\<lparr>gw_bad := gw_bad g \<or> gw_returned g\<rparr>)"

definition gw_release :: "nat \<Rightarrow> gowait \<Rightarrow> gowait" where
  "gw_release i g =
     (let g = g\<lparr>gw_refs := gw_refs g - 1\<rparr> in gw_set i (if gw_refs g = 0 then GwWake else GwEnd) g)"

definition gw_proceed :: "nat \<Rightarrow> gowait \<Rightarrow> gowait" where
  "gw_proceed i g = gw_set i GwEnd (g\<lparr>gw_done := True\<rparr>)"

inductive gw_holder :: "gowait \<Rightarrow> gowait \<Rightarrow> bool" where
  call: "\<lbrakk>i < length (gw_pcs g); gw_pcs g ! i = GwStart\<rbrakk> \<Longrightarrow> gw_holder g (gw_call i g)"
| ended: "\<lbrakk>i < length (gw_pcs g); gw_pcs g ! i = GwHandler\<rbrakk> \<Longrightarrow> gw_holder g (gw_set i GwRelease g)"
| release: "\<lbrakk>i < length (gw_pcs g); gw_pcs g ! i = GwRelease\<rbrakk> \<Longrightarrow> gw_holder g (gw_release i g)"
| wake: "\<lbrakk>i < length (gw_pcs g); gw_pcs g ! i = GwWake\<rbrakk> \<Longrightarrow> gw_holder g (gw_proceed i g)"

inductive gowait_step :: "gowait \<Rightarrow> gowait \<Rightarrow> bool" where
  holder: "gw_holder g h \<Longrightarrow> gowait_step g h"
| return: "\<lbrakk>gw_pcs g ! 0 = GwEnd; gw_done g; \<not> gw_returned g\<rbrakk> \<Longrightarrow> gowait_step g (g\<lparr>gw_returned := True\<rparr>)"

inductive gowait_event :: "gowait \<Rightarrow> gowait \<Rightarrow> bool" where
  event: "\<lbrakk>gw_pcs g ! 0 = GwEnd; \<not> gw_returned g\<rbrakk> \<Longrightarrow> gowait_event g (g\<lparr>gw_returned := True\<rparr>)"

definition gw_holds :: "gw_pc \<Rightarrow> bool" where
  "gw_holds pc \<longleftrightarrow> pc = GwStart \<or> pc = GwHandler \<or> pc = GwRelease"

definition gowait_inv :: "gowait \<Rightarrow> bool" where
  "gowait_inv g \<longleftrightarrow> gw_pcs g \<noteq> [] \<and> gw_refs g = length (filter gw_holds (gw_pcs g)) \<and>
     (gw_done g \<longrightarrow> gw_refs g = 0) \<and> (gw_returned g \<longrightarrow> gw_done g) \<and> \<not> gw_bad g \<and>
     (gw_refs g \<noteq> 0 \<longrightarrow> GwWake \<notin> set (gw_pcs g)) \<and>
     (gw_refs g = 0 \<and> \<not> gw_done g \<longrightarrow> GwWake \<in> set (gw_pcs g))"

lemma gw_set_fields [simp]:
  "gw_pcs (gw_set i pc g) = (gw_pcs g)[i := pc]" "gw_refs (gw_set i pc g) = gw_refs g"
  "gw_done (gw_set i pc g) = gw_done g" "gw_returned (gw_set i pc g) = gw_returned g"
  "gw_bad (gw_set i pc g) = gw_bad g"
  by (simp_all add: gw_set_def)

lemma gw_holds_pos:
  "gowait_inv g \<Longrightarrow> i < length (gw_pcs g) \<Longrightarrow> gw_holds (gw_pcs g ! i) \<Longrightarrow> 0 < gw_refs g \<and> \<not> gw_done g \<and> \<not> gw_returned g"
  using filter_length_pos [of i "gw_pcs g" gw_holds] by (auto simp: gowait_inv_def)

lemma gw_update:
  assumes "i < length (gw_pcs g)" "pc \<noteq> GwWake" "GwWake \<notin> set (gw_pcs g)"
  shows "GwWake \<notin> set ((gw_pcs g)[i := pc])"
  using assms set_update_subset_insert [of "gw_pcs g" i pc] by auto

lemma gw_holder_inv:
  assumes "gw_holder g h" "gowait_inv g"
  shows "gowait_inv h"
  using assms(1)
proof cases
  case (call i)
  then show ?thesis
    using gw_holds_pos [OF assms(2) call(2)] gw_update [OF call(2), of GwHandler] assms(2)
      filter_length_update [OF call(2), of gw_holds GwHandler]
    by (simp add: gowait_inv_def gw_call_def gw_holds_def)
next
  case (ended i)
  then show ?thesis
    using gw_holds_pos [OF assms(2) ended(2)] gw_update [OF ended(2), of GwRelease] assms(2)
      filter_length_update [OF ended(2), of gw_holds GwRelease]
    by (simp add: gowait_inv_def gw_holds_def)
next
  case (release i)
  define pc where "pc = (if gw_refs g - 1 = 0 then GwWake else GwEnd)"
  have pos: "0 < gw_refs g" "\<not> gw_done g" "\<not> gw_returned g"
    using gw_holds_pos [OF assms(2) release(2)] release(3) by (simp_all add: gw_holds_def)
  have h: "gw_pcs h = (gw_pcs g)[i := pc]" "gw_refs h = gw_refs g - 1" "gw_done h = gw_done g"
    "gw_returned h = gw_returned g" "gw_bad h = gw_bad g"
    using release(1) by (simp_all add: gw_release_def pc_def Let_def)
  have "Suc (length (filter gw_holds (gw_pcs h))) = length (filter gw_holds (gw_pcs g))"
    using filter_length_update [OF release(2), of gw_holds pc] release(3) h(1)
    by (simp add: gw_holds_def pc_def split: if_splits)
  moreover have "GwWake \<in> set (gw_pcs h)" if "gw_refs h = 0"
    using that h(1,2) set_update_memI [OF release(2), of GwWake] by (simp add: pc_def)
  moreover have "GwWake \<notin> set (gw_pcs h)" if "gw_refs h \<noteq> 0"
    using that h(1,2) gw_update [OF release(2), of pc] assms(2) pos by (simp add: pc_def gowait_inv_def)
  ultimately show ?thesis using assms(2) pos h by (simp add: gowait_inv_def)
next
  case (wake i)
  have "gw_refs g = 0" using nth_mem [OF wake(2)] wake(3) assms(2) by (auto simp: gowait_inv_def)
  then show ?thesis
    using wake assms(2) filter_length_update [OF wake(2), of gw_holds GwEnd]
    by (simp add: gowait_inv_def gw_proceed_def gw_holds_def)
qed

inductive_cases gowait_stepE: "gowait_step g h"

lemma gowait_step_inv: "gowait_inv g \<Longrightarrow> gowait_step g h \<Longrightarrow> gowait_inv h"
  by (elim gowait_stepE) (blast intro: gw_holder_inv, auto simp: gowait_inv_def)

lemma goWait_inv: "g = goWait n \<Longrightarrow> gowait_inv g"
  by (induction n arbitrary: g) (auto simp: gowait_inv_def goWait_def gw_holds_def)

interpretation gowait: step_system "\<lambda>g. g = goWait n" gowait_step gowait_inv for n
  by unfold_locales (blast intro: goWait_inv gowait_step_inv)+

text \<open>When no event interrupts it, \<open>goWait\<close> returns only after every handler has ended,
  and no handler is called after that.\<close>

theorem goWait_waits_for_all:
  assumes "gowait_step\<^sup>*\<^sup>* (goWait n) g"
  shows "\<not> gw_bad g \<and> (gw_returned g \<longrightarrow> set (gw_pcs g) \<subseteq> {GwWake, GwEnd})"
proof -
  have inv: "gowait_inv g" using gowait.inv_reachable [OF refl assms] .
  have "pc \<in> {GwWake, GwEnd}" if "gw_returned g" "pc \<in> set (gw_pcs g)" for pc
    using inv that by (cases pc) (auto simp: gowait_inv_def gw_holds_def filter_empty_conv)
  with inv show ?thesis by (auto simp: gowait_inv_def)
qed

lemma goWait_waits_for_all_witness:
  "\<not> gw_bad (gw_call 1 (goWait 1))"
proof -
  have "gowait_step\<^sup>*\<^sup>* (goWait 1) (gw_call 1 (goWait 1))"
    by (intro r_into_rtranclp gowait_step.holder gw_holder.call) (simp_all add: goWait_def)
  from goWait_waits_for_all [OF this] show ?thesis by blast
qed

text \<open>Interrupted by an event, it leaves children that call handlers of a frame that is gone.\<close>

lemma goWait_interrupted_dangles:
  "\<exists>g h k. gowait_step\<^sup>*\<^sup>* (goWait 1) g \<and> gowait_event g h \<and> gowait_step h k \<and> gw_bad k"
proof -
  let ?g = "gw_release 0 (goWait 1)"
  have "gowait_step\<^sup>*\<^sup>* (goWait 1) ?g"
    by (intro r_into_rtranclp gowait_step.holder gw_holder.release) (simp_all add: goWait_def)
  moreover have "gowait_event ?g (?g\<lparr>gw_returned := True\<rparr>)"
    by (rule gowait_event.event) (simp_all add: gw_release_def goWait_def)
  moreover have "gowait_step (?g\<lparr>gw_returned := True\<rparr>) (gw_call 1 (?g\<lparr>gw_returned := True\<rparr>))"
    by (intro gowait_step.holder gw_holder.call) (simp_all add: gw_release_def goWait_def)
  moreover have "gw_bad (gw_call 1 (?g\<lparr>gw_returned := True\<rparr>))" by (simp add: gw_call_def)
  ultimately show ?thesis by blast
qed

end
