(* ===== verification/Timers.thy ===== *)
theory Timers
  imports Oers
begin

text \<open>
  Timers (\<open>src/core.cpp\<close>): \<open>Timer\<close> starts a journey after a period, \<open>Timeout\<close> raises the timeout
  event on the journey whose scope it is in, and \<open>sleepa\<close> waits. All three are on
  \<open>boost::asio::deadline_timer\<close>, modelled by its documented behaviour: when the time comes the
  handlers of all pending waits are queued with success; \<open>cancel_one\<close>, a new expiry time and the
  destructor end pending waits with an error, and have no effect on handlers already queued.
  When the time comes is not under the control of the code, so that it is a step of the model.
\<close>

section \<open>deadline_timer\<close>

record 'h deadline =
  dl_waits :: "'h list"
  dl_ready :: "'h list"

definition dl_new :: "'h deadline" where
  "dl_new = \<lparr>dl_waits = [], dl_ready = []\<rparr>"

definition dl_async_wait :: "'h \<Rightarrow> 'h deadline \<Rightarrow> 'h deadline" where
  "dl_async_wait h t = t\<lparr>dl_waits := dl_waits t @ [h]\<rparr>"

definition dl_expires_from_now :: "'h deadline \<Rightarrow> 'h deadline" where
  "dl_expires_from_now t = t\<lparr>dl_waits := []\<rparr>"

definition dl_cancel_one :: "'h deadline \<Rightarrow> 'h deadline" where
  "dl_cancel_one t = t\<lparr>dl_waits := tl (dl_waits t)\<rparr>"

definition dl_destroy :: "'h deadline \<Rightarrow> 'h deadline" where
  "dl_destroy t = t\<lparr>dl_waits := []\<rparr>"

definition dl_expire :: "'h deadline \<Rightarrow> 'h deadline" where
  "dl_expire t = \<lparr>dl_waits = [], dl_ready = dl_ready t @ dl_waits t\<rparr>"

lemmas dl_defs = dl_new_def dl_async_wait_def dl_expires_from_now_def dl_cancel_one_def
  dl_destroy_def dl_expire_def

section \<open>Timer\<close>

text \<open>
  \<open>tm_impl\<close> is false after \<open>detach\<close>; \<open>tm_armed\<close> and \<open>tm_started\<close> record the handlers given to
  \<open>reset\<close> and those started with \<open>go\<close>.
\<close>

record 'h timer =
  tm_deadline :: "'h deadline"
  tm_impl :: bool
  tm_armed :: "'h list"
  tm_started :: "'h list"

definition timer_new :: "'h timer" where
  "timer_new = \<lparr>tm_deadline = dl_new, tm_impl = True, tm_armed = [], tm_started = []\<rparr>"

definition timer_arm :: "'h \<Rightarrow> 'h timer \<Rightarrow> 'h timer" where
  "timer_arm h t = t\<lparr>tm_deadline := dl_async_wait h (dl_expires_from_now (tm_deadline t)),
                     tm_armed := tm_armed t @ [h]\<rparr>"

definition timer_reset :: "'h timer \<Rightarrow> 'h timer" where
  "timer_reset t = t\<lparr>tm_deadline := dl_cancel_one (tm_deadline t)\<rparr>"

definition timer_detach :: "'h timer \<Rightarrow> 'h timer" where
  "timer_detach t = t\<lparr>tm_deadline := dl_destroy (tm_deadline t), tm_impl := False\<rparr>"

definition timer_dtor :: "'h timer \<Rightarrow> 'h timer" where
  "timer_dtor t = timer_detach (if tm_impl t then timer_reset t else t)"

text \<open>The time comes; and the scheduler runs a queued handler, which calls \<open>go\<close>.\<close>

definition timer_expire :: "'h timer \<Rightarrow> 'h timer" where
  "timer_expire t = t\<lparr>tm_deadline := dl_expire (tm_deadline t)\<rparr>"

definition timer_run :: "'h timer \<Rightarrow> 'h timer" where
  "timer_run t =
     (case dl_ready (tm_deadline t) of
        [] \<Rightarrow> t
      | h # rest \<Rightarrow> t\<lparr>tm_deadline := (tm_deadline t)\<lparr>dl_ready := rest\<rparr>, tm_started := tm_started t @ [h]\<rparr>)"

inductive timer_passes :: "'h timer \<Rightarrow> 'h timer \<Rightarrow> bool" where
  expire: "timer_passes t (timer_expire t)"
| run: "timer_passes t (timer_run t)"

inductive timer_step :: "'h timer \<Rightarrow> 'h timer \<Rightarrow> bool" where
  passes: "timer_passes t u \<Longrightarrow> timer_step t u"
| arm: "tm_impl t \<Longrightarrow> timer_step t (timer_arm h t)"
| reset: "tm_impl t \<Longrightarrow> timer_step t (timer_reset t)"
| detach: "timer_step t (timer_detach t)"
| dtor: "timer_step t (timer_dtor t)"

definition timer_inv :: "'h timer \<Rightarrow> bool" where
  "timer_inv t \<longleftrightarrow> length (dl_waits (tm_deadline t)) \<le> 1 \<and> (\<not> tm_impl t \<longrightarrow> dl_waits (tm_deadline t) = []) \<and>
     subseq (tm_started t @ dl_ready (tm_deadline t) @ dl_waits (tm_deadline t)) (tm_armed t)"

lemma subseq_drop_end: "subseq (xs @ ys) zs \<Longrightarrow> subseq xs zs"
  by (metis subseq_order.order_trans subseq_rev_drop_many subseq_order.order_refl)

lemma timer_idle: "timer_inv t \<Longrightarrow> dl_waits (dl_cancel_one (tm_deadline t)) = []"
  by (cases "dl_waits (tm_deadline t)") (auto simp: timer_inv_def dl_cancel_one_def)

lemma timer_dropped:
  assumes "timer_inv t"
  shows "subseq (tm_started t @ dl_ready (tm_deadline t)) (tm_armed t)"
  using assms subseq_drop_end [of "tm_started t @ dl_ready (tm_deadline t)" "dl_waits (tm_deadline t)" "tm_armed t"]
  by (simp add: timer_inv_def)

lemma timer_passes_inv:
  assumes "timer_passes t u" "timer_inv t"
  shows "timer_inv u"
  using assms(1)
proof cases
  case expire
  then show ?thesis using assms(2) by (simp add: timer_inv_def timer_expire_def dl_expire_def)
next
  case run
  then show ?thesis using assms(2) by (auto simp: timer_inv_def timer_run_def split: list.split)
qed

lemma timer_step_inv:
  assumes "timer_inv t" "timer_step t u"
  shows "timer_inv u"
  using assms(2)
proof cases
  case passes
  then show ?thesis using assms(1) by (rule timer_passes_inv)
next
  case (arm h)
  have "subseq (tm_started t @ dl_ready (tm_deadline t) @ [h]) (tm_armed t @ [h])"
    using list_emb_append_mono [OF timer_dropped [OF assms(1)], of "[h]" "[h]"] by simp
  then show ?thesis using arm by (simp add: timer_inv_def timer_arm_def dl_defs)
next
  case reset
  then show ?thesis using timer_dropped [OF assms(1)] timer_idle [OF assms(1)]
    by (simp add: timer_inv_def timer_reset_def) (simp add: dl_defs)
next
  case detach
  then show ?thesis using timer_dropped [OF assms(1)] by (simp add: timer_inv_def timer_detach_def dl_defs)
next
  case dtor
  then show ?thesis using timer_dropped [OF assms(1)]
    by (simp add: timer_inv_def timer_dtor_def timer_reset_def timer_detach_def dl_defs)
qed

lemma timer_start: "t = timer_new \<Longrightarrow> timer_inv t"
  by (simp add: timer_inv_def timer_new_def dl_new_def)

interpretation timer: step_system "\<lambda>t. t = timer_new" timer_step timer_inv
  by unfold_locales (blast intro: timer_start timer_step_inv)+

text \<open>Whatever a timer goes through, the handlers it starts are among those it was armed
  with, in that order and each at most once; at most one is waiting at any time, and after
  \<open>reset()\<close> only handlers whose time had come before are still started.\<close>

theorem timer_starts_armed_once:
  assumes "timer_step\<^sup>*\<^sup>* timer_new t" "timer_passes\<^sup>*\<^sup>* (timer_reset t) u"
  shows "subseq (tm_started t) (tm_armed t) \<and> length (dl_waits (tm_deadline t)) \<le> 1 \<and>
    (\<exists>k. tm_started u = tm_started t @ take k (dl_ready (tm_deadline t)))"
proof -
  have inv: "timer_inv t" using timer.inv_reachable [OF refl assms(1)] .
  have "dl_waits (tm_deadline u) = [] \<and>
      tm_started u @ dl_ready (tm_deadline u) = tm_started t @ dl_ready (tm_deadline t) \<and>
      prefix (tm_started t) (tm_started u)"
    using assms(2)
  proof induction
    case base
    show ?case using timer_idle [OF inv] by (simp add: timer_reset_def) (simp add: dl_cancel_one_def)
  next
    case (step v w)
    from step.hyps(2) show ?case
    proof cases
      case expire
      with step.IH show ?thesis by (simp add: timer_expire_def dl_expire_def)
    next
      case run
      with step.IH show ?thesis by (auto simp: timer_run_def split: list.split)
    qed
  qed
  then obtain zs where "tm_started u = tm_started t @ zs" "zs @ dl_ready (tm_deadline u) = dl_ready (tm_deadline t)"
    by (auto simp: prefix_def)
  then have "tm_started u = tm_started t @ take (length zs) (dl_ready (tm_deadline t))"
    by (metis append_eq_conv_conj)
  then show ?thesis using inv subseq_drop_end [of "tm_started t"] by (auto simp: timer_inv_def)
qed

lemma timer_starts_armed_once_witness:
  "\<exists>k. tm_started (timer_run (timer_expire (timer_reset (timer_arm (9::nat) timer_new)))) = take k []"
proof -
  have "timer_step\<^sup>*\<^sup>* timer_new (timer_arm (9::nat) timer_new)"
    by (intro r_into_rtranclp timer_step.arm) (simp add: timer_new_def)
  moreover have "timer_passes\<^sup>*\<^sup>* (timer_reset (timer_arm (9::nat) timer_new))
      (timer_run (timer_expire (timer_reset (timer_arm 9 timer_new))))"
    by (meson timer_passes.intros r_into_rtranclp rtranclp.rtrancl_into_rtrancl)
  ultimately show ?thesis using timer_starts_armed_once by (fastforce simp: timer_new_def timer_arm_def dl_defs)
qed

section \<open>Timeout\<close>

text \<open>
  The journey's word, the timer and whether the scope is open; \<open>ts_expired\<close> records that the
  time came while it was.
\<close>

record tscope =
  ts_word :: jstate
  ts_deadline :: "unit deadline"
  ts_open :: bool
  ts_expired :: bool

definition timeout_ctor :: "jstate \<Rightarrow> tscope" where
  "timeout_ctor w = \<lparr>ts_word = w, ts_deadline = dl_async_wait () dl_new, ts_open = True, ts_expired = False\<rparr>"

definition timeout_dtor :: "tscope \<Rightarrow> tscope" where
  "timeout_dtor s = s\<lparr>ts_deadline := dl_destroy (dl_cancel_one (ts_deadline s)), ts_open := False\<rparr>"

definition timeout_expire :: "tscope \<Rightarrow> tscope" where
  "timeout_expire s = s\<lparr>ts_deadline := dl_expire (ts_deadline s),
                       ts_expired := ts_expired s \<or> ts_open s \<and> dl_waits (ts_deadline s) \<noteq> []\<rparr>"

text \<open>The queued handler: \<open>goer.timedout()\<close>.\<close>

definition timeout_fire :: "tscope \<Rightarrow> tscope" where
  "timeout_fire s = s\<lparr>ts_word := snd (js_timedout (ts_word s)),
                     ts_deadline := (ts_deadline s)\<lparr>dl_ready := tl (dl_ready (ts_deadline s))\<rparr>\<rparr>"

text \<open>\<open>work\<close>: the rest of the program changes the word, and raises no timeout.\<close>

inductive tscope_step :: "tscope \<Rightarrow> tscope \<Rightarrow> bool" where
  expire: "tscope_step s (timeout_expire s)"
| fire: "dl_ready (ts_deadline s) \<noteq> [] \<Longrightarrow> tscope_step s (timeout_fire s)"
| dtor: "ts_open s \<Longrightarrow> tscope_step s (timeout_dtor s)"
| work: "(timedout w \<longrightarrow> timedout (ts_word s)) \<Longrightarrow> tscope_step s (s\<lparr>ts_word := w\<rparr>)"

definition tscope_inv :: "tscope \<Rightarrow> bool" where
  "tscope_inv s \<longleftrightarrow> (dl_waits (ts_deadline s) \<noteq> [] \<longrightarrow> ts_open s) \<and>
     (dl_ready (ts_deadline s) \<noteq> [] \<or> timedout (ts_word s) \<longrightarrow> ts_expired s)"

inductive_cases tscope_stepE: "tscope_step s t"

lemma tscope_step_inv: "tscope_inv s \<Longrightarrow> tscope_step s t \<Longrightarrow> tscope_inv t"
  by (elim tscope_stepE)
    (auto simp: tscope_inv_def timeout_expire_def timeout_fire_def timeout_dtor_def dl_defs js_bits)

lemma tscope_start: "s = timeout_ctor w \<and> \<not> timedout w \<Longrightarrow> tscope_inv s"
  by (simp add: tscope_inv_def timeout_ctor_def dl_defs)

interpretation tscope: step_system "\<lambda>s. s = timeout_ctor w \<and> \<not> timedout w" tscope_step tscope_inv for w
  by unfold_locales (blast intro: tscope_start tscope_step_inv)+

text \<open>A \<open>Timeout\<close> raises its event only if its time came while the scope was open.\<close>

theorem timeout_needs_expiry:
  assumes "\<not> timedout w" "tscope_step\<^sup>*\<^sup>* (timeout_ctor w) s" "\<not> ts_expired s"
  shows "\<not> timedout (ts_word s)"
  using tscope.inv_reachable [OF _ assms(2)] assms(1,3) by (auto simp: tscope_inv_def)

lemma timeout_needs_expiry_witness:
  "\<not> timedout (ts_word (timeout_expire (timeout_dtor (timeout_ctor js_initial))))"
proof -
  have "ts_open (timeout_ctor js_initial)" by (simp add: timeout_ctor_def)
  then have "tscope_step\<^sup>*\<^sup>* (timeout_ctor js_initial) (timeout_expire (timeout_dtor (timeout_ctor js_initial)))"
    by (meson tscope_step.dtor tscope_step.expire r_into_rtranclp rtranclp.rtrancl_into_rtrancl)
  then show ?thesis
    by (rule timeout_needs_expiry [rotated]) (simp_all add: timeout_expire_def timeout_dtor_def timeout_ctor_def dl_defs js_bits)
qed

text \<open>The event may come after the scope has ended: when the time comes just before, the
  handler is queued already, and \<open>cancel_one\<close> in the destructor does not stop it. A later wait of
  the journey, that no timeout is meant for, throws.\<close>

theorem timeout_after_scope:
  assumes "enabled w" "\<not> cancelled w" "\<not> timedout w"
  shows "\<exists>s t. tscope_step\<^sup>*\<^sup>* (timeout_ctor w) s \<and> \<not> ts_open s \<and> ts_word s = w \<and>
    tscope_step s t \<and> fst (journey_waitForDone (\<lambda>v. v) (ts_word t)) = Inl TimedoutEvent"
proof -
  define s where "s = timeout_dtor (timeout_expire (timeout_ctor w))"
  have o': "ts_open (timeout_expire (timeout_ctor w))" by (simp add: timeout_expire_def timeout_ctor_def)
  have "tscope_step\<^sup>*\<^sup>* (timeout_ctor w) s"
    unfolding s_def
    by (meson tscope_step.expire tscope_step.dtor [OF o'] r_into_rtranclp rtranclp.rtrancl_into_rtrancl)
  moreover have "\<not> ts_open s" "ts_word s = w" "dl_ready (ts_deadline s) = [()]"
    by (simp_all add: s_def timeout_dtor_def timeout_expire_def timeout_ctor_def dl_defs)
  moreover from this have "tscope_step s (timeout_fire s)" by (intro tscope_step.fire) simp
  moreover have "fst (journey_waitForDone (\<lambda>v. v) (ts_word (timeout_fire s))) = Inl TimedoutEvent"
    using assms \<open>ts_word s = w\<close> by (simp add: journey_waitForDone_def js_handleEvents_def timeout_fire_def js_bits)
  ultimately show ?thesis by blast
qed

lemma timeout_after_scope_witness:
  "\<exists>t :: tscope. fst (journey_waitForDone (\<lambda>v. v) (ts_word t)) = Inl TimedoutEvent"
proof -
  obtain s t where "fst (journey_waitForDone (\<lambda>v. v) (ts_word t)) = Inl TimedoutEvent" "tscope_step s t"
    using timeout_after_scope [of js_initial] by (auto simp: js_bits)
  then show ?thesis by blast
qed

section \<open>sleepa\<close>

text \<open>
  \<open>sleepa\<close> takes a detachable doer of the journey and waits; the timer's handler calls \<open>done\<close> on
  it. \<open>sleepa_fire\<close> is that call, in the words as they are by then.
\<close>

definition sleepa_doer :: "nat \<Rightarrow> words \<Rightarrow> detachable_doer" where
  "sleepa_doer j ws = dd_make j ws"

definition sleepa_fire :: "detachable_doer \<Rightarrow> words \<Rightarrow> nat list \<times> words" where
  "sleepa_fire d ws = dd_done d ws"

definition sleepa_wait :: "suspension \<Rightarrow> jstate \<Rightarrow> unit outcome \<times> jstate" where
  "sleepa_wait suspend w = journey_waitForDone suspend w"

lemma sleepa_ends_when_fired:
  assumes "enabled (ws j)" "\<not> cancelled (ws j)" "\<not> timedout (ws j)" "\<not> is_done (ws j)"
  shows "fst (sleepa_wait (\<lambda>_. snd (sleepa_fire (sleepa_doer j ws) ws) j) (ws j)) = Inr ()"
proof -
  let ?d = "sleepa_doer j ws"
  have l: "dd_live ?d ws" by (simp add: sleepa_doer_def dd_make_live)
  obtain ws1 where a: "dd_acquire ?d ws = (True, ws1)" using l dd_acquire_live [of ?d ws] by (cases "dd_acquire ?d ws") auto
  have d: "dd_state ?d = j" "dd_eventsEnabled ?d" using assms(1) by (simp_all add: sleepa_doer_def dd_make_def js_bits)
  define v where "v = snd (dd_releaseAndDone ?d ws1) j"
  have "bit v n \<longleftrightarrow> bit (ws1 j) n \<or> n = 0 \<or> n = 2 \<or> n = 1" for n
    using dd_release_bits [of ?d ws1 j n] d by (simp add: v_def)
  moreover have "bit (ws1 j) n \<longleftrightarrow> bit (ws j) n \<and> n \<noteq> 1" for n
    using dd_acquire_bits [of ?d ws j n] a d l by simp
  ultimately have "is_done v" "enabled v" "\<not> cancelled v" "\<not> timedout v" using assms by auto
  moreover have "snd (sleepa_fire ?d ws) j = v" using a by (simp add: sleepa_fire_def dd_done_def v_def)
  ultimately show ?thesis using assms(4)
    by (simp add: sleepa_wait_def journey_waitForDone_def js_handleEvents_def js_bits)
qed

text \<open>When an event ends a sleep before its time, the exception is thrown, and the timer's
  handler, if it is queued already, does nothing to the journey or to any other.\<close>

theorem sleepa_interrupted_is_silent:
  assumes "enabled (ws j)" "\<not> is_done (ws j)" "e = Cancel \<or> e = Timeout"
    and "sleepa_wait (raise_event e) (ws j) = (r, w)"
  shows "r \<noteq> Inr () \<and> sleepa_fire (sleepa_doer j ws) (ws'(j := w)) = ([], ws'(j := w))"
proof -
  let ?v = "raise_event e (ws j)"
  have v: "enabled ?v" "cancelled ?v \<or> timedout ?v" using assms(1,3) by (auto simp: js_bits)
  have h: "js_handleEvents ?v = (r, w)"
    using assms(2,4) by (simp add: sleepa_wait_def journey_waitForDone_def js_bits)
  then have "r \<noteq> Inr ()" using handleEvents_on_result [of ?v ?v] v by (auto simp: js_handleEvents_def split: if_splits)
  moreover have "js_counter w = js_counter (ws j) + ValueCounter"
    using h raise_event_counter(1) [OF assms(1), of e] counter_kept(7) [of ?v ?v] by (simp add: js_handleEvents_def)
  then have "js_counter w \<noteq> js_counter (ws j)" using counter_multiple_nonzero [of 1] by simp
  then have dead: "\<not> dd_live (sleepa_doer j ws) (ws'(j := w))"
    using assms(1) by (simp add: sleepa_doer_def dd_live_def dd_make_def js_bits)
  then have "dd_acquire (sleepa_doer j ws) (ws'(j := w)) = (False, ws'(j := w))"
    by (intro prod_eqI) (simp_all add: dd_acquire_live dd_acquire_dead)
  ultimately show ?thesis by (simp add: sleepa_fire_def dd_done_def)
qed

lemma sleepa_interrupted_is_silent_witness:
  "fst (sleepa_wait (raise_event Timeout) js_initial) \<noteq> Inr ()"
proof -
  obtain r w where "sleepa_wait (raise_event Timeout) js_initial = (r, w)" by (rule prod.exhaust)
  with sleepa_interrupted_is_silent [of "\<lambda>_. js_initial" 0 Timeout r w] show ?thesis by (simp add: js_bits)
qed

end
