(* ===== verification/Connector.thy ===== *)
theory Connector
  imports Replob_Prelude
begin

text \<open>
  Connections to the other nodes (\<open>src/connector.cpp\<close>, \<open>include/synca/once/connector.h\<close>):
  a write that reconnects and tries again for as long as the network fails. The socket is
  not part of the repository's own logic: its \<open>write\<close> and \<open>connect\<close> are arguments, functions
  of the state of the world that answer normally or with an exception. The world includes
  the \<open>disconnected_\<close> flag of the connector, because other journeys run while a socket
  operation waits.
\<close>

type_synonym 's action = "'s \<Rightarrow> unit outcome \<times> 's"

section \<open>Retrying\<close>

text \<open>
  \<open>retry<NetworkError>\<close>: the loop ends when the action succeeds or throws something else.
  It may go on for ever, which is the result \<open>None\<close>; \<open>onRetry\<close> may be such a loop itself.
\<close>

partial_function (option) networkRetry ::
  "'s action \<Rightarrow> ('s \<Rightarrow> (unit outcome \<times> 's) option) \<Rightarrow> 's \<Rightarrow> (unit outcome \<times> 's) option" where
  "networkRetry action onRetry s =
     (case action s of
        (Inr u, s') \<Rightarrow> Some (Inr u, s')
      | (Inl e, s') \<Rightarrow>
          if e = NetworkError
          then Option.bind (onRetry s') (\<lambda>(r, s'').
                 case r of Inl e' \<Rightarrow> Some (Inl e', s'') | Inr u \<Rightarrow> networkRetry action onRetry s'')
          else Some (Inl e, s'))"

lemma networkRetry_success:
  "action s = (Inr u, s') \<Longrightarrow> networkRetry action onRetry s = Some (Inr u, s')"
  by (simp add: networkRetry.simps)

lemma networkRetry_again:
  "\<lbrakk>action s = (Inl NetworkError, s'); onRetry s' = Some (Inr u, s'')\<rbrakk> \<Longrightarrow>
     networkRetry action onRetry s = networkRetry action onRetry s''"
  by (subst networkRetry.simps) simp

lemma networkRetry_other:
  "\<lbrakk>action s = (Inl e, s'); e \<noteq> NetworkError\<rbrakk> \<Longrightarrow> networkRetry action onRetry s = Some (Inl e, s')"
  by (subst networkRetry.simps) simp

lemma networkRetry_onRetry_throws:
  "\<lbrakk>action s = (Inl NetworkError, s'); onRetry s' = Some (Inl e, s'')\<rbrakk> \<Longrightarrow>
     networkRetry action onRetry s = Some (Inl e, s'')"
  by (subst networkRetry.simps) simp

text \<open>
  What a returning loop says: either its last action succeeded, or threw an exception
  that is not a network error, or the retry handler threw.
\<close>

definition retry_ended ::
  "'s action \<Rightarrow> ('s \<Rightarrow> (unit outcome \<times> 's) option) \<Rightarrow> unit outcome \<times> 's \<Rightarrow> bool" where
  "retry_ended action onRetry y \<longleftrightarrow>
     (\<exists>t. action t = y \<and> fst y \<noteq> Inl NetworkError) \<or>
     (\<exists>t u e. action t = (Inl NetworkError, u) \<and> onRetry u = Some y \<and> fst y = Inl e)"

lemma networkRetry_result:
  assumes "networkRetry action onRetry s = Some y"
  shows "retry_ended action onRetry y"
  using assms
proof (rule networkRetry.raw_induct [rotated])
  fix rec :: "'a action \<Rightarrow> ('a \<Rightarrow> (unit outcome \<times> 'a) option) \<Rightarrow> 'a \<Rightarrow> (unit outcome \<times> 'a) option"
    and a and b and s :: 'a and y
  assume ih: "\<And>a b s y. rec a b s = Some y \<Longrightarrow> retry_ended a b y"
    and y: "(case a s of (Inr u, s') \<Rightarrow> Some (Inr u, s')
      | (Inl e, s') \<Rightarrow>
          if e = NetworkError
          then Option.bind (b s') (\<lambda>(r, s'').
                 case r of Inl e' \<Rightarrow> Some (Inl e', s'') | Inr u \<Rightarrow> rec a b s'')
          else Some (Inl e, s')) = Some y"
  obtain r s1 where a: "a s = (r, s1)" by (cases "a s")
  show "retry_ended a b y"
  proof (cases "r = Inl NetworkError")
    case False
    with a y have "a s = y" by (cases r) auto
    with False a show ?thesis unfolding retry_ended_def by force
  next
    case True
    with a y obtain r' s2 where o: "b s1 = Some (r', s2)"
      and r': "(case r' of Inl e' \<Rightarrow> Some (Inl e', s2) | Inr u \<Rightarrow> rec a b s2) = Some y"
      by (auto simp: bind_eq_Some_conv)
    show ?thesis
    proof (cases r')
      case (Inl e')
      with o r' a True show ?thesis unfolding retry_ended_def by auto
    next
      case (Inr u)
      with r' ih show ?thesis by auto
    qed
  qed
qed

text \<open>
  What holds when a loop returns: \<open>P\<close> before each action, \<open>M\<close> after one that failed on the
  network, \<open>Q\<close> for the result.
\<close>

lemma networkRetry_rule:
  assumes run: "networkRetry action onRetry s = Some (r, s')" and "P s"
    and "\<And>s u s'. P s \<Longrightarrow> action s = (Inr u, s') \<Longrightarrow> Q (Inr u) s'"
    and "\<And>s s'. P s \<Longrightarrow> action s = (Inl NetworkError, s') \<Longrightarrow> M s'"
    and "\<And>s e s'. P s \<Longrightarrow> action s = (Inl e, s') \<Longrightarrow> e \<noteq> NetworkError \<Longrightarrow> Q (Inl e) s'"
    and "\<And>s u s'. M s \<Longrightarrow> onRetry s = Some (Inr u, s') \<Longrightarrow> P s'"
    and "\<And>s e s'. M s \<Longrightarrow> onRetry s = Some (Inl e, s') \<Longrightarrow> Q (Inl e) s'"
  shows "Q r s'"
proof -
  have "action = action \<longrightarrow> onRetry = onRetry \<longrightarrow> P s \<longrightarrow> Q (fst (r, s')) (snd (r, s'))"
  proof (rule networkRetry.raw_induct [where P = "\<lambda>a b s y. a = action \<longrightarrow> b = onRetry \<longrightarrow> P s \<longrightarrow> Q (fst y) (snd y)", OF _ run],
      intro impI)
    fix rec :: "'a action \<Rightarrow> ('a \<Rightarrow> (unit outcome \<times> 'a) option) \<Rightarrow> 'a \<Rightarrow> (unit outcome \<times> 'a) option"
      and a b and s :: 'a and y
    assume ih: "\<And>a b s y. rec a b s = Some y \<Longrightarrow> a = action \<longrightarrow> b = onRetry \<longrightarrow> P s \<longrightarrow> Q (fst y) (snd y)"
      and y: "(case a s of (Inr u, s') \<Rightarrow> Some (Inr u, s')
        | (Inl e, s') \<Rightarrow>
            if e = NetworkError
            then Option.bind (b s') (\<lambda>(r, s'').
                   case r of Inl e' \<Rightarrow> Some (Inl e', s'') | Inr u \<Rightarrow> rec a b s'')
            else Some (Inl e, s')) = Some y"
      and ab: "a = action" "b = onRetry" and p: "P s"
    obtain r1 s1 where act: "action s = (r1, s1)" by (cases "action s")
    show "Q (fst y) (snd y)"
    proof (cases "r1 = Inl NetworkError")
      case False
      with act y ab have "y = (r1, s1)" by (cases r1) auto
      then show ?thesis using assms(3,5) [OF p] act False by (cases r1) simp_all
    next
      case True
      with act y ab obtain r2 s2 where o: "onRetry s1 = Some (r2, s2)"
        and r2: "(case r2 of Inl e' \<Rightarrow> Some (Inl e', s2) | Inr u \<Rightarrow> rec action onRetry s2) = Some y"
        by (auto simp: bind_eq_Some_conv)
      have "M s1" using assms(4) p act True by blast
      then show ?thesis using o r2 ih [of action onRetry s2 y] assms(6,7)
        by (cases r2) auto
    qed
  qed
  with assms(2) show ?thesis by simp
qed

text \<open>A loop whose action fails finitely often returns.\<close>

lemma networkRetry_returns:
  assumes "\<And>i. i < k \<Longrightarrow> action (at i) = (Inl NetworkError, mid i)"
    and "\<And>i. i < k \<Longrightarrow> onRetry (mid i) = Some (Inr (), at (Suc i))"
    and "action (at k) = (Inr (), s')"
  shows "networkRetry action onRetry (at 0) = Some (Inr (), s')"
proof -
  have "networkRetry action onRetry (at (k - n)) = Some (Inr (), s')" if "n \<le> k" for n
    using that
  proof (induction n)
    case 0
    with assms(3) show ?case by (simp add: networkRetry_success)
  next
    case (Suc n)
    then have "k - Suc n < k" and "Suc (k - Suc n) = k - n" by simp_all
    with assms(1,2) [of "k - Suc n"] Suc show ?case
      by (simp add: networkRetry_again)
  qed
  from this [of k] show ?thesis by simp
qed

section \<open>The connector\<close>

datatype endpoint_type = V4 | V6

record endpoint =
  ep_port :: "16 word"
  ep_address :: string
  ep_type :: endpoint_type

record connector =
  c_endpoint :: endpoint
  c_disconnected :: bool

text \<open>\<open>disconnect\<close> closes the socket the first time (\<open>True\<close>) and does nothing afterwards.\<close>

definition connector_new :: "endpoint \<Rightarrow> connector" where
  "connector_new e = \<lparr>c_endpoint = e, c_disconnected = False\<rparr>"

definition connector_disconnect :: "connector \<Rightarrow> bool \<times> connector" where
  "connector_disconnect c =
     (if c_disconnected c then (False, c) else (True, c\<lparr>c_disconnected := True\<rparr>))"

definition connector_reconnect ::
  "('s \<Rightarrow> bool) \<Rightarrow> 's action \<Rightarrow> 's \<Rightarrow> (unit outcome \<times> 's) option" where
  "connector_reconnect disconnected connect s =
     networkRetry
       (\<lambda>s. if disconnected s then (Inl (ConnectorError ''Disconnected''), s) else connect s)
       (\<lambda>s. Some (Inr (), s)) s"

definition performOp ::
  "('s \<Rightarrow> bool) \<Rightarrow> 's action \<Rightarrow> 's action \<Rightarrow> 's \<Rightarrow> (unit outcome \<times> 's) option" where
  "performOp disconnected connect f s = networkRetry f (connector_reconnect disconnected connect) s"

definition connector_write ::
  "('s \<Rightarrow> bool) \<Rightarrow> 's action \<Rightarrow> ('v \<Rightarrow> 's action) \<Rightarrow> 'v \<Rightarrow> 's \<Rightarrow> (unit outcome \<times> 's) option" where
  "connector_write disconnected connect socket_write view s =
     performOp disconnected connect (socket_write view) s"

lemma reconnect_result:
  assumes "connector_reconnect disconnected connect s = Some y"
  shows "fst y \<noteq> Inl NetworkError"
    and "\<exists>t. \<not> disconnected t \<and> connect t = y \<or>
             disconnected t \<and> y = (Inl (ConnectorError ''Disconnected''), t)"
  using networkRetry_result [OF assms [unfolded connector_reconnect_def]]
  by (auto simp: retry_ended_def split: if_splits)

lemma reconnect_disconnected:
  "disconnected s \<Longrightarrow>
     connector_reconnect disconnected connect s = Some (Inl (ConnectorError ''Disconnected''), s)"
  by (simp add: connector_reconnect_def networkRetry_other)

lemma performOp_result:
  assumes "performOp disconnected connect f s = Some y"
  shows "fst y \<noteq> Inl NetworkError" and "fst y = Inr () \<Longrightarrow> \<exists>t. f t = y"
proof -
  have "retry_ended f (connector_reconnect disconnected connect) y"
    using assms by (simp add: performOp_def networkRetry_result)
  then show "fst y \<noteq> Inl NetworkError" and "fst y = Inr () \<Longrightarrow> \<exists>t. f t = y"
    by (auto simp: retry_ended_def dest: reconnect_result(1))
qed

section \<open>What a connection promises\<close>

text \<open>A \<open>write\<close> never lets a network error out: if it returns, it either returns because
  a \<open>write\<close> of the whole view on the socket succeeded, or throws something else; while the
  network fails it reconnects and writes again.\<close>

theorem write_hides_network_errors:
  assumes "connector_write disconnected connect socket_write view s = Some (r, s')"
  shows "r \<noteq> Inl NetworkError \<and> (r = Inr () \<longrightarrow> (\<exists>t. socket_write view t = (Inr (), s')))"
  using performOp_result [OF assms [unfolded connector_write_def]] by auto

text \<open>A socket that is down for a while: the state counts the failures still to come.\<close>

definition flaky :: "nat \<Rightarrow> nat action" where
  "flaky k s = (if s < k then (Inl NetworkError, Suc s) else (Inr (), s))"

lemma write_hides_network_errors_witness:
  "(Inr () :: unit outcome) \<noteq> Inl NetworkError \<and> (\<exists>t. flaky 2 t = (Inr (), 2))"
proof -
  have c: "connector_reconnect (\<lambda>_. False) (\<lambda>s. (Inr (), s)) s = Some (Inr (), s)" for s :: nat
    by (simp add: connector_reconnect_def networkRetry_success)
  have "networkRetry (flaky 2) (connector_reconnect (\<lambda>_. False) (\<lambda>s. (Inr (), s))) 0 = Some (Inr (), 2)"
    by (rule networkRetry_returns [where k = 2 and at = "\<lambda>i. i" and mid = Suc])
      (auto simp: flaky_def c)
  then have "connector_write (\<lambda>_. False) (\<lambda>s. (Inr (), s)) (\<lambda>view :: nat. flaky 2) 7 0 = Some (Inr (), 2)"
    by (simp add: connector_write_def performOp_def)
  from write_hides_network_errors [OF this] show ?thesis by simp
qed

text \<open>After \<open>disconnect\<close>, a \<open>write\<close> that meets a network error ends: the reconnection throws
  instead of connecting again, so a removed node is not reconnected and its writers stop.\<close>

theorem disconnected_write_ends:
  assumes "socket_write view s = (Inl NetworkError, s')" and "disconnected s'"
  shows "connector_write disconnected connect socket_write view s =
    Some (Inl (ConnectorError ''Disconnected''), s')"
  unfolding connector_write_def performOp_def
  by (rule networkRetry_onRetry_throws) (rule assms(1), rule reconnect_disconnected [of disconnected, OF assms(2)])

lemma disconnected_write_ends_witness:
  "connector_write (\<lambda>s :: nat. s = 1) (\<lambda>s. (Inr (), s)) (\<lambda>view :: nat. flaky 9) 7 0 =
     Some (Inl (ConnectorError ''Disconnected''), 1)"
  by (rule disconnected_write_ends) (simp_all add: flaky_def)

end
