(* ===== verification/Sockets.thy ===== *)
theory Sockets
  imports Oers Connector
begin

text \<open>
  A socket operation (\<open>src/network.cpp\<close>): \<open>BaseSocket::call\<close> starts an asynchronous operation
  whose completion handler writes the result into the frame of the journey and calls
  \<open>CloseOnError::done\<close>, and waits; the destructor of \<open>CloseOnError\<close> keeps the frame alive when
  the wait is ended by an event. The operation itself, \<open>boost::asio\<close>'s, is modelled by its
  documented behaviour: the handler runs once, at any time, with any result.
\<close>

section \<open>The frame and its two users\<close>

text \<open>
  Where the completion handler is: before its first line, before \<open>wasDone_ = true\<close>, before
  \<open>doer_.done()\<close>, or over.
\<close>

datatype io_pc = IoPending | IoMark | IoWake | IoEnd

text \<open>
  Where the journey is: in \<open>closer.wait()\<close>; there with the word it was woken by; at the end of
  the body with its outcome; in the destructor's wait; or out of \<open>call\<close>.
\<close>

datatype 'v call_pc =
    CallWait
  | CallHandle jstate
  | CallLeave "'v outcome"
  | CallDtor bool "'v outcome"
  | CallEnd "'v outcome"

record 'v iocall =
  ic_word :: jstate
  ic_call :: "'v call_pc"
  ic_io :: io_pc
  ic_result :: "('v option) option"
  ic_wasDone :: bool
  ic_closed :: bool
  ic_badWrite :: bool
  ic_badDone :: bool

text \<open>
  \<open>ic_result\<close> holds \<open>e\<close> and \<open>val\<close>: \<open>Some None\<close> is an error code. \<open>ic_badWrite\<close> says that the
  handler wrote into a frame that is gone, \<open>ic_badDone\<close> that it called \<open>done()\<close> on a doer that
  is gone.
\<close>

definition frame_gone :: "'v iocall \<Rightarrow> bool" where
  "frame_gone c \<longleftrightarrow> (case ic_call c of CallEnd _ \<Rightarrow> True | _ \<Rightarrow> False)"

definition call_new :: "jstate \<Rightarrow> 'v iocall" where
  "call_new w = \<lparr>ic_word = w, ic_call = CallWait, ic_io = IoPending, ic_result = None,
     ic_wasDone = False, ic_closed = False, ic_badWrite = False, ic_badDone = False\<rparr>"

subsection \<open>The completion handler\<close>

definition io_complete :: "'v option \<Rightarrow> 'v iocall \<Rightarrow> 'v iocall" where
  "io_complete r c = c\<lparr>ic_result := Some r, ic_io := IoMark, ic_badWrite := ic_badWrite c \<or> frame_gone c\<rparr>"

text \<open>\<open>CloseOnError::done\<close> in its two steps.\<close>

definition closer_mark :: "'v iocall \<Rightarrow> 'v iocall" where
  "closer_mark c = c\<lparr>ic_wasDone := True, ic_io := IoWake, ic_badWrite := ic_badWrite c \<or> frame_gone c\<rparr>"

definition closer_done :: "'v iocall \<Rightarrow> 'v iocall" where
  "closer_done c = c\<lparr>ic_word := snd (js_done (ic_word c)), ic_io := IoEnd, ic_badDone := ic_badDone c \<or> frame_gone c\<rparr>"

inductive io_step :: "'v iocall \<Rightarrow> 'v iocall \<Rightarrow> bool" where
  complete: "ic_io c = IoPending \<Longrightarrow> io_step c (io_complete r c)"
| mark: "ic_io c = IoMark \<Longrightarrow> io_step c (closer_mark c)"
| wake: "ic_io c = IoWake \<Longrightarrow> io_step c (closer_done c)"

text \<open>
  \<open>BaseAsio::call\<close>, for \<open>connect\<close> and \<open>accept\<close>, is the same call whose handler gets an error
  code only.
\<close>

definition asio_complete :: "bool \<Rightarrow> unit iocall \<Rightarrow> unit iocall" where
  "asio_complete error c = io_complete (if error then None else Some ()) c"

subsection \<open>The journey\<close>

definition closer_close :: "'v iocall \<Rightarrow> 'v iocall" where
  "closer_close c = c\<lparr>ic_closed := True\<rparr>"

text \<open>
  The rest of the body after \<open>closer.wait()\<close> returned: on an error code it closes and throws.
  The last case is a wait that returned although the handler did not run.
\<close>

definition call_body :: "'v iocall \<Rightarrow> 'v iocall" where
  "call_body c =
     (case ic_result c of
        Some None \<Rightarrow> closer_close (c\<lparr>ic_call := CallLeave (Inl NetworkError)\<rparr>)
      | Some (Some v) \<Rightarrow> c\<lparr>ic_call := CallLeave (Inr v)\<rparr>
      | None \<Rightarrow> c\<lparr>ic_call := CallLeave (Inl (LogicError ''uninitialised value''))\<rparr>)"

text \<open>\<open>handleEvents\<close> at the end of \<open>waitForDone\<close>, on the word it loaded.\<close>

definition call_handle :: "jstate \<Rightarrow> 'v iocall \<Rightarrow> 'v iocall" where
  "call_handle ev c =
     (case handleEvents_on ev (ic_word c) of
        (Inl x, w) \<Rightarrow> c\<lparr>ic_word := w, ic_call := CallLeave (Inl x)\<rparr>
      | (Inr _, w) \<Rightarrow> call_body (c\<lparr>ic_word := w\<rparr>))"

text \<open>\<open>~CloseOnError\<close> up to its wait, and from there to the end of \<open>call\<close>.\<close>

definition closer_dtor :: "'v outcome \<Rightarrow> 'v iocall \<Rightarrow> 'v iocall" where
  "closer_dtor r c =
     (if ic_wasDone c then c\<lparr>ic_call := CallEnd r\<rparr>
      else let (wasEnabled, w) = js_disableEvents (ic_word c)
           in closer_close (c\<lparr>ic_word := w, ic_call := CallDtor wasEnabled r\<rparr>))"

definition closer_dtor_end :: "bool \<Rightarrow> 'v outcome \<Rightarrow> 'v iocall \<Rightarrow> 'v iocall" where
  "closer_dtor_end wasEnabled r c =
     (let w = snd (js_handleEvents (ic_word c))
      in c\<lparr>ic_word := if wasEnabled then js_enableEvents w else w, ic_call := CallEnd r\<rparr>)"

inductive call_step :: "'v iocall \<Rightarrow> 'v iocall \<Rightarrow> bool" where
  woken: "\<lbrakk>ic_call c = CallWait; mayProceed (ic_word c)\<rbrakk> \<Longrightarrow>
     call_step c (c\<lparr>ic_call := CallHandle (ic_word c)\<rparr>)"
| handle: "ic_call c = CallHandle ev \<Longrightarrow> call_step c (call_handle ev c)"
| leave: "ic_call c = CallLeave r \<Longrightarrow> call_step c (closer_dtor r c)"
| dtor: "\<lbrakk>ic_call c = CallDtor we r; mayProceed (ic_word c)\<rbrakk> \<Longrightarrow>
     call_step c (closer_dtor_end we r c)"

inductive event_step :: "'v iocall \<Rightarrow> 'v iocall \<Rightarrow> bool" where
  cancel: "event_step c (c\<lparr>ic_word := snd (js_cancel (ic_word c))\<rparr>)"
| timeout: "event_step c (c\<lparr>ic_word := snd (js_timedout (ic_word c))\<rparr>)"

definition quiet_step :: "'v iocall \<Rightarrow> 'v iocall \<Rightarrow> bool" where
  "quiet_step c d \<longleftrightarrow> io_step c d \<or> call_step c d"

definition iocall_step :: "'v iocall \<Rightarrow> 'v iocall \<Rightarrow> bool" where
  "iocall_step c d \<longleftrightarrow> io_step c d \<or> call_step c d \<or> event_step c d"

section \<open>What the frame can rely on\<close>

definition is_event :: "'v outcome \<Rightarrow> bool" where
  "is_event r \<longleftrightarrow> r = Inl CancelledEvent \<or> r = Inl TimedoutEvent"

text \<open>
  The outcome of a body, against what the completion handler wrote. \<open>stray\<close>: the journey
  had a done flag already when the call began (an earlier call can leave one, see below), which
  ends \<open>closer.wait()\<close> too early.
\<close>

definition outcome_ok :: "bool \<Rightarrow> 'v outcome \<Rightarrow> 'v iocall \<Rightarrow> bool" where
  "outcome_ok stray r c \<longleftrightarrow>
     is_event r \<or>
     (ic_io c = IoEnd \<or> stray) \<and> (\<exists>v. r = Inr v \<and> ic_result c = Some (Some v)) \<or>
     (ic_io c = IoEnd \<or> stray) \<and> r = Inl NetworkError \<and> ic_result c = Some None \<and> ic_closed c \<or>
     stray \<and> r = Inl (LogicError ''uninitialised value'')"

definition iocall_inv :: "bool \<Rightarrow> 'v iocall \<Rightarrow> bool" where
  "iocall_inv stray c \<longleftrightarrow>
     \<not> ic_badWrite c \<and> (ic_wasDone c \<longleftrightarrow> ic_io c = IoWake \<or> ic_io c = IoEnd) \<and>
     (ic_result c = None \<longleftrightarrow> ic_io c = IoPending) \<and>
     (is_done (ic_word c) \<longrightarrow> ic_io c = IoEnd \<or> stray \<and> (\<exists>ev. ic_call c = CallWait \<or> ic_call c = CallHandle ev)) \<and>
     (case ic_call c of
        CallWait \<Rightarrow> (ic_io c = IoEnd \<longrightarrow> is_done (ic_word c)) \<and> \<not> ic_badDone c
      | CallHandle ev \<Rightarrow> mayProceed ev \<and> (is_done ev \<longrightarrow> ic_io c = IoEnd \<or> stray) \<and> \<not> ic_badDone c
      | CallLeave r \<Rightarrow> outcome_ok stray r c \<and> \<not> ic_badDone c
      | CallDtor we r \<Rightarrow> (is_event r \<or> stray) \<and> outcome_ok stray r c \<and> ic_closed c \<and> \<not> enabled (ic_word c) \<and>
          (ic_io c = IoEnd \<longrightarrow> is_done (ic_word c)) \<and> \<not> ic_badDone c
      | CallEnd r \<Rightarrow> outcome_ok stray r c \<and> (ic_io c = IoWake \<or> ic_io c = IoEnd) \<and>
          (ic_badDone c \<longrightarrow> is_event r \<or> stray))"

lemma iocall_io_inv:
  assumes "iocall_inv stray c" "io_step c d"
  shows "iocall_inv stray d"
  using assms(2)
proof cases
  case complete
  with assms(1) show ?thesis
    by (auto simp: iocall_inv_def io_complete_def frame_gone_def outcome_ok_def split: call_pc.splits)
next
  case mark
  with assms(1) show ?thesis
    by (auto simp: iocall_inv_def closer_mark_def frame_gone_def outcome_ok_def split: call_pc.splits)
next
  case wake
  with assms(1) show ?thesis
    by (auto simp: iocall_inv_def closer_done_def frame_gone_def outcome_ok_def js_bits split: call_pc.splits)
qed

lemma iocall_event_inv:
  assumes "iocall_inv stray c" "event_step c d"
  shows "iocall_inv stray d"
  using assms(2) assms(1)
  by cases (auto simp: iocall_inv_def outcome_ok_def js_bits split: call_pc.splits)

lemma call_handle_inv:
  assumes "iocall_inv stray c" "ic_call c = CallHandle ev"
  shows "iocall_inv stray (call_handle ev c)"
proof -
  have ev: "mayProceed ev" "is_done ev \<longrightarrow> ic_io c = IoEnd \<or> stray" and nb: "\<not> ic_badDone c"
    using assms by (simp_all add: iocall_inv_def)
  obtain o' w where h: "handleEvents_on ev (ic_word c) = (o', w)" by (cases "handleEvents_on ev (ic_word c)")
  have o': "o' = (if enabled ev \<and> cancelled ev then Inl CancelledEvent
      else if enabled ev \<and> timedout ev then Inl TimedoutEvent else Inr ())"
    using handleEvents_on_result [of ev "ic_word c"] ev(1) h by (auto simp: js_bits)
  have w: "\<not> is_done w"
    using handleEvents_on_bits [of ev "ic_word c" 2] h ev(1) by (auto simp: js_bits)
  show ?thesis
  proof (cases o')
    case (Inl x)
    then have "is_event (Inl x)" using o' by (auto simp: is_event_def split: if_splits)
    then show ?thesis using Inl h w assms nb by (auto simp: call_handle_def iocall_inv_def outcome_ok_def is_event_def)
  next
    case (Inr u)
    with o' ev have "ic_io c = IoEnd \<or> stray" by (auto simp: js_bits split: if_splits)
    moreover from this assms(1) have "ic_result c = None \<longrightarrow> stray" by (auto simp: iocall_inv_def)
    ultimately show ?thesis using Inr h w assms nb
      by (auto simp: call_handle_def call_body_def closer_close_def iocall_inv_def outcome_ok_def
          split: option.split)
  qed
qed

lemma iocall_call_inv:
  assumes "iocall_inv stray c" "call_step c d"
  shows "iocall_inv stray d"
  using assms(2)
proof cases
  case woken
  with assms(1) show ?thesis by (simp add: iocall_inv_def)
next
  case (handle ev)
  with assms(1) show ?thesis by (simp add: call_handle_inv)
next
  case (leave r)
  obtain we w where dw: "js_disableEvents (ic_word c) = (we, w)" by (cases "js_disableEvents (ic_word c)")
  have "\<not> enabled w" "is_done w \<longleftrightarrow> is_done (ic_word c)"
    using js_disableEvents_bits(2) [of "ic_word c" 1] js_disableEvents_bits(2) [of "ic_word c" 2] dw by simp_all
  with leave dw assms(1) show ?thesis
    by (auto simp: iocall_inv_def closer_dtor_def closer_close_def outcome_ok_def)
next
  case (dtor we r)
  then have "is_done (ic_word c)" "ic_io c = IoEnd" using assms(1) by (auto simp: iocall_inv_def js_bits)
  then show ?thesis using assms(1) dtor
    by (auto simp: iocall_inv_def closer_dtor_end_def outcome_ok_def js_bits js_handleEvents_def Let_def)
qed

lemma iocall_start: "c = call_new w \<Longrightarrow> iocall_inv (is_done w) c"
  by (simp add: iocall_inv_def call_new_def)

interpretation iocall: step_system "\<lambda>c. c = call_new w" iocall_step "iocall_inv (is_done w)" for w
  by unfold_locales
    (auto simp: iocall_step_def intro: iocall_start iocall_io_inv iocall_call_inv iocall_event_inv)


text \<open>\<open>call\<close> is never stuck: until it has ended, the journey or the completion handler has a
  step to make, whatever events came; an interrupted call ends when its handler has run.\<close>

theorem call_not_stuck:
  assumes "iocall_step\<^sup>*\<^sup>* (call_new w) c" "\<not> frame_gone c"
  shows "\<exists>d. io_step c d \<or> call_step c d"
proof (cases "ic_io c = IoEnd")
  case False
  then show ?thesis by (cases "ic_io c") (blast intro: io_step.intros)+
next
  case True
  have inv: "iocall_inv (is_done w) c" using iocall.inv_reachable [OF _ assms(1)] by blast
  show ?thesis
  proof (cases "ic_call c")
    case CallWait
    then have "mayProceed (ic_word c)" using inv True by (simp add: iocall_inv_def js_bits)
    then show ?thesis using CallWait call_step.woken by blast
  next
    case CallHandle
    then show ?thesis using call_step.handle by blast
  next
    case CallLeave
    then show ?thesis using call_step.leave by blast
  next
    case CallDtor
    then have "mayProceed (ic_word c)" using inv True by (simp add: iocall_inv_def js_bits)
    then show ?thesis using CallDtor call_step.dtor by blast
  next
    case CallEnd
    then show ?thesis using assms(2) by (simp add: frame_gone_def)
  qed
qed

section \<open>The race in done\<close>

text \<open>
  Between \<open>wasDone_ = true\<close> and \<open>doer_.done()\<close> an event ends the wait; the destructor finds
  \<open>wasDone_\<close> and lets the frame go.
\<close>

abbreviation race0 :: "'v \<Rightarrow> 'v iocall" where
  "race0 v \<equiv> closer_mark (io_complete (Some v) (call_new js_initial))"

abbreviation race1 :: "'v \<Rightarrow> 'v iocall" where
  "race1 v \<equiv> (race0 v)\<lparr>ic_word := snd (js_cancel js_initial)\<rparr>"

lemma race_reaches: "iocall_step\<^sup>*\<^sup>* (call_new js_initial) (race1 v)"
proof -
  have "io_step (call_new js_initial) (io_complete (Some v) (call_new js_initial))"
    by (rule io_step.complete) (simp add: call_new_def)
  moreover have "io_step (io_complete (Some v) (call_new js_initial)) (race0 v)"
    by (rule io_step.mark) (simp add: io_complete_def)
  moreover have "event_step (race0 v) (race1 v)"
    using event_step.cancel [of "race0 v"] by (simp add: closer_mark_def io_complete_def call_new_def)
  ultimately show ?thesis
    by (meson iocall_step_def converse_rtranclp_into_rtranclp rtranclp.rtrancl_refl)
qed

text \<open>When a journey is cancelled between the two lines of \<open>CloseOnError::done\<close>, \<open>call\<close>
  ends without waiting, although the completion handler still uses its frame: \<open>doer_\<close> is gone
  when \<open>done()\<close> is called on it, and the call leaves a done flag that lets the next wait of the
  journey pass.\<close>

theorem call_done_race:
  "\<exists>c. iocall_step\<^sup>*\<^sup>* (call_new js_initial) c \<and> ic_call c = CallEnd (Inl CancelledEvent) \<and>
     ic_result c = Some (Some v) \<and> \<not> ic_closed c \<and> ic_badDone c \<and> is_done (ic_word c)"
proof -
  define w where "w = snd (js_cancel js_initial)"
  have w: "enabled w" "cancelled w" by (simp_all add: w_def js_bits)
  obtain x where h: "handleEvents_on w w = (Inl CancelledEvent, x)"
    using handleEvents_on_result [of w w] w by (cases "handleEvents_on w w") auto
  define c2 where "c2 = (race1 v)\<lparr>ic_call := CallHandle w\<rparr>"
  define c3 where "c3 = call_handle w c2"
  define c4 where "c4 = closer_dtor (Inl CancelledEvent) c3"
  note defs = call_new_def io_complete_def closer_mark_def call_handle_def closer_dtor_def h frame_gone_def
  have "call_step (race1 v) c2"
    using call_step.woken [of "race1 v"] w by (simp add: c2_def defs w_def js_bits)
  moreover have "call_step c2 c3" unfolding c3_def by (rule call_step.handle) (simp add: c2_def)
  moreover have c3: "ic_call c3 = CallLeave (Inl CancelledEvent)"
    by (simp add: c3_def c2_def defs w_def [symmetric])
  then have "call_step c3 c4" unfolding c4_def by (rule call_step.leave)
  moreover have c4: "ic_io c4 = IoWake" "ic_call c4 = CallEnd (Inl CancelledEvent)"
    "ic_result c4 = Some (Some v)" "\<not> ic_closed c4"
    by (simp_all add: c4_def c3_def c2_def defs w_def [symmetric])
  moreover have "io_step c4 (closer_done c4)" using c4(1) by (rule io_step.wake)
  ultimately have "iocall_step\<^sup>*\<^sup>* (race1 v) (closer_done c4)"
    by (meson iocall_step_def converse_rtranclp_into_rtranclp rtranclp.rtrancl_refl)
  with race_reaches have "iocall_step\<^sup>*\<^sup>* (call_new js_initial) (closer_done c4)" by (rule rtranclp_trans)
  moreover have "ic_call (closer_done c4) = CallEnd (Inl CancelledEvent)"
    "ic_result (closer_done c4) = Some (Some v)" "\<not> ic_closed (closer_done c4)"
    "ic_badDone (closer_done c4)" "is_done (ic_word (closer_done c4))"
    using c4 by (simp_all add: closer_done_def frame_gone_def js_bits)
  ultimately show ?thesis by blast
qed

text \<open>With a stray done flag \<open>call\<close> does return although nothing was read: the journey runs through
  its wait and the body before the handler, and only the destructor waits for it.\<close>

lemma stray_done_uninitialised:
  "\<exists>c :: 'v iocall. iocall_step\<^sup>*\<^sup>* (call_new (snd (js_done js_initial))) c \<and>
     ic_call c = CallEnd (Inl (LogicError ''uninitialised value''))"
proof -
  let ?w = "snd (js_done js_initial)"
  have w: "is_done ?w" "\<not> cancelled ?w" "\<not> timedout ?w" by (simp_all add: js_bits)
  obtain x where h: "handleEvents_on ?w ?w = (Inr (), x)"
    using handleEvents_on_result [of ?w ?w] w by (cases "handleEvents_on ?w ?w") auto
  let ?r = "Inl (LogicError ''uninitialised value'') :: 'v outcome"
  define c0 :: "'v iocall" where "c0 = call_new ?w"
  define c1 where "c1 = c0\<lparr>ic_call := CallHandle ?w\<rparr>"
  define c2 where "c2 = call_handle ?w c1"
  define c3 where "c3 = closer_dtor ?r c2"
  note defs = c0_def call_new_def call_handle_def h call_body_def closer_dtor_def closer_close_def
  have 1: "call_step c0 c1"
    using call_step.woken [of c0] w by (simp add: c1_def defs mayProceed_bits)
  have 2: "call_step c1 c2" unfolding c2_def by (rule call_step.handle) (simp add: c1_def)
  have c2: "ic_call c2 = CallLeave ?r" "ic_wasDone c2 = False" "ic_io c2 = IoPending"
    by (simp_all add: c2_def c1_def defs)
  have 3: "call_step c2 c3" unfolding c3_def using c2(1) by (rule call_step.leave)
  obtain we where c3: "ic_call c3 = CallDtor we ?r" "ic_io c3 = IoPending"
    using c2 by (auto simp: c3_def closer_dtor_def closer_close_def split_beta)
  define c4 where "c4 = io_complete None c3"
  define c5 where "c5 = closer_mark c4"
  define c6 where "c6 = closer_done c5"
  have io: "io_step c3 c4" "io_step c4 c5" "io_step c5 c6"
    using c3 io_step.complete [of c3 None] io_step.mark [of c4] io_step.wake [of c5]
    by (simp_all add: c4_def c5_def c6_def io_complete_def closer_mark_def)
  have c6: "ic_call c6 = CallDtor we ?r" "is_done (ic_word c6)"
    using c3 by (simp_all add: c6_def c5_def c4_def io_complete_def closer_mark_def closer_done_def js_bits)
  then have 7: "call_step c6 (closer_dtor_end we ?r c6)"
    by (intro call_step.dtor) (simp_all add: mayProceed_bits)
  from 1 2 3 io 7 have "iocall_step\<^sup>*\<^sup>* c0 (closer_dtor_end we ?r c6)"
    by (meson iocall_step_def converse_rtranclp_into_rtranclp rtranclp.rtrancl_refl)
  then show ?thesis unfolding c0_def by (intro exI conjI) (auto simp: closer_dtor_end_def Let_def)
qed


lemma call_not_stuck_witness:
  "\<exists>d. io_step (race1 (7::nat)) d \<or> call_step (race1 (7::nat)) d"
  by (rule call_not_stuck [OF race_reaches])
    (simp_all add: js_bits frame_gone_def closer_mark_def io_complete_def call_new_def)

section \<open>Accepting, resolving\<close>

text \<open>
  \<open>Acceptor::goAccept\<close> in the loop of \<open>Listener::listen\<close>: every socket \<open>accept\<close> returns is
  given to the handler in a journey of its own; the loop ends with the exception \<open>accept\<close>
  throws. The outcomes of the calls of \<open>accept\<close> are the list.
\<close>

fun listen_accepts :: "('s \<Rightarrow> 'j) \<Rightarrow> 's outcome list \<Rightarrow> 'j list \<times> exn option" where
  "listen_accepts handler [] = ([], None)"
| "listen_accepts handler (Inr s # rest) =
     (let (js, e) = listen_accepts handler rest in (handler s # js, e))"
| "listen_accepts handler (Inl e # rest) = ([], Some e)"

text \<open>\<open>Resolver::resolve\<close> makes endpoints of what the operation returned: port, address, protocol.\<close>

fun resolve_endpoints :: "(16 word \<times> string \<times> bool) list \<Rightarrow> endpoint list" where
  "resolve_endpoints [] = []"
| "resolve_endpoints ((p, a, v4) # ends) =
     \<lparr>ep_port = p, ep_address = a, ep_type = (if v4 then V4 else V6)\<rparr> # resolve_endpoints ends"

text \<open>Cancelling the listener ends its loop and none of the journeys already started.\<close>

lemma listener_cancelled:
  "listen_accepts handler (map Inr ss @ Inl CancelledEvent # rest) = (map handler ss, Some CancelledEvent)"
  by (induction ss) simp_all

end
