(* ===== verification/Piping.thy ===== *)
theory Piping
  imports Replob_Prelude "HOL-Library.Multiset"
begin

text \<open>
  Pipes between channels (\<open>include/synca/once/data.h\<close>, with \<open>goN\<close> of \<open>src/core.cpp\<close>):
  \<open>piping\<close> starts \<open>n\<close> journeys that take values from a source channel until it is closed
  and empty, and put what a function makes of them into a destination channel, which a
  \<open>Closer\<close> closes when the journey ends. The channels are given by what theory \<open>Channel\<close> proves of
  them: a queue in which values keep their order, and \<open>put\<close> throws once it is closed.
\<close>

section \<open>What a value turns into\<close>

text \<open>
  The puts one value leads to. \<open>piping1to1\<close> and \<open>piping1to01\<close> put what \<open>f\<close> returns,
  nothing when it throws (\<open>None\<close>), the latter nothing either when the result is empty. In
  \<open>piping1toMany\<close> \<open>f\<close> itself puts any number of values.
\<close>

definition pipe_1to1 :: "('a \<Rightarrow> 'b option) \<Rightarrow> 'a \<Rightarrow> 'b list" where
  "pipe_1to1 f v = (case f v of None \<Rightarrow> [] | Some r \<Rightarrow> [r])"

definition pipe_1to01 :: "('b \<Rightarrow> bool) \<Rightarrow> ('a \<Rightarrow> 'b option) \<Rightarrow> 'a \<Rightarrow> 'b list" where
  "pipe_1to01 isEmpty f v = (case f v of None \<Rightarrow> [] | Some r \<Rightarrow> if \<not> isEmpty r then [r] else [])"

definition pipe_1toMany :: "('a \<Rightarrow> 'b list) \<Rightarrow> 'a \<Rightarrow> 'b list" where
  "pipe_1toMany f v = f v"

section \<open>The journeys\<close>

text \<open>A journey waits for the next value, has puts left to do, or has ended.\<close>

datatype 'b pipe_pc = PGet | PPut "'b list" | PEnd

text \<open>
  \<open>pi_fed\<close> records what was put into the source, \<open>pi_lost\<close> the values of puts that threw, with
  those their exception skipped.
\<close>

record ('a, 'b) pipe =
  pi_src :: "'a list"
  pi_srcClosed :: bool
  pi_out :: "'b list"
  pi_outClosed :: bool
  pi_pcs :: "'b pipe_pc list"
  pi_fed :: "'a list"
  pi_lost :: "'b list"

text \<open>\<open>goN\<close> with any \<open>n\<close>: the journeys all run the same handler.\<close>

definition goN :: "nat \<Rightarrow> 'h \<Rightarrow> 'h list" where
  "goN n h = (if n = 1 then [h] else map (\<lambda>_. h) [0..<n])"

definition piping :: "nat \<Rightarrow> ('a, 'b) pipe" where
  "piping n = \<lparr>pi_src = [], pi_srcClosed = False, pi_out = [], pi_outClosed = False,
     pi_pcs = goN n PGet, pi_fed = [], pi_lost = []\<rparr>"

definition pipe_set :: "nat \<Rightarrow> 'b pipe_pc \<Rightarrow> ('a, 'b) pipe \<Rightarrow> ('a, 'b) pipe" where
  "pipe_set i pc p = p\<lparr>pi_pcs := (pi_pcs p)[i := pc]\<rparr>"

definition pipe_take :: "('a \<Rightarrow> 'b list) \<Rightarrow> nat \<Rightarrow> ('a, 'b) pipe \<Rightarrow> ('a, 'b) pipe" where
  "pipe_take f i p = pipe_set i (PPut (f (hd (pi_src p)))) (p\<lparr>pi_src := tl (pi_src p)\<rparr>)"

definition pipe_put :: "nat \<Rightarrow> 'b list \<Rightarrow> ('a, 'b) pipe \<Rightarrow> ('a, 'b) pipe" where
  "pipe_put i rs p =
     (case rs of
        [] \<Rightarrow> pipe_set i PGet p
      | r # rest \<Rightarrow>
          if pi_outClosed p then pipe_set i PGet (p\<lparr>pi_lost := pi_lost p @ rs\<rparr>)
          else pipe_set i (PPut rest) (p\<lparr>pi_out := pi_out p @ [r]\<rparr>))"

text \<open>The end of the loop over a closed source: \<open>~Closer\<close>.\<close>

definition pipe_end :: "nat \<Rightarrow> ('a, 'b) pipe \<Rightarrow> ('a, 'b) pipe" where
  "pipe_end i p = pipe_set i PEnd (p\<lparr>pi_outClosed := True\<rparr>)"

inductive pipe_step :: "('a \<Rightarrow> 'b list) \<Rightarrow> ('a, 'b) pipe \<Rightarrow> ('a, 'b) pipe \<Rightarrow> bool" for f where
  feed: "\<not> pi_srcClosed p \<Longrightarrow> pipe_step f p (p\<lparr>pi_src := pi_src p @ [v], pi_fed := pi_fed p @ [v]\<rparr>)"
| close: "pipe_step f p (p\<lparr>pi_srcClosed := True\<rparr>)"
| taken: "\<lbrakk>i < length (pi_pcs p); pi_pcs p ! i = PGet; pi_src p \<noteq> []\<rbrakk> \<Longrightarrow> pipe_step f p (pipe_take f i p)"
| put: "\<lbrakk>i < length (pi_pcs p); pi_pcs p ! i = PPut rs\<rbrakk> \<Longrightarrow> pipe_step f p (pipe_put i rs p)"
| ended: "\<lbrakk>i < length (pi_pcs p); pi_pcs p ! i = PGet; pi_src p = []; pi_srcClosed p\<rbrakk> \<Longrightarrow>
     pipe_step f p (pipe_end i p)"

fun in_flight :: "'b pipe_pc \<Rightarrow> 'b list" where
  "in_flight (PPut rs) = rs"
| "in_flight _ = []"

section \<open>Nothing disappears unnoticed\<close>

definition flying :: "('a, 'b) pipe \<Rightarrow> 'b multiset" where
  "flying p = (\<Sum>pc\<leftarrow>pi_pcs p. mset (in_flight pc))"

definition pipe_inv :: "('a \<Rightarrow> 'b list) \<Rightarrow> nat \<Rightarrow> ('a, 'b) pipe \<Rightarrow> bool" where
  "pipe_inv f n p \<longleftrightarrow> length (pi_pcs p) = n \<and>
     mset (pi_out p) + mset (pi_lost p) + flying p + mset (concat (map f (pi_src p))) =
       mset (concat (map f (pi_fed p))) \<and>
     (\<not> pi_outClosed p \<longrightarrow> pi_lost p = [] \<and> PEnd \<notin> set (pi_pcs p)) \<and>
     (pi_outClosed p \<longrightarrow> PEnd \<in> set (pi_pcs p) \<and> pi_srcClosed p \<and> pi_src p = [])"

lemma pipe_set_fields [simp]:
  "pi_src (pipe_set i pc p) = pi_src p" "pi_srcClosed (pipe_set i pc p) = pi_srcClosed p"
  "pi_out (pipe_set i pc p) = pi_out p" "pi_outClosed (pipe_set i pc p) = pi_outClosed p"
  "pi_pcs (pipe_set i pc p) = (pi_pcs p)[i := pc]" "pi_fed (pipe_set i pc p) = pi_fed p"
  "pi_lost (pipe_set i pc p) = pi_lost p"
  by (simp_all add: pipe_set_def)

lemma sum_list_update_mset:
  fixes g :: "'c \<Rightarrow> 'b multiset"
  shows "i < length xs \<Longrightarrow> (\<Sum>x\<leftarrow>xs[i := y]. g x) + g (xs ! i) = (\<Sum>x\<leftarrow>xs. g x) + g y"
proof (induction xs arbitrary: i)
  case (Cons a xs)
  show ?case
  proof (cases i)
    case (Suc j)
    then show ?thesis using Cons.IH [of j] Cons.prems by (simp add: add.assoc)
  qed (simp add: ac_simps)
qed simp

lemma flying_update:
  "i < length (pi_pcs p) \<Longrightarrow> pi_pcs q = (pi_pcs p)[i := pc] \<Longrightarrow>
     flying q + mset (in_flight (pi_pcs p ! i)) = flying p + mset (in_flight pc)"
  using sum_list_update_mset [of i "pi_pcs p" "\<lambda>pc. mset (in_flight pc)" pc] by (simp add: flying_def)

lemma no_end_update: "PEnd \<notin> set xs \<Longrightarrow> pc \<noteq> PEnd \<Longrightarrow> PEnd \<notin> set (xs[i := pc])"
  using set_update_subset_insert [of xs i pc] by auto

lemma pipe_step_inv:
  assumes "pipe_inv f n p" "pipe_step f p q"
  shows "pipe_inv f n q"
  using assms(2)
proof cases
  case (feed v)
  then show ?thesis using assms(1) by (auto simp: pipe_inv_def flying_def ac_simps)
next
  case close
  then show ?thesis using assms(1) by (auto simp: pipe_inv_def flying_def)
next
  case (taken i)
  then obtain v vs where src: "pi_src p = v # vs" by (cases "pi_src p") auto
  have q: "pi_pcs q = (pi_pcs p)[i := PPut (f v)]" "pi_src q = vs" "pi_out q = pi_out p" "pi_lost q = pi_lost p"
    "pi_fed q = pi_fed p" "pi_outClosed q = pi_outClosed p" "pi_srcClosed q = pi_srcClosed p"
    using taken(1) src by (simp_all add: pipe_take_def)
  have "flying q = flying p + mset (f v)" using flying_update [OF taken(2) q(1)] taken(3) by simp
  moreover have "PEnd \<in> set (pi_pcs q)" if "PEnd \<in> set (pi_pcs p)"
    unfolding q(1) using that taken(3) by (intro set_update_old) simp_all
  ultimately show ?thesis using assms(1) q src no_end_update [of "pi_pcs p" "PPut (f v)" i]
    by (auto simp: pipe_inv_def ac_simps)
next
  case (put i rs)
  show ?thesis
  proof (cases rs)
    case Nil
    have q: "q = pipe_set i PGet p" using put(1) Nil by (simp add: pipe_put_def)
    have "flying q = flying p" using flying_update [OF put(2), of q PGet] put(3) Nil q by simp
    moreover have "PEnd \<in> set (pi_pcs q)" if "PEnd \<in> set (pi_pcs p)"
      using that put(3) q by (simp add: set_update_old)
    ultimately show ?thesis using assms(1) q no_end_update [of "pi_pcs p" PGet i] by (auto simp: pipe_inv_def)
  next
    case (Cons r rest)
    define pc where "pc = (if pi_outClosed p then PGet else PPut rest)"
    have q: "pi_pcs q = (pi_pcs p)[i := pc]" "pi_src q = pi_src p" "pi_fed q = pi_fed p"
      "pi_outClosed q = pi_outClosed p" "pi_srcClosed q = pi_srcClosed p"
      "pi_out q = (if pi_outClosed p then pi_out p else pi_out p @ [r])"
      "pi_lost q = (if pi_outClosed p then pi_lost p @ rs else pi_lost p)"
      using put(1) Cons by (simp_all add: pipe_put_def pc_def)
    have "flying q + mset rs = flying p + mset (in_flight pc)" using flying_update [OF put(2) q(1)] put(3) by simp
    then have fl: "mset (pi_out q) + mset (pi_lost q) + flying q = mset (pi_out p) + mset (pi_lost p) + flying p"
      using q(6,7) Cons by (auto simp: pc_def ac_simps)
    moreover have "PEnd \<in> set (pi_pcs q)" if "PEnd \<in> set (pi_pcs p)"
      unfolding q(1) using that put(3) by (intro set_update_old) simp_all
    ultimately show ?thesis using assms(1) q no_end_update [of "pi_pcs p" pc i]
      by (simp add: pipe_inv_def) (auto simp: pc_def split: if_splits)
  qed
next
  case (ended i)
  have q: "pi_pcs q = (pi_pcs p)[i := PEnd]" using ended(1) by (simp add: pipe_end_def)
  have "flying q = flying p" using flying_update [OF ended(2) q] ended(3) by simp
  then show ?thesis using assms(1) ended set_update_memI [OF ended(2), of PEnd]
    by (simp add: pipe_inv_def pipe_end_def)
qed

lemma piping_start: "p = piping n \<Longrightarrow> pipe_inv f n p"
proof -
  assume p: "p = piping n"
  have pcs: "pi_pcs p = replicate n PGet"
    by (simp add: p piping_def goN_def map_replicate_const)
  moreover have "(\<Sum>pc\<leftarrow>replicate n (PGet :: 'b pipe_pc). mset (in_flight pc)) = {#}"
    by (induction n) simp_all
  ultimately have "flying p = {#}" by (simp add: flying_def)
  then show ?thesis using pcs by (simp add: pipe_inv_def p piping_def)
qed

interpretation pipes: step_system "\<lambda>p. p = piping n" "pipe_step f" "pipe_inv f n" for f n
  by unfold_locales (blast intro: piping_start pipe_step_inv)+

text \<open>C27: In a pipe with any number of journeys no result disappears unnoticed: all that was put
  into the source is still there, with a journey, in the destination, or its put threw; and no
  put throws before a first journey has ended on a closed and empty source.\<close>

theorem piping_conserves:
  assumes "(pipe_step f)\<^sup>*\<^sup>* (piping n) p"
  shows "mset (pi_out p) + mset (pi_lost p) + flying p + mset (concat (map f (pi_src p))) =
      mset (concat (map f (pi_fed p))) \<and>
    (pi_lost p \<noteq> [] \<longrightarrow> PEnd \<in> set (pi_pcs p) \<and> pi_srcClosed p \<and> pi_src p = [])"
proof -
  have "pipe_inv f n p" using pipes.inv_reachable [OF refl assms] .
  then show ?thesis unfolding pipe_inv_def by blast
qed

section \<open>One journey\<close>

definition pipe1_inv :: "('a \<Rightarrow> 'b list) \<Rightarrow> ('a, 'b) pipe \<Rightarrow> bool" where
  "pipe1_inv f p \<longleftrightarrow> length (pi_pcs p) = 1 \<and> pi_lost p = [] \<and>
     pi_out p @ in_flight (pi_pcs p ! 0) @ concat (map f (pi_src p)) = concat (map f (pi_fed p)) \<and>
     (pi_outClosed p \<longleftrightarrow> pi_pcs p ! 0 = PEnd) \<and> (pi_outClosed p \<longrightarrow> pi_srcClosed p \<and> pi_src p = [])"

lemma pipe1_step_inv:
  assumes "pipe1_inv f p" "pipe_step f p q"
  shows "pipe1_inv f q"
proof -
  obtain pc where pc: "pi_pcs p = [pc]" using assms(1) by (auto simp: pipe1_inv_def length_Suc_conv)
  from assms(2) show ?thesis
  proof cases
    case feed
    with assms(1) pc show ?thesis by (auto simp: pipe1_inv_def)
  next
    case close
    with assms(1) pc show ?thesis by (auto simp: pipe1_inv_def)
  next
    case (taken i)
    with assms(1) pc show ?thesis by (cases "pi_src p") (auto simp: pipe1_inv_def pipe_take_def)
  next
    case (put i rs)
    with assms(1) pc show ?thesis by (cases rs) (auto simp: pipe1_inv_def pipe_put_def)
  next
    case ended
    with assms(1) pc show ?thesis by (auto simp: pipe1_inv_def pipe_end_def)
  qed
qed

lemma pipe1_start: "p = piping 1 \<Longrightarrow> pipe1_inv f p"
  by (simp add: pipe1_inv_def piping_def goN_def)

interpretation pipe1: step_system "\<lambda>p. p = piping 1" "pipe_step f" "pipe1_inv f" for f
  by unfold_locales (blast intro: pipe1_start pipe1_step_inv)+

text \<open>A pipe with one journey, the default, has put exactly what its function makes of the
  values of the source, in their order, when it closes the destination.\<close>

theorem piping_one_maps:
  assumes "(pipe_step f)\<^sup>*\<^sup>* (piping 1) p" "pi_outClosed p"
  shows "pi_out p = concat (map f (pi_fed p)) \<and> pi_lost p = []"
proof -
  have "pipe1_inv f p" using pipe1.inv_reachable [OF refl assms(1)] .
  then show ?thesis using assms(2) unfolding pipe1_inv_def by (metis append_Nil2 concat.simps(1) in_flight.simps(3) list.map(1))
qed

abbreviation pst :: "nat list \<Rightarrow> bool \<Rightarrow> nat list \<Rightarrow> bool \<Rightarrow> nat pipe_pc list \<Rightarrow> nat list \<Rightarrow> nat list \<Rightarrow> (nat, nat) pipe" where
  "pst src sc out oc pcs fed lost \<equiv> \<lparr>pi_src = src, pi_srcClosed = sc, pi_out = out, pi_outClosed = oc,
     pi_pcs = pcs, pi_fed = fed, pi_lost = lost\<rparr>"

lemmas pipe_eval = piping_def goN_def pipe_take_def pipe_put_def pipe_end_def pipe_set_def

text \<open>\<open>f\<close> of the runs: \<open>piping1to1\<close> with a function that returns its argument.\<close>

abbreviation pid :: "nat \<Rightarrow> nat list" where
  "pid \<equiv> pipe_1to1 Some"

lemma pid_eval: "pid v = [v]"
  by (simp add: pipe_1to1_def)

text \<open>The second journey closes the destination while the first still has its value.\<close>

lemma two_journeys_lose:
  "(pipe_step pid)\<^sup>*\<^sup>* (piping 2) (pst [] True [] True [PGet, PEnd] [7] [7])"
proof -
  have "pipe_step pid (piping 2) (pst [7] False [] False [PGet, PGet] [7] [])"
    using pipe_step.feed [of "piping 2" pid 7] by (simp add: pipe_eval upt_rec)
  moreover have "pipe_step pid (pst [7] False [] False [PGet, PGet] [7] []) (pst [7] True [] False [PGet, PGet] [7] [])"
    using pipe_step.close [of pid "pst [7] False [] False [PGet, PGet] [7] []"] by simp
  moreover have "pipe_step pid (pst [7] True [] False [PGet, PGet] [7] []) (pst [] True [] False [PPut [7], PGet] [7] [])"
    using pipe_step.taken [of 0 "pst [7] True [] False [PGet, PGet] [7] []" pid] by (simp add: pipe_eval pid_eval)
  moreover have "pipe_step pid (pst [] True [] False [PPut [7], PGet] [7] []) (pst [] True [] True [PPut [7], PEnd] [7] [])"
    using pipe_step.ended [of 1 "pst [] True [] False [PPut [7], PGet] [7] []" pid] by (simp add: pipe_eval)
  moreover have "pipe_step pid (pst [] True [] True [PPut [7], PEnd] [7] []) (pst [] True [] True [PGet, PEnd] [7] [7])"
    using pipe_step.put [of 0 "pst [] True [] True [PPut [7], PEnd] [7] []" "[7]" pid] by (simp add: pipe_eval)
  ultimately show ?thesis by (meson converse_rtranclp_into_rtranclp rtranclp.rtrancl_refl)
qed

text \<open>With two journeys the one that finds the source closed first closes the destination,
  and the value the other is working on is lost.\<close>

theorem piping_loses_in_flight:
  "\<exists>p. (pipe_step (pipe_1to1 Some))\<^sup>*\<^sup>* (piping 2) p \<and> pi_out p = [] \<and> pi_lost p = pi_fed p \<and> pi_fed p = [7::nat]"
  using two_journeys_lose by (intro exI [of _ "pst [] True [] True [PGet, PEnd] [7] [7]"]) simp

lemma piping_conserves_witness:
  "mset (pi_lost (pst [] True [] True [PGet, PEnd] [7] [7])) = mset (concat (map pid [7]))"
  using piping_conserves [OF two_journeys_lose] by (simp add: flying_def)

lemma piping_one_maps_witness:
  "\<exists>p. (pipe_step pid)\<^sup>*\<^sup>* (piping 1) p \<and> pi_outClosed p \<and> pi_out p = [] \<and> pi_fed p = []"
proof -
  let ?p = "pst [] True [] True [PEnd] [] []"
  have "pipe_step pid (piping 1) (pst [] True [] False [PGet] [] [])"
    using pipe_step.close [of pid "piping 1"] by (simp add: pipe_eval)
  moreover have "pipe_step pid (pst [] True [] False [PGet] [] []) ?p"
    using pipe_step.ended [of 0 "pst [] True [] False [PGet] [] []" pid] by (simp add: pipe_eval)
  ultimately have r: "(pipe_step pid)\<^sup>*\<^sup>* (piping 1) ?p"
    by (meson converse_rtranclp_into_rtranclp rtranclp.rtrancl_refl)
  from piping_one_maps [OF r] have "pi_out ?p = []" by simp
  with r show ?thesis by (intro exI [of _ ?p]) simp
qed

end
