(* ===== verification/ThreadPool.thy ===== *)
theory ThreadPool
  imports Replob_Prelude
begin

text \<open>
  The pool of threads that runs the journeys (\<open>src/thread_pool.cpp\<close>). \<open>boost::asio\<close>'s
  \<open>io_service\<close> is modelled by its documented behaviour: \<open>run\<close> executes posted handlers and
  returns when the service is stopped; the service stops when the last piece of work (a
  \<open>work\<close> object, a posted or an executing handler) is finished, and stays stopped until
  \<open>reset\<close>. What a thread does while it holds the pool's mutex is one step.
\<close>

section \<open>The pool\<close>

text \<open>
  Where a thread is: in \<open>run\<close>, executing a handler, after \<open>run\<close> and before the lock, before
  \<open>notify_all\<close>, or at its end.
\<close>

datatype worker = WRun | WExec | WLock | WNotify | WEnd

text \<open>
  One thread calls \<open>wait\<close>: \<open>p_waiting\<close> says it is in \<open>cond.wait\<close>, \<open>p_notified\<close> that it was
  notified. \<open>p_drained\<close> records whether all work was finished since that call began, and
  \<open>p_early\<close> whether a call has returned without.
\<close>

record pool =
  p_work :: bool
  p_queued :: nat
  p_stopped :: bool
  p_toStop :: bool
  p_workers :: "worker list"
  p_waiting :: bool
  p_notified :: bool
  p_drained :: bool
  p_early :: bool

definition pool_new :: "nat \<Rightarrow> pool" where
  "pool_new n = \<lparr>p_work = True, p_queued = 0, p_stopped = False, p_toStop = False,
     p_workers = replicate n WRun, p_waiting = False, p_notified = False, p_drained = False,
     p_early = False\<rparr>"

definition outstanding :: "pool \<Rightarrow> nat" where
  "outstanding p = (if p_work p then 1 else 0) + p_queued p + count_list (p_workers p) WExec"

text \<open>A piece of work was finished: the service stops when it was the last.\<close>

definition work_finished :: "pool \<Rightarrow> pool" where
  "work_finished p = (if outstanding p = 0 then p\<lparr>p_stopped := True, p_drained := True\<rparr> else p)"

definition set_worker :: "nat \<Rightarrow> worker \<Rightarrow> pool \<Rightarrow> pool" where
  "set_worker i w p = p\<lparr>p_workers := (p_workers p)[i := w]\<rparr>"

definition pool_schedule :: "pool \<Rightarrow> pool" where
  "pool_schedule p = p\<lparr>p_queued := Suc (p_queued p)\<rparr>"

definition pool_resetWork :: "pool \<Rightarrow> pool" where
  "pool_resetWork p = p\<lparr>p_work := True\<rparr>"

text \<open>The body of \<open>loop\<close> between \<open>run\<close> and the next \<open>run\<close>, under the lock.\<close>

definition loop_locked :: "nat \<Rightarrow> pool \<Rightarrow> pool" where
  "loop_locked i p =
     (if p_toStop p then set_worker i WEnd p
      else if \<not> p_work p then set_worker i WNotify ((pool_resetWork p)\<lparr>p_stopped := False\<rparr>)
      else set_worker i WRun p)"

text \<open>\<open>wait\<close> up to \<open>cond.wait\<close>, and its return after a wake-up with the lock.\<close>

definition wait_begin :: "pool \<Rightarrow> pool" where
  "wait_begin p =
     work_finished (p\<lparr>p_work := False, p_waiting := True, p_notified := False, p_drained := False\<rparr>)"

definition wait_woken :: "pool \<Rightarrow> pool" where
  "wait_woken p =
     (if p_work p then p\<lparr>p_waiting := False, p_early := p_early p \<or> \<not> p_drained p\<rparr>
      else p\<lparr>p_notified := False\<rparr>)"

definition pool_shutdown :: "pool \<Rightarrow> pool" where
  "pool_shutdown p = work_finished (p\<lparr>p_toStop := True, p_work := False\<rparr>)"

inductive worker_step :: "pool \<Rightarrow> pool \<Rightarrow> bool" where
  start: "\<lbrakk>i < length (p_workers p); p_workers p ! i = WRun; \<not> p_stopped p; p_queued p = Suc k\<rbrakk> \<Longrightarrow>
     worker_step p (set_worker i WExec (p\<lparr>p_queued := k\<rparr>))"
| finish: "\<lbrakk>i < length (p_workers p); p_workers p ! i = WExec\<rbrakk> \<Longrightarrow>
     worker_step p (work_finished (set_worker i WRun p))"
| no_work: "\<lbrakk>i < length (p_workers p); p_workers p ! i = WRun; outstanding p = 0\<rbrakk> \<Longrightarrow>
     worker_step p (work_finished p)"
| return: "\<lbrakk>i < length (p_workers p); p_workers p ! i = WRun; p_stopped p\<rbrakk> \<Longrightarrow>
     worker_step p (set_worker i WLock p)"
| locked: "\<lbrakk>i < length (p_workers p); p_workers p ! i = WLock\<rbrakk> \<Longrightarrow>
     worker_step p (loop_locked i p)"
| notify: "\<lbrakk>i < length (p_workers p); p_workers p ! i = WNotify\<rbrakk> \<Longrightarrow>
     worker_step p (set_worker i WRun (p\<lparr>p_notified := p_notified p \<or> p_waiting p\<rparr>))"

inductive pool_step :: "pool \<Rightarrow> pool \<Rightarrow> bool" where
  worker: "worker_step p q \<Longrightarrow> pool_step p q"
| schedule: "pool_step p (pool_schedule p)"
| wait: "\<lbrakk>\<not> p_waiting p; \<not> p_toStop p\<rbrakk> \<Longrightarrow> pool_step p (wait_begin p)"
| woken: "\<lbrakk>p_waiting p; p_notified p\<rbrakk> \<Longrightarrow> pool_step p (wait_woken p)"
| spurious: "p_waiting p \<Longrightarrow> pool_step p (wait_woken p)"
| shutdown: "\<not> p_waiting p \<Longrightarrow> pool_step p (pool_shutdown p)"

section \<open>One thread\<close>

text \<open>
  With one thread the service is stopped, and the thread between \<open>run\<close> and its lock, only
  while a call of \<open>wait\<close> is open whose work is drained.
\<close>

definition one_inv :: "pool \<Rightarrow> bool" where
  "one_inv p \<longleftrightarrow> length (p_workers p) = 1 \<and> \<not> p_early p \<and>
     (p_toStop p \<longrightarrow> \<not> p_waiting p) \<and>
     (\<not> p_toStop p \<longrightarrow>
        (p_stopped p \<or> p_workers p ! 0 = WLock \<longrightarrow> p_waiting p \<and> \<not> p_work p \<and> p_drained p) \<and>
        (\<not> p_waiting p \<longrightarrow> p_work p) \<and> (p_waiting p \<and> p_work p \<longrightarrow> p_drained p) \<and>
        p_workers p ! 0 \<noteq> WEnd)"

lemma set_worker_simps [simp]:
  "p_work (set_worker i w p) = p_work p" "p_queued (set_worker i w p) = p_queued p"
  "p_stopped (set_worker i w p) = p_stopped p" "p_toStop (set_worker i w p) = p_toStop p"
  "p_waiting (set_worker i w p) = p_waiting p" "p_notified (set_worker i w p) = p_notified p"
  "p_drained (set_worker i w p) = p_drained p" "p_early (set_worker i w p) = p_early p"
  "p_workers (set_worker i w p) = (p_workers p)[i := w]"
  by (simp_all add: set_worker_def)

lemma work_finished_simps [simp]:
  "p_work (work_finished p) = p_work p" "p_queued (work_finished p) = p_queued p"
  "p_toStop (work_finished p) = p_toStop p" "p_waiting (work_finished p) = p_waiting p"
  "p_notified (work_finished p) = p_notified p" "p_early (work_finished p) = p_early p"
  "p_workers (work_finished p) = p_workers p"
  "p_stopped (work_finished p) = (p_stopped p \<or> outstanding p = 0)"
  "p_drained (work_finished p) = (p_drained p \<or> outstanding p = 0)"
  by (simp_all add: work_finished_def)

lemma one_worker_step:
  assumes "worker_step p q" "one_inv p"
  shows "one_inv q"
proof -
  obtain w where w: "p_workers p = [w]"
    using assms(2) by (auto simp: one_inv_def length_Suc_conv)
  from assms(1) show ?thesis
  proof cases
    case (start i k)
    with assms(2) w show ?thesis by (simp add: one_inv_def)
  next
    case (finish i)
    with assms(2) w show ?thesis by (simp add: one_inv_def outstanding_def) blast
  next
    case (no_work i)
    then have "\<not> p_work p" by (auto simp: outstanding_def)
    with assms(2) w no_work show ?thesis by (auto simp: one_inv_def)
  next
    case (return i)
    with assms(2) w show ?thesis by (simp add: one_inv_def)
  next
    case (locked i)
    with assms(2) w show ?thesis
      by (simp add: one_inv_def loop_locked_def pool_resetWork_def)
  next
    case (notify i)
    with assms(2) w show ?thesis by (simp add: one_inv_def)
  qed
qed

lemma one_pool_step:
  assumes "one_inv p" "pool_step p q"
  shows "one_inv q"
  using assms(2)
proof cases
  case worker
  then show ?thesis using assms(1) by (rule one_worker_step)
qed (use assms(1) in \<open>auto simp: one_inv_def pool_schedule_def wait_begin_def wait_woken_def
      pool_shutdown_def outstanding_def\<close>)

lemma one_start: "p = pool_new 1 \<Longrightarrow> one_inv p"
  by (simp add: one_inv_def pool_new_def)

interpretation one_thread: step_system "\<lambda>p. p = pool_new 1" pool_step one_inv
  by unfold_locales (blast intro: one_start one_pool_step)+

text \<open>C40: In a pool of one thread, as every server of the examples has, \<open>wait\<close> returns only
  after a moment since its call at which no handler was queued or executing, in every
  interleaving with posted handlers and spurious wake-ups.\<close>

theorem wait_drains_one_thread:
  assumes "pool_step\<^sup>*\<^sup>* (pool_new 1) p"
  shows "\<not> p_early p \<and> (p_waiting p \<and> p_work p \<longrightarrow> p_drained p)"
proof -
  have "one_inv p" using one_thread.inv_reachable [OF refl assms] .
  then show ?thesis by (auto simp: one_inv_def)
qed
text \<open>States of a run, field by field.\<close>

abbreviation pst :: "bool \<Rightarrow> nat \<Rightarrow> bool \<Rightarrow> worker list \<Rightarrow> bool \<Rightarrow> bool \<Rightarrow> bool \<Rightarrow> bool \<Rightarrow> pool" where
  "pst w q st wks wa no dr ea \<equiv>
     \<lparr>p_work = w, p_queued = q, p_stopped = st, p_toStop = False, p_workers = wks, p_waiting = wa,
      p_notified = no, p_drained = dr, p_early = ea\<rparr>"

lemmas pool_eval = pool_new_def wait_begin_def wait_woken_def loop_locked_def pool_resetWork_def
  pool_schedule_def set_worker_def work_finished_def outstanding_def

lemma pool_wait: "pool_step (pst True q st wks False no dr ea) (wait_begin (pst True q st wks False no dr ea))"
  by (rule pool_step.wait) simp_all

lemma wait_drains_one_thread_witness:
  "\<exists>p. pool_step\<^sup>*\<^sup>* (pool_new 1) p \<and> \<not> p_waiting p \<and> p_drained p \<and> \<not> p_early p"
proof -
  have "pool_step (pool_new 1) (pst False 0 True [WRun] True False True False)"
    using pool_step.wait [of "pool_new 1"] by (simp add: pool_eval)
  moreover have "pool_step (pst False 0 True [WRun] True False True False) (pst False 0 True [WLock] True False True False)"
    using pool_step.worker [OF worker_step.return, of 0 "pst False 0 True [WRun] True False True False"]
    by (simp add: pool_eval)
  moreover have "pool_step (pst False 0 True [WLock] True False True False) (pst True 0 False [WNotify] True False True False)"
    using pool_step.worker [OF worker_step.locked, of 0 "pst False 0 True [WLock] True False True False"]
    by (simp add: pool_eval)
  moreover have "pool_step (pst True 0 False [WNotify] True False True False) (pst True 0 False [WRun] True True True False)"
    using pool_step.worker [OF worker_step.notify, of 0 "pst True 0 False [WNotify] True False True False"]
    by (simp add: pool_eval)
  moreover have "pool_step (pst True 0 False [WRun] True True True False) (pst True 0 False [WRun] False True True False)"
    using pool_step.woken [of "pst True 0 False [WRun] True True True False"] by (simp add: pool_eval)
  ultimately have r: "pool_step\<^sup>*\<^sup>* (pool_new 1) (pst True 0 False [WRun] False True True False)"
    by (meson converse_rtranclp_into_rtranclp rtranclp.rtrancl_refl)
  from wait_drains_one_thread [OF r] have "\<not> p_early (pst True 0 False [WRun] False True True False)" by blast
  with r show ?thesis by (intro exI [of _ "pst True 0 False [WRun] False True True False"]) simp
qed

section \<open>Several threads\<close>

text \<open>
  With two threads \<open>wait\<close> can return at once: a thread that left \<open>run\<close> for an earlier call
  takes the lock late, finds no work object, and ends the new call.
\<close>

lemma two_threads_first_wait:
  "pool_step\<^sup>*\<^sup>* (pool_new 2) (pst True 0 False [WRun, WLock] False True True False)"
proof -
  have "pool_step (pool_new 2) (pst False 0 True [WRun, WRun] True False True False)"
    using pool_step.wait [of "pool_new 2"] by (simp add: pool_eval numeral_2_eq_2)
  moreover have "pool_step (pst False 0 True [WRun, WRun] True False True False) (pst False 0 True [WLock, WRun] True False True False)"
    using pool_step.worker [OF worker_step.return, of 0 "pst False 0 True [WRun, WRun] True False True False"]
    by (simp add: pool_eval)
  moreover have "pool_step (pst False 0 True [WLock, WRun] True False True False) (pst False 0 True [WLock, WLock] True False True False)"
    using pool_step.worker [OF worker_step.return, of 1 "pst False 0 True [WLock, WRun] True False True False"]
    by (simp add: pool_eval)
  moreover have "pool_step (pst False 0 True [WLock, WLock] True False True False) (pst True 0 False [WNotify, WLock] True False True False)"
    using pool_step.worker [OF worker_step.locked, of 0 "pst False 0 True [WLock, WLock] True False True False"]
    by (simp add: pool_eval)
  moreover have "pool_step (pst True 0 False [WNotify, WLock] True False True False) (pst True 0 False [WRun, WLock] True True True False)"
    using pool_step.worker [OF worker_step.notify, of 0 "pst True 0 False [WNotify, WLock] True False True False"]
    by (simp add: pool_eval)
  moreover have "pool_step (pst True 0 False [WRun, WLock] True True True False) (pst True 0 False [WRun, WLock] False True True False)"
    using pool_step.woken [of "pst True 0 False [WRun, WLock] True True True False"] by (simp add: pool_eval)
  ultimately show ?thesis by (meson converse_rtranclp_into_rtranclp rtranclp.rtrancl_refl)
qed

lemma wait_returns_early_two_threads:
  "\<exists>p. pool_step\<^sup>*\<^sup>* (pool_new 2) p \<and> p_early p \<and> p_queued p = 1"
proof -
  have "pool_step (pst True 0 False [WRun, WLock] False True True False) (pst True 1 False [WRun, WLock] False True True False)"
    using pool_step.schedule [of "pst True 0 False [WRun, WLock] False True True False"] by (simp add: pool_eval)
  moreover have "pool_step (pst True 1 False [WRun, WLock] False True True False) (pst False 1 False [WRun, WLock] True False False False)"
    using pool_wait [of 1 False "[WRun, WLock]" True True False] by (simp add: pool_eval)
  moreover have "pool_step (pst False 1 False [WRun, WLock] True False False False) (pst True 1 False [WRun, WNotify] True False False False)"
    using pool_step.worker [OF worker_step.locked, of 1 "pst False 1 False [WRun, WLock] True False False False"]
    by (simp add: pool_eval)
  moreover have "pool_step (pst True 1 False [WRun, WNotify] True False False False) (pst True 1 False [WRun, WRun] True True False False)"
    using pool_step.worker [OF worker_step.notify, of 1 "pst True 1 False [WRun, WNotify] True False False False"]
    by (simp add: pool_eval)
  moreover have "pool_step (pst True 1 False [WRun, WRun] True True False False) (pst True 1 False [WRun, WRun] False True False True)"
    using pool_step.woken [of "pst True 1 False [WRun, WRun] True True False False"] by (simp add: pool_eval)
  ultimately have "pool_step\<^sup>*\<^sup>* (pst True 0 False [WRun, WLock] False True True False)
      (pst True 1 False [WRun, WRun] False True False True)"
    by (meson converse_rtranclp_into_rtranclp rtranclp.rtrancl_refl)
  then have "pool_step\<^sup>*\<^sup>* (pool_new 2) (pst True 1 False [WRun, WRun] False True False True)"
    using two_threads_first_wait by (rule rtranclp_trans [rotated])
  then show ?thesis by (rule exI [of _ "pst True 1 False [WRun, WRun] False True False True", OF conjI]) simp
qed

section \<open>No call of wait is forgotten\<close>

definition pool_inv :: "nat \<Rightarrow> pool \<Rightarrow> bool" where
  "pool_inv n p \<longleftrightarrow> length (p_workers p) = n \<and> (p_toStop p \<longrightarrow> \<not> p_waiting p) \<and>
     (p_waiting p \<longrightarrow> WEnd \<notin> set (p_workers p)) \<and> (\<not> p_toStop p \<longrightarrow> WEnd \<notin> set (p_workers p)) \<and>
     (p_waiting p \<and> p_work p \<longrightarrow> p_notified p \<or> WNotify \<in> set (p_workers p))"

lemma pool_worker_inv:
  assumes "worker_step p q" "pool_inv n p"
  shows "pool_inv n q"
  using assms(1)
proof cases
  case (start i k)
  have "WEnd \<notin> set ((p_workers p)[i := WExec])" if "WEnd \<notin> set (p_workers p)"
    using that set_update_subset_insert [of "p_workers p" i WExec] by auto
  moreover have "WNotify \<in> set ((p_workers p)[i := WExec])" if "WNotify \<in> set (p_workers p)"
    using that start(3) by (intro set_update_old) simp_all
  ultimately show ?thesis using assms(2) start(1) by (auto simp: pool_inv_def)
next
  case (finish i)
  have "WEnd \<notin> set ((p_workers p)[i := WRun])" if "WEnd \<notin> set (p_workers p)"
    using that set_update_subset_insert [of "p_workers p" i WRun] by auto
  moreover have "WNotify \<in> set ((p_workers p)[i := WRun])" if "WNotify \<in> set (p_workers p)"
    using that finish(3) by (intro set_update_old) simp_all
  ultimately show ?thesis using assms(2) finish(1) by (auto simp: pool_inv_def)
next
  case (no_work i)
  then show ?thesis using assms(2) by (simp add: pool_inv_def)
next
  case (return i)
  have "WEnd \<notin> set ((p_workers p)[i := WLock])" if "WEnd \<notin> set (p_workers p)"
    using that set_update_subset_insert [of "p_workers p" i WLock] by auto
  moreover have "WNotify \<in> set ((p_workers p)[i := WLock])" if "WNotify \<in> set (p_workers p)"
    using that return(3) by (intro set_update_old) simp_all
  ultimately show ?thesis using assms(2) return(1) by (auto simp: pool_inv_def)
next
  case (locked i)
  have "WEnd \<notin> set ((p_workers p)[i := w])" if "WEnd \<notin> set (p_workers p)" "w \<noteq> WEnd" for w
    using that set_update_subset_insert [of "p_workers p" i w] by auto
  moreover have "WNotify \<in> set ((p_workers p)[i := w])" if "WNotify \<in> set (p_workers p)" for w
    using that locked(3) by (intro set_update_old) simp_all
  moreover have "WNotify \<in> set ((p_workers p)[i := WNotify])" using locked(2) by (rule set_update_memI)
  ultimately show ?thesis using assms(2) locked(1)
    by (auto simp: pool_inv_def loop_locked_def pool_resetWork_def)
next
  case (notify i)
  have "WEnd \<notin> set ((p_workers p)[i := WRun])" if "WEnd \<notin> set (p_workers p)"
    using that set_update_subset_insert [of "p_workers p" i WRun] by auto
  then show ?thesis using assms(2) notify(1) by (simp add: pool_inv_def)
qed

lemma pool_step_inv:
  assumes "pool_inv n p" "pool_step p q"
  shows "pool_inv n q"
  using assms(2)
proof cases
  case worker
  then show ?thesis using assms(1) by (rule pool_worker_inv)
qed (use assms(1) in \<open>auto simp: pool_inv_def pool_schedule_def wait_begin_def wait_woken_def pool_shutdown_def\<close>)

lemma pool_start: "p = pool_new n \<Longrightarrow> pool_inv n p"
  by (auto simp: pool_inv_def pool_new_def)

interpretation threads: step_system "\<lambda>p. p = pool_new n" pool_step "pool_inv n" for n
  by unfold_locales (blast intro: pool_start pool_step_inv)+

text \<open>In a pool of any positive number of threads a call of \<open>wait\<close> is never stuck: it has
  been notified and finds the work object, or one of the threads has a step to make.\<close>

theorem wait_not_stuck:
  assumes "0 < n" "pool_step\<^sup>*\<^sup>* (pool_new n) p" "p_waiting p"
  shows "(p_notified p \<and> p_work p) \<or> (\<exists>q. worker_step p q)"
proof (rule disjCI)
  assume none: "\<nexists>q. worker_step p q"
  have inv: "pool_inv n p" using threads.inv_reachable [OF refl assms(2)] .
  have pc: "w = WRun" if "w \<in> set (p_workers p)" for w
  proof -
    from that obtain i where i: "i < length (p_workers p)" "p_workers p ! i = w" by (auto simp: in_set_conv_nth)
    have "w \<noteq> WEnd" using that inv assms(3) by (auto simp: pool_inv_def)
    with i none show ?thesis by (cases w) (blast intro: worker_step.intros)+
  qed
  have i: "0 < length (p_workers p)" "p_workers p ! 0 = WRun"
    using assms(1) inv pc [of "p_workers p ! 0"] by (simp_all add: pool_inv_def)
  have ns: "\<not> p_stopped p" using none worker_step.return [OF i] by blast
  have q0: "p_queued p = 0" using none worker_step.start [OF i ns] by (cases "p_queued p") blast+
  have "count_list (p_workers p) WExec = 0" using pc by (auto simp: count_list_0_iff)
  then have "p_work p" using none worker_step.no_work [OF i] q0 by (cases "p_work p") (auto simp: outstanding_def)
  moreover have "WNotify \<notin> set (p_workers p)" using pc by blast
  ultimately show "p_notified p \<and> p_work p" using inv assms(3) by (simp add: pool_inv_def)
qed

lemma wait_not_stuck_witness:
  "\<exists>q. worker_step (wait_begin (pool_new 1)) q"
proof -
  have r: "pool_step\<^sup>*\<^sup>* (pool_new 1) (wait_begin (pool_new 1))"
    by (intro r_into_rtranclp pool_step.wait) (simp_all add: pool_new_def)
  have "p_waiting (wait_begin (pool_new 1))" "\<not> p_notified (wait_begin (pool_new 1))"
    by (simp_all add: wait_begin_def)
  then show ?thesis using wait_not_stuck [OF _ r] by simp
qed

end
