(* ===== verification/Runtime.thy ===== *)
theory Runtime
  imports Journey
begin

text \<open>
  The runtime around journeys: the slots of services and schedulers (\<open>src/core.cpp\<close>), the
  thread-local pointer and its guard (\<open>include/synca/common.h\<close>), the objects a journey owns
  (\<open>src/journey.h\<close>, \<open>src/gc.cpp\<close>), the actions run at shutdown (\<open>src/cleanup.cpp\<close>),
  \<open>teleport\<close> (\<open>src/journey.cpp\<close>) and \<open>Portal\<close> (\<open>src/portal.cpp\<close>).
\<close>

section \<open>Slots\<close>

text \<open>A \<open>Service\<close> or a \<open>Scheduler\<close> holds a pointer that must be set when it is used.\<close>

definition slot_attach :: "'a \<Rightarrow> 'a option \<Rightarrow> 'a option" where "slot_attach s slot = Some s"

definition slot_detach :: "'a option \<Rightarrow> 'a option" where "slot_detach slot = None"

definition service_get :: "'a option \<Rightarrow> 'a outcome" where
  "service_get slot =
     (case VERIFY (slot \<noteq> None) ''Service is not attached'' of Inl e \<Rightarrow> Inl e | Inr _ \<Rightarrow> Inr (the slot))"

definition scheduler_get :: "'a option \<Rightarrow> 'a outcome" where
  "scheduler_get slot =
     (case VERIFY (slot \<noteq> None) ''Scheduler is not attached'' of Inl e \<Rightarrow> Inl e | Inr _ \<Rightarrow> Inr (the slot))"

section \<open>The thread-local pointer\<close>

record 'p thread = t_ptr :: "'p option"

definition tls_get :: "'p thread \<Rightarrow> 'p outcome" where
  "tls_get t =
     (case VERIFY (t_ptr t \<noteq> None) ''TLS must be initialized'' of Inl e \<Rightarrow> Inl e | Inr _ \<Rightarrow> Inr (the (t_ptr t)))"

text \<open>The guard around a body; the body's outcome may be an exception.\<close>

definition with_tlsGuard :: "'p \<Rightarrow> ('p thread \<Rightarrow> 'r \<times> 'p thread) \<Rightarrow> 'p thread \<Rightarrow> 'r \<times> 'p thread" where
  "with_tlsGuard this body t =
     (let that = t_ptr t; (r, t) = body (t\<lparr>t_ptr := Some this\<rparr>) in (r, t\<lparr>t_ptr := that\<rparr>))"

fun nested_guards :: "'p list \<Rightarrow> ('p thread \<Rightarrow> 'r \<times> 'p thread) \<Rightarrow> 'p thread \<Rightarrow> 'r \<times> 'p thread" where
  "nested_guards [] body t = body t"
| "nested_guards (p # ps) body t = with_tlsGuard p (nested_guards ps body) t"

text \<open>Whatever the body does to the pointer, after the guards it is what it was, and inside
  the body it is that of the innermost guard.\<close>

lemma guard_restores:
  "ps \<noteq> [] \<Longrightarrow> t_ptr (snd (nested_guards ps body t)) = t_ptr t"
  by (cases ps) (simp_all add: with_tlsGuard_def Let_def split_beta)

lemma guard_visible:
  "fst (nested_guards (ps @ [p]) (\<lambda>t. (tls_get t, t)) t) = Inr p"
  by (induction ps arbitrary: t) (simp_all add: with_tlsGuard_def tls_get_def Let_def split_beta)

section \<open>Objects owned by a journey, and actions at shutdown\<close>

definition gc_add :: "('s \<Rightarrow> 's) \<Rightarrow> ('s \<Rightarrow> 's) list \<Rightarrow> ('s \<Rightarrow> 's) list" where
  "gc_add t deleters = deleters @ [t]"

definition gc_destroy :: "('s \<Rightarrow> 's) list \<Rightarrow> 's \<Rightarrow> 's" where
  "gc_destroy deleters s = fold (\<lambda>d. d) (rev deleters) s"

text \<open>The last object registered is deleted first, on the state the earlier ones still see.\<close>

lemma gc_lifo: "gc_destroy (gc_add t ds) s = gc_destroy ds (t s)"
  by (simp add: gc_destroy_def gc_add_def)

text \<open>An action may throw; the loop of \<open>cleanup\<close> then ends with the exception.\<close>

type_synonym 's action = "'s \<Rightarrow> unit outcome \<times> 's"

definition cleanuper_add :: "'s action \<Rightarrow> 's action list \<Rightarrow> 's action list" where
  "cleanuper_add c cs = cs @ [c]"

fun cleanuper_cleanup :: "'s action list \<Rightarrow> 's action" where
  "cleanuper_cleanup [] s = (Inr (), s)"
| "cleanuper_cleanup (c # cs) s =
     (case c s of (Inl e, s) \<Rightarrow> (Inl e, s) | (Inr _, s) \<Rightarrow> cleanuper_cleanup cs s)"

lemma cleanup_append:
  "cleanuper_cleanup (cs @ ds) s =
     (case cleanuper_cleanup cs s of (Inl e, s) \<Rightarrow> (Inl e, s) | (Inr _, s) \<Rightarrow> cleanuper_cleanup ds s)"
  by (induction cs arbitrary: s) (simp_all split: prod.split sum.split)

text \<open>Actions registered after one that throws are not run.\<close>

lemma cleanup_stops_at_exception:
  "cleanuper_cleanup cs s = (Inl e, s') \<Longrightarrow> cleanuper_cleanup (cleanuper_add c cs) s = (Inl e, s')"
  by (simp add: cleanuper_add_def cleanup_append)

section \<open>Moving to another scheduler\<close>

record traveller =
  tr_word :: jstate
  tr_sched :: nat

definition journey_teleport :: "suspension \<Rightarrow> nat \<Rightarrow> traveller \<Rightarrow> unit outcome \<times> traveller" where
  "journey_teleport suspend dest t =
     (if dest = tr_sched t then (Inr (), t)
      else let (r, w) = journey_reschedule suspend (tr_word t)
           in (r, t\<lparr>tr_sched := dest, tr_word := w\<rparr>))"

text \<open>
  \<open>Portal\<close>: the constructor remembers the scheduler and teleports; when it throws there is
  no object and the destructor does not run. The destructor teleports back; it is
  implicitly \<open>noexcept\<close>, so an exception that leaves it ends the process. \<open>body\<close> is what the
  journey does in the scope.
\<close>

datatype 'r scoped = Left_scope 'r | Terminated

definition with_portal ::
  "suspension \<Rightarrow> suspension \<Rightarrow> nat \<Rightarrow> (traveller \<Rightarrow> unit outcome \<times> traveller) \<Rightarrow> traveller \<Rightarrow>
     unit outcome scoped \<times> traveller" where
  "with_portal suspend1 suspend2 dest body t =
     (let source = tr_sched t in
      case journey_teleport suspend1 dest t of
        (Inl e, t1) \<Rightarrow> (Left_scope (Inl e), t1)
      | (Inr _, t1) \<Rightarrow>
          (case body t1 of
             (r, t2) \<Rightarrow>
               (case journey_teleport suspend2 source t2 of
                  (Inl e, t3) \<Rightarrow> (Terminated, t3)
                | (Inr _, t3) \<Rightarrow> (Left_scope r, t3))))"

text \<open>The word when \<open>teleport\<close> is resumed.\<close>

abbreviation resumed :: "suspension \<Rightarrow> traveller \<Rightarrow> jstate" where
  "resumed suspend t \<equiv> suspend (snd (js_done (tr_word t)))"

definition event_pending :: "jstate \<Rightarrow> bool" where
  "event_pending w \<longleftrightarrow> enabled w \<and> (cancelled w \<or> timedout w)"

lemma teleport_outcome:
  assumes "dest \<noteq> tr_sched t" "mayProceed (resumed suspend t)"
  shows "tr_sched (snd (journey_teleport suspend dest t)) = dest"
    and "fst (journey_teleport suspend dest t) = Inr () \<longleftrightarrow> \<not> event_pending (resumed suspend t)"
  using assms handleEvents_outcome [OF assms(2)]
  by (auto simp: journey_teleport_def journey_reschedule_def split_beta event_pending_def)

text \<open>A journey that no event reaches while it is moved runs the scope of a \<open>Portal\<close> on
  the destination and is back on its own scheduler afterwards, with the body's outcome.\<close>

theorem portal_there_and_back:
  assumes "dest \<noteq> tr_sched t"
    and "mayProceed (resumed suspend1 t)" "\<not> event_pending (resumed suspend1 t)"
    and "body (snd (journey_teleport suspend1 dest t)) = (r, t2)" "tr_sched t2 = dest"
    and "mayProceed (resumed suspend2 t2)" "\<not> event_pending (resumed suspend2 t2)"
  shows "tr_sched (snd (journey_teleport suspend1 dest t)) = dest \<and>
         fst (with_portal suspend1 suspend2 dest body t) = Left_scope r \<and>
         tr_sched (snd (with_portal suspend1 suspend2 dest body t)) = tr_sched t"
proof -
  note there = teleport_outcome [where suspend = suspend1, OF assms(1,2)]
  have "tr_sched t \<noteq> tr_sched t2" using assms(1,5) by simp
  note home = teleport_outcome [where suspend = suspend2, OF this assms(6)]
  have go: "journey_teleport suspend1 dest t = (Inr (), snd (journey_teleport suspend1 dest t))"
    using there(2) assms(3) by (intro prod_eqI) simp_all
  have ret: "journey_teleport suspend2 (tr_sched t) t2 = (Inr (), snd (journey_teleport suspend2 (tr_sched t) t2))"
    using home(2) assms(7) by (intro prod_eqI) simp_all
  have "with_portal suspend1 suspend2 dest body t =
      (Left_scope r, snd (journey_teleport suspend2 (tr_sched t) t2))"
    unfolding with_portal_def Let_def by (subst go) (simp add: assms(4), subst ret, simp)
  with there(1) home(1) show ?thesis by simp
qed

text \<open>A journey that is cancelled or timed out by the time it is moved back ends the
  process: the destructor of \<open>Portal\<close> throws.\<close>

theorem portal_event_terminates:
  assumes "dest \<noteq> tr_sched t"
    and "mayProceed (resumed suspend1 t)" "\<not> event_pending (resumed suspend1 t)"
    and "body (snd (journey_teleport suspend1 dest t)) = (r, t2)" "tr_sched t2 = dest"
    and "mayProceed (resumed suspend2 t2)" "event_pending (resumed suspend2 t2)"
  shows "fst (with_portal suspend1 suspend2 dest body t) = Terminated"
proof -
  have "tr_sched t \<noteq> tr_sched t2" using assms(1,5) by simp
  from teleport_outcome(2) [where suspend = suspend2, OF this assms(6)] assms(7)
  obtain e where "fst (journey_teleport suspend2 (tr_sched t) t2) = Inl e"
    by (cases "fst (journey_teleport suspend2 (tr_sched t) t2)") auto
  then have ret: "journey_teleport suspend2 (tr_sched t) t2 =
      (Inl e, snd (journey_teleport suspend2 (tr_sched t) t2))"
    by (intro prod_eqI) simp_all
  have go: "journey_teleport suspend1 dest t = (Inr (), snd (journey_teleport suspend1 dest t))"
    using teleport_outcome(2) [where suspend = suspend1, OF assms(1,2)] assms(3) by (intro prod_eqI) simp_all
  show ?thesis
    unfolding with_portal_def Let_def by (subst go) (simp add: assms(4), subst ret, simp)
qed

text \<open>A journey that was moved nowhere yet, and one that is cancelled in the scope.\<close>

definition traveller0 :: traveller where
  "traveller0 = \<lparr>tr_word = js_initial, tr_sched = 0\<rparr>"

lemma portal_there_and_back_witness:
  "fst (with_portal (\<lambda>w. w) (\<lambda>w. w) 1 (\<lambda>t. (Inr (), t)) traveller0) = Left_scope (Inr ())"
proof -
  let ?t1 = "snd (journey_teleport (\<lambda>w. w) 1 traveller0)"
  have "tr_sched traveller0 = 0" by (simp add: traveller0_def)
  moreover have "mayProceed (resumed (\<lambda>w. w) traveller0)" "\<not> event_pending (resumed (\<lambda>w. w) traveller0)"
    by code_simp+
  moreover have "tr_sched ?t1 = 1" "mayProceed (resumed (\<lambda>w. w) ?t1)" "\<not> event_pending (resumed (\<lambda>w. w) ?t1)"
    by code_simp+
  ultimately show ?thesis
    using portal_there_and_back [of 1 traveller0 "\<lambda>w. w" "\<lambda>t. (Inr (), t)" "Inr ()" ?t1 "\<lambda>w. w"] by simp
qed

lemma portal_event_terminates_witness:
  "fst (with_portal (\<lambda>w. w) (\<lambda>w. snd (js_cancel w)) 1 (\<lambda>t. (Inr (), t)) traveller0) = Terminated"
proof -
  let ?t1 = "snd (journey_teleport (\<lambda>w. w) 1 traveller0)"
  have "tr_sched traveller0 = 0" by (simp add: traveller0_def)
  moreover have "mayProceed (resumed (\<lambda>w. w) traveller0)" "\<not> event_pending (resumed (\<lambda>w. w) traveller0)"
    by code_simp+
  moreover have "tr_sched ?t1 = 1" "mayProceed (resumed (\<lambda>w. snd (js_cancel w)) ?t1)"
    "event_pending (resumed (\<lambda>w. snd (js_cancel w)) ?t1)"
    by code_simp+
  ultimately show ?thesis
    using portal_event_terminates [of 1 traveller0 "\<lambda>w. w" "\<lambda>t. (Inr (), t)" "Inr ()" ?t1
        "\<lambda>w. snd (js_cancel w)"] by simp
qed

end
