(* ===== verification/Stats.thy ===== *)
theory Stats
  imports Replob_Prelude
begin

text \<open>
  Counters and waiting for them: the registry of \<open>src/stats.cpp\<close> with the names it reduces, the
  counters of \<open>src/stats.h\<close>, and \<open>waitFor\<close> of \<open>src/common.cpp\<close> with \<open>waitForAll\<close> of
  \<open>src/journey.cpp\<close>, with which every program ends.
\<close>

section \<open>Names\<close>

text \<open>\<open>std::string::find\<close> and \<open>replace\<close>.\<close>

fun str_find :: "string \<Rightarrow> string \<Rightarrow> nat option" where
  "str_find rm [] = (if rm = [] then Some 0 else None)"
| "str_find rm (c # cs) =
     (if take (length rm) (c # cs) = rm then Some 0 else map_option Suc (str_find rm cs))"

definition str_replace :: "nat \<Rightarrow> nat \<Rightarrow> string \<Rightarrow> string \<Rightarrow> string" where
  "str_replace p n ad s = take p s @ ad @ drop (p + n) s"

partial_function (option) replaceAll :: "string \<Rightarrow> string \<Rightarrow> string \<Rightarrow> string option" where
  "replaceAll s rm ad =
     (case str_find rm s of
        None \<Rightarrow> Some s
      | Some p \<Rightarrow> replaceAll (str_replace p (length rm) ad s) rm ad)"

text \<open>\<open>remove\<close>, with the default \<open>ad\<close> of \<open>replaceAll\<close>, the empty string.\<close>

fun remove_strings :: "string \<Rightarrow> string list \<Rightarrow> string option" where
  "remove_strings s [] = Some s"
| "remove_strings s (l # ls) =
     (case replaceAll s l [] of None \<Rightarrow> None | Some r \<Rightarrow> remove_strings r ls)"

fun_cases remove_strings_ConsE: "remove_strings s (l # ls) = Some r"

lemma str_find_Some: "str_find rm s = Some p \<Longrightarrow> p + length rm \<le> length s \<and> take (length rm) (drop p s) = rm"
proof (induction rm s arbitrary: p rule: str_find.induct)
  case (1 rm)
  then show ?case by (simp split: if_splits)
next
  case (2 rm c cs)
  show ?case
  proof (cases "take (length rm) (c # cs) = rm")
    case True
    then have "length rm \<le> length (c # cs)" by (metis length_take min.cobounded1 min_def)
    then show ?thesis using 2 True by simp
  next
    case False
    then obtain q where "str_find rm cs = Some q" "p = Suc q" using 2(2) by auto
    with 2(1) [OF False] show ?thesis by simp
  qed
qed

lemma str_find_None: "str_find rm s = None \<Longrightarrow> \<not> sublist rm s"
proof (induction rm s rule: str_find.induct)
  case (1 rm)
  then show ?case by (simp split: if_splits)
next
  case (2 rm c cs)
  have t: "take (length rm) (c # cs) \<noteq> rm" using 2(2) by (auto split: if_splits)
  then have "\<not> prefix rm (c # cs)" by (metis append_eq_conv_conj prefix_def)
  moreover have "\<not> sublist rm cs" using 2(1) [OF t] 2(2) t by simp
  ultimately show ?case by (simp add: sublist_Cons_right)
qed

text \<open>Removing terminates: the string gets shorter.\<close>

lemma replaceAll_terminates:
  assumes "length ad < length rm"
  shows "\<exists>r. replaceAll s rm ad = Some r \<and> \<not> sublist rm r"
proof (induction "length s" arbitrary: s rule: less_induct)
  case less
  show ?case
  proof (cases "str_find rm s")
    case None
    then show ?thesis using str_find_None by (auto simp: replaceAll.simps)
  next
    case (Some p)
    have "length (str_replace p (length rm) ad s) < length s"
      using str_find_Some [OF Some] assms by (auto simp: str_replace_def)
    from less [OF this] Some show ?thesis by (simp add: replaceAll.simps [of s])
  qed
qed

text \<open>With a replacement that contains the pattern, or an empty pattern, it never ends.\<close>

lemma str_replace_same:
  assumes "str_find rm s = Some p"
  shows "str_replace p (length rm) rm s = s"
  using str_find_Some [OF assms] unfolding str_replace_def
  by (metis add.commute append_take_drop_id drop_drop)

lemma replaceAll_self_finds_none:
  assumes "replaceAll s rm ad = Some r"
  shows "ad = rm \<longrightarrow> str_find rm s = None"
proof (rule replaceAll.raw_induct [where P = "\<lambda>s rm ad r. ad = rm \<longrightarrow> str_find rm s = None", OF _ assms])
  fix f s rm ad r
  assume IH: "\<And>s rm ad r. f s rm ad = Some r \<Longrightarrow> ad = rm \<longrightarrow> str_find rm s = None"
    and body: "(case str_find rm s of None \<Rightarrow> Some s | Some p \<Rightarrow> f (str_replace p (length rm) ad s) rm ad) = Some (r :: string)"
  show "ad = rm \<longrightarrow> str_find rm s = None"
  proof (cases "str_find rm s")
    case (Some p)
    then show ?thesis using IH [of s rm rm r] body str_replace_same [OF Some] by auto
  qed simp
qed

lemma replaceAll_self_loops: "str_find rm s \<noteq> None \<Longrightarrow> replaceAll s rm rm = None"
  using replaceAll_self_finds_none [of s rm rm] by (cases "replaceAll s rm rm") auto

section \<open>The registry\<close>

text \<open>\<open>demangle\<close> is a parameter: the compiler's names are not the program's.\<close>

definition stat_noise :: "string list" where
  "stat_noise = [''struct '', ''synca::'', ''InstanceStat'', ''Stat'', ''<'', ''>'']"

definition registerValue ::
  "(string \<Rightarrow> string) \<Rightarrow> string \<Rightarrow> 'v \<Rightarrow> (string \<rightharpoonup> 'v) \<Rightarrow> (string \<rightharpoonup> 'v) outcome option" where
  "registerValue demangle name v infos =
     (case remove_strings (demangle name) stat_noise of
        None \<Rightarrow> None
      | Some reducedName \<Rightarrow>
          Some (case VERIFY (infos reducedName = None) ''Statistics name must be unique'' of
                  Inl e \<Rightarrow> Inl e
                | Inr _ \<Rightarrow> Inr (infos(reducedName \<mapsto> v))))"

lemma remove_strings_terminates:
  "\<forall>l \<in> set ls. l \<noteq> [] \<Longrightarrow> \<exists>r. remove_strings s ls = Some r"
proof (induction ls arbitrary: s)
  case (Cons l ls)
  obtain r where "replaceAll s l [] = Some r" using replaceAll_terminates [of "[]" l s] Cons.prems by auto
  then show ?case using Cons by simp
qed simp

lemma remove_strings_last:
  assumes "remove_strings s (ls @ [l]) = Some r" "l \<noteq> []"
  shows "\<not> sublist l r"
  using assms(1)
proof (induction ls arbitrary: s)
  case Nil
  then show ?case using replaceAll_terminates [of "[]" l s] assms(2) by (auto split: option.splits)
next
  case (Cons a ls)
  from Cons.prems have "remove_strings s (a # (ls @ [l])) = Some r" by simp
  then obtain r' where "remove_strings r' (ls @ [l]) = Some r"
    by (rule remove_strings_ConsE) (auto split: option.splits)
  then show ?case by (rule Cons.IH)
qed

text \<open>Reducing a name always ends, although the loop has no bound, and leaves no angle
  bracket that closes a template; a second counter with the same reduced name is refused and
  the first stays registered.\<close>

theorem registerValue_total_unique:
  "\<exists>n. remove_strings (demangle name) stat_noise = Some n \<and> CHR ''>'' \<notin> set n \<and>
    registerValue demangle name v infos =
      Some (if infos n = None then Inr (infos(n \<mapsto> v)) else Inl (Verification ''Statistics name must be unique''))"
proof -
  obtain n where n: "remove_strings (demangle name) stat_noise = Some n"
    using remove_strings_terminates [of stat_noise] by (auto simp: stat_noise_def)
  then have "\<not> sublist [CHR ''>''] n"
    by (intro remove_strings_last [where ls = "[''struct '', ''synca::'', ''InstanceStat'', ''Stat'', ''<'']"])
      (simp_all add: stat_noise_def)
  then have "CHR ''>'' \<notin> set n" by (metis in_set_conv_decomp sublist_def append_Cons append_Nil)
  with n show ?thesis by (auto simp: registerValue_def VERIFY_def)
qed

section \<open>Counters of instances\<close>

text \<open>\<open>addStat\<close> on an atomic \<open>uint64_t\<close>; \<open>InstanceStat\<close> counts constructions and destructions.\<close>

definition addStat :: "64 word \<Rightarrow> 64 word \<Rightarrow> 64 word \<times> 64 word" where
  "addStat delta c = (c + delta, c + delta)"

record instances =
  createCounter :: "64 word"
  destroyCounter :: "64 word"

datatype life = Constructed | Destroyed

fun instance_stat :: "life \<Rightarrow> instances \<Rightarrow> instances" where
  "instance_stat Constructed s = s\<lparr>createCounter := snd (addStat 1 (createCounter s))\<rparr>"
| "instance_stat Destroyed s = s\<lparr>destroyCounter := snd (addStat 1 (destroyCounter s))\<rparr>"

lemma instance_stat_counts:
  "createCounter (fold instance_stat ls s) = createCounter s + of_nat (count_list ls Constructed)"
  "destroyCounter (fold instance_stat ls s) = destroyCounter s + of_nat (count_list ls Destroyed)"
proof (induction ls arbitrary: s)
  case (Cons l ls)
  { case 1 show ?case using Cons(1) by (cases l) (simp_all add: addStat_def)
  next
    case 2 show ?case using Cons(2) by (cases l) (simp_all add: addStat_def) }
qed simp_all

section \<open>waitFor\<close>

text \<open>
  \<open>condition\<close> is given by what its evaluations answer, one after the other. What the loop does
  in between is a list: it sleeps, or dumps the statistics. It runs fewer than \<open>10 * 3 ^ 17\<close>
  times, so that \<open>i\<close> and \<open>interval\<close> stay within an \<open>int\<close>.
\<close>

datatype wait_act = DumpStats | SleepFor int

partial_function (option) waitFor_loop ::
  "(nat \<Rightarrow> bool) \<Rightarrow> nat \<Rightarrow> nat \<Rightarrow> wait_act list option" where
  "waitFor_loop condition interval i =
     (if condition i then Some [DumpStats]
      else if i = interval
      then Option.bind (waitFor_loop condition (interval * 3) (Suc i)) (\<lambda>acts. Some (DumpStats # acts))
      else Option.bind (waitFor_loop condition interval (Suc i)) (\<lambda>acts. Some (SleepFor 100 # acts)))"

definition waitFor :: "(nat \<Rightarrow> bool) \<Rightarrow> wait_act list option" where
  "waitFor condition = waitFor_loop condition 10 0"

text \<open>
  \<open>waitForAll\<close>: at each evaluation of its condition the two counters are loaded one after the
  other, so that the loads see the counters at two moments.
\<close>

definition waitForAll :: "(nat \<Rightarrow> instances) \<Rightarrow> (nat \<Rightarrow> instances) \<Rightarrow> wait_act list option" where
  "waitForAll at_create at_destroy =
     waitFor (\<lambda>k. createCounter (at_create k) = destroyCounter (at_destroy k))"

lemma waitFor_loop_returns:
  assumes "condition (i + k)" "\<forall>j<k. \<not> condition (i + j)"
  shows "\<exists>acts. waitFor_loop condition interval i = Some (acts @ [DumpStats]) \<and> length acts = k"
  using assms
proof (induction k arbitrary: i interval)
  case 0
  then show ?case by (subst waitFor_loop.simps) simp
next
  case (Suc k)
  have c: "\<not> condition i" using Suc.prems(2) by (metis add_0_right zero_less_Suc)
  have p: "condition (Suc i + k)" "\<forall>j<k. \<not> condition (Suc i + j)" using Suc.prems by auto
  obtain a where a: "waitFor_loop condition (interval * 3) (Suc i) = Some (a @ [DumpStats])" "length a = k"
    using Suc.IH [OF p] by blast
  obtain b where b: "waitFor_loop condition interval (Suc i) = Some (b @ [DumpStats])" "length b = k"
    using Suc.IH [OF p] by blast
  have "waitFor_loop condition interval i =
      Some ((if i = interval then DumpStats # a else SleepFor 100 # b) @ [DumpStats])"
    using c a(1) b(1) by (subst waitFor_loop.simps) (cases "i = interval"; simp)
  then show ?case using a(2) b(2) by (intro exI [of _ "if i = interval then DumpStats # a else SleepFor 100 # b"]) simp
qed

lemma waitFor_loop_finds:
  assumes "waitFor_loop condition interval i = Some acts"
  shows "\<exists>k\<ge>i. condition k"
proof (rule waitFor_loop.raw_induct [where P = "\<lambda>condition interval i acts. \<exists>k\<ge>i. condition k", OF _ assms])
  fix loop condition interval i acts
  assume IH: "\<And>condition interval i acts. loop condition interval i = Some acts \<Longrightarrow> \<exists>k\<ge>i. condition k"
    and body: "(if condition i then Some [DumpStats]
      else if i = interval then Option.bind (loop condition (interval * 3) (Suc i)) (\<lambda>acts. Some (DumpStats # acts))
      else Option.bind (loop condition interval (Suc i)) (\<lambda>acts. Some (SleepFor 100 # acts))) = Some acts"
  show "\<exists>k\<ge>i. condition k"
  proof (cases "condition i")
    case False
    with body obtain j as where "loop condition j (Suc i) = Some as"
      by (auto simp: bind_eq_Some_conv split: if_splits)
    then show ?thesis using IH by (meson Suc_leD)
  qed auto
qed

lemma waitFor_first:
  "(waitFor condition \<noteq> None \<longleftrightarrow> (\<exists>k. condition k)) \<and>
    (\<forall>acts. waitFor condition = Some acts \<longrightarrow>
       condition (length acts - 1) \<and> (\<forall>j < length acts - 1. \<not> condition j))"
proof (cases "\<exists>k. condition k")
  case False
  then have "waitFor_loop condition 10 0 \<noteq> Some acts" for acts using waitFor_loop_finds by blast
  then have "waitFor condition = None" unfolding waitFor_def by (metis option.exhaust)
  with False show ?thesis by auto
next
  case True
  define k where "k = (LEAST k. condition k)"
  have k: "condition k" "\<forall>j<k. \<not> condition j" using True by (auto simp: k_def intro: LeastI dest: not_less_Least)
  obtain acts where "waitFor condition = Some (acts @ [DumpStats])" "length acts = k"
    using waitFor_loop_returns [of condition 0 k 10] k unfolding waitFor_def by auto
  then show ?thesis using k by auto
qed

abbreviation no_instances :: instances where
  "no_instances \<equiv> \<lparr>createCounter = 0, destroyCounter = 0\<rparr>"

text \<open>What the comparison tells, when \<open>destroyCounter\<close> was loaded after \<open>ds\<close> had happened, and
  \<open>createCounter\<close> later, after \<open>cs\<close> besides: every journey had ended at the first load, and none
  was created until the second.\<close>

lemma loads_equal:
  assumes "count_list ds Destroyed \<le> count_list ds Constructed"
    and "count_list (ds @ cs) Constructed < 2 ^ 64"
  shows "createCounter (fold instance_stat (ds @ cs) no_instances) = destroyCounter (fold instance_stat ds no_instances) \<longleftrightarrow>
    count_list ds Constructed = count_list ds Destroyed \<and> Constructed \<notin> set cs"
proof -
  let ?C = "count_list (ds @ cs) Constructed" and ?D = "count_list ds Destroyed"
  have "createCounter (fold instance_stat (ds @ cs) no_instances) = of_nat ?C"
    "destroyCounter (fold instance_stat ds no_instances) = of_nat ?D"
    by (simp_all only: instance_stat_counts) simp_all
  moreover have "(of_nat ?C :: 64 word) = of_nat ?D \<longleftrightarrow> ?C = ?D"
  proof
    assume "(of_nat ?C :: 64 word) = of_nat ?D"
    then have "unat (of_nat ?C :: 64 word) = unat (of_nat ?D :: 64 word)" by simp
    moreover have "unat (of_nat ?C :: 64 word) = ?C" using assms(2) by (intro of_nat_inverse) simp_all
    moreover have "unat (of_nat ?D :: 64 word) = ?D" using assms by (intro of_nat_inverse) simp_all
    ultimately show "?C = ?D" by simp
  qed simp
  moreover have "?C = ?D \<longleftrightarrow> count_list ds Constructed = ?D \<and> Constructed \<notin> set cs"
    using assms(1) count_list_0_iff [of cs Constructed] by (cases "count_list cs Constructed = 0") auto
  ultimately show ?thesis by simp
qed

text \<open>\<open>waitForAll\<close>, when each evaluation loads \<open>destroyCounter\<close> first and at most \<open>2 ^ 64 - 1\<close>
  journeys are created: it returns exactly when at some evaluation no journey is alive at the first
  load and none is created until the second; it stops at the first such evaluation, after one
  sleep or one dump for each before it.\<close>

theorem waitForAll_returns:
  assumes "\<And>k. at_destroy k = fold instance_stat (ds k) no_instances"
    and "\<And>k. at_create k = fold instance_stat (ds k @ cs k) no_instances"
    and "\<And>k. count_list (ds k) Destroyed \<le> count_list (ds k) Constructed"
    and "\<And>k. count_list (ds k @ cs k) Constructed < 2 ^ 64"
  shows "(waitForAll at_create at_destroy \<noteq> None \<longleftrightarrow>
      (\<exists>k. count_list (ds k) Constructed = count_list (ds k) Destroyed \<and> Constructed \<notin> set (cs k))) \<and>
    (\<forall>acts. waitForAll at_create at_destroy = Some acts \<longrightarrow>
       (let k = length acts - 1 in
          count_list (ds k) Constructed = count_list (ds k) Destroyed \<and> Constructed \<notin> set (cs k) \<and>
          (\<forall>j<k. count_list (ds j) Constructed \<noteq> count_list (ds j) Destroyed \<or> Constructed \<in> set (cs j))))"
proof -
  have eq: "createCounter (at_create k) = destroyCounter (at_destroy k) \<longleftrightarrow>
      count_list (ds k) Constructed = count_list (ds k) Destroyed \<and> Constructed \<notin> set (cs k)" for k
    unfolding assms(1,2) by (rule loads_equal [OF assms(3,4)])
  show ?thesis unfolding waitForAll_def eq Let_def using waitFor_first by blast
qed

lemma waitForAll_returns_witness:
  "waitForAll (\<lambda>k. fold instance_stat (if k = 0 then [Constructed] else [Constructed, Destroyed]) no_instances)
     (\<lambda>k. fold instance_stat (if k = 0 then [Constructed] else [Constructed, Destroyed]) no_instances) \<noteq> None"
proof -
  let ?ds = "\<lambda>k :: nat. if k = 0 then [Constructed] else [Constructed, Destroyed]"
  let ?at = "\<lambda>k. fold instance_stat (?ds k) no_instances"
  have "waitForAll ?at ?at \<noteq> None \<longleftrightarrow>
      (\<exists>k. count_list (?ds k) Constructed = count_list (?ds k) Destroyed \<and> Constructed \<notin> set [])"
    by (rule waitForAll_returns [THEN conjunct1]) simp_all
  moreover have "count_list (?ds 1) Constructed = count_list (?ds 1) Destroyed" by simp
  ultimately show ?thesis by auto
qed

text \<open>In the other order \<open>waitForAll\<close> returns although a journey is alive all the time, when
  another is created and ends between the two loads.\<close>

lemma waitForAll_early:
  "waitForAll (\<lambda>k. fold instance_stat [Constructed] no_instances)
     (\<lambda>k. fold instance_stat [Constructed, Constructed, Destroyed] no_instances) = Some [DumpStats]"
  by (simp add: waitForAll_def waitFor_def waitFor_loop.simps addStat_def)

end
