(* ===== verification/Serialization.thy ===== *)
theory Serialization
  imports Replob_Prelude
begin

text \<open>
  Sending closures (\<open>include/synca/once/serialization.h\<close>, \<open>src/serialization.cpp\<close>): an
  object is copied twice into a thread-local buffer by a bump allocator; words that differ
  between the copies are pointers into the buffer. \<open>serialize\<close> makes them relative and
  appends their positions; \<open>deserialize\<close> makes them absolute again, in place, in the buffer
  the packet was read into.

  The buffer is a list of 32-bit ints; the 64-bit word \<open>i\<close> consists of the ints \<open>2 * i\<close>
  and \<open>2 * i + 1\<close>, the low half first, as on the machines the code runs on.
\<close>

section \<open>Memory\<close>

type_synonym ints = "32 word list"
type_synonym addr = "64 word"

definition ld64 :: "ints \<Rightarrow> nat \<Rightarrow> addr" where
  "ld64 m i = push_bit 32 (ucast (m ! (2 * i + 1))) OR ucast (m ! (2 * i))"

definition st64 :: "ints \<Rightarrow> nat \<Rightarrow> addr \<Rightarrow> ints" where
  "st64 m i x = m[2 * i := ucast x, 2 * i + 1 := ucast (drop_bit 32 x)]"

lemma halves: "push_bit 32 (ucast (ucast (drop_bit 32 x) :: 32 word)) OR ucast (ucast x :: 32 word) = (x :: addr)"
  by (intro bit_word_eqI)
    (auto simp: bit_or_iff bit_push_bit_iff bit_ucast_iff bit_drop_bit_eq possible_bit_word)

lemma length_st64 [simp]: "length (st64 m i x) = length m"
  by (simp add: st64_def)

lemma ld64_st64 [simp]: "2 * i + 1 < length m \<Longrightarrow> ld64 (st64 m i x) i = x"
  by (simp add: ld64_def st64_def halves)

lemma ld64_st64_other [simp]: "i \<noteq> j \<Longrightarrow> ld64 (st64 m i x) j = ld64 m j"
  by (simp add: ld64_def st64_def nth_list_update)

lemma nth_st64_other [simp]: "k \<noteq> 2 * i \<Longrightarrow> k \<noteq> 2 * i + 1 \<Longrightarrow> st64 m i x ! k = m ! k"
  by (simp add: st64_def)

lemma ld64_update_other [simp]: "k \<noteq> 2 * i \<Longrightarrow> k \<noteq> 2 * i + 1 \<Longrightarrow> ld64 (m[k := x]) i = ld64 m i"
  by (simp add: ld64_def)

section \<open>The allocator\<close>

text \<open>Sizes are \<open>size_t\<close>; the buffer is bytes.\<close>

record allocator =
  al_offset :: "64 word"
  al_bytes :: "8 word list"

definition c_ptrSize :: "64 word" where "c_ptrSize = 8"
definition c_intSize :: "64 word" where "c_intSize = 4"

definition allocator_new :: "8 word list \<Rightarrow> allocator" where
  "allocator_new buf = \<lparr>al_offset = 0, al_bytes = buf\<rparr>"

definition zero_fill :: "nat \<Rightarrow> nat \<Rightarrow> 8 word list \<Rightarrow> 8 word list" where
  "zero_fill p n b = take p b @ replicate n 0 @ drop (p + n) b"

definition rounded :: "64 word \<Rightarrow> 64 word" where
  "rounded sz = (let diff = sz mod c_ptrSize in if diff \<noteq> 0 then sz + (c_ptrSize - diff) else sz)"

definition alloc :: "64 word \<Rightarrow> allocator \<Rightarrow> 64 word outcome \<times> allocator" where
  "alloc sz a =
     (let p = al_offset a; sz = rounded sz
      in case VERIFY (al_offset a + sz \<le> of_nat (length (al_bytes a)))
              ''MemoryAllocator: allocation failed: oversize'' of
           Inl e \<Rightarrow> (Inl e, a)
         | Inr _ \<Rightarrow> (Inr p, a\<lparr>al_offset := al_offset a + sz,
                            al_bytes := zero_fill (unat p) (unat sz) (al_bytes a)\<rparr>))"

text \<open>\<open>dealloc\<close> frees only what lies outside the buffer, which starts at \<open>base\<close>.\<close>

definition dealloc_frees :: "addr \<Rightarrow> addr \<Rightarrow> allocator \<Rightarrow> bool" where
  "dealloc_frees base p a \<longleftrightarrow> p < base \<or> p \<ge> base + of_nat (length (al_bytes a))"

text \<open>
  The global \<open>operator new\<close> and \<open>delete\<close>: the allocator of the thread when there is one,
  otherwise the default one, whose \<open>malloc\<close> is a parameter and may answer null (0).
\<close>

definition default_alloc :: "(64 word \<Rightarrow> addr) \<Rightarrow> 64 word \<Rightarrow> addr outcome" where
  "default_alloc malloc sz =
     (case VERIFY (malloc sz \<noteq> 0) ''Allocation failed'' of Inl e \<Rightarrow> Inl e | Inr _ \<Rightarrow> Inr (malloc sz))"

definition operator_new ::
  "addr \<Rightarrow> (64 word \<Rightarrow> addr) \<Rightarrow> 64 word \<Rightarrow> allocator option \<Rightarrow> addr outcome \<times> allocator option" where
  "operator_new base malloc sz t =
     (case t of
        None \<Rightarrow> (default_alloc malloc sz, None)
      | Some a \<Rightarrow> (case alloc sz a of
                    (Inl e, a) \<Rightarrow> (Inl e, Some a)
                  | (Inr p, a) \<Rightarrow> (Inr (base + p), Some a)))"

text \<open>Whether \<open>operator delete\<close> gives the memory to \<open>free\<close>.\<close>

definition operator_delete_frees :: "addr \<Rightarrow> addr \<Rightarrow> allocator option \<Rightarrow> bool" where
  "operator_delete_frees base p t = (case t of None \<Rightarrow> True | Some a \<Rightarrow> dealloc_frees base p a)"

definition al_size :: "allocator \<Rightarrow> 64 word" where "al_size a = al_offset a"

definition al_setSize :: "64 word \<Rightarrow> allocator \<Rightarrow> allocator" where
  "al_setSize n a = a\<lparr>al_offset := n\<rparr>"

section \<open>Serialize\<close>

text \<open>The loop over the words of the first copy; \<open>d\<close> is where the next position goes.\<close>

fun serialize_loop :: "addr \<Rightarrow> nat \<Rightarrow> addr \<Rightarrow> nat list \<Rightarrow> ints \<Rightarrow> nat \<Rightarrow> (ints \<times> nat) outcome" where
  "serialize_loop base pCount vsize [] m d = Inr (m, d)"
| "serialize_loop base pCount vsize (i # is) m d =
     (let diff = (ucast (ld64 m (i + pCount) - ld64 m i) :: 32 word)
      in if diff \<noteq> 0
         then case VERIFY (scast diff = vsize) ''Invalid pointers shift'' of
                Inl e \<Rightarrow> Inl e
              | Inr _ \<Rightarrow> serialize_loop base pCount vsize is
                           ((st64 m i (ld64 m i - base))[d := of_nat i]) (d + 1)
         else serialize_loop base pCount vsize is m d)"

text \<open>
  \<open>vsize\<close> and \<open>vtotal\<close> are the sizes of the allocator after one and two copies, \<open>m\<close> the buffer
  after both; the answer is the view.
\<close>

definition serialize :: "addr \<Rightarrow> addr \<Rightarrow> addr \<Rightarrow> ints \<Rightarrow> ints outcome" where
  "serialize base vsize vtotal m =
     (case VERIFY (vsize mod c_ptrSize = 0) ''Unaligned data'' of
        Inl e \<Rightarrow> Inl e
      | Inr _ \<Rightarrow>
        (case VERIFY (vsize * 2 = vtotal) ''Unpredictable copy constructor'' of
           Inl e \<Rightarrow> Inl e
         | Inr _ \<Rightarrow>
           (let pCount = unat (vsize div c_ptrSize); diffIndex = unat (vsize div c_intSize)
            in case serialize_loop base pCount vsize [0..<pCount] m diffIndex of
                 Inl e \<Rightarrow> Inl e
               | Inr (m', d) \<Rightarrow> Inr (take (d + 1) (m'[d := ucast (vsize div c_intSize)])))))"

section \<open>Deserialize\<close>

text \<open>
  The indices of the loop and the positions are signed ints. An access outside the buffer
  has no defined result: \<open>None\<close>.
\<close>

fun deserialize_loop :: "addr \<Rightarrow> int \<Rightarrow> int list \<Rightarrow> ints \<Rightarrow> ints outcome option" where
  "deserialize_loop base dataCount [] m = Some (Inr m)"
| "deserialize_loop base dataCount (i # is) m =
     (if i < 0 then None
      else let dataIndex = sint (m ! nat i)
           in case VERIFY (dataIndex < dataCount) ''Invalid data index'' of
                Inl e \<Rightarrow> Some (Inl e)
              | Inr _ \<Rightarrow>
                  if dataIndex < 0 \<or> int (length m) \<le> 2 * dataIndex + 1 then None
                  else deserialize_loop base dataCount is
                         (st64 m (nat dataIndex) (ld64 m (nat dataIndex) + base)))"

text \<open>\<open>slack\<close> is the number of bytes of the buffer after its last int.\<close>

definition deserialize :: "addr \<Rightarrow> nat \<Rightarrow> ints \<Rightarrow> ints outcome option" where
  "deserialize base slack m =
     (case VERIFY (4 \<le> 4 * length m + slack) ''Invalid buffer size: must be >= intSize'' of
        Inl e \<Rightarrow> Some (Inl e)
      | Inr _ \<Rightarrow>
        (case VERIFY ((4 * length m + slack) mod 4 = 0) ''Invalid buffer size: must be aligned'' of
           Inl e \<Rightarrow> Some (Inl e)
         | Inr _ \<Rightarrow>
           (let intCount = int (length m) - 1;
                diffIndex = sint (m ! nat intCount)
            in case VERIFY (diffIndex \<le> intCount) ''Invalid diff index'' of
                 Inl e \<Rightarrow> Some (Inl e)
               | Inr _ \<Rightarrow>
                   (let dataCount = sint (ucast ((of_int diffIndex * c_intSize) div c_ptrSize) :: 32 word)
                    in deserialize_loop base dataCount [diffIndex..intCount - 1] m))))"

section \<open>Round trip\<close>

text \<open>
  An object as its constructors lay it out: words that do not depend on where it is, and
  pointers to its own parts. The words of such an object at address \<open>base\<close>:
\<close>

datatype cell = Plain addr | Ref addr

fun place :: "addr \<Rightarrow> cell \<Rightarrow> addr" where
  "place base (Plain x) = x"
| "place base (Ref p) = base + p"

fun is_ref :: "cell \<Rightarrow> bool" where
  "is_ref (Plain x) = False"
| "is_ref (Ref p) = True"

lemma place_shift: "place (base + b) c = (if is_ref c then place base c + b else place base c)"
  by (cases c) (simp_all add: algebra_simps)

lemma place_zero: "place base c - base = place 0 c" if "is_ref c"
  using that by (cases c) simp_all

lemma place_base: "place base c = (if is_ref c then place 0 c + base else place 0 c)"
  by (cases c) (simp_all add: algebra_simps)

definition refs :: "cell list \<Rightarrow> nat \<Rightarrow> nat list" where
  "refs cells i = filter (\<lambda>k. is_ref (cells ! k)) [0..<i]"

lemma refs_Suc: "refs cells (Suc i) = refs cells i @ (if is_ref (cells ! i) then [i] else [])"
  by (simp add: refs_def)

lemma refs_facts [simp]:
  "set (refs cells i) = {k. k < i \<and> is_ref (cells ! k)}"
  "distinct (refs cells i)"
  "length (refs cells i) \<le> i"
  by (auto simp: refs_def intro: order_trans [OF length_filter_le])

lemma refs_0 [simp]: "refs cells 0 = []"
  by (simp add: refs_def)

text \<open>The buffer after the words before \<open>i\<close> were handled.\<close>

definition relocated :: "addr \<Rightarrow> cell list \<Rightarrow> nat \<Rightarrow> ints \<Rightarrow> bool" where
  "relocated base cells i m \<longleftrightarrow>
     (\<forall>k < length cells. ld64 m k = place (if k < i then 0 else base) (cells ! k)) \<and>
     (\<forall>k < length cells. i \<le> k \<longrightarrow>
        ld64 m (length cells + k) = place (base + of_nat (8 * length cells)) (cells ! k)) \<and>
     (\<forall>j < length (refs cells i). m ! (2 * length cells + j) = of_nat (refs cells i ! j))"

lemma sint_of_nat_32: "n < 2 ^ 31 \<Longrightarrow> sint (of_nat n :: 32 word) = int n"
  by (simp add: signed_of_nat signed_take_bit_int_eq_self)

lemma scast_of_nat: "n < 2 ^ 31 \<Longrightarrow> scast (of_nat n :: 32 word) = (of_nat n :: 64 word)"
  by (simp add: scast_eq sint_of_nat_32)

lemma ucast_of_nat_32: "ucast (of_nat n :: 64 word) = (of_nat n :: 32 word)"
  by (simp add: unsigned_of_nat word_of_nat_eq_iff)

lemma relocated_step:
  assumes inv: "relocated base cells i m" and i: "i < length cells"
    and len: "4 * length cells \<le> length m"
  shows "relocated base cells (Suc i)
           (if is_ref (cells ! i)
            then (st64 m i (ld64 m i - base))[2 * length cells + length (refs cells i) := of_nat i]
            else m)"
proof -
  let ?n = "length cells"
  have rl: "length (refs cells i) \<le> i" by simp
  have w: "ld64 m k = place (if k < i then 0 else base) (cells ! k)" if "k < ?n" for k
    using inv that by (simp add: relocated_def)
  have c: "ld64 m (?n + k) = place (base + of_nat (8 * ?n)) (cells ! k)" if "k < ?n" "i \<le> k" for k
    using inv that by (simp add: relocated_def)
  have t: "m ! (2 * ?n + j) = of_nat (refs cells i ! j)" if "j < length (refs cells i)" for j
    using inv that by (simp add: relocated_def)
  show ?thesis
  proof (cases "is_ref (cells ! i)")
    case False
    then have z: "place base (cells ! i) = place 0 (cells ! i)" by (simp add: place_base [of base])
    show ?thesis
      using False w c t z i by (auto simp: relocated_def refs_Suc less_Suc_eq)
  next
    case True
    let ?m = "(st64 m i (ld64 m i - base))[2 * ?n + length (refs cells i) := of_nat i]"
    have "ld64 ?m k = place (if k < Suc i then 0 else base) (cells ! k)" if "k < ?n" for k
    proof (cases "k = i")
      case k: True
      have "ld64 ?m i = ld64 (st64 m i (ld64 m i - base)) i" using i by (intro ld64_update_other) auto
      also have "\<dots> = place base (cells ! i) - base" using i len w [OF i] by simp
      also have "\<dots> = place 0 (cells ! i)" by (rule place_zero [OF True])
      finally show ?thesis using k by simp
    next
      case k: False
      have "ld64 ?m k = ld64 (st64 m i (ld64 m i - base)) k"
        using that by (intro ld64_update_other) auto
      then show ?thesis using k w [OF that] by (auto simp: less_Suc_eq)
    qed
    moreover have "ld64 ?m (?n + k) = place (base + of_nat (8 * ?n)) (cells ! k)"
      if "k < ?n" "Suc i \<le> k" for k
    proof -
      have "ld64 ?m (?n + k) = ld64 (st64 m i (ld64 m i - base)) (?n + k)"
      proof (rule ld64_update_other)
        show "2 * ?n + length (refs cells i) \<noteq> 2 * (?n + k)" using that rl by presburger
        show "2 * ?n + length (refs cells i) \<noteq> 2 * (?n + k) + 1" using that rl by presburger
      qed
      then show ?thesis using that c [of k] i by simp
    qed
    moreover have "?m ! (2 * ?n + j) = of_nat (refs cells (Suc i) ! j)"
      if "j < length (refs cells (Suc i))" for j
    proof (cases "j = length (refs cells i)")
      case j: True
      have "2 * ?n + length (refs cells i) < length m" using rl i len by linarith
      with j True show ?thesis by (simp add: refs_Suc)
    next
      case j: False
      then have jj: "j < length (refs cells i)" using that True by (simp add: refs_Suc)
      with j i t [OF jj] True show ?thesis by (simp add: refs_Suc nth_append)
    qed
    ultimately show ?thesis using True by (simp add: relocated_def)
  qed
qed

lemma serialize_loop_relocated:
  assumes "relocated base cells i m" "i \<le> length cells" "4 * length cells \<le> length m"
    and "8 * length cells < 2 ^ 31"
  shows "\<exists>m'. serialize_loop base (length cells) (of_nat (8 * length cells)) [i..<length cells] m
                (2 * length cells + length (refs cells i)) =
              Inr (m', 2 * length cells + length (refs cells (length cells))) \<and>
              length m' = length m \<and> relocated base cells (length cells) m'"
  using assms
proof (induction "length cells - i" arbitrary: i m)
  case 0
  then show ?case by simp
next
  case (Suc x)
  let ?n = "length cells"
  let ?m = "if is_ref (cells ! i)
            then (st64 m i (ld64 m i - base))[2 * ?n + length (refs cells i) := of_nat i] else m"
  have i: "i < ?n" using Suc.hyps(2) by simp
  have diff: "ucast (ld64 m (i + ?n) - ld64 m i) = (if is_ref (cells ! i) then of_nat (8 * ?n) else (0 :: 32 word))"
  proof -
    have "ld64 m (?n + i) = place (base + of_nat (8 * ?n)) (cells ! i)" "ld64 m i = place base (cells ! i)"
      using Suc.prems(1) i by (simp_all add: relocated_def)
    then show ?thesis by (simp add: add.commute [of i] place_shift ucast_of_nat_32 del: of_nat_mult)
  qed
  have nz: "(of_nat (8 * ?n) :: 32 word) \<noteq> 0"
  proof
    assume "(of_nat (8 * ?n) :: 32 word) = 0"
    then have "sint (of_nat (8 * ?n) :: 32 word) = 0" by simp
    with sint_of_nat_32 [OF Suc.prems(4)] i show False by simp
  qed
  have "\<exists>m'. serialize_loop base ?n (of_nat (8 * ?n)) [Suc i..<?n] ?m (2 * ?n + length (refs cells (Suc i))) =
              Inr (m', 2 * ?n + length (refs cells ?n)) \<and> length m' = length ?m \<and> relocated base cells ?n m'"
  proof (rule Suc.hyps(1))
    show "x = ?n - Suc i" using Suc.hyps(2) by simp
    show "relocated base cells (Suc i) ?m" by (rule relocated_step [OF Suc.prems(1) i Suc.prems(3)])
    show "Suc i \<le> ?n" using i by simp
    show "4 * ?n \<le> length ?m" using Suc.prems(3) by simp
    show "8 * ?n < 2 ^ 31" by (rule Suc.prems(4))
  qed
  moreover have "length ?m = length m" by simp
  moreover have "[i..<?n] = i # [Suc i..<?n]" using i by (rule upt_conv_Cons)
  ultimately show ?case
    using diff nz scast_of_nat [OF Suc.prems(4)]
    by (cases "is_ref (cells ! i)") (simp_all add: refs_Suc Let_def del: of_nat_mult)
qed

text \<open>The loop of \<open>deserialize\<close> over a table of positions.\<close>

lemma ld64_relocate:
  assumes "distinct ps" "\<forall>p \<in> set ps. 2 * p + 1 < length m"
  shows "ld64 (fold (\<lambda>p m. st64 m p (ld64 m p + base)) ps m) k =
           (if k \<in> set ps then ld64 m k + base else ld64 m k)"
  using assms
proof (induction ps arbitrary: m)
  case (Cons p ps)
  then show ?case by (cases "p = k") auto
qed simp

lemma length_relocate: "length (fold (\<lambda>p m. st64 m p (ld64 m p + base)) ps m) = length m"
  by (induction ps arbitrary: m) simp_all

lemma deserialize_loop_table:
  assumes "map ((!) m) is = map of_nat ps" and "\<forall>p \<in> set ps. p < n" and "\<forall>i \<in> set is. 2 * n \<le> i"
    and "2 * n \<le> length m" and "n < 2 ^ 31"
  shows "deserialize_loop base (int n) (map int is) m =
           Some (Inr (fold (\<lambda>p m. st64 m p (ld64 m p + base)) ps m))"
  using assms
proof (induction "is" arbitrary: m ps)
  case (Cons i "is")
  then obtain p ps' where ps: "ps = p # ps'" and p: "m ! i = of_nat p" and
    rest: "map ((!) m) is = map of_nat ps'" by (cases ps) auto
  let ?m = "st64 m p (ld64 m p + base)"
  have pn: "p < n" using Cons.prems(2) ps by simp
  then have sp: "sint (of_nat p :: 32 word) = int p" using Cons.prems(5) by (intro sint_of_nat_32) simp
  have "map ((!) ?m) is = map ((!) m) is" using pn Cons.prems(3) by fastforce
  then have "deserialize_loop base (int n) (map int is) ?m =
               Some (Inr (fold (\<lambda>p m. st64 m p (ld64 m p + base)) ps' ?m))"
    using Cons.prems rest ps by (intro Cons.IH) simp_all
  then show ?case using ps p sp pn Cons.prems(4) by (simp add: Let_def)
qed simp

text \<open>A packet of the object: its words relative to it, the positions of its pointers and
  the number of ints before them.\<close>

definition packet_of :: "cell list \<Rightarrow> ints \<Rightarrow> bool" where
  "packet_of cells v \<longleftrightarrow>
     (let n = length cells; r = refs cells n
      in length v = 2 * n + length r + 1 \<and>
         (\<forall>k < n. ld64 v k = place 0 (cells ! k)) \<and>
         (\<forall>j < length r. v ! (2 * n + j) = of_nat (r ! j)) \<and>
         v ! (2 * n + length r) = of_nat (2 * n))"

lemma view_size_words:
  assumes "8 * n < 2 ^ 31"
  shows "unat ((of_nat (8 * n) :: 64 word) div c_ptrSize) = n"
    and "(of_nat (8 * n) :: 64 word) div c_intSize = of_nat (2 * n)"
    and "unat (of_nat (2 * n) :: 64 word) = 2 * n"
    and "(of_nat (8 * n) :: 64 word) mod c_ptrSize = 0"
    and "(of_nat (8 * n) :: 64 word) * 2 = of_nat (16 * n)"
proof -
  have un: "unat (of_nat k :: 64 word) = k" if "k < 2 ^ 33" for k
    using that by (intro of_nat_inverse) simp_all
  have u: "unat (of_nat (8 * n) :: 64 word) = 8 * n" using assms by (intro un) simp
  show "unat ((of_nat (8 * n) :: 64 word) div c_ptrSize) = n"
    by (simp only: unat_div u c_ptrSize_def) simp
  show 2: "unat (of_nat (2 * n) :: 64 word) = 2 * n" using assms by (intro un) simp
  show "(of_nat (8 * n) :: 64 word) div c_intSize = of_nat (2 * n)"
    by (rule word_unat_eq_iff [THEN iffD2]) (simp only: unat_div u 2 c_intSize_def, simp)
  show "(of_nat (8 * n) :: 64 word) mod c_ptrSize = 0"
    by (rule word_unat_eq_iff [THEN iffD2]) (simp only: unat_mod u c_ptrSize_def, simp)
  show "(of_nat (8 * n) :: 64 word) * 2 = of_nat (16 * n)" by simp
qed

lemma ld64_take: "2 * k + 1 < j \<Longrightarrow> ld64 (take j m) k = ld64 m k"
  by (simp add: ld64_def)

lemma serialize_gives_packet:
  assumes n: "0 < length cells" "8 * length cells < 2 ^ 31"
    and len: "4 * length cells \<le> length m"
    and first: "\<And>k. k < length cells \<Longrightarrow> ld64 m k = place base (cells ! k)"
    and second: "\<And>k. k < length cells \<Longrightarrow>
      ld64 m (length cells + k) = place (base + of_nat (8 * length cells)) (cells ! k)"
  shows "\<exists>v. serialize base (of_nat (8 * length cells)) (of_nat (16 * length cells)) m = Inr v \<and>
             packet_of cells v"
proof -
  let ?n = "length cells" and ?r = "refs cells (length cells)"
  let ?d = "2 * ?n + length ?r"
  have "relocated base cells 0 m" using first second by (simp add: relocated_def)
  then obtain m1 where loop: "serialize_loop base ?n (of_nat (8 * ?n)) [0..<?n] m (2 * ?n) = Inr (m1, ?d)"
    and l1: "length m1 = length m" and r1: "relocated base cells ?n m1"
    using serialize_loop_relocated [of base cells 0 m] len n by auto
  have d: "?d < length m1" using refs_facts(3) [of cells ?n] len l1 n by linarith
  define v where "v = take (?d + 1) (m1[?d := of_nat (2 * ?n)])"
  have "serialize base (of_nat (8 * ?n)) (of_nat (16 * ?n)) m = Inr v"
    using view_size_words [OF n(2)] loop
    by (simp add: serialize_def v_def ucast_of_nat_32 Let_def del: of_nat_mult)
  moreover have "packet_of cells v"
  proof -
    have "ld64 v k = place 0 (cells ! k)" if "k < ?n" for k
      using that r1 by (simp add: v_def ld64_take relocated_def)
    moreover have "v ! (2 * ?n + j) = of_nat (?r ! j)" if "j < length ?r" for j
      using that r1 d by (simp add: v_def relocated_def)
    ultimately show ?thesis using d by (simp add: packet_of_def Let_def v_def)
  qed
  ultimately show ?thesis by blast
qed

lemma data_count:
  assumes "0 \<le> d" "d < 2 ^ 31"
  shows "sint (ucast ((of_int d * c_intSize) div c_ptrSize) :: 32 word) = d div 2"
proof -
  obtain k where k: "d = int k" using assms(1) by (metis nonneg_int_cases)
  have "unat (of_nat (4 * k) :: 64 word) = 4 * k" using assms k by (intro of_nat_inverse) simp_all
  moreover have "unat (of_nat (k div 2) :: 64 word) = k div 2" using assms k by (intro of_nat_inverse) simp_all
  moreover have "of_int d * c_intSize = of_nat (4 * k)" by (simp add: c_intSize_def k)
  ultimately have "(of_int d * c_intSize) div c_ptrSize = of_nat (k div 2)"
    by (intro word_unat_eq_iff [THEN iffD2]) (simp add: unat_div c_ptrSize_def del: of_nat_mult)
  moreover have "k div 2 < 2 ^ 31" using assms k by simp
  ultimately show ?thesis by (simp only: ucast_of_nat_32 sint_of_nat_32 k zdiv_int of_nat_numeral)
qed

lemma deserialize_packet:
  assumes n: "0 < length cells" "8 * length cells < 2 ^ 31" and v: "packet_of cells v"
  shows "\<exists>m'. deserialize base 0 v = Some (Inr m') \<and> length m' = length v \<and>
              (\<forall>k < length cells. ld64 m' k = place base (cells ! k))"
proof -
  let ?n = "length cells" and ?r = "refs cells (length cells)"
  let ?d = "2 * ?n + length ?r"
  let ?m = "fold (\<lambda>p m. st64 m p (ld64 m p + base)) ?r v"
  have lv: "length v = ?d + 1" and w: "\<And>k. k < ?n \<Longrightarrow> ld64 v k = place 0 (cells ! k)"
    and t: "\<And>j. j < length ?r \<Longrightarrow> v ! (2 * ?n + j) = of_nat (?r ! j)"
    and top: "v ! ?d = of_nat (2 * ?n)"
    using v by (auto simp: packet_of_def Let_def)
  have sd: "sint (of_nat (2 * ?n) :: 32 word) = 2 * int ?n" using n(2) by (subst sint_of_nat_32) simp_all
  have dc: "sint (ucast ((of_int (2 * int ?n) * c_intSize) div c_ptrSize) :: 32 word) = int ?n"
    using n(2) by (subst data_count) simp_all
  have idx: "[2 * int ?n..int ?d - 1] = map int [2 * ?n..<?d]"
    by (intro nth_equalityI) auto
  have "deserialize_loop base (int ?n) (map int [2 * ?n..<?d]) v = Some (Inr ?m)"
  proof (rule deserialize_loop_table)
    show "map ((!) v) [2 * ?n..<?d] = map of_nat ?r"
      by (intro nth_equalityI) (simp_all add: t)
  qed (use n lv in auto)
  moreover have "deserialize base 0 v = deserialize_loop base (int ?n) [2 * int ?n..int ?d - 1] v"
  proof -
    have c: "int (length v) - 1 = int ?d" using lv by simp
    show ?thesis unfolding deserialize_def Let_def c nat_int top sd dc using lv by simp
  qed
  ultimately have "deserialize base 0 v = Some (Inr ?m)" using idx by simp
  moreover have "length ?m = length v"
    by (rule length_relocate)
  moreover have "ld64 ?m k = place base (cells ! k)" if "k < ?n" for k
    using w [OF that] that lv by (subst ld64_relocate) (auto simp: place_base [of base])
  ultimately show ?thesis by blast
qed

text \<open>C32: an object of pointers and plain words, copied twice into the buffer at
  \<open>base\<close>, is serialized, and \<open>deserialize\<close> of that packet at any other address gives the
  object as it would have been built there.\<close>

theorem serialize_round_trip:
  assumes "0 < length cells" "8 * length cells < 2 ^ 31" and "4 * length cells \<le> length m"
    and "\<And>k. k < length cells \<Longrightarrow> ld64 m k = place base (cells ! k)"
    and "\<And>k. k < length cells \<Longrightarrow>
      ld64 m (length cells + k) = place (base + of_nat (8 * length cells)) (cells ! k)"
  shows "\<exists>v m'. serialize base (of_nat (8 * length cells)) (of_nat (16 * length cells)) m = Inr v \<and>
           deserialize base' 0 v = Some (Inr m') \<and>
           (\<forall>k < length cells. ld64 m' k = place base' (cells ! k))"
proof -
  obtain v where v: "serialize base (of_nat (8 * length cells)) (of_nat (16 * length cells)) m = Inr v"
    "packet_of cells v" using serialize_gives_packet [OF assms] by blast
  show ?thesis using deserialize_packet [OF assms(1,2) v(2), of base'] v(1) by blast
qed

text \<open>A closure of three words, the second of which points to the third.\<close>

lemma serialize_round_trip_witness:
  "\<exists>v m'. serialize 0x1000 24 48
            [7, 0, 0x1010, 0, 5, 0, 7, 0, 0x1028, 0, 5, 0] = Inr v \<and>
          deserialize 0x2000 0 v = Some (Inr m') \<and>
          (\<forall>k < 3. ld64 m' k = place 0x2000 ([Plain 7, Ref 16, Plain 5] ! k))"
proof -
  let ?cells = "[Plain 7, Ref 16, Plain 5]" and ?m = "[7, 0, 0x1010, 0, 5, 0, 7, 0, 0x1028, 0, 5, 0] :: ints"
  have 1: "\<forall>k < 3. ld64 ?m k = place 0x1000 (?cells ! k)" by code_simp
  have 2: "\<forall>k < 3. ld64 ?m (3 + k) = place (0x1000 + of_nat (8 * 3)) (?cells ! k)" by code_simp
  have l: "length ?cells = 3" by simp
  have "\<exists>v m'. serialize 0x1000 (of_nat (8 * 3)) (of_nat (16 * 3)) ?m = Inr v \<and>
          deserialize 0x2000 0 v = Some (Inr m') \<and> (\<forall>k < 3. ld64 m' k = place 0x2000 (?cells ! k))"
    by (rule serialize_round_trip [of ?cells ?m "0x1000" "0x2000", unfolded l])
      (use 1 2 in simp_all)
  then show ?thesis by simp
qed

text \<open>
  What \<open>deserialize\<close> does with the packets of a peer: no access leaves the buffer when the
  ints of the packet, read as signed, are not negative.
\<close>

lemma deserialize_loop_in_bounds:
  assumes "\<forall>i \<in> set is. 0 \<le> i" and "0 \<le> dc" "2 * dc \<le> int (length m)"
    and "\<And>i. i \<in> set is \<Longrightarrow> 2 * dc \<le> i \<and> 0 \<le> sint (m ! nat i)"
  shows "\<exists>r. deserialize_loop base dc is m = Some r \<and>
             (\<forall>m'. r = Inr m' \<longrightarrow> length m' = length m)"
  using assms
proof (induction "is" arbitrary: m)
  case (Cons i "is")
  let ?x = "sint (m ! nat i)"
  have x: "0 \<le> ?x" "0 \<le> i" using Cons.prems(1,4) by auto
  show ?case
  proof (cases "?x < dc")
    case True
    let ?m = "st64 m (nat ?x) (ld64 m (nat ?x) + base)"
    have same: "?m ! nat j = m ! nat j" if "j \<in> set is" for j
    proof -
      have "2 * dc \<le> j" using Cons.prems(4) [of j] that by simp
      then have "2 * nat ?x + 1 < nat j" using True x by linarith
      then show ?thesis by (intro nth_st64_other) simp_all
    qed
    have "\<exists>r. deserialize_loop base dc is ?m = Some r \<and> (\<forall>m'. r = Inr m' \<longrightarrow> length m' = length ?m)"
    proof (rule Cons.IH)
      show "2 * dc \<le> j \<and> 0 \<le> sint (?m ! nat j)" if "j \<in> set is" for j
        using Cons.prems(4) [of j] same [OF that] that by simp
    qed (use Cons.prems in auto)
    with x True Cons.prems(3) show ?thesis by (simp add: Let_def)
  qed (use x in \<open>simp add: Let_def\<close>)
qed simp

text \<open>\<open>deserialize\<close> stays inside the buffer when no int of the packet is negative, and
  keeps its length: it answers, with the object or with the failed check.\<close>

theorem deserialize_in_bounds:
  assumes "length m < 2 ^ 31" "slack < 4" and "\<forall>x \<in> set m. 0 \<le> sint x"
  shows "\<exists>r. deserialize base slack m = Some r \<and> (\<forall>m'. r = Inr m' \<longrightarrow> length m' = length m)"
proof (cases "m = []")
  case True
  then show ?thesis
    using assms(2) by (simp add: deserialize_def)
next
  case False
  let ?c = "int (length m) - 1"
  let ?d = "sint (m ! nat ?c)"
  have ge: "4 \<le> 4 * length m + slack" "Suc 0 \<le> length m" using False by (cases m; simp)+
  have md: "slack mod 4 = slack" using assms(2) by simp
  have nn: "0 \<le> sint (m ! nat i)" if "0 \<le> i" "i \<le> ?c" for i
    using assms(3) that nth_mem [of "nat i" m] False by (metis nat_less_iff zle_diff1_eq)
  have d0: "0 \<le> ?d" using nn [of ?c] False by (simp add: Suc_le_eq)
  show ?thesis
  proof (cases "?d \<le> ?c")
    case True
    have dc: "sint (ucast ((of_int ?d * c_intSize) div c_ptrSize) :: 32 word) = ?d div 2"
      using d0 True assms(1) by (intro data_count) simp_all
    have "\<exists>r. deserialize_loop base (?d div 2) [?d..?c - 1] m = Some r \<and>
               (\<forall>m'. r = Inr m' \<longrightarrow> length m' = length m)"
      using d0 True nn by (intro deserialize_loop_in_bounds) auto
    with True show ?thesis
      by (cases "slack = 0") (simp_all add: deserialize_def Let_def dc ge md del: of_int_sint)
  qed (cases "slack = 0", simp_all add: deserialize_def Let_def ge md)
qed

text \<open>A packet with a negative position passes the checks of \<open>deserialize\<close>, which
  compare from above only, and makes it write before the buffer.\<close>

lemma deserialize_negative_position:
  "deserialize base 0 [x, y, -1, 2] = None"
  by (simp add: deserialize_def c_intSize_def c_ptrSize_def upto_rec1)

lemma deserialize_in_bounds_witness:
  "\<exists>r. deserialize 0x2000 0 [16, 0, 0, 2] = Some r \<and> (\<forall>m'. r = Inr m' \<longrightarrow> length m' = 4)"
proof -
  have l: "length [16, 0, 0, 2 :: 32 word] = 4" by simp
  show ?thesis using deserialize_in_bounds [of "[16, 0, 0, 2]" 0 "0x2000", unfolded l] by simp
qed

section \<open>The allocator, proved\<close>

text \<open>The allocator is where it can be: on a word boundary inside the buffer.\<close>

definition al_ok :: "allocator \<Rightarrow> bool" where
  "al_ok a \<longleftrightarrow> al_offset a mod 8 = 0 \<and> unat (al_offset a) \<le> length (al_bytes a) \<and>
             length (al_bytes a) < 2 ^ 62"

lemma rounded_sound:
  assumes "unat sz < 2 ^ 62"
  shows "unat sz \<le> unat (rounded sz)" "unat (rounded sz) < unat sz + 8" "unat (rounded sz) mod 8 = 0"
proof -
  let ?r = "unat sz mod 8"
  have ur: "unat (sz mod c_ptrSize) = ?r" by (simp add: unat_mod c_ptrSize_def)
  have z: "sz mod c_ptrSize = 0 \<longleftrightarrow> ?r = 0" using ur by (metis unat_eq_0)
  have "unat (rounded sz) = (if ?r = 0 then unat sz else unat sz + (8 - ?r))"
  proof (cases "?r = 0")
    case False
    have "sz mod c_ptrSize \<le> c_ptrSize"
      unfolding word_le_nat_alt ur by (simp add: c_ptrSize_def less_imp_le)
    then have "unat (c_ptrSize - sz mod c_ptrSize) = 8 - ?r" by (simp add: unat_sub) (simp only: ur, simp add: c_ptrSize_def)
    moreover have "unat sz + (8 - ?r) < 2 ^ 64" using assms by simp
    ultimately show ?thesis using False z
      by (simp add: rounded_def Let_def unat_word_ariths)
  qed (use z in \<open>simp add: rounded_def Let_def\<close>)
  moreover have "(x + (8 - x mod 8)) mod 8 = 0" for x :: nat by presburger
  ultimately show "unat sz \<le> unat (rounded sz)" "unat (rounded sz) < unat sz + 8" "unat (rounded sz) mod 8 = 0"
    by auto
qed

text \<open>C34: an allocation of a size below 2^62 that succeeds is on a word boundary, after
  all earlier ones, inside the buffer and zeroed; what was allocated before keeps its
  bytes, and the allocator is ready for the next one.\<close>

theorem alloc_fresh_zeroed:
  assumes ok: "al_ok a" and sz: "unat sz < 2 ^ 62" and r: "alloc sz a = (Inr p, a')"
  shows "p = al_offset a \<and> p mod 8 = 0 \<and> unat p + unat sz \<le> unat (al_offset a') \<and>
         (\<forall>i < length (al_bytes a).
            al_bytes a' ! i = (if unat p \<le> i \<and> i < unat (al_offset a') then 0 else al_bytes a ! i)) \<and>
         al_ok a'"
proof -
  let ?n = "length (al_bytes a)"
  note rs = rounded_sound [OF sz]
  have n: "?n < 2 ^ 62" "unat (al_offset a) \<le> ?n" "al_offset a mod 8 = 0" using ok by (auto simp: al_ok_def)
  have "unat (al_offset a) + unat (rounded sz) < 2 ^ 64" using n rs(2) sz by simp
  then have u: "unat (al_offset a + rounded sz) = unat (al_offset a) + unat (rounded sz)"
    by (simp add: unat_word_ariths)
  have un: "unat (of_nat ?n :: 64 word) = ?n" using n(1) by (intro of_nat_inverse) simp_all
  have le: "al_offset a + rounded sz \<le> of_nat ?n"
    using r by (cases "al_offset a + rounded sz \<le> of_nat ?n") (auto simp: alloc_def Let_def)
  then have fits: "unat (al_offset a) + unat (rounded sz) \<le> ?n" by (simp only: word_le_nat_alt u un)
  have p: "p = al_offset a" and a': "a' = a\<lparr>al_offset := al_offset a + rounded sz,
      al_bytes := zero_fill (unat p) (unat (rounded sz)) (al_bytes a)\<rparr>"
    using r le by (auto simp: alloc_def Let_def)
  have off: "unat (al_offset a') = unat p + unat (rounded sz)" using u by (simp add: a' p)
  have "unat (al_offset a) mod 8 = 0" using n(3) unat_mod [of "al_offset a" 8] by simp
  then have "unat (al_offset a') mod 8 = 0" using rs(3) off p by (metis mod_0_imp_dvd dvd_add mod_eq_0_iff_dvd)
  then have al: "al_offset a' mod 8 = 0" using unat_mod [of "al_offset a'" 8] by (simp add: unat_eq_0 flip: unat_eq_0)
  have bytes: "al_bytes a' = zero_fill (unat p) (unat (rounded sz)) (al_bytes a)" by (simp add: a')
  have zf: "length (zero_fill q k b) = length b" "i < length b \<Longrightarrow>
      zero_fill q k b ! i = (if q \<le> i \<and> i < q + k then 0 else b ! i)" if "q + k \<le> length b" for q k i b
    using that by (auto simp: zero_fill_def nth_append)
  show ?thesis
    using n p off al rs(1) fits by (simp add: bytes zf [OF fits] al_ok_def)
qed

lemma alloc_fresh_zeroed_witness:
  "al_bytes (snd (alloc 5 (allocator_new (replicate 16 1)))) ! 4 = 0"
proof -
  let ?a = "allocator_new (replicate 16 1)"
  have ok: "al_ok ?a" by (simp add: al_ok_def allocator_new_def)
  have r: "alloc 5 ?a = (Inr 0, snd (alloc 5 ?a))" by code_simp
  have o: "unat (al_offset (snd (alloc 5 ?a))) = 8" by code_simp
  have l: "4 < length (al_bytes ?a)" by (simp add: allocator_new_def)
  show ?thesis using alloc_fresh_zeroed [OF ok _ r] l by (simp add: o)
qed

text \<open>
  The checks of \<open>alloc\<close> add machine words: a size within 7 of 2^64 is rounded to 0 and
  passes.
\<close>

lemma alloc_wraps: "fst (alloc (- 3) (allocator_new (replicate 16 1))) = Inr 0"
  by code_simp

text \<open>
  An object that was built in the buffer and is deleted outside the scope of the allocator
  goes to \<open>free\<close>, although it never came from \<open>malloc\<close>.
\<close>

lemma delete_outside_scope:
  "operator_delete_frees base p None"
  by (simp add: operator_delete_frees_def)

text \<open>Memory of the buffer is never freed with the default allocator, memory outside
  it always is, for a buffer that does not end at the top of the address space.\<close>

lemma dealloc_frees_outside:
  assumes "unat base + length (al_bytes a) < 2 ^ 64"
  shows "dealloc_frees base p a \<longleftrightarrow> \<not> (\<exists>i < length (al_bytes a). p = base + of_nat i)"
proof -
  let ?n = "length (al_bytes a)"
  have u: "unat (base + of_nat i) = unat base + i" if "i \<le> ?n" for i
    using that assms by (simp add: unat_word_ariths unsigned_of_nat take_bit_nat_eq_self)
  show ?thesis
  proof
    assume "dealloc_frees base p a"
    then show "\<not> (\<exists>i < ?n. p = base + of_nat i)"
      by (auto simp: dealloc_frees_def word_less_nat_alt word_le_nat_alt u)
  next
    assume none: "\<not> (\<exists>i < ?n. p = base + of_nat i)"
    show "dealloc_frees base p a"
    proof (rule ccontr)
      assume "\<not> dealloc_frees base p a"
      then have "unat base \<le> unat p" "unat p < unat base + ?n"
        using u [of ?n] by (simp_all add: dealloc_frees_def word_less_nat_alt word_le_nat_alt not_less not_le)
      then have "unat p - unat base < ?n" "p = base + of_nat (unat p - unat base)"
        by (simp_all add: word_unat_eq_iff u)
      with none show False by blast
    qed
  qed
qed

end
