(* ===== verification/Packets.thy ===== *)
theory Packets
  imports Serialization
begin

text \<open>
  Packets on a connection (\<open>serializeToPacket\<close> of \<open>include/synca/once/serialization.h\<close>,
  \<open>send\<close> and \<open>MsgListener::listen\<close> of \<open>src/node.cpp\<close>): the size of the view as eight
  bytes, then the view. A connection is the sequence of bytes that arrive on it; reading
  beyond its end is the network error the socket reports.
\<close>

type_synonym bytes = "8 word list"

section \<open>Words as bytes, low byte first\<close>

fun to_bytes :: "nat \<Rightarrow> 'a::len word \<Rightarrow> bytes" where
  "to_bytes 0 x = []"
| "to_bytes (Suc n) x = ucast x # to_bytes n (drop_bit 8 x)"

fun of_bytes :: "bytes \<Rightarrow> 'a::len word" where
  "of_bytes [] = 0"
| "of_bytes (b # bs) = ucast b OR push_bit 8 (of_bytes bs)"

lemma length_to_bytes [simp]: "length (to_bytes n x) = n"
  by (induction n arbitrary: x) simp_all

lemma of_to_bytes: "of_bytes (to_bytes n x) = take_bit (8 * n) (x :: 'a::len word)"
proof (induction n arbitrary: x)
  case (Suc n)
  have "ucast (ucast x :: 8 word) OR push_bit 8 (take_bit (8 * n) (drop_bit 8 x)) =
          take_bit (8 * Suc n) x"
    by (rule bit_word_eqI)
      (auto simp: bit_or_iff bit_push_bit_iff bit_take_bit_iff bit_drop_bit_eq bit_ucast_iff
        bit_imp_possible_bit)
  with Suc.IH show ?case by simp
qed simp

lemma of_to_bytes_64: "of_bytes (to_bytes 8 x) = (x :: 64 word)"
  by (simp add: of_to_bytes take_bit_word_eq_self)

lemma of_to_bytes_32: "of_bytes (to_bytes 4 x) = (x :: 32 word)"
  by (simp add: of_to_bytes take_bit_word_eq_self)

definition view_bytes :: "ints \<Rightarrow> bytes" where
  "view_bytes v = concat (map (to_bytes 4) v)"

fun bytes_ints :: "bytes \<Rightarrow> ints" where
  "bytes_ints (a # b # c # d # bs) = of_bytes [a, b, c, d] # bytes_ints bs"
| "bytes_ints bs = []"

lemma to_bytes_4: "to_bytes 4 x = [ucast x, ucast (drop_bit 8 x), ucast (drop_bit 8 (drop_bit 8 x)),
    ucast (drop_bit 8 (drop_bit 8 (drop_bit 8 x)))]"
  by (simp add: eval_nat_numeral)

lemma bytes_view [simp]: "bytes_ints (view_bytes v) = v"
proof (induction v)
  case (Cons x v)
  then show ?case using of_to_bytes_32 [of x] by (simp add: view_bytes_def to_bytes_4)
qed (simp add: view_bytes_def)

lemma length_view_bytes [simp]: "length (view_bytes v) = 4 * length v"
  by (induction v) (simp_all add: view_bytes_def)

section \<open>Sending\<close>

definition packet :: "ints \<Rightarrow> bytes" where
  "packet v = to_bytes 8 (of_nat (4 * length v) :: 64 word) @ view_bytes v"

definition serializeToPacket :: "addr \<Rightarrow> addr \<Rightarrow> addr \<Rightarrow> ints \<Rightarrow> bytes outcome" where
  "serializeToPacket base vsize vtotal m =
     (case serialize base vsize vtotal m of Inl e \<Rightarrow> Inl e | Inr v \<Rightarrow> Inr (packet v))"

section \<open>Receiving\<close>

text \<open>\<open>Socket::read\<close> of \<open>n\<close> bytes.\<close>

definition sock_read :: "nat \<Rightarrow> bytes \<Rightarrow> (bytes \<times> bytes) outcome" where
  "sock_read n bs = (if length bs < n then Inl NetworkError else Inr (take n bs, drop n bs))"

definition read_packet :: "bytes \<Rightarrow> (bytes \<times> bytes) outcome" where
  "read_packet bs =
     (case sock_read 8 bs of
        Inl e \<Rightarrow> Inl e
      | Inr (h, rest) \<Rightarrow>
          (case VERIFY ((of_bytes h :: 64 word) < 10 * 1024 * 1024) ''Invalid message size'' of
             Inl e \<Rightarrow> Inl e
           | Inr _ \<Rightarrow> sock_read (unat (of_bytes h :: 64 word)) rest))"

lemma read_packet_shorter: "read_packet bs = Inr (b, rest) \<Longrightarrow> length rest < length bs"
  by (auto simp: read_packet_def sock_read_def VERIFY_def split: sum.splits prod.splits if_splits)

text \<open>
  The loop over one connection. \<open>invoke m s\<close> is the call of the message at the start of the
  buffer \<open>m\<close>, \<open>base k\<close> the address of the buffer of packet \<open>k\<close>. The connection ends with an
  exception, of the read or of the message; the answer is that exception and the state, or
  \<open>None\<close> when the memory access of \<open>deserialize\<close> is undefined.
\<close>

function listen_loop ::
  "(nat \<Rightarrow> addr) \<Rightarrow> (ints \<Rightarrow> 's \<Rightarrow> unit outcome \<times> 's) \<Rightarrow> nat \<Rightarrow> bytes \<Rightarrow> 's \<Rightarrow> (exn \<times> 's) option" where
  "listen_loop base invoke k bs s =
     (case read_packet bs of
        Inl e \<Rightarrow> Some (e, s)
      | Inr (b, rest) \<Rightarrow>
          (case deserialize (base k) (length b mod 4) (bytes_ints b) of
             None \<Rightarrow> None
           | Some (Inl e) \<Rightarrow> Some (e, s)
           | Some (Inr m) \<Rightarrow>
               (case invoke m s of
                  (Inl e, s') \<Rightarrow> Some (e, s')
                | (Inr _, s') \<Rightarrow> listen_loop base invoke (Suc k) rest s')))"
  by pat_completeness auto
termination
  by (relation "measure (\<lambda>(base, invoke, k, bs, s). length bs)") (auto intro: read_packet_shorter)

declare listen_loop.simps [simp del]

section \<open>What arrives is what was sent\<close>

lemma read_packet_packet:
  assumes "4 * length v < 10 * 1024 * 1024"
  shows "read_packet (packet v @ rest) = Inr (view_bytes v, rest)"
proof -
  have u: "unat (of_nat (4 * length v) :: 64 word) = 4 * length v"
    using assms by (intro of_nat_inverse) simp_all
  have "(of_nat (4 * length v) :: 64 word) < 10 * 1024 * 1024"
    unfolding word_less_nat_alt u using assms by simp
  then show ?thesis
    by (simp add: read_packet_def packet_def sock_read_def of_to_bytes_64 u del: of_nat_mult)
qed

lemma read_packet_end: "read_packet [] = Inl NetworkError"
  by (simp add: read_packet_def sock_read_def)

text \<open>The messages \<open>ms\<close> called one after the other.\<close>

fun invoke_all :: "(ints \<Rightarrow> 's \<Rightarrow> unit outcome \<times> 's) \<Rightarrow> ints list \<Rightarrow> 's \<Rightarrow> exn \<times> 's" where
  "invoke_all invoke [] s = (NetworkError, s)"
| "invoke_all invoke (m # ms) s =
     (case invoke m s of (Inl e, s') \<Rightarrow> (e, s') | (Inr _, s') \<Rightarrow> invoke_all invoke ms s')"

text \<open>the packets written to a connection are called at the other end in the order they
  were sent, each once, until the connection ends or a message throws.\<close>

theorem packets_called_in_order:
  assumes "list_all (\<lambda>v. 4 * length v < 10 * 1024 * 1024) vs" and "length ms = length vs"
    and "\<And>j. j < length vs \<Longrightarrow> deserialize (base (k + j)) 0 (vs ! j) = Some (Inr (ms ! j))"
  shows "listen_loop base invoke k (concat (map packet vs)) s = Some (invoke_all invoke ms s)"
  using assms
proof (induction vs arbitrary: ms k s)
  case Nil
  then show ?case by (subst listen_loop.simps) (simp add: read_packet_end)
next
  case (Cons v vs)
  then obtain m ms' where ms: "ms = m # ms'" by (cases ms) auto
  have "deserialize (base k) 0 v = Some (Inr m)" using Cons.prems(3) [of 0] ms by simp
  moreover have "listen_loop base invoke (Suc k) (concat (map packet vs)) s' =
      Some (invoke_all invoke ms' s')" for s'
    using Cons.prems ms by (intro Cons.IH) (use Cons.prems(3) [of "Suc j" for j] in auto)
  ultimately show ?case using Cons.prems(1)
    by (subst listen_loop.simps)
      (simp add: read_packet_packet ms split: prod.split sum.split)
qed

lemma packets_called_in_order_witness:
  "listen_loop (\<lambda>_. 0x2000) (\<lambda>m s. (Inr (), s @ [m])) 0 (concat (map packet [[7, 0, 2], [16, 0, 0, 2]])) [] =
     Some (NetworkError, [[7, 0, 2], [0x2010, 0, 0, 2]])"
proof -
  let ?vs = "[[7, 0, 2], [16, 0, 0, 2 :: 32 word]]" and ?ms = "[[7, 0, 2], [0x2010, 0, 0, 2 :: 32 word]]"
  have 1: "list_all (\<lambda>v. 4 * length v < 10 * 1024 * 1024) ?vs" by simp
  have l: "length ?vs = 2" "length ?ms = 2" by simp_all
  have d: "deserialize 0x2000 0 [7, 0, 2] = Some (Inr [7, 0, 2])"
    "deserialize 0x2000 0 [16, 0, 0, 2] = Some (Inr [0x2010, 0, 0, 2])" by code_simp+
  have 2: "deserialize 0x2000 0 (?vs ! j) = Some (Inr (?ms ! j))" if "j < length ?vs" for j
  proof -
    have "j = 0 \<or> j = 1" using that unfolding l by linarith
    then show ?thesis using d by (elim disjE) simp_all
  qed
  show ?thesis
    by (subst packets_called_in_order [OF 1 _ 2]) (simp_all only: l, simp)
qed

end
