(* ===== verification/Nodes.thy ===== *)
theory Nodes
  imports Connector
begin

text \<open>
  The nodes of the cluster (\<open>src/node.cpp\<close>, \<open>include/synca/once/node.h\<close>): the configured
  membership (\<open>NodesConfig\<close>), the connections (\<open>Nodes\<close>), unique message numbers, and
  \<open>send\<close> and \<open>broadcast\<close>. Both tables are \<open>std::unordered_map\<close>s: association lists with
  distinct keys, whose order stands for the order in which the map is walked; the code
  promises nothing about that order and no theorem rests on it.
\<close>

section \<open>The membership\<close>

record nodes_config =
  cfg_this :: node_id
  cfg_nodes :: "(node_id \<times> endpoint) list"

definition addNode :: "node_id \<Rightarrow> endpoint \<Rightarrow> nodes_config \<Rightarrow> nodes_config" where
  "addNode i e c =
     (case map_of (cfg_nodes c) i of
        Some _ \<Rightarrow> c
      | None \<Rightarrow> c\<lparr>cfg_nodes := cfg_nodes c @ [(i, e)]\<rparr>)"

definition removeNode :: "node_id \<Rightarrow> nodes_config \<Rightarrow> bool \<times> nodes_config" where
  "removeNode i c =
     (map_of (cfg_nodes c) i \<noteq> None, c\<lparr>cfg_nodes := AList.delete i (cfg_nodes c)\<rparr>)"

definition getInfo :: "node_id \<Rightarrow> nodes_config \<Rightarrow> endpoint outcome" where
  "getInfo i c = (case map_of (cfg_nodes c) i of Some e \<Rightarrow> Inr e | None \<Rightarrow> Inl OutOfRange)"

definition cfg_ids :: "nodes_config \<Rightarrow> node_id list" where
  "cfg_ids c = map fst (cfg_nodes c)"

definition nodesSet :: "nodes_config \<Rightarrow> node_id set" where
  "nodesSet c = set (map fst (cfg_nodes c))"

definition nodesCount :: "nodes_config \<Rightarrow> nat" where
  "nodesCount c = length (cfg_nodes c)"

definition otherNodes :: "nodes_config \<Rightarrow> node_id list" where
  "otherNodes c = [n \<leftarrow> map fst (cfg_nodes c). n \<noteq> cfg_this c]"

definition setThisNode :: "node_id \<Rightarrow> nodes_config \<Rightarrow> nodes_config" where
  "setThisNode i c = c\<lparr>cfg_this := i\<rparr>"

definition thisNode :: "nodes_config \<Rightarrow> node_id" where
  "thisNode c = cfg_this c"

section \<open>The connections\<close>

text \<open>
  \<open>table\<close> is \<open>Nodes::nodes_\<close>: a null pointer is \<open>None\<close>. An entry stays in the table when
  its node is removed; only its connector is disconnected.
\<close>

record nodes =
  config :: nodes_config
  table :: "(node_id \<times> connector option) list"

definition nodes_count :: "nodes \<Rightarrow> nat" where
  "nodes_count ns = length (table ns)"

definition nodes_add :: "node_id \<Rightarrow> endpoint \<Rightarrow> nodes \<Rightarrow> nodes" where
  "nodes_add i e ns =
     ns\<lparr>config := addNode i e (config ns),
        table := AList.update i (Some (connector_new e)) (table ns)\<rparr>"

definition nodes_get :: "node_id \<Rightarrow> nodes \<Rightarrow> connector outcome" where
  "nodes_get i ns =
     (case map_of (table ns) i of
        None \<Rightarrow> Inl (NodeError ''Node is absent'')
      | Some None \<Rightarrow> Inl (NodeError ''Node has been disconnected'')
      | Some (Some c) \<Rightarrow> Inr c)"

definition nodes_remove :: "node_id \<Rightarrow> nodes \<Rightarrow> bool \<times> nodes" where
  "nodes_remove i ns =
     (case map_of (table ns) i of
        None \<Rightarrow> (False, ns)
      | Some None \<Rightarrow> (False, ns)
      | Some (Some c) \<Rightarrow>
          (case removeNode i (config ns) of
             (False, cfg) \<Rightarrow> (False, ns\<lparr>config := cfg\<rparr>)
           | (True, cfg) \<Rightarrow>
               (True, ns\<lparr>config := cfg,
                         table := AList.update i (Some (snd (connector_disconnect c))) (table ns)\<rparr>)))"

text \<open>\<open>cleanup\<close> disconnects and drops every connector; the lists of sockets it closed.\<close>

definition nodes_cleanup :: "nodes \<Rightarrow> node_id list \<times> nodes" where
  "nodes_cleanup ns =
     (map fst [p \<leftarrow> table ns. case snd p of None \<Rightarrow> False | Some c \<Rightarrow> fst (connector_disconnect c)],
      ns\<lparr>table := map (\<lambda>(i, c). (i, None)) (table ns)\<rparr>)"

text \<open>\<open>write\<close> of a connector is a parameter (\<open>connector_write\<close> on its socket).\<close>

definition nodes_send ::
  "(connector \<Rightarrow> 'v \<Rightarrow> 's \<Rightarrow> (unit outcome \<times> 's) option) \<Rightarrow> node_id \<Rightarrow> 'v \<Rightarrow> nodes \<Rightarrow> 's \<Rightarrow>
     (unit outcome \<times> 's) option" where
  "nodes_send write i v ns s =
     (case nodes_get i ns of Inl e \<Rightarrow> Some (Inl e, s) | Inr c \<Rightarrow> write c v s)"

section \<open>Messages\<close>

definition nextId :: "id64 \<Rightarrow> id64 \<times> id64" where
  "nextId counter = (counter, counter + 1)"

definition genUniqueId :: "nodes_config \<Rightarrow> id64 \<Rightarrow> msg_id \<times> id64" where
  "genUniqueId c counter = (let (i, counter') = nextId counter in ((thisNode c, i), counter'))"

text \<open>
  \<open>broadcast\<close> serializes once and starts one journey for every other node; each sends the
  packet to its node.
\<close>

definition broadcast :: "('m \<Rightarrow> 'v) \<Rightarrow> 'm \<Rightarrow> nodes_config \<Rightarrow> (node_id \<times> 'v) list" where
  "broadcast packet msg c = (let buf = packet msg in map (\<lambda>n. (n, buf)) (otherNodes c))"

section \<open>The invariant\<close>

text \<open>Every configured node has an entry; the keys of both tables are distinct.\<close>

definition nodes_inv :: "nodes \<Rightarrow> bool" where
  "nodes_inv ns \<longleftrightarrow>
     distinct (map fst (cfg_nodes (config ns))) \<and> distinct (map fst (table ns)) \<and>
     nodesSet (config ns) \<subseteq> set (map fst (table ns))"

definition nodes_start :: "nodes \<Rightarrow> bool" where
  "nodes_start ns \<longleftrightarrow> cfg_nodes (config ns) = [] \<and> table ns = []"

inductive nodes_step :: "nodes \<Rightarrow> nodes \<Rightarrow> bool" where
  "nodes_step ns (nodes_add i e ns)"
| "nodes_step ns (snd (nodes_remove i ns))"
| "nodes_step ns (snd (nodes_cleanup ns))"
| "nodes_step ns (ns\<lparr>config := setThisNode i (config ns)\<rparr>)"

lemma addNode_simps [simp]:
  "nodesSet (addNode i e c) = insert i (nodesSet c)"
  "distinct (map fst (cfg_nodes c)) \<Longrightarrow> distinct (map fst (cfg_nodes (addNode i e c)))"
  "cfg_this (addNode i e c) = cfg_this c"
  by (auto simp: addNode_def nodesSet_def map_of_eq_None_iff split: option.splits
      intro: rev_image_eqI dest: map_of_SomeD)

lemma removeNode_simps [simp]:
  "fst (removeNode i c) \<longleftrightarrow> i \<in> nodesSet c"
  "nodesSet (snd (removeNode i c)) = nodesSet c - {i}"
  "distinct (map fst (cfg_nodes c)) \<Longrightarrow> distinct (map fst (cfg_nodes (snd (removeNode i c))))"
  by (auto simp: removeNode_def nodesSet_def map_of_eq_None_iff delete_keys distinct_removeAll
      simp flip: set_map)

lemma removeNode_cases:
  obtains (absent) "i \<notin> nodesSet c" "removeNode i c = (False, snd (removeNode i c))"
  | (present) "i \<in> nodesSet c" "removeNode i c = (True, snd (removeNode i c))"
  using removeNode_simps(1) [of i c] by (cases "removeNode i c") auto

lemma nodes_remove_True:
  assumes "fst (nodes_remove i ns)"
  shows "\<exists>c. map_of (table ns) i = Some (Some c) \<and> i \<in> nodesSet (config ns) \<and>
    snd (nodes_remove i ns) = ns\<lparr>config := snd (removeNode i (config ns)),
       table := AList.update i (Some (snd (connector_disconnect c))) (table ns)\<rparr>"
  using assms
  by (cases i "config ns" rule: removeNode_cases)
    (auto simp: nodes_remove_def split: option.splits prod.splits bool.splits)

lemma nodes_remove_False:
  assumes "\<not> fst (nodes_remove i ns)"
  shows "table (snd (nodes_remove i ns)) = table ns"
    and "i \<notin> nodesSet (config ns) \<or> nodesSet (config (snd (nodes_remove i ns))) = nodesSet (config ns)"
  using assms
  by (cases i "config ns" rule: removeNode_cases;
      auto simp: nodes_remove_def split: option.splits prod.splits bool.splits)+

lemma nodes_remove_config:
  "config (snd (nodes_remove i ns)) = config ns \<or>
   config (snd (nodes_remove i ns)) = snd (removeNode i (config ns))"
  by (auto simp: nodes_remove_def split: option.splits prod.splits bool.splits)

lemma table_keys_update:
  "set (map fst (AList.update i c t)) = insert i (set (map fst t))"
  by (simp add: dom_update)

lemma nodes_step_inv: "nodes_step ns ns' \<Longrightarrow> nodes_inv ns \<Longrightarrow> nodes_inv ns'"
proof (induction rule: nodes_step.induct)
  case (1 ns i e)
  then show ?case
    by (auto simp: nodes_inv_def nodes_add_def table_keys_update distinct_update simp del: set_map)
next
  case (2 ns i)
  have "set (map fst (table (snd (nodes_remove i ns)))) = set (map fst (table ns)) \<and>
      distinct (map fst (table (snd (nodes_remove i ns))))"
  proof (cases "fst (nodes_remove i ns)")
    case True
    from nodes_remove_True [OF this] obtain c where "map_of (table ns) i = Some (Some c)"
      and "table (snd (nodes_remove i ns)) =
        AList.update i (Some (snd (connector_disconnect c))) (table ns)" by auto
    moreover from this(1) have "i \<in> set (map fst (table ns))"
      by (metis domI dom_map_of_conv_image_fst list.set_map)
    ultimately show ?thesis
      using 2 by (simp add: nodes_inv_def table_keys_update distinct_update insert_absorb del: set_map)
  next
    case False
    with nodes_remove_False 2 show ?thesis by (simp add: nodes_inv_def)
  qed
  with 2 nodes_remove_config [of i ns] show ?case by (auto simp: nodes_inv_def)
next
  case (3 ns)
  have "map fst (map (\<lambda>(i, c). (i, None :: connector option)) t) = map fst t" for t :: "(node_id \<times> connector option) list"
    by (induction t) auto
  with 3 show ?case by (simp add: nodes_inv_def nodes_cleanup_def del: map_map set_map)
next
  case (4 ns i)
  then show ?case by (simp add: nodes_inv_def setThisNode_def nodesSet_def)
qed

interpretation nodes: step_system nodes_start nodes_step nodes_inv
proof unfold_locales
  show "nodes_start s \<Longrightarrow> nodes_inv s" for s
    by (simp add: nodes_start_def nodes_inv_def nodesSet_def)
qed (rule nodes_step_inv)

section \<open>What the nodes promise\<close>

text \<open>\<open>broadcast\<close> starts exactly one journey for every configured node other than this
  one, each with the same packet, after any run of additions, removals and cleanups.\<close>

theorem broadcast_reaches_others:
  assumes "nodes_start ns0" and "nodes_step\<^sup>*\<^sup>* ns0 ns"
  shows "distinct (map fst (broadcast packet msg (config ns))) \<and>
    set (broadcast packet msg (config ns)) =
      (nodesSet (config ns) - {thisNode (config ns)}) \<times> {packet msg}"
proof -
  from nodes.inv_reachable [OF assms] have "distinct (map fst (cfg_nodes (config ns)))"
    by (simp add: nodes_inv_def)
  then show ?thesis
    by (auto simp: broadcast_def otherNodes_def nodesSet_def thisNode_def Let_def comp_def)
qed

definition nodes_of :: "node_id \<Rightarrow> (node_id \<times> endpoint) list \<Rightarrow> nodes" where
  "nodes_of this l = fold (\<lambda>(i, e). nodes_add i e) l \<lparr>config = \<lparr>cfg_this = this, cfg_nodes = []\<rparr>, table = []\<rparr>"

abbreviation port :: "16 word \<Rightarrow> endpoint" where
  "port p \<equiv> \<lparr>ep_port = p, ep_address = ''127.0.0.1'', ep_type = V4\<rparr>"

lemma nodes_of_reachable:
  "nodes_step\<^sup>*\<^sup>* \<lparr>config = \<lparr>cfg_this = this, cfg_nodes = []\<rparr>, table = []\<rparr> (nodes_of this l)"
  unfolding nodes_of_def
  by (induction l rule: rev_induct)
    (auto intro: rtranclp.rtrancl_into_rtrancl nodes_step.intros(1))

lemma broadcast_reaches_others_witness:
  "set (broadcast (\<lambda>m. m) 9 (config (nodes_of 1 [(1, port 8001), (2, port 8002), (3, port 8003)]))) =
     {(2, 9 :: nat), (3, 9)}"
proof -
  have "nodes_start \<lparr>config = \<lparr>cfg_this = 1, cfg_nodes = []\<rparr>, table = []\<rparr>"
    by (simp add: nodes_start_def)
  from broadcast_reaches_others [OF this nodes_of_reachable, of "\<lambda>m. m" "9 :: nat"
      "[(1, port 8001), (2, port 8002), (3, port 8003)]"]
  show ?thesis
    by (simp add: nodes_of_def nodes_add_def addNode_def nodesSet_def thisNode_def)
qed

text \<open>\<open>remove\<close> succeeds at most once for a node: when it does, the node leaves the
  membership, its connector is disconnected for good, no other node is touched, and the
  next \<open>remove\<close> of the same node answers false.\<close>

theorem remove_succeeds_once:
  assumes "nodes_remove i ns = (True, ns')"
  shows "i \<in> nodesSet (config ns) \<and> nodesSet (config ns') = nodesSet (config ns) - {i} \<and>
    (\<exists>c. nodes_get i ns' = Inr c \<and> c_disconnected c) \<and>
    (\<forall>j. j \<noteq> i \<longrightarrow> nodes_get j ns' = nodes_get j ns) \<and>
    fst (nodes_remove i ns') = False"
proof -
  from assms have "fst (nodes_remove i ns)" and ns': "ns' = snd (nodes_remove i ns)" by simp_all
  from nodes_remove_True [OF this(1)] obtain c where "i \<in> nodesSet (config ns)"
    and eq: "ns' = ns\<lparr>config := snd (removeNode i (config ns)),
       table := AList.update i (Some (snd (connector_disconnect c))) (table ns)\<rparr>"
    using ns' by auto
  moreover have "c_disconnected (snd (connector_disconnect c))"
    by (simp add: connector_disconnect_def)
  moreover have "\<not> fst (nodes_remove i ns')"
  proof
    assume "fst (nodes_remove i ns')"
    from nodes_remove_True [OF this] have "i \<in> nodesSet (config ns')" by blast
    then show False by (simp add: eq)
  qed
  ultimately show ?thesis
    by (auto simp: nodes_get_def update_conv')
qed

lemma remove_succeeds_once_witness:
  "fst (nodes_remove 2 (snd (nodes_remove 2 (nodes_of 1 [(1, port 8001), (2, port 8002)])))) = False"
proof -
  have "fst (nodes_remove 2 (nodes_of 1 [(1, port 8001), (2, port 8002)]))"
    by (simp add: nodes_remove_def nodes_of_def nodes_add_def addNode_def removeNode_def)
  then have "nodes_remove 2 (nodes_of 1 [(1, port 8001), (2, port 8002)]) =
      (True, snd (nodes_remove 2 (nodes_of 1 [(1, port 8001), (2, port 8002)])))"
    by (intro prod_eqI) simp_all
  from remove_succeeds_once [OF this] show ?thesis by blast
qed

text \<open>Taking \<open>n\<close> numbers in a row.\<close>

fun take_ids :: "nat \<Rightarrow> nodes_config \<Rightarrow> id64 \<Rightarrow> msg_id list" where
  "take_ids 0 c counter = []"
| "take_ids (Suc n) c counter =
     (let (i, counter') = genUniqueId c counter in i # take_ids n c counter')"

lemma take_ids_eq: "take_ids n c counter = map (\<lambda>k. (thisNode c, counter + of_nat k)) [0..<n]"
proof (induction n arbitrary: counter)
  case (Suc n)
  then show ?case
    by (simp add: genUniqueId_def nextId_def map_upt_Suc algebra_simps del: upt_Suc)
qed simp

text \<open>Message numbers are unique: up to \<open>2 ^ 64\<close> numbers taken on one node differ
  pairwise, and numbers of different nodes differ always.\<close>

theorem unique_ids_distinct:
  assumes "n \<le> 2 ^ 64"
  shows "distinct (take_ids n c counter) \<and>
    (thisNode c' \<noteq> thisNode c \<longrightarrow> set (take_ids n c counter) \<inter> set (take_ids m c' counter') = {})"
proof -
  have "inj_on (\<lambda>k. (thisNode c, counter + (of_nat k :: id64))) (set [0..<n])"
  proof (rule inj_onI)
    fix x y assume "x \<in> set [0..<n]" "y \<in> set [0..<n]"
      and eq: "(thisNode c, counter + (of_nat x :: id64)) = (thisNode c, counter + of_nat y)"
    then have "x < 2 ^ LENGTH(64)" "y < 2 ^ LENGTH(64)" using assms by simp_all
    then have "unat (of_nat x :: id64) = x" "unat (of_nat y :: id64) = y"
      by (metis of_nat_inverse)+
    moreover from eq have "(of_nat x :: id64) = of_nat y" by simp
    ultimately show "x = y" by metis
  qed
  then have "distinct (take_ids n c counter)"
    by (simp only: take_ids_eq distinct_map distinct_upt simp_thms)
  then show ?thesis by (auto simp: take_ids_eq)
qed

lemma unique_ids_distinct_witness:
  "distinct (take_ids 3 \<lparr>cfg_this = 1, cfg_nodes = []\<rparr> (- 1))"
  using unique_ids_distinct [of 3 "\<lparr>cfg_this = 1, cfg_nodes = []\<rparr>" "- 1"] by simp

text \<open>Adding a configured node again under another endpoint splits the tables: the
  membership keeps the old endpoint (\<open>insert\<close> does not overwrite) while the connection is
  replaced by one to the new endpoint.\<close>

theorem readd_keeps_old_endpoint:
  assumes "getInfo i (config ns) = Inr e"
  shows "getInfo i (config (nodes_add i e' ns)) = Inr e \<and>
    nodes_get i (nodes_add i e' ns) = Inr (connector_new e')"
  using assms
  by (auto simp: getInfo_def nodes_add_def addNode_def nodes_get_def update_conv' split: option.splits)

lemma readd_keeps_old_endpoint_witness:
  "getInfo 2 (config (nodes_add 2 (port 9) (nodes_of 1 [(2, port 8)]))) = Inr (port 8) \<and>
   nodes_get 2 (nodes_add 2 (port 9) (nodes_of 1 [(2, port 8)])) = Inr (connector_new (port 9))"
  by (rule readd_keeps_old_endpoint)
    (simp add: getInfo_def nodes_of_def nodes_add_def addNode_def)

end
