(* ===== verification/Phantom.thy ===== *)
theory Phantom
  imports Replob_Prelude
begin

text \<open>
  The registry of replicated objects (\<open>include/synca/once/phantom.h\<close>): one object per step
  of the agreement, made when the step is first mentioned, and completed strictly in the
  order of the steps. The object type and what \<open>onComplete\<close> does are arguments: \<open>hook\<close>
  takes the object and the state of the world to the object afterwards, its \<open>completed_\<close>
  flag afterwards (\<open>onComplete\<close> may call \<open>uncomplete\<close>), and the world.
\<close>

section \<open>The registry\<close>

record 'o with_phantom =
  wp_obj :: 'o
  wp_step :: step_id
  wp_completed :: bool

record 'o phantoms =
  next_step :: step_id
  cur_step :: step_id
  steps :: "step_id \<rightharpoonup> 'o with_phantom"

type_synonym ('o, 's) hook = "'o with_phantom \<Rightarrow> 's \<Rightarrow> 'o \<times> bool \<times> 's"

definition phantoms_new :: "'o phantoms" where
  "phantoms_new = \<lparr>next_step = 0, cur_step = 0, steps = Map.empty\<rparr>"

definition tryComplete :: "('o, 's) hook \<Rightarrow> 'o with_phantom \<Rightarrow> 's \<Rightarrow> bool \<times> 'o with_phantom \<times> 's" where
  "tryComplete hook w s =
     (if \<not> wp_completed w then (False, w, s)
      else let (obj, c, s') = hook w s in (c, w\<lparr>wp_obj := obj, wp_completed := c\<rparr>, s'))"

text \<open>\<open>getPtr\<close> makes the object when the step is new; \<open>None\<close> is the null pointer.\<close>

definition getPtr ::
  "'o \<Rightarrow> step_id \<Rightarrow> 'o phantoms \<Rightarrow> 'o with_phantom option \<times> 'o phantoms" where
  "getPtr fresh stepId r =
     (if stepId < cur_step r then (None, r)
      else let w0 = (case steps r stepId of
                       Some w \<Rightarrow> w
                     | None \<Rightarrow> \<lparr>wp_obj = fresh, wp_step = 0, wp_completed = False\<rparr>);
               w = w0\<lparr>wp_step := stepId\<rparr>
           in (Some w, r\<lparr>steps := (steps r)(stepId \<mapsto> w),
                         next_step := if next_step r \<le> stepId then stepId + 1 else next_step r\<rparr>))"

definition get :: "'o \<Rightarrow> step_id \<Rightarrow> 'o phantoms \<Rightarrow> 'o with_phantom outcome \<times> 'o phantoms" where
  "get fresh stepId r =
     (case getPtr fresh stepId r of
        (None, r') \<Rightarrow> (Inl (Verification ''Invalid step id''), r')
      | (Some w, r') \<Rightarrow> (Inr w, r'))"

definition create :: "'o \<Rightarrow> 'o phantoms \<Rightarrow> 'o with_phantom outcome \<times> 'o phantoms" where
  "create fresh r = get fresh (next_step r) (r\<lparr>next_step := next_step r + 1\<rparr>)"

text \<open>The loop of \<open>complete\<close>, from a step that was just reached.\<close>

function process_steps :: "('o, 's) hook \<Rightarrow> 'o phantoms \<Rightarrow> 's \<Rightarrow> 'o phantoms \<times> 's" where
  "process_steps hook r s =
     (if cur_step r < next_step r
      then case steps r (cur_step r) of
             None \<Rightarrow> (r, s)
           | Some w \<Rightarrow>
               (case tryComplete hook w s of
                  (False, w', s') \<Rightarrow> (r\<lparr>steps := (steps r)(cur_step r \<mapsto> w')\<rparr>, s')
                | (True, w', s') \<Rightarrow>
                    process_steps hook
                      (r\<lparr>steps := (steps r)(cur_step r := None), cur_step := cur_step r + 1\<rparr>) s')
      else (r, s))"
  by auto
termination
proof (relation "measure (\<lambda>(hook, r, s). unat (next_step r) - unat (cur_step r))")
  fix hook :: "('o, 's) hook" and r :: "'o phantoms"
  assume less: "cur_step r < next_step r"
  then have "cur_step r \<noteq> - 1" by (metis word_not_simps(3))
  then have "unat (cur_step r + 1) = Suc (unat (cur_step r))" by (rule unat_Suc_not_max)
  with less show "((hook, r\<lparr>steps := (steps r)(cur_step r := None), cur_step := cur_step r + 1\<rparr>, s'), hook, r, s)
      \<in> measure (\<lambda>(hook, r, s). unat (next_step r) - unat (cur_step r))" for s s'
    by (simp add: word_less_nat_alt)
qed simp

declare process_steps.simps [simp del]

text \<open>\<open>Phantom::complete\<close> of the object of a step, and \<open>WithPhantom::complete\<close>.\<close>

definition registry_complete ::
  "('o, 's) hook \<Rightarrow> step_id \<Rightarrow> 'o phantoms \<Rightarrow> 's \<Rightarrow> 'o phantoms \<times> 's" where
  "registry_complete hook i r s =
     (case steps r i of
        None \<Rightarrow> (r, s)
      | Some p \<Rightarrow>
          if wp_step p \<noteq> cur_step r then (r, s)
          else case tryComplete hook p s of
                 (False, p', s') \<Rightarrow> (r\<lparr>steps := (steps r)(i \<mapsto> p')\<rparr>, s')
               | (True, p', s') \<Rightarrow>
                   process_steps hook
                     (r\<lparr>steps := (steps r)(cur_step r := None), cur_step := cur_step r + 1\<rparr>) s')"

definition with_complete ::
  "('o, 's) hook \<Rightarrow> step_id \<Rightarrow> 'o phantoms \<Rightarrow> 's \<Rightarrow> 'o phantoms \<times> 's" where
  "with_complete hook i r s =
     registry_complete hook i
       (r\<lparr>steps := (steps r)(i := map_option (\<lambda>w. w\<lparr>wp_completed := True\<rparr>) (steps r i))\<rparr>) s"

definition with_uncomplete :: "step_id \<Rightarrow> 'o phantoms \<Rightarrow> 'o phantoms" where
  "with_uncomplete i r =
     r\<lparr>steps := (steps r)(i := map_option (\<lambda>w. w\<lparr>wp_completed := False\<rparr>) (steps r i))\<rparr>"

definition phantoms_cleanup :: "'o phantoms \<Rightarrow> 'o phantoms" where
  "phantoms_cleanup r = r\<lparr>steps := Map.empty, cur_step := - 1\<rparr>"

text \<open>
  A call on a phantom that arrived from another node (\<open>BasePhantom::call\<close> in
  \<open>broadcast.h\<close>): the method runs on the object of the step, or not at all.
\<close>

definition phantom_call ::
  "'o \<Rightarrow> step_id \<Rightarrow> ('o \<Rightarrow> 'o \<times> 'e list) \<Rightarrow> 'o phantoms \<Rightarrow> 'e list \<times> 'o phantoms" where
  "phantom_call fresh i f r =
     (case getPtr fresh i r of
        (None, r') \<Rightarrow> ([], r')
      | (Some w, r') \<Rightarrow>
          (let (obj, es) = f (wp_obj w)
           in (es, r'\<lparr>steps := (steps r')(i \<mapsto> w\<lparr>wp_obj := obj\<rparr>)\<rparr>)))"

section \<open>Completion in order\<close>

text \<open>
  What a client of the registry provides: a hook that never takes a completion back and
  that appends one entry to a log, the result of the object it completes.
\<close>

locale phantom_client =
  fixes hook :: "('o, 's) hook"
    and log :: "'s \<Rightarrow> 'r list"
    and result :: "'o with_phantom \<Rightarrow> 'r"
  assumes hook_completes: "wp_completed w \<Longrightarrow> hook w s = (obj, c, s') \<Longrightarrow> c"
    and hook_logs: "wp_completed w \<Longrightarrow> hook w s = (obj, c, s') \<Longrightarrow> log s' = log s @ [result w]"
    and result_completed: "result (w\<lparr>wp_completed := b\<rparr>) = result w"

definition phantoms_wf :: "'o phantoms \<Rightarrow> 'r list \<Rightarrow> bool" where
  "phantoms_wf r l \<longleftrightarrow>
     length l = unat (cur_step r) \<and> cur_step r \<le> next_step r \<and>
     (\<forall>k w. steps r k = Some w \<longrightarrow> wp_step w = k \<and> cur_step r \<le> k \<and> k < next_step r)"

text \<open>Between operations the object of the current step, if there is one, is not completed.\<close>

definition phantoms_idle :: "'o phantoms \<Rightarrow> bool" where
  "phantoms_idle r \<longleftrightarrow> (\<forall>w. steps r (cur_step r) = Some w \<longrightarrow> \<not> wp_completed w)"

text \<open>The outcome of a step: in the log when it is past, else in its completed object.\<close>

definition outcome_of ::
  "('o with_phantom \<Rightarrow> 'r) \<Rightarrow> 'o phantoms \<Rightarrow> 'r list \<Rightarrow> step_id \<Rightarrow> 'r option" where
  "outcome_of result r l k =
     (if k < cur_step r then Some (l ! unat k)
      else case steps r k of
             Some w \<Rightarrow> if wp_completed w then Some (result w) else None
           | None \<Rightarrow> None)"

lemma wf_below: "phantoms_wf r l \<Longrightarrow> k < cur_step r \<Longrightarrow> steps r k = None"
  by (cases "steps r k") (fastforce simp: phantoms_wf_def dest: leD)+

lemma wp_step_idem: "wp_step w = i \<Longrightarrow> w\<lparr>wp_step := i\<rparr> = w"
  by auto

context phantom_client
begin

lemma tryComplete_cases:
  obtains (no) "\<not> wp_completed w" "tryComplete hook w s = (False, w, s)"
  | (yes) w' s' where "wp_completed w" "tryComplete hook w s = (True, w', s')"
      "log s' = log s @ [result w]"
proof (cases "hook w s")
  case (fields obj c s')
  show ?thesis
  proof (cases "wp_completed w")
    case True
    with fields have "c" and "log s' = log s @ [result w]"
      by (blast intro: hook_completes, blast intro: hook_logs)
    show ?thesis
      by (rule yes [of "w\<lparr>wp_obj := obj, wp_completed := c\<rparr>" s'])
        (use True fields \<open>c\<close> \<open>log s' = log s @ [result w]\<close> in \<open>simp_all add: tryComplete_def\<close>)
  next
    case False
    then show ?thesis by (rule no) (simp add: tryComplete_def False)
  qed
qed

lemma outcome_of_advance:
  assumes wf: "phantoms_wf r (log s)" and less: "cur_step r < next_step r"
    and w: "steps r (cur_step r) = Some w" "wp_completed w" and l: "log s' = log s @ [result w]"
  defines "r' \<equiv> r\<lparr>steps := (steps r)(cur_step r := None), cur_step := cur_step r + 1\<rparr>"
  shows "phantoms_wf r' (log s')"
    and "outcome_of result r' (log s') = outcome_of result r (log s)"
proof -
  have "cur_step r \<noteq> - 1" using less by (metis word_not_simps(3))
  note suc = unat_Suc_not_max [OF this] word_less_Suc_not_max [OF this]
  have "cur_step r + 1 \<le> k" if "cur_step r \<le> k" "k \<noteq> cur_step r" for k
    using that suc(1) by (simp add: word_le_nat_alt) (metis Suc_leI le_neq_implies_less word_unat_eq_iff)
  with wf less suc l show "phantoms_wf r' (log s')"
    by (auto simp: phantoms_wf_def r'_def)
  have len: "length (log s) = unat (cur_step r)" using wf by (simp add: phantoms_wf_def)
  show "outcome_of result r' (log s') = outcome_of result r (log s)"
  proof
    fix k
    consider "k < cur_step r" | "k = cur_step r" | "cur_step r < k" by fastforce
    then show "outcome_of result r' (log s') k = outcome_of result r (log s) k"
    proof cases
      case 1
      then have "k < cur_step r + 1" and "unat k < unat (cur_step r)"
        by (simp_all add: suc(2) word_less_nat_alt [symmetric])
      with 1 len l show ?thesis
        by (simp add: outcome_of_def r'_def nth_append)
    next
      case 2
      with len l suc(2) w show ?thesis
        by (simp add: outcome_of_def r'_def nth_append)
    next
      case 3
      then have "\<not> k < cur_step r + 1" "k \<noteq> cur_step r" "\<not> k < cur_step r"
        unfolding suc(2) by (auto simp: not_le not_less)
      then show ?thesis by (simp add: outcome_of_def r'_def)
    qed
  qed
qed

lemma process_steps_spec:
  assumes "phantoms_wf r (log s)" and "process_steps hook r s = (r', s')"
  shows "phantoms_wf r' (log s') \<and> phantoms_idle r' \<and>
    outcome_of result r' (log s') = outcome_of result r (log s) \<and>
    next_step r' = next_step r \<and> cur_step r \<le> cur_step r' \<and>
    (\<forall>k. steps r' k = (if k < cur_step r' then None else steps r k))"
  using assms
proof (induction "unat (next_step r) - unat (cur_step r)" arbitrary: r s rule: less_induct)
  case less
  show ?case
  proof (cases "cur_step r < next_step r")
    case False
    with less.prems have "r' = r" "s' = s"
      by (simp_all add: process_steps.simps [of hook r s])
    with less.prems(1) False wf_below [OF less.prems(1)] show ?thesis
      by (auto simp: phantoms_wf_def phantoms_idle_def)
  next
    case True
    show ?thesis
    proof (cases "steps r (cur_step r)")
      case None
      with True less.prems have "r' = r" "s' = s"
        by (simp_all add: process_steps.simps [of hook r s])
      with less.prems(1) None wf_below [OF less.prems(1)] show ?thesis
        by (auto simp: phantoms_wf_def phantoms_idle_def)
    next
      case (Some w)
      show ?thesis
      proof (cases w s rule: tryComplete_cases)
        case no
        with True Some less.prems have "r' = r" "s' = s"
          by (simp_all add: process_steps.simps [of hook r s] fun_upd_idem)
        with less.prems(1) Some no wf_below [OF less.prems(1)] show ?thesis
          by (auto simp: phantoms_wf_def phantoms_idle_def)
      next
        case (yes w' s1)
        let ?r = "r\<lparr>steps := (steps r)(cur_step r := None), cur_step := cur_step r + 1\<rparr>"
        have "cur_step r \<noteq> - 1" using True by (metis word_not_simps(3))
        note suc = unat_Suc_not_max [OF this] word_less_Suc_not_max [OF this]
        note adv = outcome_of_advance [OF less.prems(1) True Some yes(1,3)]
        have "process_steps hook ?r s1 = (r', s')"
          using less.prems(2) True Some yes(2) by (simp add: process_steps.simps [of hook r s])
        with less.hyps [of ?r s1] adv(1) True suc(1)
        have ih: "phantoms_wf r' (log s') \<and> phantoms_idle r' \<and>
            outcome_of result r' (log s') = outcome_of result ?r (log s1) \<and>
            next_step r' = next_step ?r \<and> cur_step ?r \<le> cur_step r' \<and>
            (\<forall>k. steps r' k = (if k < cur_step r' then None else steps ?r k))"
          by (simp add: word_less_nat_alt)
        have "cur_step r < cur_step r + 1" using suc(2) by simp
        moreover have "cur_step r + 1 \<le> cur_step r'" using ih by simp
        ultimately have "cur_step r < cur_step r'" by (rule order.strict_trans2)
        with ih adv(2) show ?thesis by auto
      qed
    qed
  qed
qed

text \<open>Completing the object of a step fixes its outcome and that of no other step.\<close>

lemma with_complete_spec:
  assumes wf: "phantoms_wf r (log s)" and "phantoms_idle r" and w: "steps r i = Some w"
    and step: "with_complete hook i r s = (r', s')"
  shows "phantoms_wf r' (log s') \<and> phantoms_idle r' \<and>
    outcome_of result r' (log s') = (outcome_of result r (log s))(i := Some (result w)) \<and>
    next_step r' = next_step r \<and> cur_step r \<le> cur_step r' \<and>
    (\<forall>k. k \<noteq> i \<longrightarrow> steps r' k = (if k < cur_step r' then None else steps r k)) \<and>
    steps r' i = (if i < cur_step r' then None else Some (w\<lparr>wp_completed := True\<rparr>))"
proof -
  let ?w = "w\<lparr>wp_completed := True\<rparr>"
  let ?r = "r\<lparr>steps := (steps r)(i \<mapsto> ?w)\<rparr>"
  have i: "wp_step w = i" "cur_step r \<le> i" "i < next_step r"
    using wf w by (auto simp: phantoms_wf_def)
  have rc: "registry_complete hook i ?r s = (r', s')"
    using step w by (simp add: with_complete_def)
  have wf': "phantoms_wf ?r (log s)" using wf i by (auto simp: phantoms_wf_def)
  have out: "outcome_of result ?r (log s) = (outcome_of result r (log s))(i := Some (result w))"
    using i by (auto simp: outcome_of_def result_completed fun_eq_iff)
  show ?thesis
  proof (cases "i = cur_step r")
    case False
    with rc i have eq: "r' = ?r" "s' = s" by (simp_all add: registry_complete_def)
    from wf_below [OF wf] assms(2) wf' out False i show ?thesis
      unfolding eq by (auto simp: phantoms_idle_def)
  next
    case True
    show ?thesis
    proof (cases ?w s rule: tryComplete_cases)
      case no
      then show ?thesis by simp
    next
      case (yes w' s1)
      let ?r1 = "?r\<lparr>steps := (steps ?r)(cur_step ?r := None), cur_step := cur_step ?r + 1\<rparr>"
      have less: "cur_step ?r < next_step ?r" using i True by simp
      have "cur_step r \<noteq> - 1" using i True by (metis word_not_simps(3))
      note suc = word_less_Suc_not_max [OF this]
      have "steps ?r (cur_step ?r) = Some ?w" using True by simp
      note adv = outcome_of_advance [OF wf' less this yes(1,3)]
      have "process_steps hook ?r1 s1 = (r', s')"
        using rc i yes(2) True by (simp add: registry_complete_def)
      note ps = process_steps_spec [OF adv(1) this]
      have "cur_step r < cur_step r + 1" using suc by simp
      moreover have "cur_step r + 1 \<le> cur_step r'" using ps by simp
      ultimately have "cur_step r < cur_step r'" by (rule order.strict_trans2)
      with ps adv(2) out True show ?thesis by auto
    qed
  qed
qed

text \<open>Mentioning a step changes no outcome.\<close>

lemma getPtr_spec:
  assumes wf: "phantoms_wf r l" and idle: "phantoms_idle r" and "i \<noteq> - 1"
    and g: "getPtr fresh i r = (wo, r')"
  shows "phantoms_wf r' l \<and> phantoms_idle r' \<and> outcome_of result r' l = outcome_of result r l \<and>
    cur_step r' = cur_step r \<and> next_step r \<le> next_step r' \<and>
    (if i < cur_step r then wo = None \<and> r' = r
     else (\<exists>w. wo = Some w \<and> steps r' = (steps r)(i \<mapsto> w) \<and>
           (steps r i = Some w \<or> steps r i = None \<and>
             w = \<lparr>wp_obj = fresh, wp_step = i, wp_completed = False\<rparr>)))"
proof (cases "i < cur_step r")
  case True
  with assms show ?thesis by (auto simp: getPtr_def)
next
  case False
  note less = word_less_Suc_not_max [OF \<open>i \<noteq> - 1\<close>]
  define w where "w = (case steps r i of Some w \<Rightarrow> w
      | None \<Rightarrow> \<lparr>wp_obj = fresh, wp_step = 0, wp_completed = False\<rparr>)\<lparr>wp_step := i\<rparr>"
  have w: "wo = Some w" "wp_step w = i"
    and r': "r' = r\<lparr>steps := (steps r)(i \<mapsto> w), next_step := if next_step r \<le> i then i + 1 else next_step r\<rparr>"
    using g False by (auto simp: getPtr_def Let_def w_def)
  have old: "steps r i = Some w \<or> steps r i = None \<and>
             w = \<lparr>wp_obj = fresh, wp_step = i, wp_completed = False\<rparr>"
    using wf by (cases "steps r i") (auto simp: w_def phantoms_wf_def wp_step_idem)
  have "i < i + 1" using less by simp
  then have more: "next_step r \<le> next_step r'" and i: "i < next_step r'"
    by (auto simp: r' not_le)
  have "phantoms_wf r' l"
  proof -
    have "cur_step r' = cur_step r" "length l = unat (cur_step r)" "cur_step r \<le> next_step r'"
      using wf more by (auto simp: r' phantoms_wf_def)
    moreover have "wp_step v = k \<and> cur_step r \<le> k \<and> k < next_step r'"
      if "steps r' k = Some v" for k v
    proof (cases "k = i")
      case True
      with that False w i show ?thesis by (simp add: r')
    next
      case False
      with that have "steps r k = Some v" by (simp add: r')
      with wf have "wp_step v = k" "cur_step r \<le> k" "k < next_step r"
        by (auto simp: phantoms_wf_def)
      with more show ?thesis by simp
    qed
    ultimately show ?thesis by (simp add: phantoms_wf_def)
  qed
  moreover have "phantoms_idle r'"
    using idle old by (auto simp: phantoms_idle_def r')
  moreover have "outcome_of result r' l = outcome_of result r l"
    using old by (auto simp: outcome_of_def fun_eq_iff r')
  moreover have "cur_step r' = cur_step r" and "steps r' = (steps r)(i \<mapsto> w)"
    by (simp_all add: r')
  ultimately show ?thesis using False w(1) old more by simp
qed

end

end
