(* ===== verification/Voting.thy ===== *)
theory Voting
  imports Nodes Phantom
begin

text \<open>
  The agreement on one step (\<open>Voting\<close> in \<open>include/synca/once/replob.h\<close>): nodes announce
  what they carry and whom they believe alive; when everybody in a node's membership has
  voted it commits the union. A handler returns what it does besides: calls it broadcasts
  to the other nodes, the completion of its step, or the shutdown of the node.
\<close>

section \<open>Carried messages\<close>

record 'm carry_msg =
  cm_msg :: 'm
  cm_id :: msg_id

text \<open>\<open>std::set<CarryMsg2>\<close>, ordered by message number; \<open>insert\<close> keeps what is there.\<close>

type_synonym 'm carry_set = "'m carry_msg list"

fun carry_insert :: "'m carry_msg \<Rightarrow> 'm carry_set \<Rightarrow> 'm carry_set" where
  "carry_insert m [] = [m]"
| "carry_insert m (x # xs) =
     (if cm_id m < cm_id x then m # x # xs
      else if cm_id m = cm_id x then x # xs
      else x # carry_insert m xs)"

definition carry_union :: "'m carry_set \<Rightarrow> 'm carry_set \<Rightarrow> 'm carry_set" where
  "carry_union s t = fold carry_insert t s"

text \<open>\<open>operator &=\<close> of \<open>std::set\<close>, element by element as the code builds it.\<close>

definition set_restrict :: "node_id set \<Rightarrow> node_id set \<Rightarrow> node_id set" where
  "set_restrict s t = {e \<in> s. e \<in> t}"

section \<open>The object of a step\<close>

datatype vstate = VInitial | VVoted | VCompleted

record 'm voting =
  v_state :: vstate
  v_nodes :: "node_id set"
  v_voted :: "node_id set"
  v_carries :: "'m carry_set"
  v_timer :: bool

definition voting_new :: "'m voting" where
  "voting_new = \<lparr>v_state = VInitial, v_nodes = {}, v_voted = {}, v_carries = [], v_timer = False\<rparr>"

datatype 'm effect =
    BroadcastVote "'m carry_set" node_id "node_id set"
  | BroadcastCommit "'m carry_set"
  | CompleteStep
  | CleanupAll

definition voting_commit :: "'m carry_set \<Rightarrow> 'm voting \<Rightarrow> 'm voting \<times> 'm effect list" where
  "voting_commit carrySet v =
     (if v_state v = VCompleted then (v, [])
      else let v1 = v\<lparr>v_state := VCompleted, v_carries := carrySet\<rparr>
           in (v1, [BroadcastCommit (v_carries v1), CompleteStep]))"

text \<open>
  The set of nodes is passed by reference. On a timeout it is the object's own \<open>voted_\<close>, so
  what it denotes changes while \<open>vote\<close> runs: it is read where the code reads it.
\<close>

datatype nodes_ref = ByValue "node_id set" | RefVoted

fun deref :: "nodes_ref \<Rightarrow> 'm voting \<Rightarrow> node_id set" where
  "deref (ByValue s) v = s"
| "deref RefVoted v = v_voted v"

definition voting_vote ::
  "node_id \<Rightarrow> 'm carry_set \<Rightarrow> node_id \<Rightarrow> nodes_ref \<Rightarrow> 'm voting \<Rightarrow> 'm voting \<times> 'm effect list" where
  "voting_vote this carrySet src ref v =
     (if v_state v = VCompleted then (v, [])
      else
        let v1 = v\<lparr>v_carries := carry_union (v_carries v) carrySet\<rparr>;
            v2 = (if v_nodes v1 = {} then v1\<lparr>v_nodes := deref ref v1\<rparr>
                  else if v_nodes v1 \<noteq> deref ref v1
                  then let a = v1\<lparr>v_state := VInitial\<rparr>;
                           b = a\<lparr>v_nodes := set_restrict (v_nodes a) (deref ref a)\<rparr>
                       in b\<lparr>v_voted := {}\<rparr>
                  else v1);
            v3 = v2\<lparr>v_voted := insert src (v_voted v2)\<rparr>;
            v4 = v3\<lparr>v_voted := insert this (v_voted v3)\<rparr>
        in if v_voted v4 = v_nodes v4 then voting_commit (v_carries v4) v4
           else if v_state v4 = VInitial
           then let v5 = v4\<lparr>v_state := VVoted\<rparr>
                in (v5, [BroadcastVote (v_carries v5) this (v_nodes v5)])
           else (v4, []))"

definition voting_start ::
  "node_id \<Rightarrow> 'm carry_msg \<Rightarrow> node_id set \<Rightarrow> 'm voting \<Rightarrow> 'm voting \<times> 'm effect list" where
  "voting_start this carryMsg configured v =
     voting_vote this [carryMsg] this (ByValue configured) (v\<lparr>v_timer := True\<rparr>)"

text \<open>\<open>*begin()\<close> of an ordered set is its minimum; sizes are compared doubled.\<close>

definition isConsistent :: "'m voting \<Rightarrow> bool" where
  "isConsistent v =
     (if card (v_voted v) * 2 > card (v_nodes v) then True
      else if card (v_voted v) * 2 < card (v_nodes v) then False
      else Min (v_voted v) = Min (v_nodes v))"

definition voting_fail :: "'m voting \<Rightarrow> 'm voting \<times> 'm effect list" where
  "voting_fail v = (v, [CleanupAll])"

definition voting_timeout :: "node_id \<Rightarrow> 'm voting \<Rightarrow> 'm voting \<times> 'm effect list" where
  "voting_timeout this v =
     (if isConsistent v then voting_vote this (v_carries v) this RefVoted v else voting_fail v)"

definition voting_exec :: "'m voting \<Rightarrow> 'm list" where
  "voting_exec v = map cm_msg (v_carries v)"

text \<open>\<open>onComplete\<close> runs the carried messages: the world records them with their step.\<close>

definition voting_onComplete ::
  "('m voting, (step_id \<times> 'm carry_set) list) hook" where
  "voting_onComplete w s =
     (let v = (wp_obj w)\<lparr>v_timer := False\<rparr> in (v, wp_completed w, s @ [(wp_step w, v_carries v)]))"

section \<open>Sets of carried messages\<close>

abbreviation carry_ids :: "'m carry_set \<Rightarrow> msg_id list" where "carry_ids s \<equiv> map cm_id s"

lemma carry_insert_ids: "set (carry_ids (carry_insert m s)) = insert (cm_id m) (set (carry_ids s))"
  by (induction s) auto

lemma carry_insert_sorted:
  "sorted_wrt (<) (carry_ids s) \<Longrightarrow> sorted_wrt (<) (carry_ids (carry_insert m s))"
proof (induction s)
  case (Cons x s)
  have ids: "set (carry_ids (carry_insert m s)) = insert (cm_id m) (set (carry_ids s))"
    by (rule carry_insert_ids)
  from Cons show ?case
  proof (cases "cm_id m < cm_id x")
    case True
    with Cons.prems show ?thesis by (auto intro: order.strict_trans)
  next
    case False
    with Cons ids show ?thesis
      by (auto simp: not_less simp flip: set_map)
  qed
qed simp

lemma carry_insert_set:
  assumes "\<And>x. x \<in> set s \<Longrightarrow> cm_id x = cm_id m \<Longrightarrow> x = m"
  shows "set (carry_insert m s) = insert m (set s)"
  using assms
proof (induction s)
  case (Cons a s)
  from Cons.prems [of a] have "cm_id m = cm_id a \<Longrightarrow> m = a" by auto
  moreover from Cons have "set (carry_insert m s) = insert m (set s)" by auto
  ultimately show ?case by auto
qed simp

lemma carry_union_sorted:
  "sorted_wrt (<) (carry_ids s) \<Longrightarrow> sorted_wrt (<) (carry_ids (carry_union s t))"
  unfolding carry_union_def
  by (induction t arbitrary: s) (simp_all add: carry_insert_sorted)

text \<open>Messages with one number are one message.\<close>

definition same_id_same_msg :: "'m carry_msg set \<Rightarrow> bool" where
  "same_id_same_msg A \<longleftrightarrow> (\<forall>x \<in> A. \<forall>y \<in> A. cm_id x = cm_id y \<longrightarrow> x = y)"

lemma carry_union_set:
  assumes "same_id_same_msg (set s \<union> set t)"
  shows "set (carry_union s t) = set s \<union> set t"
  using assms unfolding carry_union_def
proof (induction t arbitrary: s)
  case (Cons m t)
  then have "set (carry_insert m s) = insert m (set s)"
    by (intro carry_insert_set) (auto simp: same_id_same_msg_def)
  with Cons.IH [of "carry_insert m s"] Cons.prems show ?case by (simp add: same_id_same_msg_def)
qed simp

lemma carry_insert_absorb:
  "sorted_wrt (<) (carry_ids s) \<Longrightarrow> m \<in> set s \<Longrightarrow> carry_insert m s = s"
  by (induction s) auto

lemma carry_union_absorb:
  "set t \<subseteq> set s \<Longrightarrow> sorted_wrt (<) (carry_ids s) \<Longrightarrow> carry_union s t = s"
  unfolding carry_union_def by (induction t) (simp_all add: carry_insert_absorb)

text \<open>The list of an ordered set is determined by its members.\<close>

lemma sorted_carries_eq:
  assumes "sorted_wrt (<) (carry_ids s)" and "sorted_wrt (<) (carry_ids t)" and "set s = set t"
  shows "s = t"
  using assms
proof (induction s arbitrary: t)
  case (Cons x s)
  then obtain y t' where t: "t = y # t'" by (cases t) auto
  have "x = y"
  proof (rule ccontr)
    assume "x \<noteq> y"
    with Cons.prems t have "x \<in> set t'" and "y \<in> set s" by auto
    with Cons.prems(1,2) t have "cm_id y < cm_id x" and "cm_id x < cm_id y" by auto
    then show False by simp
  qed
  moreover have "x \<notin> set s" and "y \<notin> set t'"
    using Cons.prems(1,2) t by auto
  ultimately have "set s = set t'" using Cons.prems(3) t by auto
  with Cons t \<open>x = y\<close> show ?case by simp
qed simp

section \<open>What a handler can do\<close>

text \<open>
  A handler leaves a completed object alone; otherwise it either keeps the step open, or
  completes it, announcing exactly what it completed it with.
\<close>

definition opens :: "'m effect list \<Rightarrow> bool" where
  "opens es \<longleftrightarrow> CompleteStep \<notin> set es \<and> (\<forall>C. BroadcastCommit C \<notin> set es)"

definition voting_moves :: "'m voting \<Rightarrow> 'm voting \<times> 'm effect list \<Rightarrow> bool" where
  "voting_moves v r \<longleftrightarrow>
     (if v_state v = VCompleted then fst r = v \<and> set (snd r) \<subseteq> {CleanupAll}
      else if v_state (fst r) = VCompleted
      then snd r = [BroadcastCommit (v_carries (fst r)), CompleteStep]
      else opens (snd r))"

lemma voting_commit_moves: "voting_moves v (voting_commit C v)"
  by (simp add: voting_moves_def voting_commit_def opens_def Let_def)

lemma voting_vote_moves: "voting_moves v (voting_vote this C src ref v)"
  by (simp add: voting_moves_def voting_vote_def voting_commit_def opens_def Let_def)

lemma voting_start_moves:
  "v_state v \<noteq> VCompleted \<Longrightarrow> voting_moves v (voting_start this m N v)"
  using voting_vote_moves [of "v\<lparr>v_timer := True\<rparr>"]
  by (simp add: voting_start_def voting_moves_def)

lemma voting_timeout_moves: "voting_moves v (voting_timeout this v)"
proof (cases "isConsistent v")
  case True
  then show ?thesis by (simp add: voting_timeout_def voting_vote_moves)
next
  case False
  then show ?thesis
    by (simp add: voting_timeout_def voting_fail_def voting_moves_def opens_def)
qed

interpretation voting: phantom_client voting_onComplete "\<lambda>s. s" "\<lambda>w. (wp_step w, v_carries (wp_obj w))"
  by unfold_locales (auto simp: voting_onComplete_def Let_def)

section \<open>One node\<close>

text \<open>
  A node: its registry of votings, the counter behind \<open>genUniqueId\<close>, and what it executed,
  step by step. \<open>msg\<close>: the calls that go to the other nodes. \<open>do_effects\<close> carries out what
  a handler asked for, in order; \<open>cleanupAll\<close> only starts a journey, which later shuts the
  node down (\<open>node_cleanup\<close>): \<open>cleanups\<close> counts those that were started and have not run.
\<close>

record 'm node =
  phs :: "'m voting phantoms"
  next_mid :: id64
  executed :: "(step_id \<times> 'm carry_set) list"
  cleanups :: nat

datatype 'm msg =
    VoteMsg step_id "'m carry_set" node_id "node_id set"
  | CommitMsg step_id "'m carry_set"

definition node_new :: "'m node" where
  "node_new = \<lparr>phs = phantoms_new, next_mid = 0, executed = [], cleanups = 0\<rparr>"

definition cleanupAll :: "'m node \<Rightarrow> 'm node" where
  "cleanupAll nd = nd\<lparr>cleanups := Suc (cleanups nd)\<rparr>"

lemma cleanupAll_simps [simp]:
  "phs (cleanupAll nd) = phs nd" "next_mid (cleanupAll nd) = next_mid nd"
  "executed (cleanupAll nd) = executed nd" "cleanups (cleanupAll nd) = Suc (cleanups nd)"
  by (simp_all add: cleanupAll_def)

fun do_effects :: "step_id \<Rightarrow> 'm effect list \<Rightarrow> 'm node \<Rightarrow> 'm msg list \<times> 'm node" where
  "do_effects i [] nd = ([], nd)"
| "do_effects i (e # es) nd =
     (let (now, nd1) =
        (case e of
           BroadcastVote C src M \<Rightarrow> ([VoteMsg i C src M], nd)
         | BroadcastCommit C \<Rightarrow> ([CommitMsg i C], nd)
         | CleanupAll \<Rightarrow> ([], cleanupAll nd)
         | CompleteStep \<Rightarrow>
             (let (r, ex) = with_complete voting_onComplete i (phs nd) (executed nd)
              in ([], nd\<lparr>phs := r, executed := ex\<rparr>)));
        (later, nd2) = do_effects i es nd1
      in (now @ later, nd2))"

text \<open>A call on the voting of a step: from the network, or from its own timer.\<close>

definition node_call ::
  "step_id \<Rightarrow> ('m voting \<Rightarrow> 'm voting \<times> 'm effect list) \<Rightarrow> 'm node \<Rightarrow> 'm msg list \<times> 'm node" where
  "node_call i f nd =
     (let (es, r) = phantom_call voting_new i f (phs nd) in do_effects i es (nd\<lparr>phs := r\<rparr>))"

fun node_deliver :: "node_id \<Rightarrow> 'm msg \<Rightarrow> 'm node \<Rightarrow> 'm msg list \<times> 'm node" where
  "node_deliver this (VoteMsg i C src M) nd = node_call i (voting_vote this C src (ByValue M)) nd"
| "node_deliver this (CommitMsg i C) nd = node_call i (voting_commit C) nd"

definition node_timeout :: "node_id \<Rightarrow> step_id \<Rightarrow> 'm node \<Rightarrow> 'm msg list \<times> 'm node" where
  "node_timeout this i nd =
     (case steps (phs nd) i of
        None \<Rightarrow> ([], nd)
      | Some w \<Rightarrow>
          (let (v, es) = voting_timeout this (wp_obj w)
           in do_effects i es (nd\<lparr>phs := (phs nd)\<lparr>steps := (steps (phs nd))(i \<mapsto> w\<lparr>wp_obj := v\<rparr>)\<rparr>\<rparr>)))"

text \<open>\<open>Replob2::apply\<close>: a unique number, the next step, and a first vote.\<close>

definition node_apply ::
  "nodes_config \<Rightarrow> 'm \<Rightarrow> 'm node \<Rightarrow> unit outcome \<times> 'm msg list \<times> 'm node" where
  "node_apply cfg m nd =
     (let (i, mid) = genUniqueId cfg (next_mid nd);
          nd1 = nd\<lparr>next_mid := mid\<rparr>
      in case create voting_new (phs nd1) of
           (Inl e, r) \<Rightarrow> (Inl e, [], nd1\<lparr>phs := r\<rparr>)
         | (Inr w, r) \<Rightarrow>
             (let (v, es) = voting_start (thisNode cfg) \<lparr>cm_msg = m, cm_id = i\<rparr> (nodesSet cfg) (wp_obj w);
                  r' = r\<lparr>steps := (steps r)(wp_step w \<mapsto> w\<lparr>wp_obj := v\<rparr>)\<rparr>;
                  (out, nd2) = do_effects (wp_step w) es (nd1\<lparr>phs := r'\<rparr>)
              in (Inr (), out, nd2)))"

text \<open>What one of those journeys does to the votings.\<close>

definition node_cleanup :: "'m node \<Rightarrow> 'm node" where
  "node_cleanup nd = nd\<lparr>phs := phantoms_cleanup (phs nd), cleanups := cleanups nd - 1\<rparr>"

section \<open>What a voting promises\<close>

text \<open>Passing \<open>voted_\<close> by reference to \<open>vote\<close>, as \<open>timeout\<close> does, is the same as passing a
  copy, because \<open>nodes_ &= nodesSet\<close> comes before \<open>voted_.clear()\<close>.\<close>

theorem vote_by_reference:
  "voting_vote this C src RefVoted v = voting_vote this C src (ByValue (v_voted v)) v"
  by (simp add: voting_vote_def Let_def)

text \<open>C20: No split brain: when a membership falls apart into groups that do not hear each
  other, at most one group finds itself consistent on a timeout and goes on; with an even
  split it is the one with the smallest node.\<close>

theorem no_split_brain:
  assumes "v_nodes v = v_nodes w" and "finite (v_nodes v)" and "v_nodes v \<noteq> {}"
    and "v_voted v \<subseteq> v_nodes v" and "v_voted w \<subseteq> v_nodes v" and "v_voted v \<inter> v_voted w = {}"
  shows "\<not> (isConsistent v \<and> isConsistent w)"
proof
  assume both: "isConsistent v \<and> isConsistent w"
  have fin: "finite (v_voted v)" "finite (v_voted w)"
    using assms by (auto intro: finite_subset)
  have "card (v_voted v) + card (v_voted w) \<le> card (v_nodes v)"
    using assms fin by (metis Un_least card_Un_disjoint card_mono)
  with both assms(1) have half: "card (v_voted v) * 2 = card (v_nodes v)" "card (v_voted w) * 2 = card (v_nodes v)"
    by (auto simp: isConsistent_def split: if_splits)
  with both assms(1) have "Min (v_voted v) = Min (v_voted w)"
    by (simp add: isConsistent_def)
  moreover have "v_voted v \<noteq> {}" "v_voted w \<noteq> {}"
    using half assms(2,3) by (auto simp: card_eq_0_iff)
  ultimately have "Min (v_voted v) \<in> v_voted v \<inter> v_voted w"
    using fin by (metis IntI Min_in)
  with assms(6) show False by simp
qed

lemma no_split_brain_witness:
  "\<not> (isConsistent (voting_new\<lparr>v_nodes := {1, 2, 3, 4}, v_voted := {2, 3}\<rparr>) \<and>
      isConsistent (voting_new\<lparr>v_nodes := {1, 2, 3, 4}, v_voted := {1, 4}\<rparr>))"
  by (rule no_split_brain) (simp_all add: voting_new_def)

text \<open>A step is settled once: after \<open>commit\<close>, votes, further commits with whatever
  messages, and a consistent timeout change nothing and send nothing.\<close>

theorem commit_is_final:
  assumes "v_state v \<noteq> VCompleted" and "voting_commit C v = (v', es)"
  shows "v_state v' = VCompleted \<and> v_carries v' = C \<and> es = [BroadcastCommit C, CompleteStep] \<and>
    voting_commit D v' = (v', []) \<and> voting_vote this D src ref v' = (v', []) \<and>
    (isConsistent v' \<longrightarrow> voting_timeout this v' = (v', []))"
  using assms
  by (auto simp: voting_commit_def Let_def voting_vote_def voting_timeout_def)

lemma commit_is_final_witness:
  "voting_vote 3 [\<lparr>cm_msg = (0 :: nat), cm_id = (3, 5)\<rparr>] 3 (ByValue {1, 3})
     (voting_new\<lparr>v_state := VCompleted, v_carries := []\<rparr>) =
   (voting_new\<lparr>v_state := VCompleted, v_carries := []\<rparr>, [])"
  using commit_is_final [of "voting_new :: nat voting" "[]" "voting_new\<lparr>v_state := VCompleted, v_carries := []\<rparr>"
      "[BroadcastCommit [], CompleteStep]"]
  by (simp add: voting_commit_def voting_new_def)

text \<open>Votes that arrive with the membership the node has itself.\<close>

definition same_set_votes :: "node_id \<Rightarrow> ('m carry_set \<times> node_id) list \<Rightarrow> 'm voting \<Rightarrow> 'm voting" where
  "same_set_votes this l v =
     fold (\<lambda>(C, src) v. fst (voting_vote this C src (ByValue (v_nodes v)) v)) l v"

lemma outside_vote_step:
  assumes "v_state v \<noteq> VCompleted" and "x \<in> v_voted v" "x \<notin> v_nodes v" "v_nodes v \<noteq> {}"
    and "voting_vote this C src (ByValue (v_nodes v)) v = (v', es)"
  shows "v_state v' \<noteq> VCompleted \<and> x \<in> v_voted v' \<and> v_nodes v' = v_nodes v"
proof -
  have "insert this (insert src (v_voted v)) \<noteq> v_nodes v" using assms(2,3) by blast
  with assms show ?thesis by (auto simp: voting_vote_def Let_def split: if_splits)
qed

text \<open>A vote from a node outside the membership blocks the step: it is counted, so the
  votes can never equal the membership again, and no later votes of the members, however
  many, commit the step; only a timeout, which changes the membership, can.\<close>

theorem outside_vote_blocks:
  assumes "v_state v \<noteq> VCompleted" and "src \<notin> v_nodes v" and "v_nodes v \<inter> M \<noteq> {}"
    and "voting_vote this C src (ByValue M) v = (v', es)"
  shows "v_state (same_set_votes this l v') \<noteq> VCompleted"
proof -
  have "insert this (insert src A) \<noteq> v_nodes v" "insert this (insert src A) \<noteq> set_restrict (v_nodes v) M" for A
    using assms(2) by (auto simp: set_restrict_def)
  with assms have "v_state v' \<noteq> VCompleted \<and> src \<in> v_voted v' \<and> src \<notin> v_nodes v' \<and> v_nodes v' \<noteq> {}"
    by (auto simp: voting_vote_def Let_def set_restrict_def split: if_splits)
  then show ?thesis
    unfolding same_set_votes_def
  proof (induction l arbitrary: v')
    case (Cons a l)
    obtain D s where a: "a = (D, s)" by (cases a)
    obtain w es where w: "voting_vote this D s (ByValue (v_nodes v')) v' = (w, es)" by fastforce
    from Cons.prems outside_vote_step [OF _ _ _ _ w] have
      "v_state w \<noteq> VCompleted \<and> src \<in> v_voted w \<and> src \<notin> v_nodes w \<and> v_nodes w \<noteq> {}" by auto
    from Cons.IH [OF this] show ?case by (simp add: a w)
  qed simp
qed

lemma outside_vote_blocks_witness:
  "v_state (same_set_votes 1 [([], 2)]
     (fst (voting_vote 1 [] 3 (ByValue {1, 2, 3}) (voting_new\<lparr>v_state := VVoted, v_nodes := {1, 2}, v_voted := {1}\<rparr>))))
   \<noteq> VCompleted"
  by (rule outside_vote_blocks [where v = "voting_new\<lparr>v_state := VVoted, v_nodes := {1, 2}, v_voted := {1}\<rparr>"
        and src = 3 and C = "[]" and M = "{1, 2, 3}" and this = 1
        and es = "snd (voting_vote 1 [] 3 (ByValue {1, 2, 3}) (voting_new\<lparr>v_state := VVoted, v_nodes := {1, 2}, v_voted := {1}\<rparr>))"])
    (simp_all add: voting_new_def)

end
