(* ===== verification/VotingNode.thy ===== *)
theory VotingNode
  imports Voting
begin

text \<open>
  A node of \<open>Voting\<close> seen step by step: whatever the registry does inside, a step of a node
  is either settled (with the messages it was completed with) or open (with its voting).
  Every operation of a node changes this view at one step only.
\<close>

section \<open>The view of a node\<close>

abbreviation node_outcome :: "'m node \<Rightarrow> step_id \<Rightarrow> (step_id \<times> 'm carry_set) option" where
  "node_outcome nd \<equiv>
     outcome_of (\<lambda>w. (wp_step w, v_carries (wp_obj w))) (phs nd) (executed nd)"

definition phase :: "'m node \<Rightarrow> step_id \<Rightarrow> 'm carry_set + 'm voting" where
  "phase nd k =
     (case node_outcome nd k of
        Some (s, C) \<Rightarrow> Inl C
      | None \<Rightarrow> Inr (case steps (phs nd) k of Some w \<Rightarrow> wp_obj w | None \<Rightarrow> voting_new))"

definition node_inv :: "'m node \<Rightarrow> bool" where
  "node_inv nd \<longleftrightarrow>
     phantoms_wf (phs nd) (executed nd) \<and> phantoms_idle (phs nd) \<and>
     (\<forall>k w. steps (phs nd) k = Some w \<longrightarrow>
        wp_completed w = (v_state (wp_obj w) = VCompleted)) \<and>
     (\<forall>k s C. node_outcome nd k = Some (s, C) \<longrightarrow> s = k)"

lemma node_inv_new: "node_inv node_new"
  by (auto simp: node_inv_def node_new_def phantoms_new_def phantoms_wf_def phantoms_idle_def
      outcome_of_def)

lemma phase_new: "phase node_new k = Inr voting_new"
  by (simp add: phase_def node_new_def phantoms_new_def outcome_of_def)

lemma phase_open:
  assumes "node_inv nd" and "cur_step (phs nd) \<le> k"
    and "\<And>w. steps (phs nd) k = Some w \<Longrightarrow> \<not> wp_completed w"
  shows "phase nd k = Inr (case steps (phs nd) k of Some w \<Rightarrow> wp_obj w | None \<Rightarrow> voting_new)"
  using assms by (auto simp: phase_def outcome_of_def split: option.splits)

lemma phase_settled:
  assumes "k < cur_step (phs nd) \<or> (\<exists>w. steps (phs nd) k = Some w \<and> wp_completed w)"
  shows "\<exists>C. phase nd k = Inl C"
  using assms by (auto simp: phase_def outcome_of_def split: option.splits prod.splits)

text \<open>The executed steps are the settled ones below the current step, in order.\<close>

lemma executed_phase:
  assumes "node_inv nd" and "j < length (executed nd)"
  shows "fst (executed nd ! j) = of_nat j" and "phase nd (of_nat j) = Inl (snd (executed nd ! j))"
proof -
  have "length (executed nd) = unat (cur_step (phs nd))"
    using assms(1) by (simp add: node_inv_def phantoms_wf_def)
  with assms(2) have j: "j < unat (cur_step (phs nd))" by simp
  also have "\<dots> < 2 ^ LENGTH(64)" by (rule unsigned_less)
  finally have "unat (of_nat j :: step_id) = j" by (rule of_nat_inverse [OF refl])
  moreover from this j have less: "(of_nat j :: step_id) < cur_step (phs nd)"
    by (simp only: word_less_nat_alt)
  ultimately have "node_outcome nd (of_nat j) = Some (executed nd ! j)"
    by (simp add: outcome_of_def)
  moreover have "\<forall>s C. node_outcome nd (of_nat j) = Some (s, C) \<longrightarrow> s = of_nat j"
    using assms(1) by (simp add: node_inv_def)
  ultimately show "fst (executed nd ! j) = of_nat j" and "phase nd (of_nat j) = Inl (snd (executed nd ! j))"
    by (cases "executed nd ! j", simp_all add: phase_def)+
qed

section \<open>Effects\<close>

fun msgs_of :: "step_id \<Rightarrow> 'm effect list \<Rightarrow> 'm msg list" where
  "msgs_of i [] = []"
| "msgs_of i (BroadcastVote C src M # es) = VoteMsg i C src M # msgs_of i es"
| "msgs_of i (BroadcastCommit C # es) = CommitMsg i C # msgs_of i es"
| "msgs_of i (CompleteStep # es) = msgs_of i es"
| "msgs_of i (CleanupAll # es) = msgs_of i es"

text \<open>The node after the journeys of \<open>cleanupAll\<close> among the effects were started.\<close>

definition asked :: "'m effect list \<Rightarrow> 'm node \<Rightarrow> 'm node" where
  "asked es nd = nd\<lparr>cleanups := cleanups nd + count_list es CleanupAll\<rparr>"

lemma asked_simps [simp]:
  "executed (asked es nd) = executed nd"
  "next_mid (asked es nd) = next_mid nd"
  "phs (asked es nd) = phs nd"
  "asked [] nd = nd"
  by (simp_all add: asked_def)

lemma asked_none: "CleanupAll \<notin> set es \<Longrightarrow> asked es nd = nd"
  by (simp add: asked_def)

lemma do_effects_open: "opens es \<Longrightarrow> do_effects i es nd = (msgs_of i es, asked es nd)"
  by (induction es arbitrary: nd) (auto simp: opens_def asked_def cleanupAll_def split: effect.splits)

lemma asked_view [simp]:
  "node_inv (asked es nd) = node_inv nd" "phase (asked es nd) = phase nd"
  unfolding node_inv_def phase_def asked_simps by (rule refl)+

text \<open>A node after its voting of step \<open>i\<close> was replaced.\<close>

definition store :: "step_id \<Rightarrow> 'm voting with_phantom \<Rightarrow> 'm voting \<Rightarrow> 'm node \<Rightarrow> 'm node" where
  "store i w v nd = nd\<lparr>phs := (phs nd)\<lparr>steps := (steps (phs nd))(i \<mapsto> w\<lparr>wp_obj := v\<rparr>)\<rparr>\<rparr>"

lemma store_wf:
  assumes "node_inv nd" and "steps (phs nd) i = Some w" and "\<not> wp_completed w"
  shows "phantoms_wf (phs (store i w v nd)) (executed nd)" and "phantoms_idle (phs (store i w v nd))"
    and "outcome_of (\<lambda>w. (wp_step w, v_carries (wp_obj w))) (phs (store i w v nd)) (executed nd) =
      node_outcome nd"
  using assms
  by (auto simp: node_inv_def phantoms_wf_def phantoms_idle_def store_def outcome_of_def fun_eq_iff)

lemma store_simps [simp]:
  "executed (store i w v nd) = executed nd"
  "next_mid (store i w v nd) = next_mid nd"
  "cur_step (phs (store i w v nd)) = cur_step (phs nd)"
  "next_step (phs (store i w v nd)) = next_step (phs nd)"
  "steps (phs (store i w v nd)) = (steps (phs nd))(i \<mapsto> w\<lparr>wp_obj := v\<rparr>)"
  by (simp_all add: store_def)

lemma do_effects_moves:
  assumes inv: "node_inv nd" and w: "steps (phs nd) i = Some w" "\<not> wp_completed w"
    and moves: "voting_moves (wp_obj w) (v, es)"
    and run: "do_effects i es (store i w v nd) = (out, nd')"
  shows "out = msgs_of i es \<and> node_inv nd' \<and>
    phase nd' = (phase nd)(i := if v_state v = VCompleted then Inl (v_carries v) else Inr v) \<and>
    next_mid nd' = next_mid nd \<and> next_step (phs nd') = next_step (phs nd) \<and>
    cur_step (phs nd) \<le> cur_step (phs nd')"
proof -
  let ?nd = "store i w v nd"
  note st = store_wf [OF inv w]
  have i: "wp_step w = i" "cur_step (phs nd) \<le> i" "i < next_step (phs nd)"
    using inv w(1) by (auto simp: node_inv_def phantoms_wf_def)
  have old: "v_state (wp_obj w) \<noteq> VCompleted"
    using inv w by (auto simp: node_inv_def)
  show ?thesis
  proof (cases "v_state v = VCompleted")
    case False
    with moves old have "opens es" by (simp add: voting_moves_def)
    with run have eq: "out = msgs_of i es" "nd' = asked es ?nd" by (simp_all add: do_effects_open)
    have "node_inv ?nd"
      using st inv w False unfolding node_inv_def by simp
    moreover have "phase ?nd = (phase nd)(i := Inr v)"
    proof
      fix k
      have "node_outcome nd i = None" using w i by (simp add: outcome_of_def)
      then show "phase ?nd k = ((phase nd)(i := Inr v)) k"
        by (simp add: phase_def st(3) split: option.split)
    qed
    ultimately show ?thesis using False eq by simp
  next
    case True
    with moves old have es: "es = [BroadcastCommit (v_carries v), CompleteStep]"
      by (simp add: voting_moves_def)
    obtain r ex where wc: "with_complete voting_onComplete i (phs ?nd) (executed ?nd) = (r, ex)"
      by fastforce
    have nd': "out = msgs_of i es" "nd' = ?nd\<lparr>phs := r, executed := ex\<rparr>"
      using run wc by (simp_all add: es)
    have wf: "phantoms_wf (phs ?nd) (executed ?nd)" and idle: "phantoms_idle (phs ?nd)"
      using st by simp_all
    have w': "steps (phs ?nd) i = Some (w\<lparr>wp_obj := v\<rparr>)" by simp
    note spec = voting.with_complete_spec [OF wf idle w' wc]
    have out: "node_outcome nd' = (node_outcome nd)(i \<mapsto> (i, v_carries v))"
      using spec st(3) i by (simp add: nd')
    have steps: "steps (phs nd') k = (if k < cur_step (phs nd') then None
        else if k = i then Some (w\<lparr>wp_obj := v, wp_completed := True\<rparr>) else steps (phs nd) k)" for k
      using spec by (simp add: nd')
    have "node_inv nd'"
      using spec inv True unfolding node_inv_def out
      by (auto simp: nd'(2) steps [unfolded nd'(2), simplified] split: if_splits)
    moreover have "phase nd' = (phase nd)(i := Inl (v_carries v))"
    proof
      fix k
      show "phase nd' k = ((phase nd)(i := Inl (v_carries v))) k"
      proof (cases "k = i")
        case True
        then show ?thesis by (simp add: phase_def out)
      next
        case False
        show ?thesis
        proof (cases "node_outcome nd k")
          case None
          then have "\<not> k < cur_step (phs nd')"
            using fun_cong [OF out, of k] False by (auto simp: outcome_of_def split: if_splits)
          with None False show ?thesis by (simp add: phase_def out steps)
        next
          case (Some sC)
          with False show ?thesis by (simp add: phase_def out split: prod.split)
        qed
      qed
    qed
    ultimately show ?thesis using True nd' spec by simp
  qed
qed

section \<open>Operations\<close>

text \<open>
  \<open>stepped\<close>: the view after one handler ran on the voting of step \<open>i\<close>. On a settled step it
  does nothing; on an open one it does what the handler says.
\<close>

definition stepped ::
  "step_id \<Rightarrow> ('m voting \<Rightarrow> 'm voting \<times> 'm effect list) \<Rightarrow> 'm node \<Rightarrow> 'm msg list \<Rightarrow> 'm node \<Rightarrow> bool" where
  "stepped i f nd out nd' \<longleftrightarrow>
     node_inv nd' \<and> cur_step (phs nd) \<le> cur_step (phs nd') \<and>
     (case phase nd i of
        Inl C \<Rightarrow> out = [] \<and> phase nd' = phase nd
      | Inr v \<Rightarrow> out = msgs_of i (snd (f v)) \<and>
          phase nd' = (phase nd)(i := if v_state (fst (f v)) = VCompleted
                                      then Inl (v_carries (fst (f v))) else Inr (fst (f v))))"

lemma stepped_cong:
  assumes "phase nd1 = phase nd" and "cur_step (phs nd1) = cur_step (phs nd)"
  shows "stepped i f nd1 out nd' = stepped i f nd out nd'"
  unfolding stepped_def assms by (rule refl)

lemma store_same: "steps (phs nd) i = Some w \<Longrightarrow> store i w (wp_obj w) nd = nd"
  by (simp add: store_def fun_upd_idem)

lemma msgs_of_cleanup: "set es \<subseteq> {CleanupAll} \<Longrightarrow> msgs_of i es = []"
  by (induction es) auto

lemma stepped_existing:
  assumes inv: "node_inv nd" and w: "steps (phs nd) i = Some w"
    and moves: "voting_moves (wp_obj w) (f (wp_obj w))"
    and run: "do_effects i (snd (f (wp_obj w))) (store i w (fst (f (wp_obj w))) nd) = (out, nd')"
  shows "stepped i f nd out nd' \<and> next_mid nd' = next_mid nd \<and> next_step (phs nd') = next_step (phs nd)"
proof (cases "wp_completed w")
  case True
  with inv w have "v_state (wp_obj w) = VCompleted" by (auto simp: node_inv_def)
  with moves have same: "fst (f (wp_obj w)) = wp_obj w" and es: "set (snd (f (wp_obj w))) \<subseteq> {CleanupAll}"
    by (simp_all add: voting_moves_def)
  from es have "opens (snd (f (wp_obj w)))" by (auto simp: opens_def)
  moreover from es have "msgs_of i (snd (f (wp_obj w))) = []"
    by (rule msgs_of_cleanup)
  ultimately have "out = []" "nd' = asked (snd (f (wp_obj w))) nd"
    using run w by (simp_all add: do_effects_open same store_same)
  moreover obtain C where "phase nd i = Inl C" using phase_settled [of i nd] w True by blast
  ultimately show ?thesis using inv by (simp add: stepped_def)
next
  case False
  have i: "cur_step (phs nd) \<le> i" using inv w by (auto simp: node_inv_def phantoms_wf_def)
  have "phase nd i = Inr (wp_obj w)"
    using phase_open [OF inv i] w False by simp
  with do_effects_moves [OF inv w False _ run] moves show ?thesis
    by (simp add: stepped_def)
qed

lemma node_call_spec:
  assumes inv: "node_inv nd" and "i \<noteq> - 1" and moves: "\<And>v. voting_moves v (f v)"
    and run: "node_call i f nd = (out, nd')"
  shows "stepped i f nd out nd' \<and> next_mid nd' = next_mid nd \<and>
    next_step (phs nd) \<le> next_step (phs nd')"
proof -
  obtain wo r where g: "getPtr voting_new i (phs nd) = (wo, r)" by fastforce
  have wf: "phantoms_wf (phs nd) (executed nd)" and idle: "phantoms_idle (phs nd)"
    using inv by (simp_all add: node_inv_def)
  note spec = voting.getPtr_spec [OF wf idle \<open>i \<noteq> - 1\<close> g]
  show ?thesis
  proof (cases "i < cur_step (phs nd)")
    case True
    with spec have "wo = None" "r = phs nd" by simp_all
    with run g have "out = []" "nd' = nd" by (simp_all add: node_call_def phantom_call_def)
    moreover obtain C where "phase nd i = Inl C" using phase_settled True by blast
    ultimately show ?thesis using inv by (simp add: stepped_def)
  next
    case False
    let ?nd = "nd\<lparr>phs := r\<rparr>"
    from spec False obtain w where w: "wo = Some w" "steps r = (steps (phs nd))(i \<mapsto> w)"
      and old: "steps (phs nd) i = Some w \<or> steps (phs nd) i = None \<and>
        w = \<lparr>wp_obj = voting_new, wp_step = i, wp_completed = False\<rparr>" by auto
    have inv': "node_inv ?nd"
      using spec inv w old unfolding node_inv_def
      by (auto simp: voting_new_def split: if_splits)
    have ph: "phase ?nd = phase nd"
      using spec old w(2) by (auto simp: phase_def fun_eq_iff split: option.split)
    have "do_effects i (snd (f (wp_obj w))) (store i w (fst (f (wp_obj w))) ?nd) = (out, nd')"
      using run g w by (simp add: node_call_def phantom_call_def split_beta store_def)
    from stepped_existing [where f = f and w = w, OF inv' _ moves this] w(2) spec stepped_cong [OF ph]
    show ?thesis by auto
  qed
qed

lemma node_deliver_moves:
  "voting_moves v ((case msg of VoteMsg i C src M \<Rightarrow> voting_vote this C src (ByValue M)
     | CommitMsg i C \<Rightarrow> voting_commit C) v)"
  by (cases msg) (simp_all add: voting_vote_moves voting_commit_moves)

lemma node_timeout_spec:
  assumes inv: "node_inv nd" and run: "node_timeout this i nd = (out, nd')"
  shows "stepped i (voting_timeout this) nd out nd' \<and> next_mid nd' = next_mid nd \<and>
      next_step (phs nd') = next_step (phs nd)
    \<or> out = [] \<and> nd' = nd"
proof (cases "steps (phs nd) i")
  case None
  with run show ?thesis by (simp add: node_timeout_def)
next
  case (Some w)
  with run have "do_effects i (snd (voting_timeout this (wp_obj w)))
      (store i w (fst (voting_timeout this (wp_obj w))) nd) = (out, nd')"
    by (simp add: node_timeout_def split_beta store_def)
  from stepped_existing [where f = "voting_timeout this" and w = w, OF inv Some voting_timeout_moves this] show ?thesis by blast
qed

lemma node_apply_spec:
  assumes inv: "node_inv nd" and nx: "next_step (phs nd) \<noteq> - 1"
    and run: "node_apply cfg m nd = (res, out, nd')"
  defines "i \<equiv> next_step (phs nd)"
  shows "res = Inr () \<and> phase nd i = Inr voting_new \<and>
    stepped i (voting_start (thisNode cfg) \<lparr>cm_msg = m, cm_id = (thisNode cfg, next_mid nd)\<rparr> (nodesSet cfg))
      nd out nd' \<and>
    next_mid nd' = next_mid nd + 1 \<and> next_step (phs nd') = i + 1"
proof -
  let ?f = "voting_start (thisNode cfg) \<lparr>cm_msg = m, cm_id = (thisNode cfg, next_mid nd)\<rparr> (nodesSet cfg)"
  let ?r0 = "(phs nd)\<lparr>next_step := i + 1\<rparr>"
  let ?nd0 = "nd\<lparr>phs := ?r0, next_mid := next_mid nd + 1\<rparr>"
  note suc = word_less_Suc_not_max [OF nx, folded i_def]
  have up: "k < i \<Longrightarrow> k < i + 1" and "cur_step (phs nd) \<le> i" for k
    using inv suc by (auto simp: node_inv_def phantoms_wf_def i_def)
  moreover have "i < i + 1" by (simp add: suc)
  ultimately have "cur_step (phs nd) \<le> i + 1" by simp
  then have wf: "phantoms_wf ?r0 (executed nd)" and idle: "phantoms_idle ?r0"
    using inv up
    by (auto simp: node_inv_def phantoms_wf_def phantoms_idle_def i_def intro: order.trans)
  have none: "steps (phs nd) i = None"
    using inv by (cases "steps (phs nd) i") (auto simp: node_inv_def phantoms_wf_def i_def)
  let ?w = "\<lparr>wp_obj = voting_new, wp_step = i, wp_completed = False\<rparr> :: 'a voting with_phantom"
  have gp: "getPtr voting_new i ?r0 =
      (Some ?w, ?r0\<lparr>steps := (steps (phs nd))(i \<mapsto> ?w)\<rparr>)"
    using \<open>cur_step (phs nd) \<le> i\<close> none suc by (simp add: getPtr_def not_less Let_def)
  let ?nd = "?nd0\<lparr>phs := ?r0\<lparr>steps := (steps (phs nd))(i \<mapsto> ?w)\<rparr>\<rparr>"
  have run': "(res, out, nd') = (Inr (), do_effects i (snd (?f (wp_obj ?w))) (store i ?w (fst (?f (wp_obj ?w))) ?nd))"
    using run gp
    by (simp add: node_apply_def genUniqueId_def nextId_def create_def get_def i_def [symmetric]
        split_beta store_def)
  have out: "node_outcome ?nd = node_outcome nd"
    using none by (simp add: outcome_of_def fun_eq_iff)
  have inv': "node_inv ?nd"
    using wf idle inv none \<open>cur_step (phs nd) \<le> i\<close> suc unfolding node_inv_def out
    by (auto simp: phantoms_wf_def phantoms_idle_def voting_new_def split: if_splits)
  have ph: "phase ?nd = phase nd"
    unfolding phase_def out using none by (auto simp: fun_eq_iff split: option.split)
  have new: "phase nd i = Inr voting_new"
    using phase_open [OF inv \<open>cur_step (phs nd) \<le> i\<close>] none by simp
  have mv: "voting_moves (wp_obj ?w) (?f (wp_obj ?w))"
    by (rule voting_start_moves) (simp add: voting_new_def)
  from run' have res: "res = Inr ()"
    and de: "do_effects i (snd (?f (wp_obj ?w))) (store i ?w (fst (?f (wp_obj ?w))) ?nd) = (out, nd')"
    by simp_all
  have "steps (phs ?nd) i = Some ?w" by simp
  note ex = stepped_existing [where f = ?f and w = ?w and out = out and nd' = nd', OF inv' this mv de]
  then have "stepped i ?f nd out nd'" using stepped_cong [OF ph] by auto
  with ex res new show ?thesis by simp
qed

section \<open>Runs of a node\<close>

text \<open>
  Any messages in any order, from anybody; the guards exclude the last step number, after
  which \<open>nextStepId_\<close> would wrap around.
\<close>

inductive node_step :: "nodes_config \<Rightarrow> 'm node \<Rightarrow> 'm node \<Rightarrow> bool" for cfg where
  applied: "\<lbrakk>next_step (phs nd) \<noteq> - 1; node_apply cfg m nd = (res, out, nd')\<rbrakk> \<Longrightarrow> node_step cfg nd nd'"
| vote: "\<lbrakk>i \<noteq> - 1; node_deliver (thisNode cfg) (VoteMsg i C src M) nd = (out, nd')\<rbrakk> \<Longrightarrow> node_step cfg nd nd'"
| commit: "\<lbrakk>i \<noteq> - 1; node_deliver (thisNode cfg) (CommitMsg i C) nd = (out, nd')\<rbrakk> \<Longrightarrow> node_step cfg nd nd'"
| timeout: "node_timeout (thisNode cfg) i nd = (out, nd') \<Longrightarrow> node_step cfg nd nd'"

lemma stepped_settled: "stepped i f nd out nd' \<Longrightarrow> phase nd k = Inl C \<Longrightarrow> phase nd' k = Inl C"
  by (cases "k = i") (auto simp: stepped_def split: sum.splits if_splits)

lemma node_step_stepped:
  assumes "node_step cfg nd nd'" and inv: "node_inv nd"
  shows "nd' = nd \<or> (\<exists>i f out. stepped i f nd out nd')"
  using assms(1)
proof cases
  case (applied m res out)
  from node_apply_spec [OF inv applied] show ?thesis by blast
next
  case (vote i C src M out)
  from node_call_spec [OF inv vote(1) voting_vote_moves] vote(2) show ?thesis by fastforce
next
  case (commit i C out)
  from node_call_spec [OF inv commit(1) voting_commit_moves] commit(2) show ?thesis by fastforce
next
  case (timeout i out)
  from node_timeout_spec [OF inv timeout] show ?thesis by blast
qed

lemma node_step_inv: "node_inv nd \<Longrightarrow> node_step cfg nd nd' \<Longrightarrow> node_inv nd'"
  using node_step_stepped [of cfg nd nd'] by (auto simp: stepped_def)

interpretation voting_node: step_system "\<lambda>nd. nd = node_new" "node_step cfg" node_inv for cfg
  by unfold_locales (auto simp: node_inv_new intro: node_step_inv)

text \<open>What a run keeps: settled steps stay settled, and the log only grows at its end.\<close>

lemma executed_prefix:
  assumes "node_inv nd" and "node_inv nd'" and cur: "cur_step (phs nd) \<le> cur_step (phs nd')"
    and same: "\<And>k C. phase nd k = Inl C \<Longrightarrow> phase nd' k = Inl C"
  shows "prefix (executed nd) (executed nd')"
proof -
  have len: "length (executed nd) \<le> length (executed nd')"
    using assms(1-3) by (simp add: node_inv_def phantoms_wf_def word_le_nat_alt)
  show ?thesis
  proof (rule prefixI_nth [OF len])
    fix j assume j: "j < length (executed nd)"
    with len have j': "j < length (executed nd')" by simp
    from same executed_phase(2) [OF assms(1) j] executed_phase(2) [OF assms(2) j']
    have "snd (executed nd ! j) = snd (executed nd' ! j)" by fastforce
    then show "executed nd ! j = executed nd' ! j"
      using executed_phase(1) [OF assms(1) j] executed_phase(1) [OF assms(2) j']
      by (simp add: prod_eq_iff)
  qed
qed

lemma node_steps_grow:
  assumes "(node_step cfg)\<^sup>*\<^sup>* nd nd'" and "node_inv nd"
  shows "cur_step (phs nd) \<le> cur_step (phs nd') \<and> (\<forall>k C. phase nd k = Inl C \<longrightarrow> phase nd' k = Inl C)"
  using assms
proof (induction rule: rtranclp_induct)
  case (step nd1 nd2)
  then have "node_inv nd1" by (blast intro: voting_node.inv_steps)
  from node_step_stepped [OF step(2) this] step stepped_settled show ?case
    by (fastforce simp: stepped_def)
qed simp

text \<open>C7: Whatever messages arrive in whatever order, and whichever timers fire, a node runs
  the steps in the order of their numbers, from 0 on, without a gap and each once; what it
  has executed is never taken back or changed, only extended.\<close>

theorem steps_executed_in_order:
  assumes "(node_step cfg)\<^sup>*\<^sup>* node_new nd" and "(node_step cfg)\<^sup>*\<^sup>* nd nd'"
  shows "map fst (executed nd) = map of_nat [0..<length (executed nd)] \<and>
    prefix (executed nd) (executed nd')"
proof
  have inv: "node_inv nd" "node_inv nd'"
    using assms by (auto intro: voting_node.inv_reachable rtranclp_trans)
  show "map fst (executed nd) = map of_nat [0..<length (executed nd)]"
    by (intro nth_equalityI) (simp_all add: executed_phase(1) [OF inv(1)])
  show "prefix (executed nd) (executed nd')"
    using executed_prefix [OF inv] node_steps_grow [OF assms(2) inv(1)] by blast
qed

lemma steps_executed_in_order_witness:
  "map fst (executed (snd (node_deliver 2 (VoteMsg 0 [\<lparr>cm_msg = 7 :: nat, cm_id = (1, 0)\<rparr>] 1 {1, 2}) node_new)))
     = map of_nat [0..<1]"
proof -
  let ?msg = "VoteMsg 0 [\<lparr>cm_msg = 7 :: nat, cm_id = (1, 0)\<rparr>] 1 {1, 2}"
  let ?cfg = "\<lparr>cfg_this = 2, cfg_nodes = []\<rparr>"
  let ?nd = "snd (node_deliver 2 ?msg node_new)"
  have "node_step ?cfg node_new ?nd"
    by (rule node_step.vote [where i = 0 and out = "fst (node_deliver 2 ?msg node_new)"])
      (simp_all add: thisNode_def)
  then have "(node_step ?cfg)\<^sup>*\<^sup>* node_new ?nd" by (rule r_into_rtranclp)
  moreover have "length (executed ?nd) = 1" by code_simp
  ultimately show ?thesis
    using steps_executed_in_order [of ?cfg ?nd ?nd] by auto
qed

section \<open>A node that failed\<close>

text \<open>What \<open>cleanupAll\<close> leaves: no objects, and a current step that no step number reaches.\<close>

definition silent :: "'m node \<Rightarrow> bool" where
  "silent nd \<longleftrightarrow> steps (phs nd) = Map.empty \<and> cur_step (phs nd) = - 1"

lemma silent_cleanup: "silent (node_cleanup nd)"
  by (simp add: silent_def node_cleanup_def phantoms_cleanup_def)

lemma less_max_word: "(i :: 'a :: len word) \<noteq> - 1 \<Longrightarrow> i < - 1"
  by (simp add: order_neq_le_trans)

lemma silent_call: "silent nd \<Longrightarrow> i \<noteq> - 1 \<Longrightarrow> node_call i f nd = ([], nd)"
  by (simp add: silent_def node_call_def phantom_call_def getPtr_def less_max_word)

lemma silent_deliver:
  "silent nd \<Longrightarrow> i \<noteq> - 1 \<Longrightarrow> node_deliver this (VoteMsg i C src M) nd = ([], nd)"
  "silent nd \<Longrightarrow> i \<noteq> - 1 \<Longrightarrow> node_deliver this (CommitMsg i C) nd = ([], nd)"
  by (simp_all add: silent_call)

lemma silent_apply:
  assumes "silent nd" and "next_step (phs nd) \<noteq> - 1"
  shows "node_apply cfg m nd = (Inl (Verification ''Invalid step id''), [],
    nd\<lparr>next_mid := next_mid nd + 1, phs := (phs nd)\<lparr>next_step := next_step (phs nd) + 1\<rparr>\<rparr>)"
  using assms
  by (simp add: silent_def node_apply_def genUniqueId_def nextId_def create_def get_def getPtr_def less_max_word)

text \<open>The life of a node: its steps, and the journeys of \<open>cleanupAll\<close> that were started.\<close>

inductive node_life :: "nodes_config \<Rightarrow> 'm node \<Rightarrow> 'm node \<Rightarrow> bool" for cfg where
  works: "node_step cfg nd nd' \<Longrightarrow> node_life cfg nd nd'"
| shuts: "0 < cleanups nd \<Longrightarrow> node_life cfg nd (node_cleanup nd)"

lemma silent_step:
  assumes "node_step cfg nd nd'" and "silent nd"
  shows "silent nd' \<and> executed nd' = executed nd"
  using assms(1)
proof cases
  case (applied m res out)
  with silent_apply [OF assms(2), of cfg m] assms(2) show ?thesis by (auto simp: silent_def)
next
  case (vote i C src M out)
  with silent_deliver(1) [OF assms(2), of i] assms(2) show ?thesis by simp
next
  case (commit i C out)
  with silent_deliver(2) [OF assms(2), of i] assms(2) show ?thesis by simp
next
  case (timeout i out)
  with assms(2) show ?thesis by (simp add: node_timeout_def silent_def)
qed

lemma silent_steps:
  assumes "(node_life cfg)\<^sup>*\<^sup>* nd nd'" and "silent nd"
  shows "silent nd' \<and> executed nd' = executed nd"
  using assms
proof (induction rule: rtranclp_induct)
  case (step nd1 nd2)
  from step(2) show ?case
  proof cases
    case works
    with silent_step [OF works] step show ?thesis by simp
  next
    case shuts
    with step silent_cleanup [of nd1] show ?thesis by (simp add: node_cleanup_def)
  qed
qed simp

text \<open>A cleanup that was asked for stays due until it runs.\<close>

lemma do_effects_cleanups: "cleanups (snd (do_effects i es nd)) = cleanups nd + count_list es CleanupAll"
  by (induction es arbitrary: nd) (auto simp: cleanupAll_def split_beta split: effect.split)

lemma node_call_cleanups: "cleanups nd \<le> cleanups (snd (node_call i f nd))"
  by (simp add: node_call_def split_beta do_effects_cleanups)

lemma node_timeout_cleanups: "cleanups nd \<le> cleanups (snd (node_timeout this i nd))"
  by (simp add: node_timeout_def split_beta do_effects_cleanups split: option.split)

lemma node_apply_cleanups: "cleanups nd \<le> cleanups (snd (snd (node_apply cfg m nd)))"
  by (auto simp: node_apply_def split_beta Let_def do_effects_cleanups split: sum.split)

lemma node_step_cleanups: "node_step cfg nd nd' \<Longrightarrow> cleanups nd \<le> cleanups nd'"
proof (induction rule: node_step.induct)
  case (applied nd m res out nd')
  then show ?case using node_apply_cleanups [of nd cfg m] by simp
next
  case (vote i C src M nd out nd')
  then show ?case using node_call_cleanups [of nd i "voting_vote (thisNode cfg) C src (ByValue M)"] by simp
next
  case (commit i C nd out nd')
  then show ?case using node_call_cleanups [of nd i "voting_commit C"] by simp
next
  case (timeout i nd out nd')
  then show ?case using node_timeout_cleanups [of nd "thisNode cfg" i] by simp
qed

lemma node_steps_cleanups: "(node_step cfg)\<^sup>*\<^sup>* nd nd' \<Longrightarrow> cleanups nd \<le> cleanups nd'"
  by (induction rule: rtranclp_induct) (auto dest: node_step_cleanups)

text \<open>The timer of a step whose voting is on the smaller side.\<close>

lemma timeout_fails:
  assumes "steps (phs nd) i = Some w" and "\<not> isConsistent (wp_obj w)"
  shows "node_timeout this i nd = ([], cleanupAll nd)"
  using assms
  by (simp add: node_timeout_def voting_timeout_def voting_fail_def fun_upd_idem cleanupAll_def)

text \<open>C12: A node whose timer finds it on the smaller side of a split fails: the timer sends
  nothing and executes nothing but starts the journey of \<open>cleanupAll\<close>, which stays due, whatever
  the node does meanwhile, until it runs; from then on the node executes nothing any more
  whatever it receives and whichever timers fire, answers no vote and no commit, and every
  \<open>apply\<close> on it raises an error, so that a minority cannot go on by itself.\<close>

theorem failed_node_halts:
  assumes "steps (phs nd) i = Some w" and "\<not> isConsistent (wp_obj w)"
    and "node_timeout (thisNode cfg) i nd = (out, nd1)"
    and "(node_step cfg)\<^sup>*\<^sup>* nd1 nd2" and "(node_life cfg)\<^sup>*\<^sup>* (node_cleanup nd2) nd3"
  shows "out = [] \<and> phs nd1 = phs nd \<and> executed nd1 = executed nd \<and>
    node_life cfg nd2 (node_cleanup nd2) \<and> executed nd3 = executed nd2 \<and>
    (k \<noteq> - 1 \<longrightarrow> node_deliver this (VoteMsg k C src M) nd3 = ([], nd3) \<and>
                 node_deliver this (CommitMsg k C) nd3 = ([], nd3)) \<and>
    (next_step (phs nd3) \<noteq> - 1 \<longrightarrow> fst (node_apply cfg m nd3) = Inl (Verification ''Invalid step id''))"
proof -
  have nd1: "out = []" "nd1 = cleanupAll nd"
    using timeout_fails [OF assms(1,2)] assms(3) by simp_all
  with node_steps_cleanups [OF assms(4)] have "node_life cfg nd2 (node_cleanup nd2)"
    by (intro node_life.shuts) (simp add: cleanupAll_def)
  moreover have "silent nd3 \<and> executed nd3 = executed (node_cleanup nd2)"
    by (rule silent_steps [OF assms(5) silent_cleanup])
  ultimately show ?thesis
    using nd1 by (simp add: cleanupAll_def node_cleanup_def silent_call silent_apply)
qed

text \<open>Node 2 of five has heard only of node 1 when the timer of step 0 fires.\<close>

definition lonely :: "nat node" where
  "lonely = snd (node_deliver 2 (VoteMsg 0 [\<lparr>cm_msg = 7, cm_id = (1, 0)\<rparr>] 1 {1, 2, 3, 4, 5}) node_new)"

lemma lonely_vote:
  "voting_vote 2 C 1 (ByValue {1, 2, 3, 4, 5}) voting_new =
     (voting_new\<lparr>v_carries := carry_union [] C, v_nodes := {1, 2, 3, 4, 5}, v_voted := {2, 1}, v_state := VVoted\<rparr>,
      [BroadcastVote (carry_union [] C) 2 {1, 2, 3, 4, 5}])"
proof -
  have "3 \<notin> {2, 1 :: node_id}" by simp
  then have "{2, 1} \<noteq> {1, 2, 3, 4, 5 :: node_id}" by blast
  then show ?thesis by (simp add: voting_vote_def voting_new_def)
qed

lemma lonely_step:
  "\<exists>w. steps (phs lonely) 0 = Some w \<and> v_nodes (wp_obj w) = {1, 2, 3, 4, 5} \<and> v_voted (wp_obj w) = {2, 1}"
  "next_step (phs lonely) = 1"
  by (simp_all add: lonely_def node_call_def phantom_call_def getPtr_def node_new_def phantoms_new_def
      lonely_vote Let_def)

lemma failed_node_halts_witness:
  "fst (node_apply \<lparr>cfg_this = 2, cfg_nodes = []\<rparr> 7 (node_cleanup (snd (node_timeout 2 0 lonely)))) =
     Inl (Verification ''Invalid step id'')"
proof -
  let ?cfg = "\<lparr>cfg_this = 2, cfg_nodes = []\<rparr>"
  obtain w where w: "steps (phs lonely) 0 = Some w" "v_nodes (wp_obj w) = {1, 2, 3, 4, 5}" "v_voted (wp_obj w) = {2, 1}"
    using lonely_step(1) by blast
  have no: "\<not> isConsistent (wp_obj w)" by (simp add: isConsistent_def w)
  moreover obtain out nd1 where nd1: "node_timeout 2 0 lonely = (out, nd1)" by fastforce
  moreover have "thisNode ?cfg = 2" by (simp add: thisNode_def)
  ultimately have "next_step (phs (node_cleanup nd1)) \<noteq> - 1 \<longrightarrow>
      fst (node_apply ?cfg 7 (node_cleanup nd1)) = Inl (Verification ''Invalid step id'')"
    using failed_node_halts [where nd = lonely and i = 0 and cfg = ?cfg and m = 7, OF w(1) _ _
      rtranclp.rtrancl_refl rtranclp.rtrancl_refl] by metis
  moreover have "next_step (phs (node_cleanup nd1)) \<noteq> - 1"
    using timeout_fails [OF w(1) no, of 2] nd1
    by (simp add: node_cleanup_def phantoms_cleanup_def cleanupAll_def lonely_step(2))
  ultimately show ?thesis by (simp add: nd1)
qed

end
