(* ===== verification/Cluster.thy ===== *)
theory Cluster
  imports VotingNode
begin

text \<open>
  A cluster of nodes that run \<open>Replob2\<close> without failures: a fixed membership of at least
  two nodes, no timeouts, and a network that may delay, reorder, duplicate and lose the
  broadcast calls: \<open>net\<close> is the set of calls ever sent, and any of them may reach any node
  at any time, any number of times. \<open>applied\<close> records, for the theorems, which message was
  given to \<open>Replob2::apply\<close> and the step it was started at.
\<close>

section \<open>Votes and decisions of one step\<close>

type_synonym 'm vote = "'m carry_set \<times> node_id \<times> node_id set"

definition voters :: "'m vote set \<Rightarrow> node_id set" where
  "voters V = (\<lambda>(C, src, M). src) ` V"

definition vote_union :: "'m vote set \<Rightarrow> node_id set \<Rightarrow> 'm carry_msg set" where
  "vote_union V A = (\<Union>(C, src, M) \<in> {v \<in> V. fst (snd v) \<in> A}. set C)"

definition votes_wf :: "node_id set \<Rightarrow> 'm vote set \<Rightarrow> bool" where
  "votes_wf N V \<longleftrightarrow>
     (\<forall>C src M. (C, src, M) \<in> V \<longrightarrow> src \<in> N \<and> M = N \<and> sorted_wrt (<) (carry_ids C)) \<and>
     (\<forall>C C' src M M'. (C, src, M) \<in> V \<and> (C', src, M') \<in> V \<longrightarrow> C = C')"

text \<open>An open voting has either not voted, or voted and collected some of the votes.\<close>

definition voting_wf :: "node_id set \<Rightarrow> 'm vote set \<Rightarrow> node_id \<Rightarrow> 'm voting \<Rightarrow> bool" where
  "voting_wf N V n v \<longleftrightarrow>
     (if v_state v = VInitial
      then v_nodes v = {} \<and> v_voted v = {} \<and> v_carries v = [] \<and> n \<notin> voters V
      else v_state v = VVoted \<and> v_nodes v = N \<and> n \<in> v_voted v \<and> v_voted v \<subseteq> voters V \<and>
           v_voted v \<noteq> N \<and> sorted_wrt (<) (carry_ids (v_carries v)) \<and>
           set (v_carries v) = vote_union V (v_voted v))"

text \<open>A decision is the union of all votes, and comes when nobody can vote any more.\<close>

definition decision :: "node_id set \<Rightarrow> 'm vote set \<Rightarrow> (node_id \<Rightarrow> 'm carry_set + 'm voting) \<Rightarrow>
    'm carry_set \<Rightarrow> bool" where
  "decision N V p C \<longleftrightarrow>
     sorted_wrt (<) (carry_ids C) \<and> set C = vote_union V N \<and>
     (\<forall>m \<in> N. m \<in> voters V \<or> (\<exists>C'. p m = Inl C'))"

definition agree_inv :: "node_id set \<Rightarrow> (node_id \<Rightarrow> 'm carry_set + 'm voting) \<Rightarrow> 'm vote set \<Rightarrow>
    'm carry_set set \<Rightarrow> bool" where
  "agree_inv N p V K \<longleftrightarrow>
     votes_wf N V \<and>
     (\<forall>n \<in> N. \<forall>v. p n = Inr v \<longrightarrow> voting_wf N V n v) \<and>
     (\<forall>C. C \<in> K \<or> (\<exists>n \<in> N. p n = Inl C) \<longrightarrow> decision N V p C)"

lemma voters_insert [simp]: "voters (insert (C, src, M) V) = insert src (voters V)"
  by (simp add: voters_def)

lemma vote_union_insert [simp]:
  "vote_union (insert (C, src, M) V) A = (if src \<in> A then set C else {}) \<union> vote_union V A"
  by (auto simp: vote_union_def)

lemma vote_union_voters: "A \<inter> voters V = B \<inter> voters V \<Longrightarrow> vote_union V A = vote_union V B"
  by (auto simp: vote_union_def voters_def) force+

lemma vote_union_member:
  "votes_wf N V \<Longrightarrow> (C, src, M) \<in> V \<Longrightarrow> vote_union V (insert src A) = set C \<union> vote_union V A"
  unfolding votes_wf_def vote_union_def by (auto; blast)

text \<open>An open voting that has not voted excludes any decision.\<close>

lemma undecided:
  assumes "agree_inv N p V K" and "n \<in> N" and "p n = Inr v" and "v_state v = VInitial"
  shows "K = {}" and "\<forall>m \<in> N. \<forall>C. p m \<noteq> Inl C"
proof -
  have "n \<notin> voters V"
    using assms by (fastforce simp: agree_inv_def voting_wf_def)
  with assms(2,3) have "\<not> decision N V p C" for C by (auto simp: decision_def)
  with assms(1) show "K = {}" and "\<forall>m \<in> N. \<forall>C. p m \<noteq> Inl C"
    unfolding agree_inv_def by blast+
qed

text \<open>A first vote.\<close>

lemma agree_first_vote:
  assumes inv: "agree_inv N p V K" and n: "n \<in> N" "p n = Inr v" "v_state v = VInitial"
    and v': "v_state v' = VVoted" "v_nodes v' = N" "v_voted v' = insert n A" "insert n A \<noteq> N"
      "A \<subseteq> voters V" "sorted_wrt (<) (carry_ids (v_carries v'))" "vote_union V A \<subseteq> set (v_carries v')"
  shows "agree_inv N (p(n := Inr v')) (insert (v_carries v', n, N) V) K"
proof -
  let ?V = "insert (v_carries v', n, N) V"
  have fresh: "n \<notin> voters V"
    using inv n by (fastforce simp: agree_inv_def voting_wf_def)
  have wf: "votes_wf N ?V"
  proof -
    from inv have "votes_wf N V" by (simp add: agree_inv_def)
    with fresh n(1) v'(6) show ?thesis
      unfolding votes_wf_def voters_def by (auto simp: image_iff) blast
  qed
  have others: "voting_wf N ?V m w" if "m \<in> N" "m \<noteq> n" "p m = Inr w" for m w
  proof -
    have "voting_wf N V m w" using inv that by (auto simp: agree_inv_def)
    with fresh that(2) show ?thesis
      by (auto simp: voting_wf_def)
  qed
  have "vote_union ?V (insert n A) = set (v_carries v')"
  proof -
    have "vote_union V (insert n A) = vote_union V A"
      using fresh by (intro vote_union_voters) auto
    with v'(7) show ?thesis by auto
  qed
  with v' have own: "voting_wf N ?V n v'"
    by (auto simp: voting_wf_def)
  from undecided [OF inv n] wf own others show ?thesis
    by (auto simp: agree_inv_def)
qed

text \<open>A later vote that does not complete the set.\<close>

lemma agree_collect:
  assumes inv: "agree_inv N p V K" and n: "n \<in> N" "p n = Inr v" "v_state v = VVoted"
    and vote: "(C, src, M) \<in> V"
    and v': "v_state v' = VVoted" "v_nodes v' = N" "v_voted v' = insert src (v_voted v)" "v_voted v' \<noteq> N"
      "sorted_wrt (<) (carry_ids (v_carries v'))" "set (v_carries v') = set (v_carries v) \<union> set C"
  shows "agree_inv N (p(n := Inr v')) V K"
proof -
  have wf: "votes_wf N V" and own: "voting_wf N V n v"
    using inv n by (auto simp: agree_inv_def)
  have "src \<in> voters V" using vote by (force simp: voters_def)
  moreover have "vote_union V (insert src (v_voted v)) = set C \<union> set (v_carries v)"
    using vote_union_member [OF wf vote] own n(3) by (auto simp: voting_wf_def)
  ultimately have "voting_wf N V n v'"
    using own n(3) v' by (auto simp: voting_wf_def)
  moreover have "decision N V (p(n := Inr v')) D" if "decision N V p D" for D
    using that n(2) own n(3) by (auto simp: decision_def voting_wf_def)
  ultimately show ?thesis
    using inv unfolding agree_inv_def by (auto simp: fun_upd_def split: if_splits)
qed

text \<open>A decision, by counting the votes or by being told.\<close>

lemma agree_decide:
  assumes inv: "agree_inv N p V K" and "n \<in> N"
    and "decision N V (p(n := Inl C)) C"
  shows "agree_inv N (p(n := Inl C)) V (insert C K)"
proof -
  have "decision N V (p(n := Inl C)) D" if "decision N V p D" for D
    using that by (auto simp: decision_def)
  with assms show ?thesis
    unfolding agree_inv_def by (auto split: if_splits)
qed

lemma agreement:
  assumes "agree_inv N p V K" and "n \<in> N" "p n = Inl C" and "m \<in> N" "p m = Inl D"
  shows "C = D"
proof -
  from assms have "decision N V p C" "decision N V p D"
    by (auto simp: agree_inv_def)
  then show ?thesis by (auto simp: decision_def intro: sorted_carries_eq)
qed

section \<open>The handlers on one step\<close>

lemma carry_union_nil_sorted: "sorted_wrt (<) (carry_ids (carry_union [] C))"
  by (rule carry_union_sorted) simp

lemma vote_on_initial:
  assumes "v_state v = VInitial" "v_nodes v = {}" "v_voted v = {}" "v_carries v = []" and "N \<noteq> {}"
  shows "voting_vote this C src (ByValue N) v =
    (let v' = v\<lparr>v_carries := carry_union [] C, v_nodes := N, v_voted := {this, src}\<rparr>
     in if {this, src} = N then voting_commit (carry_union [] C) v'
        else (v'\<lparr>v_state := VVoted\<rparr>, [BroadcastVote (carry_union [] C) this N]))"
  using assms by (simp add: voting_vote_def Let_def insert_commute)

lemma vote_on_voted:
  assumes "v_state v = VVoted" "v_nodes v = N" "this \<in> v_voted v" and "N \<noteq> {}"
  shows "voting_vote this C src (ByValue N) v =
    (let v' = v\<lparr>v_carries := carry_union (v_carries v) C, v_voted := insert src (v_voted v)\<rparr>
     in if insert src (v_voted v) = N then voting_commit (carry_union (v_carries v) C) v' else (v', []))"
proof -
  have "insert this (insert src (v_voted v)) = insert src (v_voted v)"
    using assms(3) by auto
  moreover from this have "insert src (v_voted v) = N \<longrightarrow> insert this N = N" by auto
  ultimately show ?thesis using assms by (simp add: voting_vote_def Let_def)
qed

text \<open>
  What a delivered vote does to the step: \<open>r\<close> is the voting afterwards with the effects.
  \<open>after_handler\<close> puts the result back into the view, the votes and the decisions.
\<close>

definition votes_in :: "'m effect list \<Rightarrow> 'm vote set" where
  "votes_in es = {(C, src, M). BroadcastVote C src M \<in> set es}"

definition commits_in :: "'m effect list \<Rightarrow> 'm carry_set set" where
  "commits_in es = {C. BroadcastCommit C \<in> set es}"

lemma effects_in [simp]:
  "votes_in [] = {}" "commits_in [] = {}"
  "votes_in (BroadcastVote C src M # es) = insert (C, src, M) (votes_in es)"
  "votes_in (BroadcastCommit C # es) = votes_in es"
  "votes_in (CompleteStep # es) = votes_in es"
  "votes_in (CleanupAll # es) = votes_in es"
  "commits_in (BroadcastVote C src M # es) = commits_in es"
  "commits_in (BroadcastCommit C # es) = insert C (commits_in es)"
  "commits_in (CompleteStep # es) = commits_in es"
  "commits_in (CleanupAll # es) = commits_in es"
  by (auto simp: votes_in_def commits_in_def)

definition after_handler ::
  "node_id set \<Rightarrow> node_id \<Rightarrow> (node_id \<Rightarrow> 'm carry_set + 'm voting) \<Rightarrow> 'm vote set \<Rightarrow> 'm carry_set set \<Rightarrow>
     'm voting \<times> 'm effect list \<Rightarrow> bool" where
  "after_handler N n p V K r \<longleftrightarrow>
     agree_inv N (p(n := if v_state (fst r) = VCompleted then Inl (v_carries (fst r)) else Inr (fst r)))
       (V \<union> votes_in (snd r)) (K \<union> commits_in (snd r))"

lemma deliver_vote_inv:
  assumes inv: "agree_inv N p V K" and n: "n \<in> N" "p n = Inr v" and vote: "(C, src, M) \<in> V"
    and ids: "same_id_same_msg (set (v_carries v) \<union> set C)"
  shows "after_handler N n p V K (voting_vote n C src (ByValue M) v)"
proof -
  have wf: "votes_wf N V" and own: "voting_wf N V n v"
    using inv n by (auto simp: agree_inv_def)
  have src: "src \<in> N" "M = N" and N: "N \<noteq> {}"
    using wf vote n(1) by (auto simp: votes_wf_def)
  have voter: "src \<in> voters V" using vote by (force simp: voters_def)
  show ?thesis
  proof (cases "v_state v = VInitial")
    case True
    with own have v: "v_nodes v = {}" "v_voted v = {}" "v_carries v = []" and fresh: "n \<notin> voters V"
      by (auto simp: voting_wf_def)
    have C: "set (carry_union [] C) = set C" using ids v(3) by (simp add: carry_union_set)
    have one: "vote_union V {src} = set C"
      using vote_union_member [OF wf vote, of "{}"] by (simp add: vote_union_def)
    note r = vote_on_initial [OF True v N, of n C src]
    show ?thesis
    proof (cases "{n, src} = N")
      case False
      have "agree_inv N (p(n := Inr (v\<lparr>v_carries := carry_union [] C, v_nodes := N, v_voted := {n, src}, v_state := VVoted\<rparr>)))
          (insert (v_carries (v\<lparr>v_carries := carry_union [] C, v_nodes := N, v_voted := {n, src}, v_state := VVoted\<rparr>), n, N) V) K"
        by (rule agree_first_vote [OF inv n True, where A = "{src}"])
          (use False voter C one carry_union_nil_sorted in auto)
      with False r src show ?thesis by (simp add: after_handler_def)
    next
      case all: True
      have "vote_union V N = vote_union V {src}"
        using all fresh voter by (intro vote_union_voters) auto
      then have "decision N V (p(n := Inl (carry_union [] C))) (carry_union [] C)"
        using one C voter carry_union_nil_sorted by (auto simp: decision_def all [symmetric])
      from agree_decide [OF inv n(1) this] all r src show ?thesis
        by (simp add: after_handler_def voting_commit_def v True)
    qed
  next
    case False
    with own have v: "v_state v = VVoted" "v_nodes v = N" "n \<in> v_voted v" "v_voted v \<subseteq> voters V"
      "set (v_carries v) = vote_union V (v_voted v)" "sorted_wrt (<) (carry_ids (v_carries v))"
      by (auto simp: voting_wf_def)
    let ?C = "carry_union (v_carries v) C"
    have C: "set ?C = set (v_carries v) \<union> set C" and s: "sorted_wrt (<) (carry_ids ?C)"
      using ids v(6) by (simp_all add: carry_union_set carry_union_sorted)
    note r = vote_on_voted [OF v(1-3) N, of C src]
    show ?thesis
    proof (cases "insert src (v_voted v) = N")
      case False
      let ?v = "v\<lparr>v_carries := ?C, v_voted := insert src (v_voted v)\<rparr>"
      have "agree_inv N (p(n := Inr ?v)) V K"
        by (rule agree_collect [OF inv n v(1) vote]) (use False v C s in auto)
      with False r src v(1) show ?thesis by (simp add: after_handler_def)
    next
      case True
      have "vote_union V N = set ?C"
        using vote_union_member [OF wf vote, of "v_voted v"] v(5) C True by auto
      then have "decision N V (p(n := Inl ?C)) ?C"
        using s v(4) voter True by (auto simp: decision_def)
      from agree_decide [OF inv n(1) this] True r src v(1) show ?thesis
        by (simp add: after_handler_def voting_commit_def)
    qed
  qed
qed

lemma deliver_commit_inv:
  assumes inv: "agree_inv N p V K" and n: "n \<in> N" "p n = Inr v" and C: "C \<in> K"
  shows "after_handler N n p V K (voting_commit C v)"
proof -
  have "v_state v \<noteq> VCompleted"
    using inv n by (auto simp: agree_inv_def voting_wf_def)
  moreover have "decision N V (p(n := Inl C)) C"
    using inv C by (auto simp: agree_inv_def decision_def)
  ultimately show ?thesis
    using agree_decide [OF inv n(1)] by (simp add: after_handler_def voting_commit_def)
qed

lemma start_inv:
  assumes inv: "agree_inv N p V K" and n: "n \<in> N" "p n = Inr voting_new" and two: "N \<noteq> {n}"
  shows "after_handler N n p V K (voting_start n m N voting_new)"
proof -
  let ?v = "voting_new\<lparr>v_timer := True\<rparr>"
  have v: "v_state ?v = VInitial" "v_nodes ?v = {}" "v_voted ?v = {}" "v_carries ?v = []"
    by (simp_all add: voting_new_def)
  have N: "N \<noteq> {}" using n by auto
  note r = vote_on_initial [OF v N, of n "[m]" n]
  let ?w = "?v\<lparr>v_carries := carry_union [] [m], v_nodes := N, v_voted := {n, n}, v_state := VVoted\<rparr>"
  have "agree_inv N (p(n := Inr ?w)) (insert (v_carries ?w, n, N) V) K"
    by (rule agree_first_vote [OF inv n, where A = "{}"])
      (use two carry_union_nil_sorted [of "[m]"] in \<open>auto simp: voting_new_def vote_union_def\<close>)
  with r two show ?thesis by (auto simp: after_handler_def voting_start_def)
qed

section \<open>The cluster\<close>

record 'm cluster =
  nds :: "node_id \<Rightarrow> 'm node"
  net :: "'m msg set"
  applied :: "(step_id \<times> 'm carry_msg) set"

type_synonym members = "(node_id \<times> endpoint) list"

definition node_cfg :: "members \<Rightarrow> node_id \<Rightarrow> nodes_config" where
  "node_cfg mem n = \<lparr>cfg_this = n, cfg_nodes = mem\<rparr>"

definition member_ids :: "members \<Rightarrow> node_id set" where
  "member_ids mem = set (map fst mem)"

definition cluster_start :: "members \<Rightarrow> 'm cluster \<Rightarrow> bool" where
  "cluster_start mem s \<longleftrightarrow> 2 \<le> card (member_ids mem) \<and>
     (\<forall>n. nds s n = node_new) \<and> net s = {} \<and> applied s = {}"

text \<open>The guards of \<open>apply\<close> keep the two counters of a node from wrapping around.\<close>

inductive cluster_step :: "members \<Rightarrow> 'm cluster \<Rightarrow> 'm cluster \<Rightarrow> bool" for mem where
  applied: "\<lbrakk>n \<in> member_ids mem; next_step (phs (nds s n)) \<noteq> - 1; next_mid (nds s n) \<noteq> - 1;
      node_apply (node_cfg mem n) m (nds s n) = (res, out, nd')\<rbrakk> \<Longrightarrow>
     cluster_step mem s
       \<lparr>nds = (nds s)(n := nd'), net = net s \<union> set out,
        applied = insert (next_step (phs (nds s n)), \<lparr>cm_msg = m, cm_id = (n, next_mid (nds s n))\<rparr>) (applied s)\<rparr>"
| deliver: "\<lbrakk>n \<in> member_ids mem; msg \<in> net s; node_deliver n msg (nds s n) = (out, nd')\<rbrakk> \<Longrightarrow>
     cluster_step mem s \<lparr>nds = (nds s)(n := nd'), net = net s \<union> set out, applied = applied s\<rparr>"

definition votes_at :: "'m msg set \<Rightarrow> step_id \<Rightarrow> 'm vote set" where
  "votes_at ms k = {(C, src, M). VoteMsg k C src M \<in> ms}"

definition commits_at :: "'m msg set \<Rightarrow> step_id \<Rightarrow> 'm carry_set set" where
  "commits_at ms k = {C. CommitMsg k C \<in> ms}"

fun msg_step :: "'m msg \<Rightarrow> step_id" where
  "msg_step (VoteMsg k C src M) = k"
| "msg_step (CommitMsg k C) = k"

fun phase_carries :: "'m carry_set + 'm voting \<Rightarrow> 'm carry_set" where
  "phase_carries (Inl C) = C"
| "phase_carries (Inr v) = v_carries v"

text \<open>Everything on its way or held by a node was applied, at that step.\<close>

definition carried_by :: "node_id set \<Rightarrow> 'm cluster \<Rightarrow> (step_id \<times> 'm carry_msg) set \<Rightarrow> bool" where
  "carried_by N s A \<longleftrightarrow>
     (\<forall>k C src M. VoteMsg k C src M \<in> net s \<longrightarrow> Pair k ` set C \<subseteq> A) \<and>
     (\<forall>k C. CommitMsg k C \<in> net s \<longrightarrow> Pair k ` set C \<subseteq> A) \<and>
     (\<forall>n \<in> N. \<forall>k. Pair k ` set (phase_carries (phase (nds s n) k)) \<subseteq> A)"

definition applied_wf :: "node_id set \<Rightarrow> 'm cluster \<Rightarrow> bool" where
  "applied_wf N s \<longleftrightarrow>
     inj_on (\<lambda>(k, x). cm_id x) (applied s) \<and>
     (\<forall>k x. (k, x) \<in> applied s \<longrightarrow> snd (cm_id x) < next_mid (nds s (fst (cm_id x))))"

definition cluster_inv :: "members \<Rightarrow> 'm cluster \<Rightarrow> bool" where
  "cluster_inv mem s \<longleftrightarrow>
     2 \<le> card (member_ids mem) \<and>
     (\<forall>n \<in> member_ids mem. node_inv (nds s n)) \<and>
     (\<forall>k. agree_inv (member_ids mem) (\<lambda>n. phase (nds s n) k) (votes_at (net s) k) (commits_at (net s) k)) \<and>
     carried_by (member_ids mem) s (applied s) \<and> applied_wf (member_ids mem) s \<and>
     (\<forall>msg \<in> net s. msg_step msg \<noteq> - 1)"

lemma msgs_of_mem:
  "VoteMsg k C src M \<in> set (msgs_of i es) \<longleftrightarrow> k = i \<and> BroadcastVote C src M \<in> set es"
  "CommitMsg k C \<in> set (msgs_of i es) \<longleftrightarrow> k = i \<and> BroadcastCommit C \<in> set es"
  by (induction i es rule: msgs_of.induct) auto

lemma msgs_of_step: "msg \<in> set (msgs_of i es) \<Longrightarrow> msg_step msg = i"
  by (induction i es rule: msgs_of.induct) auto

lemma net_at_union:
  "votes_at (ms \<union> set (msgs_of i es)) k = votes_at ms k \<union> (if k = i then votes_in es else {})"
  "commits_at (ms \<union> set (msgs_of i es)) k = commits_at ms k \<union> (if k = i then commits_in es else {})"
  by (auto simp: votes_at_def commits_at_def votes_in_def commits_in_def msgs_of_mem)

text \<open>A handler carries on only what the voting and the call brought.\<close>

definition carries_only :: "'m carry_msg set \<Rightarrow> 'm voting \<times> 'm effect list \<Rightarrow> bool" where
  "carries_only A r \<longleftrightarrow> set (v_carries (fst r)) \<subseteq> A \<and>
     (\<forall>C src M. BroadcastVote C src M \<in> set (snd r) \<longrightarrow> set C \<subseteq> A) \<and>
     (\<forall>C. BroadcastCommit C \<in> set (snd r) \<longrightarrow> set C \<subseteq> A)"

lemma carry_union_subset: "set (carry_union s t) \<subseteq> set s \<union> set t"
proof -
  have "set (carry_insert m s) \<subseteq> insert m (set s)" for m :: "'a carry_msg" and s
    by (induction s) auto
  then show ?thesis
    unfolding carry_union_def by (induction t arbitrary: s) (simp, fastforce)
qed

lemma voting_vote_carries:
  "carries_only (set (v_carries v) \<union> set C) (voting_vote this C src ref v)"
  using carry_union_subset [of "v_carries v" C]
  by (auto simp: carries_only_def voting_vote_def voting_commit_def Let_def)

lemma voting_commit_carries:
  "carries_only (set (v_carries v) \<union> set C) (voting_commit C v)"
  by (auto simp: carries_only_def voting_commit_def Let_def)

lemma carried_by_mono: "carried_by N s A \<Longrightarrow> A \<subseteq> B \<Longrightarrow> carried_by N s B"
  unfolding carried_by_def by (meson order.trans)

lemma phase_moved:
  assumes "phase nd' = (phase (nds s n))(i := q)"
  shows "(\<lambda>m. phase (((nds s)(n := nd')) m) k) =
    (if k = i then (\<lambda>m. phase (nds s m) i)(n := q) else (\<lambda>m. phase (nds s m) k))"
  using assms by (auto simp: fun_eq_iff)

text \<open>One handler on one node keeps the invariant.\<close>

lemma cluster_move:
  assumes inv: "cluster_inv mem s" and n: "n \<in> member_ids mem" and i: "i \<noteq> - 1"
    and st: "stepped i f (nds s n) out nd'" and mid: "next_mid (nds s n) \<le> next_mid nd'"
    and agree: "\<And>v. phase (nds s n) i = Inr v \<Longrightarrow>
      after_handler (member_ids mem) n (\<lambda>m. phase (nds s m) i) (votes_at (net s) i) (commits_at (net s) i) (f v)"
    and only: "\<And>v. phase (nds s n) i = Inr v \<Longrightarrow> carries_only {x. (i, x) \<in> A} (f v)"
    and A: "applied s \<subseteq> A" "applied_wf (member_ids mem) (s\<lparr>nds := (nds s)(n := nd'), applied := A\<rparr>)"
  shows "cluster_inv mem \<lparr>nds = (nds s)(n := nd'), net = net s \<union> set out, applied = A\<rparr>"
proof -
  let ?N = "member_ids mem"
  let ?s = "\<lparr>nds = (nds s)(n := nd'), net = net s \<union> set out, applied = A\<rparr>"
  have wf: "applied_wf ?N ?s" using A(2) by (simp add: applied_wf_def)
  have "carried_by ?N s (applied s)" using inv by (simp add: cluster_inv_def)
  from carried_by_mono [OF this A(1)] have carried: "carried_by ?N s A" .
  show ?thesis
  proof (cases "phase (nds s n) i")
    case (Inl C)
    with st have "out = []" "phase nd' = phase (nds s n)" "node_inv nd'"
      by (simp_all add: stepped_def)
    moreover from this have "phase (((nds s)(n := nd')) m) = phase (nds s m)" for m by simp
    ultimately show ?thesis
      using inv carried wf by (auto simp: cluster_inv_def carried_by_def)
  next
    case (Inr v)
    define q where "q = (if v_state (fst (f v)) = VCompleted then Inl (v_carries (fst (f v))) else Inr (fst (f v)))"
    from st Inr have out: "out = msgs_of i (snd (f v))" and ph: "phase nd' = (phase (nds s n))(i := q)"
      and nd': "node_inv nd'" by (simp_all add: stepped_def q_def)
    have "agree_inv ?N (\<lambda>m. phase (nds ?s m) k) (votes_at (net ?s) k) (commits_at (net ?s) k)" for k
    proof (cases "k = i")
      case True
      with agree [OF Inr] show ?thesis
        using phase_moved [OF ph, of k]
        by (simp add: after_handler_def net_at_union out q_def)
    next
      case False
      moreover have "agree_inv ?N (\<lambda>m. phase (nds s m) k) (votes_at (net s) k) (commits_at (net s) k)"
        using inv by (simp add: cluster_inv_def)
      ultimately show ?thesis
        using phase_moved [OF ph, of k] by (simp add: net_at_union out)
    qed
    moreover have "carried_by ?N ?s A"
    proof -
      have "set (phase_carries q) \<subseteq> {x. (i, x) \<in> A}"
        using only [OF Inr] by (simp add: q_def carries_only_def)
      then have "Pair k ` set (phase_carries (phase nd' k)) \<subseteq> A" for k
        using carried n ph by (auto simp: carried_by_def)
      moreover have "Pair k ` set C \<subseteq> A" if "VoteMsg k C src M \<in> net ?s" for k C src M
      proof (cases "VoteMsg k C src M \<in> net s")
        case True
        with carried show ?thesis unfolding carried_by_def by blast
      next
        case False
        with that have "k = i" "BroadcastVote C src M \<in> set (snd (f v))"
          by (simp_all add: out msgs_of_mem)
        with only [OF Inr] show ?thesis unfolding carries_only_def by blast
      qed
      moreover have "Pair k ` set C \<subseteq> A" if "CommitMsg k C \<in> net ?s" for k C
      proof (cases "CommitMsg k C \<in> net s")
        case True
        with carried show ?thesis unfolding carried_by_def by blast
      next
        case False
        with that have "k = i" "BroadcastCommit C \<in> set (snd (f v))"
          by (simp_all add: out msgs_of_mem)
        with only [OF Inr] show ?thesis unfolding carries_only_def by blast
      qed
      moreover have "Pair k ` set (phase_carries (phase (nds s m) k)) \<subseteq> A" if "m \<in> ?N" for m k
        using carried that unfolding carried_by_def by blast
      ultimately show ?thesis unfolding carried_by_def by simp
    qed
    moreover have "\<forall>msg \<in> net ?s. msg_step msg \<noteq> - 1"
    proof -
      have "msg_step msg = i" if "msg \<in> set out" for msg
        using that unfolding out by (rule msgs_of_step)
      with inv i show ?thesis by (auto simp: cluster_inv_def)
    qed
    ultimately show ?thesis using inv nd' wf by (simp add: cluster_inv_def)
  qed
qed

lemma applied_same:
  "\<lbrakk>applied_wf N s; A \<subseteq> {x. (k, x) \<in> applied s}\<rbrakk> \<Longrightarrow> same_id_same_msg A"
  unfolding applied_wf_def same_id_same_msg_def inj_on_def by fastforce

lemma carries_only_mono: "carries_only A r \<Longrightarrow> A \<subseteq> B \<Longrightarrow> carries_only B r"
  unfolding carries_only_def by (meson order.trans)

lemma applied_wf_same:
  assumes "applied_wf N s" and "\<And>m. next_mid (nds s m) \<le> next_mid (f m)"
  shows "applied_wf N (s\<lparr>nds := f, applied := applied s\<rparr>)"
  using assms unfolding applied_wf_def by (auto intro: order.strict_trans2)

lemma applied_wf_apply:
  assumes wf: "applied_wf N s" and mid: "next_mid (nds s n) \<noteq> - 1"
    and mid': "next_mid nd' = next_mid (nds s n) + 1" and x: "cm_id x = (n, next_mid (nds s n))"
  shows "applied_wf N (s\<lparr>nds := (nds s)(n := nd'), applied := insert (k, x) (applied s)\<rparr>)"
  unfolding applied_wf_def
proof (intro conjI allI impI)
  have old: "snd (cm_id y) < next_mid (nds s (fst (cm_id y)))" if "(j, y) \<in> applied s" for j y
    using wf that by (auto simp: applied_wf_def)
  have "cm_id x \<noteq> (case p of (j, y) \<Rightarrow> cm_id y)" if "p \<in> applied s" for p
    using that old x by (cases p) fastforce
  then have "cm_id x \<notin> (\<lambda>(k, x). cm_id x) ` applied s" by blast
  with wf show "inj_on (\<lambda>(k, x). cm_id x) (applied (s\<lparr>nds := (nds s)(n := nd'), applied := insert (k, x) (applied s)\<rparr>))"
    by (auto simp: applied_wf_def inj_on_insert)
  fix j y assume "(j, y) \<in> applied (s\<lparr>nds := (nds s)(n := nd'), applied := insert (k, x) (applied s)\<rparr>)"
  then have "y = x \<or> snd (cm_id y) < next_mid (nds s (fst (cm_id y)))" using old by auto
  then show "snd (cm_id y) < next_mid (nds (s\<lparr>nds := (nds s)(n := nd'), applied := insert (k, x) (applied s)\<rparr>) (fst (cm_id y)))"
    by (auto simp: mid' word_less_Suc_not_max [OF mid] x)
qed

lemma cluster_deliver_inv:
  assumes inv: "cluster_inv mem s" and n: "n \<in> member_ids mem" and msg: "msg \<in> net s"
    and run: "node_deliver n msg (nds s n) = (out, nd')"
  shows "cluster_inv mem \<lparr>nds = (nds s)(n := nd'), net = net s \<union> set out, applied = applied s\<rparr>"
proof -
  let ?N = "member_ids mem"
  define i where "i = msg_step msg"
  define f :: "'a voting \<Rightarrow> 'a voting \<times> 'a effect list" where
    "f = (case msg of VoteMsg i C src M \<Rightarrow> voting_vote n C src (ByValue M) | CommitMsg i C \<Rightarrow> voting_commit C)"
  have call: "node_call i f (nds s n) = (out, nd')"
    using run by (cases msg) (simp_all add: f_def i_def)
  have i: "i \<noteq> - 1" and nv: "node_inv (nds s n)" and carried: "carried_by ?N s (applied s)"
    and wf: "applied_wf ?N s" using inv n msg by (auto simp: cluster_inv_def i_def)
  have "voting_moves v (f v)" for v
    unfolding f_def by (cases msg) (simp_all add: voting_vote_moves voting_commit_moves)
  from node_call_spec [OF nv i this call]
  have st: "stepped i f (nds s n) out nd'" and mid: "next_mid nd' = next_mid (nds s n)" by simp_all
  have wf': "applied_wf ?N (s\<lparr>nds := (nds s)(n := nd'), applied := applied s\<rparr>)"
    using wf by (rule applied_wf_same) (simp add: mid)
  have agree: "agree_inv ?N (\<lambda>m. phase (nds s m) i) (votes_at (net s) i) (commits_at (net s) i)"
    using inv by (simp add: cluster_inv_def)
  show ?thesis
  proof (rule cluster_move [OF inv n i st _ _ _ order.refl wf'])
    show "next_mid (nds s n) \<le> next_mid nd'" by (simp add: mid)
  next
    fix v assume v: "phase (nds s n) i = Inr v"
    have vc: "set (v_carries v) \<subseteq> {x. (i, x) \<in> applied s}"
      using carried n v unfolding carried_by_def by fastforce
    show "after_handler ?N n (\<lambda>m. phase (nds s m) i) (votes_at (net s) i) (commits_at (net s) i) (f v)"
    proof (cases msg)
      case (VoteMsg k C src M)
      then have vote: "(C, src, M) \<in> votes_at (net s) i" using msg by (simp add: votes_at_def i_def)
      have "set C \<subseteq> {x. (i, x) \<in> applied s}"
        using carried msg VoteMsg unfolding carried_by_def by (fastforce simp: i_def)
      with vc wf have "same_id_same_msg (set (v_carries v) \<union> set C)"
        by (intro applied_same) auto
      from deliver_vote_inv [OF agree n v vote this] VoteMsg show ?thesis by (simp add: f_def)
    next
      case (CommitMsg k C)
      then have "C \<in> commits_at (net s) i" using msg by (simp add: commits_at_def i_def)
      from deliver_commit_inv [OF agree n v this] CommitMsg show ?thesis by (simp add: f_def)
    qed
    show "carries_only {x. (i, x) \<in> applied s} (f v)"
    proof (cases msg)
      case (VoteMsg k C src M)
      have "set C \<subseteq> {x. (i, x) \<in> applied s}"
        using carried msg VoteMsg unfolding carried_by_def by (fastforce simp: i_def)
      with vc show ?thesis
        unfolding f_def VoteMsg by (auto intro: carries_only_mono [OF voting_vote_carries])
    next
      case (CommitMsg k C)
      have "set C \<subseteq> {x. (i, x) \<in> applied s}"
        using carried msg CommitMsg unfolding carried_by_def by (fastforce simp: i_def)
      with vc show ?thesis
        unfolding f_def CommitMsg by (auto intro: carries_only_mono [OF voting_commit_carries])
    qed
  qed
qed

lemma cluster_apply_inv:
  assumes inv: "cluster_inv mem s" and n: "n \<in> member_ids mem"
    and i: "next_step (phs (nds s n)) \<noteq> - 1" and mid: "next_mid (nds s n) \<noteq> - 1"
    and run: "node_apply (node_cfg mem n) m (nds s n) = (res, out, nd')"
  defines "x \<equiv> \<lparr>cm_msg = m, cm_id = (n, next_mid (nds s n))\<rparr>" and "k \<equiv> next_step (phs (nds s n))"
  shows "cluster_inv mem \<lparr>nds = (nds s)(n := nd'), net = net s \<union> set out, applied = insert (k, x) (applied s)\<rparr>"
proof -
  let ?N = "member_ids mem"
  have nv: "node_inv (nds s n)" and wf: "applied_wf ?N s" and two: "2 \<le> card ?N"
    using inv n by (auto simp: cluster_inv_def)
  have cfg: "nodesSet (node_cfg mem n) = ?N" "thisNode (node_cfg mem n) = n"
    by (simp_all add: node_cfg_def nodesSet_def member_ids_def thisNode_def)
  from node_apply_spec [OF nv i run]
  have new: "phase (nds s n) k = Inr voting_new"
    and st: "stepped k (voting_start n x ?N) (nds s n) out nd'"
    and mid': "next_mid nd' = next_mid (nds s n) + 1"
    by (simp_all add: cfg x_def k_def)
  note less = word_less_Suc_not_max [OF mid]
  have wf': "applied_wf ?N (s\<lparr>nds := (nds s)(n := nd'), applied := insert (k, x) (applied s)\<rparr>)"
    by (rule applied_wf_apply [OF wf mid mid']) (simp add: x_def)
  have "?N \<noteq> {n}" using two by auto
  have agree: "agree_inv ?N (\<lambda>m. phase (nds s m) k) (votes_at (net s) k) (commits_at (net s) k)"
    using inv by (simp add: cluster_inv_def)
  show ?thesis
  proof (rule cluster_move [OF inv n _ st _ _ _ _ wf'])
    show "k \<noteq> - 1" using i by (simp add: k_def)
    show "next_mid (nds s n) \<le> next_mid nd'" using less by (simp add: mid' order.strict_implies_order)
    show "applied s \<subseteq> insert (k, x) (applied s)" by auto
  next
    fix v assume v: "phase (nds s n) k = Inr v"
    with new have "v = voting_new" by simp
    with start_inv [OF agree n new \<open>?N \<noteq> {n}\<close>, of x]
    show "after_handler ?N n (\<lambda>m. phase (nds s m) k) (votes_at (net s) k) (commits_at (net s) k) (voting_start n x ?N v)"
      by simp
    have "carries_only {x} (voting_start n x ?N v)"
      using voting_vote_carries [of "v\<lparr>v_timer := True\<rparr>" "[x]"] \<open>v = voting_new\<close>
      by (simp add: voting_start_def voting_new_def)
    then show "carries_only {y. (k, y) \<in> insert (k, x) (applied s)} (voting_start n x ?N v)"
      by (rule carries_only_mono) auto
  qed
qed

lemma cluster_step_inv: "cluster_inv mem s \<Longrightarrow> cluster_step mem s t \<Longrightarrow> cluster_inv mem t"
  by (erule cluster_step.cases) (auto intro: cluster_apply_inv cluster_deliver_inv)

lemma cluster_start_inv:
  fixes s :: "'m cluster"
  assumes "cluster_start mem s"
  shows "cluster_inv mem s"
proof -
  from assms have s: "nds s n = node_new" "net s = {}" "applied s = {}" "2 \<le> card (member_ids mem)" for n
    by (simp_all add: cluster_start_def)
  have "agree_inv N (\<lambda>n. Inr (voting_new :: 'm voting)) {} {}" for N :: "node_id set"
    by (simp add: agree_inv_def votes_wf_def voting_wf_def voting_new_def voters_def)
  moreover have "votes_at ({} :: 'm msg set) k = {}" "commits_at ({} :: 'm msg set) k = {}" for k
    by (simp_all add: votes_at_def commits_at_def)
  moreover have "v_carries (voting_new :: 'm voting) = []" by (simp add: voting_new_def)
  ultimately show ?thesis using s
    by (simp add: cluster_inv_def node_inv_new phase_new carried_by_def applied_wf_def)
qed

interpretation cluster: step_system "cluster_start mem" "cluster_step mem" "cluster_inv mem" for mem
  by unfold_locales (auto intro: cluster_start_inv cluster_step_inv)

section \<open>What the cluster promises\<close>

lemma logs_agree:
  assumes "cluster_inv mem s" and "n \<in> member_ids mem" "m \<in> member_ids mem"
    and "j < length (executed (nds s n))" "j < length (executed (nds s m))"
  shows "executed (nds s n) ! j = executed (nds s m) ! j"
proof -
  have nv: "node_inv (nds s n)" "node_inv (nds s m)"
    and "agree_inv (member_ids mem) (\<lambda>n. phase (nds s n) (of_nat j))
      (votes_at (net s) (of_nat j)) (commits_at (net s) (of_nat j))"
    using assms by (auto simp: cluster_inv_def)
  from agreement [OF this(3) assms(2) executed_phase(2) [OF nv(1) assms(4)] assms(3)
      executed_phase(2) [OF nv(2) assms(5)]]
  show ?thesis
    using executed_phase(1) [OF nv(1) assms(4)] executed_phase(1) [OF nv(2) assms(5)]
    by (simp add: prod_eq_iff)
qed

lemma logs_prefix:
  assumes inv: "cluster_inv mem s" and "n \<in> member_ids mem" and "m \<in> member_ids mem"
  shows "prefix (executed (nds s n)) (executed (nds s m)) \<or>
    prefix (executed (nds s m)) (executed (nds s n))"
proof (cases "length (executed (nds s n)) \<le> length (executed (nds s m))")
  case True
  with logs_agree [OF assms] show ?thesis by (intro disjI1 prefixI_nth) auto
next
  case False
  with logs_agree [OF assms(1,3,2)] show ?thesis by (intro disjI2 prefixI_nth) auto
qed

text \<open>The messages a node executed, in order.\<close>

definition node_msgs :: "'m node \<Rightarrow> 'm list" where
  "node_msgs nd = concat (map (\<lambda>(k, C). map cm_msg C) (executed nd))"

lemma node_msgs_prefix:
  assumes "prefix (executed n) (executed m)"
  shows "\<exists>ops. node_msgs m = node_msgs n @ ops"
  using assms by (auto simp: prefix_def node_msgs_def)

text \<open>A run to use the theorems on: two nodes, the first applies a message, the second
  hears its vote and decides.\<close>

definition two_nodes :: members where
  "two_nodes = [(1, port 8001), (2, port 8002)]"

definition two_start :: "'m cluster" where
  "two_start = \<lparr>nds = \<lambda>_. node_new, net = {}, applied = {}\<rparr>"

lemma two_start: "cluster_start two_nodes two_start"
  by (simp add: cluster_start_def two_start_def member_ids_def two_nodes_def)

definition first_carry :: "'m \<Rightarrow> 'm carry_msg" where "first_carry x = \<lparr>cm_msg = x, cm_id = (1, 0)\<rparr>"

definition two_voted :: "'m \<Rightarrow> 'm cluster" where
  "two_voted x = \<lparr>nds = (nds two_start)(1 := snd (snd (node_apply (node_cfg two_nodes 1) x (nds two_start 1)))),
     net = {VoteMsg 0 [first_carry x] 1 {1, 2}}, applied = {(0, first_carry x)}\<rparr>"

definition two_decided :: "'m \<Rightarrow> 'm cluster" where
  "two_decided x = \<lparr>nds = (nds (two_voted x))(2 := snd (node_deliver 2 (VoteMsg 0 [first_carry x] 1 {1, 2}) (nds (two_voted x) 2))),
     net = {VoteMsg 0 [first_carry x] 1 {1, 2}, CommitMsg 0 [first_carry x]}, applied = {(0, first_carry x)}\<rparr>"

lemma two_members: "member_ids two_nodes = {1, 2}"
  by (simp add: member_ids_def two_nodes_def)

lemma two_run: "(cluster_step two_nodes)\<^sup>*\<^sup>* two_start (two_decided (x :: 'm :: equal))"
proof -
  have a: "node_apply (node_cfg two_nodes 1) x (nds two_start 1) =
      (fst (node_apply (node_cfg two_nodes 1) x (nds two_start 1)), [VoteMsg 0 [first_carry x] 1 {1, 2}],
       nds (two_voted x) 1)"
  proof -
    have "fst (snd (node_apply (node_cfg two_nodes 1) x (nds two_start 1))) = [VoteMsg 0 [first_carry x] 1 {1, 2}]"
      by code_simp
    then show ?thesis by (intro prod_eqI) (simp_all add: two_voted_def)
  qed
  have "next_step (phs (nds (two_start :: 'm cluster) 1)) = 0" "next_mid (nds (two_start :: 'm cluster) 1) = 0"
    by code_simp+
  with cluster_step.applied [of 1 two_nodes two_start, OF _ _ _ a]
  have 1: "cluster_step two_nodes two_start (two_voted x)"
    by (simp add: two_members two_voted_def two_start_def first_carry_def)
  have "fst (node_deliver 2 (VoteMsg 0 [first_carry x] 1 {1, 2}) (nds (two_voted x) 2)) = [CommitMsg 0 [first_carry x]]"
    by code_simp
  then have b: "node_deliver 2 (VoteMsg 0 [first_carry x] 1 {1, 2}) (nds (two_voted x) 2) =
      ([CommitMsg 0 [first_carry x]], nds (two_decided x) 2)"
    by (intro prod_eqI) (simp_all add: two_decided_def)
  from cluster_step.deliver [of 2 two_nodes "VoteMsg 0 [first_carry x] 1 {1, 2}" "two_voted x", OF _ _ b]
  have 2: "cluster_step two_nodes (two_voted x) (two_decided x)"
    by (simp add: two_members two_decided_def two_voted_def insert_commute)
  from 1 2 show ?thesis by (meson converse_rtranclp_into_rtranclp r_into_rtranclp)
qed

lemma two_executed: "executed (nds (two_decided (x :: 'm :: equal)) 2) = [(0, [first_carry x])]"
  by code_simp

text \<open>C1: State machine replication: whatever the nodes apply and however the network delays,
  reorders, duplicates or loses the calls, any two nodes have executed the same sets of
  messages at the same steps, one of them possibly further than the other.\<close>

theorem replicas_agree:
  assumes "cluster_start mem s0" and "(cluster_step mem)\<^sup>*\<^sup>* s0 s"
    and "n \<in> member_ids mem" and "m \<in> member_ids mem"
  shows "prefix (executed (nds s n)) (executed (nds s m)) \<or>
    prefix (executed (nds s m)) (executed (nds s n))"
  by (rule logs_prefix [OF cluster.inv_reachable [OF assms(1,2)] assms(3,4)])

lemma replicas_agree_witness:
  "executed (nds (two_decided (7 :: nat)) 2) = [(0, [first_carry 7])] \<and>
   (prefix (executed (nds (two_decided (7 :: nat)) 2)) (executed (nds (two_decided (7 :: nat)) 1)) \<or>
    prefix (executed (nds (two_decided (7 :: nat)) 1)) (executed (nds (two_decided (7 :: nat)) 2)))"
  using replicas_agree [OF two_start two_run [of 7], of 2 1] by (simp add: two_members two_executed)

lemma executed_applied:
  assumes inv: "cluster_inv mem s" and n: "n \<in> member_ids mem"
    and j: "j < length (executed (nds s n))"
  shows "sorted_wrt (<) (carry_ids (snd (executed (nds s n) ! j)))"
    and "Pair (of_nat j) ` set (snd (executed (nds s n) ! j)) \<subseteq> applied s"
proof -
  have nv: "node_inv (nds s n)" using inv n by (simp add: cluster_inv_def)
  note ph = executed_phase(2) [OF nv j]
  have "agree_inv (member_ids mem) (\<lambda>n. phase (nds s n) (of_nat j))
      (votes_at (net s) (of_nat j)) (commits_at (net s) (of_nat j))"
    using inv by (simp add: cluster_inv_def)
  with ph n show "sorted_wrt (<) (carry_ids (snd (executed (nds s n) ! j)))"
    unfolding agree_inv_def decision_def by blast
  have "carried_by (member_ids mem) s (applied s)" using inv by (simp add: cluster_inv_def)
  with ph n show "Pair (of_nat j) ` set (snd (executed (nds s n) ! j)) \<subseteq> applied s"
    unfolding carried_by_def by (metis phase_carries.simps(1))
qed

lemma executed_step_numbers:
  assumes "node_inv nd" "j < length (executed nd)"
  shows "fst (executed nd ! j) = of_nat j" "unat (of_nat j :: step_id) = j"
proof -
  show "fst (executed nd ! j) = of_nat j" by (rule executed_phase(1) [OF assms])
  have "j < unat (cur_step (phs nd))" using assms by (simp add: node_inv_def phantoms_wf_def)
  also have "\<dots> < 2 ^ LENGTH(64)" by (rule unsigned_less)
  finally show "unat (of_nat j :: step_id) = j" by (rule of_nat_inverse [OF refl])
qed

text \<open>Steps whose sets are ordered and were applied for them, with unique numbers, hold each
  message once.\<close>

lemma valid_log:
  assumes nv: "node_inv nd" and inj: "inj_on (\<lambda>(k, x). cm_id x) A"
    and ord: "\<And>j. j < length (executed nd) \<Longrightarrow> sorted_wrt (<) (carry_ids (snd (executed nd ! j)))"
    and ap: "\<And>j. j < length (executed nd) \<Longrightarrow> Pair (of_nat j) ` set (snd (executed nd ! j)) \<subseteq> A"
  shows "set (concat (map (\<lambda>(k, C). map (Pair k) C) (executed nd))) \<subseteq> A \<and>
    distinct (concat (map (\<lambda>(k, C). carry_ids C) (executed nd)))"
proof -
  let ?l = "executed nd"
  have disj: "set (carry_ids (snd (?l ! i))) \<inter> set (carry_ids (snd (?l ! j))) = {}"
    if ij: "i < length ?l" "j < length ?l" "i \<noteq> j" for i j
  proof (rule ccontr)
    assume "\<not> ?thesis"
    then obtain c where c: "c \<in> cm_id ` set (snd (?l ! i))" "c \<in> cm_id ` set (snd (?l ! j))"
      unfolding set_map by blast
    obtain x where x: "c = cm_id x" "x \<in> set (snd (?l ! i))" using c(1) by (rule imageE)
    obtain y where y: "c = cm_id y" "y \<in> set (snd (?l ! j))" using c(2) by (rule imageE)
    from ap ij x y have "(of_nat i, x) \<in> A" "(of_nat j, y) \<in> A" by blast+
    with inj x y have "(of_nat i :: step_id) = of_nat j" unfolding inj_on_def by fastforce
    with executed_step_numbers(2) [OF nv ij(1)] executed_step_numbers(2) [OF nv ij(2)] ij(3)
    show False by metis
  qed
  have "set (concat (map (\<lambda>(k, C). map (Pair k) C) ?l)) \<subseteq> A"
  proof
    fix y assume "y \<in> set (concat (map (\<lambda>(k, C). map (Pair k) C) ?l))"
    then obtain e where "e \<in> set ?l" "y \<in> Pair (fst e) ` set (snd e)"
      by (auto simp: split_beta)
    then obtain j where "j < length ?l" "y \<in> Pair (fst (?l ! j)) ` set (snd (?l ! j))"
      by (auto simp: in_set_conv_nth)
    with ap [of j] executed_step_numbers(1) [OF nv, of j] show "y \<in> A" by auto
  qed
  moreover have "distinct (concat (map (\<lambda>e. carry_ids (snd e)) ?l))"
    using ord disj by (intro distinct_concat_nth) (simp_all add: strict_sorted_iff)
  ultimately show ?thesis by (simp add: case_prod_unfold)
qed

text \<open>C4: Exactly-once execution: every message a node executes was given to \<open>apply\<close> by some
  node, for the very step at which it is executed, and no message is executed twice by one
  node, neither within a step nor at two steps.\<close>

theorem executed_once:
  assumes "cluster_start mem s0" and "(cluster_step mem)\<^sup>*\<^sup>* s0 s" and "n \<in> member_ids mem"
  shows "set (concat (map (\<lambda>(k, C). map (Pair k) C) (executed (nds s n)))) \<subseteq> applied s \<and>
    distinct (concat (map (\<lambda>(k, C). carry_ids C) (executed (nds s n))))"
proof -
  note inv = cluster.inv_reachable [OF assms(1,2)]
  have "node_inv (nds s n)" "inj_on (\<lambda>(k, x). cm_id x) (applied s)"
    using inv assms(3) by (simp_all add: cluster_inv_def applied_wf_def)
  then show ?thesis by (rule valid_log) (rule executed_applied [OF inv assms(3)], assumption)+
qed

lemma executed_once_witness:
  "{(0, first_carry 7)} \<subseteq> applied (two_decided (7 :: nat)) \<and>
   distinct (concat (map (\<lambda>(k, C). carry_ids C) (executed (nds (two_decided (7 :: nat)) 2))))"
  using executed_once [OF two_start two_run [of 7], of 2] by (simp add: two_members two_executed)

end
