(* ===== verification/Timeouts.thy ===== *)
theory Timeouts
  imports Cluster
begin

text \<open>
  What the timeouts of \<open>Voting\<close> cost. The availability timer (500 ms) lets the nodes whose
  votes did arrive go on without the others. The runs below are runs of the cluster in
  which, besides the steps of \<open>Cluster\<close>, the timer of a step may fire on a node that started
  it, and the journey of \<open>cleanupAll\<close> runs on a node that failed, some time after the timer; they
  are given as scripts and evaluated.
\<close>

inductive timed_step :: "members \<Rightarrow> 'm cluster \<Rightarrow> 'm cluster \<Rightarrow> bool" for mem where
  cluster: "cluster_step mem s t \<Longrightarrow> timed_step mem s t"
| timeout: "\<lbrakk>n \<in> member_ids mem; steps (phs (nds s n)) k = Some w; v_timer (wp_obj w);
      node_timeout n k (nds s n) = (out, nd')\<rbrakk> \<Longrightarrow>
     timed_step mem s \<lparr>nds = (nds s)(n := nd'), net = net s \<union> set out, applied = applied s\<rparr>"
| cleanup: "\<lbrakk>n \<in> member_ids mem; 0 < cleanups (nds s n)\<rbrakk> \<Longrightarrow>
     timed_step mem s (s\<lparr>nds := (nds s)(n := node_cleanup (nds s n))\<rparr>)"

section \<open>Scripts\<close>

datatype 'm event = EApply node_id 'm | EDeliver node_id "'m msg" | ETimeout node_id step_id

text \<open>One event, when it is possible: the network is a list here, so that it evaluates.\<close>

fun run_event :: "members \<Rightarrow> 'm event \<Rightarrow> (node_id \<Rightarrow> 'm node) \<times> 'm msg list \<Rightarrow>
    ((node_id \<Rightarrow> 'm node) \<times> 'm msg list) option" where
  "run_event mem (EApply n m) (f, ms) =
     (if n \<in> set (map fst mem) \<and> next_step (phs (f n)) \<noteq> - 1 \<and> next_mid (f n) \<noteq> - 1
      then let (res, out, nd) = node_apply (node_cfg mem n) m (f n) in Some (f(n := nd), ms @ out)
      else None)"
| "run_event mem (EDeliver n msg) (f, ms) =
     (if n \<in> set (map fst mem) \<and> List.member ms msg
      then let (out, nd) = node_deliver n msg (f n) in Some (f(n := nd), ms @ out)
      else None)"
| "run_event mem (ETimeout n k) (f, ms) =
     (if n \<in> set (map fst mem) \<and> (case steps (phs (f n)) k of Some w \<Rightarrow> v_timer (wp_obj w) | None \<Rightarrow> False)
      then let (out, nd) = node_timeout n k (f n) in Some (f(n := nd), ms @ out)
      else None)"

fun run_events :: "members \<Rightarrow> 'm event list \<Rightarrow> (node_id \<Rightarrow> 'm node) \<times> 'm msg list \<Rightarrow>
    ((node_id \<Rightarrow> 'm node) \<times> 'm msg list) option" where
  "run_events mem [] c = Some c"
| "run_events mem (e # es) c = Option.bind (run_event mem e c) (run_events mem es)"

lemma run_event_step:
  assumes "run_event mem e (nds s, ms) = Some (f', ms')" and "net s = set ms"
  shows "\<exists>t. timed_step mem s t \<and> nds t = f' \<and> net t = set ms'"
proof (cases e)
  case (EApply n m)
  obtain res out nd where a: "node_apply (node_cfg mem n) m (nds s n) = (res, out, nd)"
    by (rule prod_cases3)
  with assms(1) EApply have g: "n \<in> member_ids mem" "next_step (phs (nds s n)) \<noteq> - 1" "next_mid (nds s n) \<noteq> - 1"
    and eq: "f' = (nds s)(n := nd)" "ms' = ms @ out"
    by (auto simp: member_ids_def split: if_splits)
  from timed_step.cluster [OF cluster_step.applied [OF g a]] eq assms(2)
  show ?thesis by (force intro: exI)
next
  case (EDeliver n msg)
  obtain out nd where d: "node_deliver n msg (nds s n) = (out, nd)" by fastforce
  with assms EDeliver have g: "n \<in> member_ids mem" "msg \<in> net s"
    and eq: "f' = (nds s)(n := nd)" "ms' = ms @ out"
    by (auto simp: member_ids_def split: if_splits)
  from timed_step.cluster [OF cluster_step.deliver [OF g d]] eq assms(2)
  show ?thesis by (force intro: exI)
next
  case (ETimeout n k)
  obtain out nd where d: "node_timeout n k (nds s n) = (out, nd)" by fastforce
  from assms(1) ETimeout obtain w where g: "n \<in> member_ids mem" "steps (phs (nds s n)) k = Some w" "v_timer (wp_obj w)"
    by (auto simp: member_ids_def split: if_splits option.splits)
  with assms ETimeout d have eq: "f' = (nds s)(n := nd)" "ms' = ms @ out"
    by (auto simp: member_ids_def)
  from timed_step.timeout [OF g d] eq assms(2) show ?thesis by (force intro: exI)
qed

lemma run_events_steps:
  assumes "run_events mem es (nds s, ms) = Some (f', ms')" and "net s = set ms"
  shows "\<exists>t. (timed_step mem)\<^sup>*\<^sup>* s t \<and> nds t = f' \<and> net t = set ms'"
  using assms
proof (induction es arbitrary: s ms)
  case (Cons e es)
  then obtain f1 ms1 where e: "run_event mem e (nds s, ms) = Some (f1, ms1)"
    and es: "run_events mem es (f1, ms1) = Some (f', ms')"
    by (auto simp: bind_eq_Some_conv)
  from run_event_step [OF e Cons.prems(2)] obtain t where t: "timed_step mem s t" "nds t = f1" "net t = set ms1"
    by blast
  with Cons.IH [of t ms1] es show ?case by (metis converse_rtranclp_into_rtranclp)
qed auto

section \<open>A slow node\<close>

definition three_nodes :: members where
  "three_nodes = [(1, port 8001), (2, port 8002), (3, port 8003)]"

definition three_start :: "nat cluster" where
  "three_start = \<lparr>nds = \<lambda>_. node_new, net = {}, applied = {}\<rparr>"

definition carry71 :: "nat carry_msg" where "carry71 = \<lparr>cm_msg = 7, cm_id = (1, 0)\<rparr>"
definition carry93 :: "nat carry_msg" where "carry93 = \<lparr>cm_msg = 9, cm_id = (3, 0)\<rparr>"

definition slow_script :: "nat event list" where
  "slow_script =
     [EApply 1 7, EApply 3 9,
      EDeliver 2 (VoteMsg 0 [carry71] 1 {1, 2, 3}),
      EDeliver 3 (VoteMsg 0 [carry71] 1 {1, 2, 3}),
      EDeliver 3 (VoteMsg 0 [carry71] 2 {1, 2, 3}),
      EDeliver 1 (VoteMsg 0 [carry71] 2 {1, 2, 3}),
      ETimeout 1 0,
      EDeliver 2 (VoteMsg 0 [carry71] 1 {1, 2})]"

lemma slow_run:
  "map_option (\<lambda>(f, ms). (executed (f 2), executed (f 3))) (run_events three_nodes slow_script (\<lambda>_. node_new, [])) =
     Some ([(0, [carry71])], [(0, [carry71, carry93])])"
  by code_simp

text \<open>C16: With timeouts, one slow vote breaks the agreement, without any node failing: node 3
  hears everybody and decides both messages, while its own vote is late, so that the
  other two take it for dead and decide without its message. Two nodes have then executed
  different messages at step 0.\<close>

theorem slow_vote_diverges:
  "\<exists>s. cluster_start three_nodes three_start \<and> (timed_step three_nodes)\<^sup>*\<^sup>* three_start s \<and>
     executed (nds s 2) = [(0, [carry71])] \<and> executed (nds s 3) = [(0, [carry71, carry93])]"
proof -
  obtain f ms where r: "run_events three_nodes slow_script (\<lambda>_. node_new, []) = Some (f, ms)"
    and ex: "executed (f 2) = [(0, [carry71])]" "executed (f 3) = [(0, [carry71, carry93])]"
    using slow_run by (auto simp: map_option_eq_Some)
  have "run_events three_nodes slow_script (nds three_start, []) = Some (f, ms)"
    using r by (simp add: three_start_def)
  from run_events_steps [OF this] obtain s where
    "(timed_step three_nodes)\<^sup>*\<^sup>* three_start s" "nds s = f" by (auto simp: three_start_def)
  moreover have "cluster_start three_nodes three_start"
    by (simp add: cluster_start_def three_start_def member_ids_def three_nodes_def)
  ultimately show ?thesis using ex by blast
qed

end
