(* ===== verification/WellFormed.thy ===== *)
theory WellFormed
  imports Timeouts
begin

text \<open>
  What the types of \<open>Voting\<close> promise, and what is left of the guarantees of \<open>Cluster\<close> when the
  availability timer fires (\<open>include/synca/once/replob.h\<close>): sets of messages are ordered and
  hold only what was applied for their step, sets of nodes name members only. The nodes may then
  disagree (\<open>slow_vote_diverges\<close>), but none executes a message that nobody applied, or one twice.
\<close>

section \<open>Well-formed data\<close>

definition carries_typed :: "(step_id \<times> 'm carry_msg) set \<Rightarrow> step_id \<Rightarrow> 'm carry_set \<Rightarrow> bool" where
  "carries_typed A k C \<longleftrightarrow> sorted_wrt (<) (carry_ids C) \<and> Pair k ` set C \<subseteq> A"

definition voting_typed ::
  "node_id set \<Rightarrow> (step_id \<times> 'm carry_msg) set \<Rightarrow> step_id \<Rightarrow> 'm voting \<Rightarrow> bool" where
  "voting_typed N A k v \<longleftrightarrow> carries_typed A k (v_carries v) \<and> v_nodes v \<subseteq> N \<and> v_voted v \<subseteq> N"

fun effect_typed ::
  "node_id set \<Rightarrow> (step_id \<times> 'm carry_msg) set \<Rightarrow> step_id \<Rightarrow> 'm effect \<Rightarrow> bool" where
  "effect_typed N A k (BroadcastVote C src M) \<longleftrightarrow> carries_typed A k C \<and> src \<in> N \<and> M \<subseteq> N"
| "effect_typed N A k (BroadcastCommit C) \<longleftrightarrow> carries_typed A k C"
| "effect_typed N A k CompleteStep \<longleftrightarrow> True"
| "effect_typed N A k CleanupAll \<longleftrightarrow> True"

fun msg_typed :: "node_id set \<Rightarrow> (step_id \<times> 'm carry_msg) set \<Rightarrow> 'm msg \<Rightarrow> bool" where
  "msg_typed N A (VoteMsg k C src M) \<longleftrightarrow> k \<noteq> - 1 \<and> carries_typed A k C \<and> src \<in> N \<and> M \<subseteq> N"
| "msg_typed N A (CommitMsg k C) \<longleftrightarrow> k \<noteq> - 1 \<and> carries_typed A k C"

fun phase_typed ::
  "node_id set \<Rightarrow> (step_id \<times> 'm carry_msg) set \<Rightarrow> step_id \<Rightarrow> 'm carry_set + 'm voting \<Rightarrow> bool" where
  "phase_typed N A k (Inl C) \<longleftrightarrow> carries_typed A k C"
| "phase_typed N A k (Inr v) \<longleftrightarrow> voting_typed N A k v"

definition result_typed ::
  "node_id set \<Rightarrow> (step_id \<times> 'm carry_msg) set \<Rightarrow> step_id \<Rightarrow> 'm voting \<times> 'm effect list \<Rightarrow> bool" where
  "result_typed N A k r \<longleftrightarrow> voting_typed N A k (fst r) \<and> (\<forall>e \<in> set (snd r). effect_typed N A k e)"

lemma carries_typed_mono: "carries_typed A k C \<Longrightarrow> A \<subseteq> B \<Longrightarrow> carries_typed B k C"
  unfolding carries_typed_def by blast

lemma phase_typed_mono: "phase_typed N A k p \<Longrightarrow> A \<subseteq> B \<Longrightarrow> phase_typed N B k p"
  by (cases p) (auto simp: voting_typed_def intro: carries_typed_mono)

lemma msg_typed_mono: "msg_typed N A msg \<Longrightarrow> A \<subseteq> B \<Longrightarrow> msg_typed N B msg"
  by (cases msg) (auto intro: carries_typed_mono)

lemma carries_typed_union:
  "carries_typed A k C \<Longrightarrow> carries_typed A k D \<Longrightarrow> carries_typed A k (carry_union C D)"
  using carry_union_subset [of C D] unfolding carries_typed_def by (blast intro: carry_union_sorted)

lemma voting_new_typed: "voting_typed N A k voting_new"
  by (simp add: voting_typed_def carries_typed_def voting_new_def)

section \<open>Handlers\<close>

lemma commit_typed:
  "voting_typed N A k v \<Longrightarrow> carries_typed A k C \<Longrightarrow> result_typed N A k (voting_commit C v)"
  by (simp add: result_typed_def voting_commit_def voting_typed_def Let_def)

lemma vote_typed:
  assumes "voting_typed N A k v" and "carries_typed A k C" and "src \<in> N" "this \<in> N"
    and "deref ref v \<subseteq> N"
  shows "result_typed N A k (voting_vote this C src ref v)"
proof -
  have "deref ref (v\<lparr>v_carries := D\<rparr>) = deref ref v" for D by (cases ref) simp_all
  with assms show ?thesis
    by (auto simp: result_typed_def voting_vote_def voting_commit_def voting_typed_def
        set_restrict_def carries_typed_union Let_def)
qed

lemma start_typed:
  assumes "(k, m) \<in> A" and "this \<in> N"
  shows "result_typed N A k (voting_start this m N voting_new)"
  unfolding voting_start_def
  by (rule vote_typed) (use assms in \<open>auto simp: voting_typed_def carries_typed_def voting_new_def\<close>)

lemma timeout_typed:
  assumes "voting_typed N A k v" and "this \<in> N"
  shows "result_typed N A k (voting_timeout this v)"
proof (cases "isConsistent v")
  case True
  with assms show ?thesis
    by (simp add: voting_timeout_def) (rule vote_typed, auto simp: voting_typed_def)
next
  case False
  with assms show ?thesis by (simp add: voting_timeout_def voting_fail_def result_typed_def)
qed

section \<open>Runs with timeouts\<close>

definition node_ok :: "node_id set \<Rightarrow> (step_id \<times> 'm carry_msg) set \<Rightarrow> 'm node \<Rightarrow> bool" where
  "node_ok N A nd \<longleftrightarrow> node_inv nd \<and> (\<forall>k. phase_typed N A k (phase nd k))"

text \<open>A node after a cleanup, which is silent, has executed what it had before.\<close>

definition node_was_ok :: "node_id set \<Rightarrow> (step_id \<times> 'm carry_msg) set \<Rightarrow> 'm node \<Rightarrow> bool" where
  "node_was_ok N A nd \<longleftrightarrow> node_ok N A nd \<or>
     silent nd \<and> (\<exists>nd0. node_ok N A nd0 \<and> executed nd0 = executed nd)"

lemma node_ok_mono: "node_ok N A nd \<Longrightarrow> A \<subseteq> B \<Longrightarrow> node_ok N B nd"
  unfolding node_ok_def by (blast intro: phase_typed_mono)

lemma node_was_ok_mono: "node_was_ok N A nd \<Longrightarrow> A \<subseteq> B \<Longrightarrow> node_was_ok N B nd"
  unfolding node_was_ok_def by (blast intro: node_ok_mono)

lemma node_was_ok_executed:
  "node_was_ok N A nd \<Longrightarrow> \<exists>nd0. node_ok N A nd0 \<and> executed nd0 = executed nd"
  by (auto simp: node_was_ok_def)

definition timed_inv :: "members \<Rightarrow> 'm cluster \<Rightarrow> bool" where
  "timed_inv mem s \<longleftrightarrow>
     (\<forall>n \<in> member_ids mem. node_was_ok (member_ids mem) (applied s) (nds s n)) \<and>
     (\<forall>msg \<in> net s. msg_typed (member_ids mem) (applied s) msg) \<and>
     applied_wf (member_ids mem) s"

lemma msgs_typed:
  assumes "\<forall>e \<in> set es. effect_typed N A i e" and i: "i \<noteq> - 1" and "msg \<in> set (msgs_of i es)"
  shows "msg_typed N A msg"
proof (cases msg)
  case (VoteMsg k C src M)
  with assms(3) have "BroadcastVote C src M \<in> set es" "k = i" by (simp_all add: msgs_of_mem)
  with assms(1) have "effect_typed N A i (BroadcastVote C src M)" "k = i" by blast+
  with VoteMsg i show ?thesis by simp
next
  case (CommitMsg k C)
  with assms(3) have "BroadcastCommit C \<in> set es" "k = i" by (simp_all add: msgs_of_mem)
  with assms(1) have "effect_typed N A i (BroadcastCommit C)" "k = i" by blast+
  with CommitMsg i show ?thesis by simp
qed

lemma stepped_typed:
  assumes st: "stepped i f nd out nd'" and i: "i \<noteq> - 1"
    and old: "\<forall>k. phase_typed N A k (phase nd k)"
    and f: "\<And>v. phase nd i = Inr v \<Longrightarrow> result_typed N A i (f v)"
  shows "(\<forall>k. phase_typed N A k (phase nd' k)) \<and> (\<forall>msg \<in> set out. msg_typed N A msg)"
proof (cases "phase nd i")
  case (Inl C)
  with st old show ?thesis by (simp add: stepped_def)
next
  case (Inr v)
  from f [OF Inr] have v: "voting_typed N A i (fst (f v))" and es: "\<forall>e \<in> set (snd (f v)). effect_typed N A i e"
    by (simp_all add: result_typed_def)
  from st Inr have "out = msgs_of i (snd (f v))" by (simp add: stepped_def)
  with msgs_typed [OF es i] have "\<forall>msg \<in> set out. msg_typed N A msg" by blast
  with st Inr old v show ?thesis by (auto simp: stepped_def voting_typed_def)
qed

lemma timed_move:
  assumes inv: "timed_inv mem s" and n: "n \<in> member_ids mem"
    and ok: "node_ok (member_ids mem) (applied s) (nds s n)" and i: "i \<noteq> - 1"
    and st: "stepped i f (nds s n) out nd'" and A: "applied s \<subseteq> A"
    and f: "\<And>v. phase (nds s n) i = Inr v \<Longrightarrow> result_typed (member_ids mem) A i (f v)"
    and wf: "applied_wf (member_ids mem) (s\<lparr>nds := (nds s)(n := nd'), applied := A\<rparr>)"
  shows "timed_inv mem \<lparr>nds = (nds s)(n := nd'), net = net s \<union> set out, applied = A\<rparr>"
proof -
  have old: "node_was_ok (member_ids mem) A (nds s m)" if "m \<in> member_ids mem" for m
    using inv that A unfolding timed_inv_def by (blast intro: node_was_ok_mono)
  have ph: "\<forall>k. phase_typed (member_ids mem) A k (phase (nds s n) k)"
    using node_ok_mono [OF ok A] by (simp add: node_ok_def)
  have "msg_typed (member_ids mem) A msg" if "msg \<in> net s" for msg
    using inv that A unfolding timed_inv_def by (blast intro: msg_typed_mono)
  moreover have "node_inv nd'" using st by (simp add: stepped_def)
  moreover from wf have "applied_wf (member_ids mem)
      \<lparr>nds = (nds s)(n := nd'), net = net s \<union> set out, applied = A\<rparr>"
    by (simp add: applied_wf_def)
  ultimately show ?thesis
    using stepped_typed [OF st i ph f] old n inv by (auto simp: timed_inv_def node_was_ok_def node_ok_def)
qed

lemma timed_deliver_inv:
  assumes inv: "timed_inv mem s" and n: "n \<in> member_ids mem" and msg: "msg \<in> net s"
    and ok: "node_ok (member_ids mem) (applied s) (nds s n)"
    and run: "node_deliver n msg (nds s n) = (out, nd')"
  shows "timed_inv mem \<lparr>nds = (nds s)(n := nd'), net = net s \<union> set out, applied = applied s\<rparr>"
proof -
  let ?N = "member_ids mem"
  have nv: "node_inv (nds s n)" and typed: "msg_typed ?N (applied s) msg" and wf: "applied_wf ?N s"
    and ph: "phase_typed ?N (applied s) k (phase (nds s n) k)" for k
    using inv n msg ok by (simp_all add: timed_inv_def node_ok_def)
  have wf': "applied_wf ?N (s\<lparr>nds := (nds s)(n := nd'), applied := applied s\<rparr>)"
    if "next_mid nd' = next_mid (nds s n)"
    using wf by (rule applied_wf_same) (simp add: that)
  show ?thesis
  proof (cases msg)
    case (VoteMsg i C src M)
    with run typed have call: "node_call i (voting_vote n C src (ByValue M)) (nds s n) = (out, nd')" "i \<noteq> - 1"
      by simp_all
    from node_call_spec [OF nv call(2) voting_vote_moves call(1)] have
      st: "stepped i (voting_vote n C src (ByValue M)) (nds s n) out nd'"
      and mid: "next_mid nd' = next_mid (nds s n)" by simp_all
    show ?thesis
      by (rule timed_move [OF inv n ok call(2) st order.refl _ wf' [OF mid]])
        (use ph [of i] typed VoteMsg n in \<open>auto intro!: vote_typed\<close>)
  next
    case (CommitMsg i C)
    with run typed have call: "node_call i (voting_commit C) (nds s n) = (out, nd')" "i \<noteq> - 1"
      by simp_all
    from node_call_spec [OF nv call(2) voting_commit_moves call(1)] have
      st: "stepped i (voting_commit C) (nds s n) out nd'"
      and mid: "next_mid nd' = next_mid (nds s n)" by simp_all
    show ?thesis
      by (rule timed_move [OF inv n ok call(2) st order.refl _ wf' [OF mid]])
        (use ph [of i] typed CommitMsg in \<open>auto intro: commit_typed\<close>)
  qed
qed

lemma timed_apply_inv:
  assumes inv: "timed_inv mem s" and n: "n \<in> member_ids mem"
    and ok: "node_ok (member_ids mem) (applied s) (nds s n)"
    and i: "next_step (phs (nds s n)) \<noteq> - 1" and mid: "next_mid (nds s n) \<noteq> - 1"
    and run: "node_apply (node_cfg mem n) m (nds s n) = (res, out, nd')"
  defines "x \<equiv> \<lparr>cm_msg = m, cm_id = (n, next_mid (nds s n))\<rparr>" and "k \<equiv> next_step (phs (nds s n))"
  shows "timed_inv mem \<lparr>nds = (nds s)(n := nd'), net = net s \<union> set out, applied = insert (k, x) (applied s)\<rparr>"
proof -
  let ?N = "member_ids mem"
  have nv: "node_inv (nds s n)" and wf: "applied_wf ?N s"
    using inv n ok by (simp_all add: timed_inv_def node_ok_def)
  have cfg: "nodesSet (node_cfg mem n) = ?N" "thisNode (node_cfg mem n) = n"
    by (simp_all add: node_cfg_def nodesSet_def member_ids_def thisNode_def)
  from node_apply_spec [OF nv i run]
  have new: "phase (nds s n) k = Inr voting_new"
    and st: "stepped k (voting_start n x ?N) (nds s n) out nd'"
    and mid': "next_mid nd' = next_mid (nds s n) + 1"
    by (simp_all add: cfg x_def k_def)
  show ?thesis
  proof (rule timed_move [OF inv n ok _ st])
    show "k \<noteq> - 1" using i by (simp add: k_def)
    show "applied s \<subseteq> insert (k, x) (applied s)" by auto
    show "applied_wf ?N (s\<lparr>nds := (nds s)(n := nd'), applied := insert (k, x) (applied s)\<rparr>)"
      by (rule applied_wf_apply [OF wf mid mid']) (simp add: x_def)
  next
    fix v assume "phase (nds s n) k = Inr v"
    with new have "v = voting_new" by simp
    with n show "result_typed ?N (insert (k, x) (applied s)) k (voting_start n x ?N v)"
      by (simp add: start_typed)
  qed
qed

lemma timed_timeout_inv:
  assumes inv: "timed_inv mem s" and n: "n \<in> member_ids mem"
    and ok: "node_ok (member_ids mem) (applied s) (nds s n)"
    and w: "steps (phs (nds s n)) k = Some w" and run: "node_timeout n k (nds s n) = (out, nd')"
  shows "timed_inv mem \<lparr>nds = (nds s)(n := nd'), net = net s \<union> set out, applied = applied s\<rparr>"
proof -
  let ?N = "member_ids mem"
  have nv: "node_inv (nds s n)" and wf: "applied_wf ?N s"
    and ph: "phase_typed ?N (applied s) k (phase (nds s n) k)"
    using inv n ok by (simp_all add: timed_inv_def node_ok_def)
  from nv w have "k < next_step (phs (nds s n))" by (auto simp: node_inv_def phantoms_wf_def)
  then have k: "k \<noteq> - 1" using not_less [of "- 1 :: step_id"] by auto
  from node_timeout_spec [OF nv run] show ?thesis
  proof
    assume st: "stepped k (voting_timeout n) (nds s n) out nd' \<and>
      next_mid nd' = next_mid (nds s n) \<and> next_step (phs nd') = next_step (phs (nds s n))"
    have wf': "applied_wf ?N (s\<lparr>nds := (nds s)(n := nd'), applied := applied s\<rparr>)"
      using wf by (rule applied_wf_same) (simp add: st)
    show ?thesis
      by (rule timed_move [OF inv n ok k conjunct1 [OF st] order.refl _ wf'])
        (use ph n in \<open>auto intro: timeout_typed\<close>)
  next
    assume "out = [] \<and> nd' = nds s n"
    with inv show ?thesis by (simp add: timed_inv_def applied_wf_def)
  qed
qed

text \<open>What happens to a node after its cleanup.\<close>

lemma silent_move:
  assumes "timed_inv mem s" and n: "n \<in> member_ids mem" and "silent (nds s n)" "silent nd'"
    and "executed nd' = executed (nds s n)" and A: "applied s \<subseteq> A"
    and "applied_wf (member_ids mem) (s\<lparr>nds := (nds s)(n := nd'), applied := A\<rparr>)"
  shows "timed_inv mem \<lparr>nds = (nds s)(n := nd'), net = net s, applied = A\<rparr>"
proof -
  have old: "node_was_ok (member_ids mem) A (nds s m)" if "m \<in> member_ids mem" for m
    using assms(1) that A unfolding timed_inv_def by (blast intro: node_was_ok_mono)
  from node_was_ok_executed [OF old [OF n]] assms(4,5) have "node_was_ok (member_ids mem) A nd'"
    by (auto simp: node_was_ok_def)
  moreover have "\<forall>msg \<in> net s. msg_typed (member_ids mem) A msg"
    using assms(1) A unfolding timed_inv_def by (blast intro: msg_typed_mono)
  ultimately show ?thesis using old assms(7) by (simp add: timed_inv_def applied_wf_def)
qed

lemma silent_deliver_inv:
  assumes inv: "timed_inv mem s" and "n \<in> member_ids mem" "silent (nds s n)" "msg \<in> net s"
    and "node_deliver n msg (nds s n) = (out, nd')"
  shows "timed_inv mem \<lparr>nds = (nds s)(n := nd'), net = net s \<union> set out, applied = applied s\<rparr>"
proof -
  have "msg_typed (member_ids mem) (applied s) msg" using inv assms(4) by (simp add: timed_inv_def)
  then have "node_deliver n msg (nds s n) = ([], nds s n)"
    using silent_deliver [OF assms(3)] by (cases msg) (simp_all del: node_deliver.simps)
  with assms(5) have "out = []" "nd' = nds s n" by simp_all
  with inv show ?thesis by (simp add: timed_inv_def applied_wf_def)
qed

lemma silent_apply_inv:
  assumes inv: "timed_inv mem s" and n: "n \<in> member_ids mem" and "silent (nds s n)"
    and i: "next_step (phs (nds s n)) \<noteq> - 1" and mid: "next_mid (nds s n) \<noteq> - 1"
    and run: "node_apply (node_cfg mem n) m (nds s n) = (res, out, nd')"
  shows "timed_inv mem \<lparr>nds = (nds s)(n := nd'), net = net s \<union> set out,
    applied = insert (next_step (phs (nds s n)), \<lparr>cm_msg = m, cm_id = (n, next_mid (nds s n))\<rparr>) (applied s)\<rparr>"
proof -
  let ?x = "\<lparr>cm_msg = m, cm_id = (n, next_mid (nds s n))\<rparr>"
  from silent_apply [OF assms(3) i, of "node_cfg mem n" m] run have eq: "out = []" "silent nd'"
    "executed nd' = executed (nds s n)" "next_mid nd' = next_mid (nds s n) + 1"
    using assms(3) by (auto simp: silent_def)
  have "applied_wf (member_ids mem) s" using inv by (simp add: timed_inv_def)
  from applied_wf_apply [OF this mid eq(4), of ?x]
  show ?thesis using silent_move [OF inv n assms(3) eq(2,3), of "insert (next_step (phs (nds s n)), ?x) (applied s)"]
    by (simp add: eq(1) subset_insertI)
qed

lemma cleanup_inv:
  assumes inv: "timed_inv mem s" and n: "n \<in> member_ids mem"
  shows "timed_inv mem (s\<lparr>nds := (nds s)(n := node_cleanup (nds s n))\<rparr>)"
proof -
  have e: "executed (node_cleanup (nds s n)) = executed (nds s n)" "next_mid (node_cleanup (nds s n)) = next_mid (nds s n)"
    by (simp_all add: node_cleanup_def)
  from inv n have "node_was_ok (member_ids mem) (applied s) (nds s n)" by (simp add: timed_inv_def)
  from node_was_ok_executed [OF this] have "node_was_ok (member_ids mem) (applied s) (node_cleanup (nds s n))"
    by (simp add: node_was_ok_def silent_cleanup e)
  with inv show ?thesis by (auto simp: timed_inv_def applied_wf_def e)
qed

lemma cluster_timed_inv:
  assumes inv: "timed_inv mem s" and "cluster_step mem s t"
  shows "timed_inv mem t"
  using assms(2)
proof cases
  case (applied n m res out nd')
  then have "node_was_ok (member_ids mem) (applied s) (nds s n)" using inv by (simp add: timed_inv_def)
  then show ?thesis using timed_apply_inv [OF inv] silent_apply_inv [OF inv] applied
    unfolding node_was_ok_def by blast
next
  case (deliver n msg out nd')
  then have "node_was_ok (member_ids mem) (applied s) (nds s n)" using inv by (simp add: timed_inv_def)
  then show ?thesis using timed_deliver_inv [OF inv] silent_deliver_inv [OF inv] deliver
    unfolding node_was_ok_def by blast
qed

lemma timed_step_inv:
  assumes inv: "timed_inv mem s" and "timed_step mem s t"
  shows "timed_inv mem t"
  using assms(2)
proof cases
  case cluster
  with inv show ?thesis by (rule cluster_timed_inv)
next
  case (timeout n k w out nd')
  then have "node_was_ok (member_ids mem) (applied s) (nds s n)" using inv by (simp add: timed_inv_def)
  moreover have "\<not> silent (nds s n)" using timeout(3) by (auto simp: silent_def)
  ultimately have "node_ok (member_ids mem) (applied s) (nds s n)" by (simp add: node_was_ok_def)
  with timeout show ?thesis by (simp add: timed_timeout_inv [OF inv])
next
  case (cleanup n)
  with inv show ?thesis by (simp add: cleanup_inv)
qed

lemma timed_start_inv: "cluster_start mem s \<Longrightarrow> timed_inv mem s"
  by (simp add: cluster_start_def timed_inv_def node_was_ok_def node_ok_def node_inv_new phase_new voting_new_typed applied_wf_def)

interpretation timed: step_system "cluster_start mem" "timed_step mem" "timed_inv mem" for mem
  by unfold_locales (auto intro: timed_start_inv timed_step_inv)

text \<open>C10: Well-formed data: in every run of the cluster, the availability timers and the cleanups of
  nodes that failed included, each
  set of messages that is on its way or was executed is an ordered set whose messages were
  applied for its very step, the votes name members only, and no node executes a message
  twice. Timeouts can make nodes disagree, but never invent or repeat a message.\<close>

theorem timed_data_well_formed:
  assumes "cluster_start mem s0" and "(timed_step mem)\<^sup>*\<^sup>* s0 s" and "n \<in> member_ids mem"
  shows "(\<forall>k C src M. VoteMsg k C src M \<in> net s \<longrightarrow> sorted_wrt (<) (carry_ids C) \<and>
      Pair k ` set C \<subseteq> applied s \<and> src \<in> member_ids mem \<and> M \<subseteq> member_ids mem) \<and>
    (\<forall>k C. CommitMsg k C \<in> net s \<longrightarrow> sorted_wrt (<) (carry_ids C) \<and> Pair k ` set C \<subseteq> applied s) \<and>
    set (concat (map (\<lambda>(k, C). map (Pair k) C) (executed (nds s n)))) \<subseteq> applied s \<and>
    distinct (concat (map (\<lambda>(k, C). carry_ids C) (executed (nds s n))))"
proof -
  note inv = timed.inv_reachable [OF assms(1,2)]
  then have inj: "inj_on (\<lambda>(k, x). cm_id x) (applied s)"
    and msg: "\<forall>msg \<in> net s. msg_typed (member_ids mem) (applied s) msg"
    and was: "node_was_ok (member_ids mem) (applied s) (nds s n)"
    using assms(3) by (simp_all add: timed_inv_def applied_wf_def)
  obtain nd0 where ok: "node_ok (member_ids mem) (applied s) nd0" and e: "executed nd0 = executed (nds s n)"
    using node_was_ok_executed [OF was] by blast
  then have nv: "node_inv nd0" and ph: "phase_typed (member_ids mem) (applied s) k (phase nd0 k)" for k
    by (simp_all add: node_ok_def)
  have "carries_typed (applied s) (of_nat j) (snd (executed nd0 ! j))" if "j < length (executed nd0)" for j
    using ph [of "of_nat j"] executed_phase(2) [OF nv that] by simp
  then have "set (concat (map (\<lambda>(k, C). map (Pair k) C) (executed (nds s n)))) \<subseteq> applied s \<and>
    distinct (concat (map (\<lambda>(k, C). carry_ids C) (executed (nds s n))))"
    unfolding e [symmetric] by (intro valid_log [OF nv inj]) (simp_all add: carries_typed_def)
  with msg show ?thesis by (force simp: carries_typed_def)
qed

lemma timed_data_well_formed_witness:
  "distinct (concat (map (\<lambda>(k, C). carry_ids C) (executed (nds (two_decided (7 :: nat)) 2)))) \<and>
   executed (nds (two_decided (7 :: nat)) 2) = [(0, [first_carry 7])]"
proof -
  have "(timed_step two_nodes)\<^sup>*\<^sup>* two_start (two_decided (7 :: nat))"
    using two_run [of "7 :: nat"] by (rule rtranclp_mono [THEN predicate2D, rotated]) (auto intro: timed_step.cluster)
  with timed_data_well_formed [OF two_start, of "two_decided 7" 2] show ?thesis
    by (simp add: two_members two_executed)
qed

end
