(* ===== verification/ReplobV1.thy ===== *)
theory ReplobV1
  imports Nodes
begin

text \<open>
  The first agreement (\<open>Replob\<close> in \<open>src/replob.cpp\<close>, \<open>include/synca/once/replob.h\<close>):
  every node votes once in a step, for one message; when as many votes are in as there are
  configured nodes, the messages voted for are committed together. Handlers are functions
  on the state of a node that return the calls they broadcast; what was executed is kept
  in the state as a history.
\<close>

section \<open>State\<close>

text \<open>A message is a \<open>std::function\<close>, which may be null: \<open>None\<close>.\<close>

record 'm carry =
  ca_msg :: "'m option"
  ca_step :: step_id
  ca_id :: msg_id

datatype step_state = StepInitial | StepVoted | StepCompleted

record 'm msg_data =
  votedSet :: "node_id set"
  md_msg :: "'m option"

text \<open>\<open>votedNodes\<close> is a \<open>std::map\<close>, walked in the order of the message numbers.\<close>

record 'm step_data =
  sd_state :: step_state
  votedNodes :: "(msg_id \<times> 'm msg_data) list"
  sd_msgs :: "'m carry list"
  sd_timer :: bool

record 'm replob =
  nextStep :: step_id
  commitingStep :: step_id
  rsteps :: "step_id \<rightharpoonup> 'm step_data"
  cluster_nodes :: nodes
  mid_counter :: id64
  ran :: "(step_id \<times> 'm carry list) list"

datatype 'm call =
    CallVote "'m carry" node_id
  | CallCommit "'m carry list"
  | CallDisconnect "node_id list"

definition step_data_new :: "'m step_data" where
  "step_data_new = \<lparr>sd_state = StepInitial, votedNodes = [], sd_msgs = [], sd_timer = False\<rparr>"

definition replob_new :: "nodes \<Rightarrow> 'm replob" where
  "replob_new ns = \<lparr>nextStep = 0, commitingStep = 0, rsteps = Map.empty, cluster_nodes = ns,
     mid_counter = 0, ran = []\<rparr>"

section \<open>Votes of a step\<close>

fun smap_update :: "msg_id \<Rightarrow> 'v \<Rightarrow> (msg_id \<times> 'v) list \<Rightarrow> (msg_id \<times> 'v) list" where
  "smap_update k v [] = [(k, v)]"
| "smap_update k v ((l, w) # r) =
     (if k < l then (k, v) # (l, w) # r
      else if k = l then (k, v) # r
      else (l, w) # smap_update k v r)"

definition getMsg :: "'m carry \<Rightarrow> 'm step_data \<Rightarrow> 'm msg_data" where
  "getMsg c sd =
     (let d = (case map_of (votedNodes sd) (ca_id c) of
                 Some d \<Rightarrow> d | None \<Rightarrow> \<lparr>votedSet = {}, md_msg = None\<rparr>)
      in if md_msg d = None then d\<lparr>md_msg := ca_msg c\<rparr> else d)"

definition votedNodesSet :: "'m step_data \<Rightarrow> node_id set" where
  "votedNodesSet sd = (\<Union>v \<in> set (votedNodes sd). votedSet (snd v))"

definition mayCommit :: "nodes_config \<Rightarrow> 'm step_data \<Rightarrow> bool" where
  "mayCommit cfg sd \<longleftrightarrow> sum_list (map (\<lambda>v. card (votedSet (snd v))) (votedNodes sd)) = nodesCount cfg"

definition quorumSize :: "nodes \<Rightarrow> nat" where
  "quorumSize ns = nodes_count ns div 2 + 1"

section \<open>Steps\<close>

definition updateCurrentStepId :: "step_id \<Rightarrow> 'm replob \<Rightarrow> 'm replob" where
  "updateCurrentStepId i r = (if nextStep r \<le> i then r\<lparr>nextStep := i + 1\<rparr> else r)"

definition nextStepId :: "'m replob \<Rightarrow> step_id \<times> 'm replob" where
  "nextStepId r = (nextStep r, r\<lparr>nextStep := nextStep r + 1\<rparr>)"

text \<open>\<open>steps_[id]\<close> makes the entry, also when the step turns out to be completed.\<close>

definition getStep :: "step_id \<Rightarrow> 'm replob \<Rightarrow> 'm step_data option \<times> 'm replob" where
  "getStep i r =
     (if i < commitingStep r then (None, r)
      else let data = (case rsteps r i of Some d \<Rightarrow> d | None \<Rightarrow> step_data_new);
               r1 = r\<lparr>rsteps := (rsteps r)(i \<mapsto> data)\<rparr>
           in if sd_state data = StepCompleted then (None, r1)
              else (Some data, updateCurrentStepId i r1))"

text \<open>The loop that executes completed steps; each round erases an entry.\<close>

function tryProcess_all :: "'m replob \<Rightarrow> 'm replob" where
  "tryProcess_all r =
     (case rsteps r (commitingStep r) of
        None \<Rightarrow> r
      | Some d \<Rightarrow>
          if sd_state d \<noteq> StepCompleted then r
          else tryProcess_all
                 (r\<lparr>ran := ran r @ [(commitingStep r, sd_msgs d)],
                    rsteps := (rsteps r)(commitingStep r := None),
                    commitingStep := commitingStep r + 1\<rparr>))"
  by auto
termination
proof (relation "measure (\<lambda>r. card (dom (rsteps r)))")
  fix r :: "'m replob" and d
  assume "rsteps r (commitingStep r) = Some d"
  then have "commitingStep r \<in> dom (rsteps r)" by blast
  moreover have "finite (dom (rsteps r))" by (rule finite)
  ultimately have "card (dom (rsteps r) - {commitingStep r}) < card (dom (rsteps r))"
    by (intro card_Diff1_less)
  then show "(r\<lparr>ran := ran r @ [(commitingStep r, sd_msgs d)],
      rsteps := (rsteps r)(commitingStep r := None), commitingStep := commitingStep r + 1\<rparr>, r)
      \<in> measure (\<lambda>r. card (dom (rsteps r)))"
    by simp
qed simp

declare tryProcess_all.simps [simp del]

definition tryProcess :: "step_id \<Rightarrow> 'm replob \<Rightarrow> 'm replob" where
  "tryProcess i r = (if i \<noteq> commitingStep r then r else tryProcess_all r)"

section \<open>Handlers\<close>

definition replob_commit :: "'m carry list \<Rightarrow> 'm replob \<Rightarrow> unit outcome \<times> 'm call list \<times> 'm replob" where
  "replob_commit msgs r =
     (case VERIFY (msgs \<noteq> []) ''Zero messages to commit'' of
        Inl e \<Rightarrow> (Inl e, [], r)
      | Inr _ \<Rightarrow>
          (let i = ca_step (hd msgs) in
           case getStep i r of
             (None, r1) \<Rightarrow> (Inr (), [], r1)
           | (Some d, r1) \<Rightarrow>
               (let d1 = d\<lparr>sd_msgs := msgs, votedNodes := [], sd_state := StepCompleted, sd_timer := False\<rparr>;
                    r2 = r1\<lparr>rsteps := (rsteps r1)(i \<mapsto> d1)\<rparr>
                in (Inr (), [CallCommit msgs], tryProcess i r2))))"

text \<open>
  The vote is entered into the data of the step, with this node's own vote when it still
  has one; the answer says whether it had.
\<close>

definition enter_vote :: "node_id \<Rightarrow> 'm carry \<Rightarrow> node_id \<Rightarrow> 'm step_data \<Rightarrow> bool \<times> 'm step_data" where
  "enter_vote this c voted d =
     (let md = getMsg c d;
          md1 = md\<lparr>votedSet := insert voted (votedSet md)\<rparr>;
          canVote = (sd_state d = StepInitial);
          md2 = (if canVote then md1\<lparr>votedSet := insert this (votedSet md1)\<rparr> else md1);
          d1 = (if canVote then d\<lparr>sd_state := StepVoted\<rparr> else d)
      in (canVote, d1\<lparr>votedNodes := smap_update (ca_id c) md2 (votedNodes d1)\<rparr>))"

definition voted_msgs :: "step_id \<Rightarrow> 'm step_data \<Rightarrow> 'm carry list" where
  "voted_msgs i d = map (\<lambda>vn. \<lparr>ca_msg = md_msg (snd vn), ca_step = i, ca_id = fst vn\<rparr>) (votedNodes d)"

definition replob_vote :: "'m carry \<Rightarrow> node_id \<Rightarrow> 'm replob \<Rightarrow> unit outcome \<times> 'm call list \<times> 'm replob" where
  "replob_vote c voted r =
     (case getStep (ca_step c) r of
        (None, r1) \<Rightarrow> (Inr (), [], r1)
      | (Some d, r1) \<Rightarrow>
          (let cfg = config (cluster_nodes r);
               (canVote, d1) = enter_vote (thisNode cfg) c voted d;
               r2 = r1\<lparr>rsteps := (rsteps r1)(ca_step c \<mapsto> d1)\<rparr>
           in if mayCommit cfg d1 then replob_commit (voted_msgs (ca_step c) d1) r2
              else if canVote
              then (Inr (), [CallVote c (thisNode cfg)],
                    r2\<lparr>rsteps := (rsteps r2)(ca_step c \<mapsto> d1\<lparr>sd_timer := True\<rparr>)\<rparr>)
              else (Inr (), [], r2)))"

definition replob_apply :: "'m \<Rightarrow> 'm replob \<Rightarrow> unit outcome \<times> 'm call list \<times> 'm replob" where
  "replob_apply m r =
     (let (i, r1) = nextStepId r;
          (u, mid) = genUniqueId (config (cluster_nodes r1)) (mid_counter r1)
      in replob_vote \<lparr>ca_msg = Some m, ca_step = i, ca_id = u\<rparr> (thisNode (config (cluster_nodes r1)))
           (r1\<lparr>mid_counter := mid\<rparr>))"

fun remove_nodes :: "node_id list \<Rightarrow> nodes \<Rightarrow> node_id list \<times> nodes" where
  "remove_nodes [] ns = ([], ns)"
| "remove_nodes (n # l) ns =
     (let (removed, ns1) = nodes_remove n ns; (rest, ns2) = remove_nodes l ns1
      in (if removed then n # rest else rest, ns2))"

definition disconnectNodes :: "node_id list \<Rightarrow> 'm replob \<Rightarrow> 'm call list \<times> 'm replob" where
  "disconnectNodes l r =
     (let (disconnected, ns) = remove_nodes l (cluster_nodes r); r1 = r\<lparr>cluster_nodes := ns\<rparr>
      in if disconnected = [] then ([], r1) else ([CallDisconnect disconnected], r1))"

definition replob_onTimeout :: "step_id \<Rightarrow> 'm replob \<Rightarrow> 'm call list \<times> 'm replob" where
  "replob_onTimeout i r =
     (case getStep i r of
        (None, r1) \<Rightarrow> ([], r1)
      | (Some d, r1) \<Rightarrow>
          (let unavailable = [n \<leftarrow> cfg_ids (config (cluster_nodes r1)). n \<notin> votedNodesSet d]
           in if unavailable = [] then ([], r1) else disconnectNodes unavailable r1))"

definition replob_cleanup :: "'m replob \<Rightarrow> 'm replob" where
  "replob_cleanup r = r\<lparr>rsteps := Map.empty, commitingStep := - 1\<rparr>"

section \<open>Runs\<close>

text \<open>
  What a node can meet: its own \<open>apply\<close>, calls from other nodes in any order and with any
  contents, and the timer of a step. The guards keep the step numbers below the last one.
\<close>

inductive replob_step :: "'m replob \<Rightarrow> 'm call list \<Rightarrow> 'm replob \<Rightarrow> bool" where
  applied: "\<lbrakk>nextStep r \<noteq> - 1; replob_apply m r = (res, out, r')\<rbrakk> \<Longrightarrow> replob_step r out r'"
| vote: "\<lbrakk>ca_step c \<noteq> - 1; replob_vote c n r = (res, out, r')\<rbrakk> \<Longrightarrow> replob_step r out r'"
| commit: "\<lbrakk>msgs \<noteq> [] \<longrightarrow> ca_step (hd msgs) \<noteq> - 1; replob_commit msgs r = (res, out, r')\<rbrakk> \<Longrightarrow> replob_step r out r'"
| timeout: "\<lbrakk>i \<noteq> - 1; replob_onTimeout i r = (out, r')\<rbrakk> \<Longrightarrow> replob_step r out r'"
| disconnect: "disconnectNodes l r = (out, r') \<Longrightarrow> replob_step r out r'"

inductive replob_run :: "nodes \<Rightarrow> 'm call list \<Rightarrow> 'm replob \<Rightarrow> bool" for ns where
  start: "replob_run ns [] (replob_new ns)"
| more: "\<lbrakk>replob_run ns calls r; replob_step r out r'\<rbrakk> \<Longrightarrow> replob_run ns (calls @ out) r'"

text \<open>The steps this node voted in, in the order it announced the votes.\<close>

fun own_votes :: "'m call list \<Rightarrow> step_id list" where
  "own_votes [] = []"
| "own_votes (CallVote c n # es) = ca_step c # own_votes es"
| "own_votes (CallCommit msgs # es) = own_votes es"
| "own_votes (CallDisconnect l # es) = own_votes es"

lemma own_votes_append [simp]: "own_votes (a @ b) = own_votes a @ own_votes b"
  by (induction a rule: own_votes.induct) simp_all

text \<open>A step in which the node cannot vote any more.\<close>

definition spent :: "'m replob \<Rightarrow> step_id \<Rightarrow> bool" where
  "spent r k \<longleftrightarrow> k < commitingStep r \<or> (\<exists>d. rsteps r k = Some d \<and> sd_state d \<noteq> StepInitial)"

definition replob_wf :: "'m replob \<Rightarrow> bool" where
  "replob_wf r \<longleftrightarrow>
     length (ran r) = unat (commitingStep r) \<and>
     (\<forall>j < length (ran r). fst (ran r ! j) = of_nat j) \<and>
     rsteps r (- 1) = None"

text \<open>\<open>advances\<close>: what every handler does to the part of the state the theorems look at.\<close>

definition advances :: "'m replob \<Rightarrow> 'm replob \<Rightarrow> bool" where
  "advances r r' \<longleftrightarrow>
     replob_wf r' \<and> prefix (ran r) (ran r') \<and> (\<forall>k. spent r k \<longrightarrow> spent r' k)"

lemma advances_refl: "replob_wf r \<Longrightarrow> advances r r"
  by (simp add: advances_def)

lemma advances_trans: "advances r r' \<Longrightarrow> advances r' r'' \<Longrightarrow> advances r r''"
  by (auto simp: advances_def)

lemma tryProcess_all_advances: "replob_wf r \<Longrightarrow> advances r (tryProcess_all r)"
proof (induction r rule: tryProcess_all.induct)
  case (1 r)
  show ?case
  proof (cases "\<exists>d. rsteps r (commitingStep r) = Some d \<and> sd_state d = StepCompleted")
    case False
    then have "tryProcess_all r = r"
      by (subst tryProcess_all.simps) (auto split: option.split)
    with "1.prems" show ?thesis by (simp add: advances_refl)
  next
    case True
    then obtain d where d: "rsteps r (commitingStep r) = Some d" "sd_state d = StepCompleted" by blast
    let ?r = "r\<lparr>ran := ran r @ [(commitingStep r, sd_msgs d)],
        rsteps := (rsteps r)(commitingStep r := None), commitingStep := commitingStep r + 1\<rparr>"
    have eq: "tryProcess_all r = tryProcess_all ?r"
      using d by (subst tryProcess_all.simps) simp
    have max: "commitingStep r \<noteq> - 1" using d "1.prems" by (auto simp: replob_wf_def)
    note suc = unat_Suc_not_max [OF max] word_less_Suc_not_max [OF max]
    have wf: "replob_wf ?r"
      using "1.prems" suc(1) by (auto simp: replob_wf_def nth_append less_Suc_eq)
    moreover have "spent r k \<longrightarrow> spent ?r k" for k
      using suc(2) by (cases "k = commitingStep r") (auto simp: spent_def)
    ultimately have "advances r ?r" by (simp add: advances_def)
    moreover have "advances ?r (tryProcess_all ?r)"
      using "1.IH" [OF d(1)] d(2) wf by simp
    ultimately show ?thesis unfolding eq by (rule advances_trans)
  qed
qed

lemma getStep_cases:
  assumes "getStep i r = (dopt, r1)"
  obtains (past) "i < commitingStep r" "dopt = None" "r1 = r"
  | (finished) d where "\<not> i < commitingStep r" "rsteps r i = Some d" "sd_state d = StepCompleted" "dopt = None" "r1 = r"
  | (active) d where "\<not> i < commitingStep r" "dopt = Some d" "sd_state d \<noteq> StepCompleted"
      "rsteps r i = Some d \<or> rsteps r i = None \<and> d = step_data_new"
      "rsteps r1 = (rsteps r)(i \<mapsto> d)" "commitingStep r1 = commitingStep r" "ran r1 = ran r"
      "cluster_nodes r1 = cluster_nodes r"
proof (cases "i < commitingStep r")
  case True
  with assms show ?thesis by (intro past) (simp_all add: getStep_def)
next
  case False
  define d where "d = (case rsteps r i of Some d \<Rightarrow> d | None \<Rightarrow> step_data_new)"
  show ?thesis
  proof (cases "sd_state d = StepCompleted")
    case True
    then obtain d' where "rsteps r i = Some d'" "d = d'"
      by (cases "rsteps r i") (auto simp: d_def step_data_new_def)
    with assms False True show ?thesis
      by (intro finished [of d]) (auto simp: getStep_def d_def fun_upd_idem)
  next
    case comp: False
    have eq: "dopt = Some d" "r1 = updateCurrentStepId i (r\<lparr>rsteps := (rsteps r)(i \<mapsto> d)\<rparr>)"
      using assms False comp by (auto simp: getStep_def d_def [symmetric] Let_def)
    have "rsteps r i = Some d \<or> rsteps r i = None \<and> d = step_data_new"
      by (simp add: d_def split: option.splits)
    with eq False comp show ?thesis
      by (intro active [of d]) (simp_all add: updateCurrentStepId_def)
  qed
qed

text \<open>Replacing the data of a live step by data that is not initial, or by the data it had.\<close>

lemma put_step_advances:
  assumes "replob_wf r" and "i \<noteq> - 1" and "\<not> i < commitingStep r"
    and "rsteps r' = (rsteps r)(i \<mapsto> d)" "commitingStep r' = commitingStep r" "ran r' = ran r"
    and "sd_state d \<noteq> StepInitial \<or> rsteps r i = Some d \<or> rsteps r i = None"
  shows "advances r r'"
  using assms by (auto simp: advances_def replob_wf_def spent_def)

lemma replob_commit_advances:
  assumes wf: "replob_wf r" and "msgs \<noteq> [] \<longrightarrow> ca_step (hd msgs) \<noteq> - 1"
    and run: "replob_commit msgs r = (res, out, r')"
  shows "advances r r' \<and> own_votes out = [] \<and> (msgs \<noteq> [] \<longrightarrow> spent r' (ca_step (hd msgs)))"
proof (cases "msgs = []")
  case True
  with run wf show ?thesis by (simp add: replob_commit_def advances_refl)
next
  case False
  define i where "i = ca_step (hd msgs)"
  have max: "i \<noteq> - 1" using assms(2) False by (simp add: i_def)
  obtain dopt r1 where g: "getStep i r = (dopt, r1)" by fastforce
  then show ?thesis
  proof (cases rule: getStep_cases)
    case past
    with run g False wf show ?thesis
      by (simp add: replob_commit_def i_def [symmetric] advances_refl spent_def)
  next
    case (finished d)
    with run g False wf show ?thesis
      by (simp add: replob_commit_def i_def [symmetric] advances_refl spent_def)
  next
    case (active d)
    let ?d = "d\<lparr>sd_msgs := msgs, votedNodes := [], sd_state := StepCompleted, sd_timer := False\<rparr>"
    let ?r = "r1\<lparr>rsteps := (rsteps r1)(i \<mapsto> ?d)\<rparr>"
    have out: "out = [CallCommit msgs]" "r' = tryProcess i ?r"
      using run g active False by (simp_all add: replob_commit_def i_def [symmetric] Let_def)
    have a: "advances r ?r"
      by (rule put_step_advances [OF wf max active(1), where d = ?d]) (simp_all add: active)
    have sp: "spent ?r i" by (simp add: spent_def)
    have "advances ?r r'"
      using a tryProcess_all_advances [of ?r] by (auto simp: out(2) tryProcess_def advances_def)
    with a sp show ?thesis
      by (auto simp: out(1) i_def [symmetric] advances_def)
  qed
qed

lemma smap_update_nonempty [simp]: "smap_update k v l \<noteq> []"
  by (cases l) (auto split: if_splits)

lemma enter_vote_data:
  assumes "enter_vote this c n d = (canVote, d')"
  shows "canVote = (sd_state d = StepInitial) \<and> votedNodes d' \<noteq> [] \<and>
    sd_state d' = (if sd_state d = StepInitial then StepVoted else sd_state d)"
  using assms by (auto simp: enter_vote_def Let_def)

lemma replob_vote_advances:
  assumes wf: "replob_wf r" and max: "ca_step c \<noteq> - 1"
    and run: "replob_vote c n r = (res, out, r')"
  shows "advances r r' \<and>
    (own_votes out = [] \<or> own_votes out = [ca_step c] \<and> \<not> spent r (ca_step c) \<and> spent r' (ca_step c))"
proof -
  let ?i = "ca_step c"
  obtain dopt r1 where g: "getStep ?i r = (dopt, r1)" by fastforce
  then show ?thesis
  proof (cases rule: getStep_cases)
    case past
    with run g wf show ?thesis by (simp add: replob_vote_def advances_refl)
  next
    case (finished d)
    with run g wf show ?thesis by (simp add: replob_vote_def advances_refl)
  next
    case (active d)
    let ?cfg = "config (cluster_nodes r)"
    obtain canVote d2 where ev: "enter_vote (thisNode ?cfg) c n d = (canVote, d2)" by fastforce
    let ?r2 = "r1\<lparr>rsteps := (rsteps r1)(?i \<mapsto> d2)\<rparr>"
    let ?msgs = "voted_msgs ?i d2"
    from enter_vote_data [OF ev] active(3)
    have st: "sd_state d2 \<noteq> StepInitial" "votedNodes d2 \<noteq> []"
      and canVote: "canVote = (sd_state d = StepInitial)" by (auto split: if_splits)
    have eq: "(res, out, r') =
      (if mayCommit ?cfg d2 then replob_commit ?msgs ?r2
       else if canVote
       then (Inr (), [CallVote c (thisNode ?cfg)], ?r2\<lparr>rsteps := (rsteps ?r2)(?i \<mapsto> d2\<lparr>sd_timer := True\<rparr>)\<rparr>)
       else (Inr (), [], ?r2))"
      using run g active(2) ev by (simp add: replob_vote_def Let_def)
    have a: "advances r ?r2"
      by (rule put_step_advances [OF wf max active(1), where d = d2]) (simp_all add: active st)
    consider (commit) "mayCommit ?cfg d2" | (first) "\<not> mayCommit ?cfg d2" canVote
      | (later) "\<not> mayCommit ?cfg d2" "\<not> canVote" by blast
    then show ?thesis
    proof cases
      case commit
      have "ca_step (hd ?msgs) = ?i" "?msgs \<noteq> []"
        using st(2) by (auto simp: voted_msgs_def hd_map)
      moreover have "replob_commit ?msgs ?r2 = (res, out, r')" using eq commit by simp
      moreover have "replob_wf ?r2" using a by (simp add: advances_def)
      ultimately show ?thesis
        using replob_commit_advances [of ?r2 ?msgs res out r'] max a by (auto intro: advances_trans)
    next
      case first
      let ?r = "?r2\<lparr>rsteps := (rsteps ?r2)(?i \<mapsto> d2\<lparr>sd_timer := True\<rparr>)\<rparr>"
      have o: "out = [CallVote c (thisNode ?cfg)]" "r' = ?r" using eq first by simp_all
      have "advances r ?r"
        by (rule put_step_advances [OF wf max active(1), where d = "d2\<lparr>sd_timer := True\<rparr>"])
          (simp_all add: active st)
      moreover have "\<not> spent r ?i"
        using active(1,4) first(2) canVote by (auto simp: spent_def)
      moreover have "spent ?r ?i" using st by (simp add: spent_def)
      ultimately show ?thesis by (simp add: o)
    next
      case later
      with eq a show ?thesis by simp
    qed
  qed
qed

lemma disconnectNodes_frame:
  assumes "disconnectNodes l r = (out, r')"
  shows "rsteps r' = rsteps r" "commitingStep r' = commitingStep r" "ran r' = ran r" "own_votes out = []"
  using assms by (auto simp: disconnectNodes_def split_beta Let_def split: if_splits)

lemma frame_advances:
  assumes "replob_wf r" "rsteps r' = rsteps r" "commitingStep r' = commitingStep r" "ran r' = ran r"
  shows "advances r r'"
  using assms by (simp add: advances_def replob_wf_def spent_def)

lemma replob_onTimeout_advances:
  assumes wf: "replob_wf r" and max: "i \<noteq> - 1" and run: "replob_onTimeout i r = (out, r')"
  shows "advances r r' \<and> own_votes out = []"
proof -
  obtain dopt r1 where g: "getStep i r = (dopt, r1)" by fastforce
  then show ?thesis
  proof (cases rule: getStep_cases)
    case (active d)
    have a: "advances r r1"
      by (rule put_step_advances [OF wf max active(1), where d = d]) (use active in auto)
    let ?l = "[n \<leftarrow> cfg_ids (config (cluster_nodes r1)). n \<notin> votedNodesSet d]"
    show ?thesis
    proof (cases "?l = []")
      case True
      with run g active a show ?thesis by (simp add: replob_onTimeout_def)
    next
      case False
      with run g active have "disconnectNodes ?l r1 = (out, r')"
        by (simp add: replob_onTimeout_def Let_def)
      from disconnectNodes_frame [OF this] a show ?thesis
        using frame_advances [of r1 r'] by (auto simp: advances_def)
    qed
  qed (use run g wf in \<open>simp_all add: replob_onTimeout_def advances_refl\<close>)
qed

lemma replob_step_advances:
  assumes "replob_step r out r'" and wf: "replob_wf r"
  shows "advances r r' \<and>
    (own_votes out = [] \<or> (\<exists>k. own_votes out = [k] \<and> \<not> spent r k \<and> spent r' k))"
  using assms(1)
proof cases
  case (applied m res)
  let ?r = "snd (nextStepId r)\<lparr>mid_counter := snd (genUniqueId (config (cluster_nodes r)) (mid_counter r))\<rparr>"
  let ?c = "\<lparr>ca_msg = Some m, ca_step = nextStep r, ca_id = fst (genUniqueId (config (cluster_nodes r)) (mid_counter r))\<rparr>"
  have v: "replob_vote ?c (thisNode (config (cluster_nodes r))) ?r = (res, out, r')"
    using applied(2) by (simp add: replob_apply_def nextStepId_def split_beta)
  have same: "rsteps ?r = rsteps r" "commitingStep ?r = commitingStep r" "ran ?r = ran r"
    by (simp_all add: nextStepId_def)
  have a: "advances r ?r" by (rule frame_advances [OF wf same])
  then have "replob_wf ?r" by (simp add: advances_def)
  from replob_vote_advances [OF this _ v] applied(1)
  have "advances ?r r' \<and> (own_votes out = [] \<or> own_votes out = [nextStep r] \<and> \<not> spent ?r (nextStep r) \<and> spent r' (nextStep r))"
    by simp
  moreover have "spent ?r k = spent r k" for k unfolding spent_def same ..
  ultimately show ?thesis using a by (auto intro: advances_trans)
next
  case (vote c n res)
  from replob_vote_advances [OF wf vote] show ?thesis by blast
next
  case (commit msgs res)
  from replob_commit_advances [OF wf commit] show ?thesis by blast
next
  case (timeout i)
  from replob_onTimeout_advances [OF wf timeout] show ?thesis by blast
next
  case (disconnect l)
  from disconnectNodes_frame [OF disconnect] frame_advances [OF wf] show ?thesis by blast
qed

lemma replob_new_wf: "replob_wf (replob_new ns)"
  by (simp add: replob_wf_def replob_new_def)

text \<open>Along a run: well-formed, and every announced vote was for a step not voted in before.\<close>

lemma replob_run_inv:
  "replob_run ns calls r \<Longrightarrow>
     replob_wf r \<and> distinct (own_votes calls) \<and> (\<forall>k \<in> set (own_votes calls). spent r k)"
proof (induction rule: replob_run.induct)
  case start
  show ?case by (simp add: replob_new_wf)
next
  case (more calls r out r')
  then have wf: "replob_wf r" by simp
  from replob_step_advances [OF more(2) wf] more(3) show ?case
    by (auto simp: advances_def)
qed

section \<open>What Replob promises\<close>

text \<open>C35: Whatever calls arrive and whichever timers fire, a node executes the steps in the
  order of their numbers, from 0 on, without a gap and each once, and only ever adds to
  what it executed.\<close>

theorem replob_executes_in_order:
  assumes "replob_run ns calls r" and "replob_step r out r'"
  shows "map fst (ran r) = map of_nat [0..<length (ran r)] \<and> prefix (ran r) (ran r')"
proof -
  have wf: "replob_wf r" using replob_run_inv [OF assms(1)] by simp
  then have "map fst (ran r) = map of_nat [0..<length (ran r)]"
    by (intro nth_equalityI) (simp_all add: replob_wf_def)
  with replob_step_advances [OF assms(2) wf] show ?thesis by (simp add: advances_def)
qed

definition three_v1 :: nodes where
  "three_v1 = nodes_of 1 [(1, port 8001), (2, port 8002), (3, port 8003)]"

text \<open>Node 1 applies a message; then the votes of 2 and 3 for it arrive.\<close>

definition v1_first :: "nat replob" where
  "v1_first = snd (snd (replob_apply 7 (replob_new three_v1)))"

definition v1_carry :: "nat carry" where
  "v1_carry = \<lparr>ca_msg = Some 7, ca_step = 0, ca_id = (1, 0)\<rparr>"

definition v1_second :: "nat replob" where
  "v1_second = snd (snd (replob_vote v1_carry 2 v1_first))"

definition v1_third :: "nat replob" where
  "v1_third = snd (snd (replob_vote v1_carry 3 v1_second))"

lemma v1_run: "replob_run three_v1 [CallVote v1_carry 1] v1_second"
proof -
  have "nextStep (replob_new three_v1 :: nat replob) \<noteq> - 1" by (simp add: replob_new_def)
  moreover have "fst (snd (replob_apply (7 :: nat) (replob_new three_v1))) = [CallVote v1_carry 1]"
    by code_simp
  then have "replob_apply (7 :: nat) (replob_new three_v1) =
      (fst (replob_apply (7 :: nat) (replob_new three_v1)), [CallVote v1_carry 1], v1_first)"
    by (intro prod_eqI) (simp_all add: v1_first_def)
  ultimately have "replob_step (replob_new three_v1) [CallVote v1_carry 1] v1_first"
    by (rule replob_step.applied)
  from replob_run.more [OF replob_run.start this]
  have r: "replob_run three_v1 [CallVote v1_carry 1] v1_first" by simp
  have "fst (snd (replob_vote v1_carry 2 v1_first)) = []" by code_simp
  then have "replob_vote v1_carry 2 v1_first = (fst (replob_vote v1_carry 2 v1_first), [], v1_second)"
    by (intro prod_eqI) (simp_all add: v1_second_def)
  from replob_step.vote [OF _ this] have "replob_step v1_first [] v1_second"
    by (simp add: v1_carry_def)
  from replob_run.more [OF r this] show ?thesis by simp
qed

lemma v1_commits: "replob_step v1_second [CallCommit [v1_carry]] v1_third"
proof -
  have "fst (snd (replob_vote v1_carry 3 v1_second)) = [CallCommit [v1_carry]]" by code_simp
  then have "replob_vote v1_carry 3 v1_second =
      (fst (replob_vote v1_carry 3 v1_second), [CallCommit [v1_carry]], v1_third)"
    by (intro prod_eqI) (simp_all add: v1_third_def)
  then show ?thesis by (rule replob_step.vote [rotated]) (simp add: v1_carry_def)
qed

lemma replob_executes_in_order_witness:
  "map fst (ran v1_third) = [0] \<and> map fst (ran v1_second) = map of_nat [0..<length (ran v1_second)] \<and>
   prefix (ran v1_second) (ran v1_third)"
proof -
  have "map fst (ran v1_third) = [0]" by code_simp
  with replob_executes_in_order [OF v1_run v1_commits] show ?thesis by simp
qed

text \<open>A node votes at most once in a step: among all the votes it ever announces no two are
  for the same step.\<close>

theorem replob_votes_once:
  assumes "replob_run ns calls r"
  shows "distinct (own_votes calls)"
  using replob_run_inv [OF assms] by blast

lemma replob_votes_once_witness: "distinct (own_votes [CallVote v1_carry 1])"
  by (rule replob_votes_once [OF v1_run])

text \<open>Counting votes: the sum over the messages is the number of voters, if nobody voted twice.\<close>

lemma sum_card_Union:
  assumes "\<And>A. A \<in> set l \<Longrightarrow> finite A"
    and "\<And>i j. \<lbrakk>i < length l; j < length l; i \<noteq> j\<rbrakk> \<Longrightarrow> l ! i \<inter> l ! j = {}"
  shows "sum_list (map card l) = card (\<Union> (set l))"
  using assms
proof (induction l)
  case (Cons A l)
  have "A \<inter> B = {}" if "B \<in> set l" for B
  proof -
    from that obtain j where "j < length l" "B = l ! j" by (auto simp: in_set_conv_nth)
    with Cons.prems(2) [of 0 "Suc j"] show ?thesis by simp
  qed
  then have "A \<inter> \<Union> (set l) = {}" by blast
  moreover have "sum_list (map card l) = card (\<Union> (set l))"
  proof (rule Cons.IH)
    show "l ! i \<inter> l ! j = {}" if "i < length l" "j < length l" "i \<noteq> j" for i j
      using Cons.prems(2) [of "Suc i" "Suc j"] that by simp
  qed (use Cons.prems(1) in auto)
  ultimately show ?case using Cons.prems(1) by (simp add: card_Un_disjoint)
qed simp

definition one_vote_each :: "'m step_data \<Rightarrow> bool" where
  "one_vote_each sd \<longleftrightarrow>
     (let l = map (\<lambda>v. votedSet (snd v)) (votedNodes sd)
      in \<forall>i < length l. \<forall>j < length l. i \<noteq> j \<longrightarrow> l ! i \<inter> l ! j = {})"

lemma mayCommit_card:
  assumes "one_vote_each sd"
  shows "mayCommit cfg sd \<longleftrightarrow> card (votedNodesSet sd) = nodesCount cfg"
proof -
  have "sum_list (map card (map (\<lambda>v. votedSet (snd v)) (votedNodes sd))) =
      card (\<Union> (set (map (\<lambda>v. votedSet (snd v)) (votedNodes sd))))"
    using assms by (intro sum_card_Union) (auto simp: one_vote_each_def Let_def)
  then show ?thesis by (simp add: mayCommit_def votedNodesSet_def comp_def)
qed

text \<open>When every vote is one of a configured node and nobody is counted for two messages,
  \<open>mayCommit\<close> says exactly that all configured nodes have voted.\<close>

theorem mayCommit_all_voted:
  assumes "one_vote_each sd" and "votedNodesSet sd \<subseteq> nodesSet cfg" and "distinct (map fst (cfg_nodes cfg))"
  shows "mayCommit cfg sd \<longleftrightarrow> votedNodesSet sd = nodesSet cfg"
proof -
  have "nodesCount cfg = card (nodesSet cfg)"
    using distinct_card [OF assms(3)] by (simp add: nodesCount_def nodesSet_def)
  moreover have "card (votedNodesSet sd) = card (nodesSet cfg) \<longleftrightarrow> votedNodesSet sd = nodesSet cfg"
    using card_subset_eq [OF _ assms(2)] by auto
  ultimately show ?thesis using mayCommit_card [OF assms(1), of cfg] by simp
qed

lemma mayCommit_all_voted_witness:
  "mayCommit (config three_v1)
     (step_data_new\<lparr>votedNodes := [((1, 0), \<lparr>votedSet = {1, 2, 3 :: node_id}, md_msg = Some (7 :: nat)\<rparr>)]\<rparr>)"
proof -
  let ?sd = "step_data_new\<lparr>votedNodes := [((1, 0), \<lparr>votedSet = {1, 2, 3 :: node_id}, md_msg = Some (7 :: nat)\<rparr>)]\<rparr>"
  have "nodesSet (config three_v1) = {1, 2, 3}"
    by (auto simp: three_v1_def nodes_of_def nodes_add_def addNode_def nodesSet_def)
  moreover have "distinct (map fst (cfg_nodes (config three_v1)))"
    by (simp add: three_v1_def nodes_of_def nodes_add_def addNode_def)
  moreover have "one_vote_each ?sd" by (simp add: one_vote_each_def)
  moreover have "votedNodesSet ?sd = {1, 2, 3}" by (simp add: votedNodesSet_def)
  ultimately show ?thesis using mayCommit_all_voted [of ?sd "config three_v1"] by simp
qed

text \<open>The vote of a node that has been removed from the configuration still counts: whenever
  \<open>mayCommit\<close> holds and one of the counted voters is not configured, the step is committed
  although some configured node has not voted for anything.\<close>

theorem removed_vote_counts:
  assumes "one_vote_each sd" and "mayCommit cfg sd" and "distinct (map fst (cfg_nodes cfg))"
    and "x \<in> votedNodesSet sd" and "x \<notin> nodesSet cfg"
  shows "\<exists>y \<in> nodesSet cfg. y \<notin> votedNodesSet sd"
proof (rule ccontr)
  assume "\<not> ?thesis"
  with assms(4,5) have "nodesSet cfg \<subset> votedNodesSet sd" by blast
  then have "card (nodesSet cfg) < card (votedNodesSet sd)"
    by (intro psubset_card_mono) auto
  moreover have "nodesCount cfg = card (nodesSet cfg)"
    using distinct_card [OF assms(3)] by (simp add: nodesCount_def nodesSet_def)
  ultimately show False using mayCommit_card [OF assms(1), of cfg] assms(2) by simp
qed

lemma removed_vote_counts_witness:
  "\<exists>y \<in> nodesSet (config (snd (nodes_remove 3 three_v1))).
     y \<notin> votedNodesSet (step_data_new\<lparr>votedNodes := [((1, 0), \<lparr>votedSet = {1, 3}, md_msg = Some (7 :: nat)\<rparr>)]\<rparr>)"
proof (rule removed_vote_counts)
  let ?sd = "step_data_new\<lparr>votedNodes := [((1, 0), \<lparr>votedSet = {1, 3}, md_msg = Some (7 :: nat)\<rparr>)]\<rparr>"
  have cfg: "cfg_nodes (config (snd (nodes_remove 3 three_v1))) = [(1, port 8001), (2, port 8002)]"
    by (simp add: three_v1_def nodes_of_def nodes_add_def addNode_def nodes_remove_def removeNode_def)
  show "one_vote_each ?sd" by (simp add: one_vote_each_def)
  show "mayCommit (config (snd (nodes_remove 3 three_v1))) ?sd"
    by (simp add: mayCommit_def nodesCount_def cfg)
  show "distinct (map fst (cfg_nodes (config (snd (nodes_remove 3 three_v1)))))"
    by (simp add: cfg)
  show "3 \<in> votedNodesSet ?sd" by (simp add: votedNodesSet_def)
  show "3 \<notin> nodesSet (config (snd (nodes_remove 3 three_v1)))"
    by (simp add: nodesSet_def cfg)
qed

text \<open>Removing live nodes one after the other removes them all.\<close>

lemma nodes_remove_live:
  assumes "map_of (table ns) n = Some (Some c)" and "n \<in> nodesSet (config ns)"
  shows "fst (nodes_remove n ns)" and "nodesSet (config (snd (nodes_remove n ns))) = nodesSet (config ns) - {n}"
    and "m \<noteq> n \<Longrightarrow> map_of (table (snd (nodes_remove n ns))) m = map_of (table ns) m"
proof -
  show 1: "fst (nodes_remove n ns)"
    using assms by (cases n "config ns" rule: removeNode_cases) (auto simp: nodes_remove_def split: prod.splits bool.splits)
  from nodes_remove_True [OF this]
  show "nodesSet (config (snd (nodes_remove n ns))) = nodesSet (config ns) - {n}"
    and "m \<noteq> n \<Longrightarrow> map_of (table (snd (nodes_remove n ns))) m = map_of (table ns) m"
    by (auto simp: update_conv')
qed

lemma remove_nodes_live:
  assumes "distinct l" and "\<And>n. n \<in> set l \<Longrightarrow> n \<in> nodesSet (config ns) \<and> (\<exists>c. map_of (table ns) n = Some (Some c))"
  shows "fst (remove_nodes l ns) = l \<and> nodesSet (config (snd (remove_nodes l ns))) = nodesSet (config ns) - set l"
  using assms
proof (induction l arbitrary: ns)
  case (Cons n l)
  from Cons.prems(2) [of n] obtain c
    where "map_of (table ns) n = Some (Some c)" "n \<in> nodesSet (config ns)" by auto
  note rm = nodes_remove_live [OF this]
  have "fst (remove_nodes l (snd (nodes_remove n ns))) = l \<and>
      nodesSet (config (snd (remove_nodes l (snd (nodes_remove n ns))))) =
        nodesSet (config (snd (nodes_remove n ns))) - set l"
  proof (rule Cons.IH)
    show "m \<in> nodesSet (config (snd (nodes_remove n ns))) \<and>
        (\<exists>c. map_of (table (snd (nodes_remove n ns))) m = Some (Some c))" if "m \<in> set l" for m
    proof -
      have "m \<noteq> n" using Cons.prems(1) that by auto
      with Cons.prems(2) [of m] that rm(2) rm(3) [OF this] show ?thesis by simp
    qed
  qed (use Cons.prems in simp)
  with rm(1,2) show ?case by (auto simp: split_beta)
qed simp

text \<open>When the availability timer of an open step fires and every configured node is still
  connected, exactly the configured nodes that have not voted leave the configuration, and
  the others are told about exactly these.\<close>

theorem timeout_removes_silent:
  assumes "getStep i r = (Some d, r1)" and "distinct (map fst (cfg_nodes (config (cluster_nodes r))))"
    and "\<forall>n \<in> nodesSet (config (cluster_nodes r)). \<exists>c. map_of (table (cluster_nodes r)) n = Some (Some c)"
    and "replob_onTimeout i r = (out, r')"
  defines "silent \<equiv> [n \<leftarrow> cfg_ids (config (cluster_nodes r)). n \<notin> votedNodesSet d]"
  shows "nodesSet (config (cluster_nodes r')) = nodesSet (config (cluster_nodes r)) \<inter> votedNodesSet d \<and>
    out = (if silent = [] then [] else [CallDisconnect silent])"
proof -
  have same: "cluster_nodes r1 = cluster_nodes r"
    using assms(1) by (cases rule: getStep_cases) simp_all
  have run: "(out, r') = (if silent = [] then ([], r1) else disconnectNodes silent r1)"
    using assms(1) assms(4) [symmetric] by (simp add: replob_onTimeout_def silent_def same Let_def)
  have silent: "set silent = nodesSet (config (cluster_nodes r)) - votedNodesSet d" "distinct silent"
    using assms(2) by (auto simp: silent_def cfg_ids_def nodesSet_def)
  have "fst (remove_nodes silent (cluster_nodes r)) = silent \<and>
      nodesSet (config (snd (remove_nodes silent (cluster_nodes r)))) = nodesSet (config (cluster_nodes r)) - set silent"
    using silent assms(3) by (intro remove_nodes_live) auto
  then show ?thesis
    using run silent(1) same
    by (cases "silent = []") (auto simp: disconnectNodes_def split_beta Let_def)
qed

lemma timeout_removes_silent_witness:
  "nodesSet (config (cluster_nodes (snd (replob_onTimeout 0 v1_second)))) = {1, 2} \<and>
   fst (replob_onTimeout 0 v1_second) = [CallDisconnect [3]]"
proof -
  define d :: "nat step_data" where "d = the (fst (getStep 0 v1_second))"
  have "fst (getStep 0 v1_second) \<noteq> None \<and> votedNodesSet (the (fst (getStep 0 v1_second))) = {1, 2} \<and>
      cluster_nodes v1_second = three_v1"
    by code_simp
  then have g: "getStep 0 v1_second = (Some d, snd (getStep 0 v1_second))"
    and d: "votedNodesSet d = {1, 2}" and ns: "cluster_nodes v1_second = three_v1"
    by (auto simp: d_def prod_eq_iff)
  have cfg: "cfg_nodes (config three_v1) = [(1, port 8001), (2, port 8002), (3, port 8003)]"
    by (simp add: three_v1_def nodes_of_def nodes_add_def addNode_def)
  have tab: "map_of (table three_v1) n = Some (Some (connector_new (port 8001))) \<or>
      map_of (table three_v1) n = Some (Some (connector_new (port 8002))) \<or>
      map_of (table three_v1) n = Some (Some (connector_new (port 8003)))" if "n \<in> nodesSet (config three_v1)" for n
    using that by (auto simp: three_v1_def nodes_of_def nodes_add_def addNode_def nodesSet_def)
  have "replob_onTimeout 0 v1_second = (fst (replob_onTimeout 0 v1_second), snd (replob_onTimeout 0 v1_second))"
    by simp
  from timeout_removes_silent [OF g _ _ this] tab
  show ?thesis by (auto simp: ns cfg d cfg_ids_def nodesSet_def)
qed

end
