(* ===== verification/Server.thy ===== *)
theory Server
  imports Cluster
begin

text \<open>
  The start of a node of the examples (\<open>examples/server.h\<close>): the number of nodes and the
  number of this node come from the environment, and every node of the cluster is
  configured on its own port of the local machine. The environment is a parameter.
\<close>

section \<open>Reading the environment\<close>

type_synonym environment = "string \<Rightarrow> string option"

text \<open>Constructing a \<open>std::string\<close> from the null pointer \<open>getenv\<close> returns is an error.\<close>

definition getEnv :: "environment \<Rightarrow> string \<Rightarrow> string outcome" where
  "getEnv env name =
     (case env name of None \<Rightarrow> Inl (LogicError ''construction from null'') | Some s \<Rightarrow> Inr s)"

text \<open>\<open>std::stoi\<close>: white space, a sign, the longest run of digits; the rest is ignored.\<close>

definition is_digit :: "char \<Rightarrow> bool" where
  "is_digit c \<longleftrightarrow> 48 \<le> (of_char c :: nat) \<and> (of_char c :: nat) \<le> 57"

definition is_blank :: "char \<Rightarrow> bool" where
  "is_blank c \<longleftrightarrow> (of_char c :: nat) = 32 \<or> 9 \<le> (of_char c :: nat) \<and> (of_char c :: nat) \<le> 13"

definition digits_value :: "string \<Rightarrow> int" where
  "digits_value ds = foldl (\<lambda>n c. 10 * n + (int (of_char c) - 48)) 0 ds"

fun signed_part :: "string \<Rightarrow> int \<times> string" where
  "signed_part (c # cs) =
     (if c = CHR ''-'' then (- 1, cs) else if c = CHR ''+'' then (1, cs) else (1, c # cs))"
| "signed_part [] = (1, [])"

definition stoi :: "string \<Rightarrow> int outcome" where
  "stoi s =
     (let (sg, rest) = signed_part (dropWhile is_blank s); ds = takeWhile is_digit rest
      in if ds = [] then Inl (LogicError ''stoi'')
         else let n = sg * digits_value ds
              in if - (2 ^ 31) \<le> n \<and> n < 2 ^ 31 then Inr n else Inl OutOfRange)"

definition getEnvInt :: "environment \<Rightarrow> string \<Rightarrow> int outcome" where
  "getEnvInt env name = (case getEnv env name of Inl e \<Rightarrow> Inl e | Inr s \<Rightarrow> stoi s)"

definition c_nodes :: string where "c_nodes = ''NODES''"
definition c_nodeId :: string where "c_nodeId = ''NODE_ID''"

section \<open>The configuration\<close>

definition local_endpoint :: "16 word \<Rightarrow> endpoint" where
  "local_endpoint p = \<lparr>ep_port = p, ep_address = ''127.0.0.1'', ep_type = V4\<rparr>"

definition addLocalNodePort :: "node_id \<Rightarrow> 16 word \<Rightarrow> nodes \<Rightarrow> nodes" where
  "addLocalNodePort i p ns = nodes_add i (local_endpoint p) ns"

definition add_local_nodes :: "int \<Rightarrow> nodes \<Rightarrow> nodes" where
  "add_local_nodes n ns = fold (\<lambda>i. addLocalNodePort (of_int i) (of_int (i + 8800))) [1..n] ns"

text \<open>
  The node number is an unsigned 64-bit word when it is checked; \<open>nodes\<close> is converted to one
  for the comparison.
\<close>

definition initNodes :: "environment \<Rightarrow> nodes \<Rightarrow> unit outcome \<times> nodes" where
  "initNodes env ns =
     (case getEnvInt env c_nodes of
        Inl e \<Rightarrow> (Inl e, ns)
      | Inr n \<Rightarrow>
     (case VERIFY (n > 0) ''Invalid number of nodes'' of
        Inl e \<Rightarrow> (Inl e, ns)
      | Inr _ \<Rightarrow>
     (case VERIFY (n \<le> 20) ''Number of nodes is too high'' of
        Inl e \<Rightarrow> (Inl e, ns)
      | Inr _ \<Rightarrow>
     (case getEnvInt env c_nodeId of
        Inl e \<Rightarrow> (Inl e, ns)
      | Inr k \<Rightarrow>
     (let nodeId = (of_int k :: node_id) in
      case VERIFY (nodeId > 0) ''Invalid node id'' of
        Inl e \<Rightarrow> (Inl e, ns)
      | Inr _ \<Rightarrow>
     (case VERIFY (nodeId \<le> of_int n) ''Node id not in correct range'' of
        Inl e \<Rightarrow> (Inl e, ns)
      | Inr _ \<Rightarrow>
          (Inr (), (add_local_nodes n ns)
                     \<lparr>config := setThisNode nodeId (config (add_local_nodes n ns))\<rparr>)))))))"

section \<open>What a node starts with\<close>

definition no_nodes :: nodes where
  "no_nodes = \<lparr>config = \<lparr>cfg_this = 0, cfg_nodes = []\<rparr>, table = []\<rparr>"

text \<open>The members all nodes of a cluster of \<open>n\<close> agree on.\<close>

definition server_members :: "int \<Rightarrow> members" where
  "server_members n = map (\<lambda>i. (of_int i, local_endpoint (of_int (i + 8800)))) [1..n]"

lemma small_ids_inj: "inj_on (of_int :: int \<Rightarrow> node_id) {0..20}"
proof (rule inj_onI)
  fix x y :: int
  assume xy: "x \<in> {0..20}" "y \<in> {0..20}" and eq: "(of_int x :: node_id) = of_int y"
  from xy have "uint (of_int x :: node_id) = x" "uint (of_int y :: node_id) = y"
    by (simp_all add: unsigned_of_int take_bit_int_eq_self)
  then show "x = y" using eq by metis
qed

lemma add_local_nodes_config:
  assumes "0 \<le> n" "n \<le> 20"
  shows "cfg_nodes (config (add_local_nodes n no_nodes)) = server_members n"
    "table (add_local_nodes n no_nodes) = map (\<lambda>(i, e). (i, Some (connector_new e))) (server_members n)"
proof -
  have "cfg_nodes (config (add_local_nodes (int k) no_nodes)) = server_members (int k) \<and>
    table (add_local_nodes (int k) no_nodes) = map (\<lambda>(i, e). (i, Some (connector_new e))) (server_members (int k))"
    if "k \<le> 20" for k
    using that
  proof (induction k)
    case 0
    then show ?case by (simp add: add_local_nodes_def server_members_def no_nodes_def)
  next
    case (Suc k)
    have up: "[1..int (Suc k)] = [1..int k] @ [int (Suc k)]" using upto_rec2 [of 1 "int (Suc k)"] by simp
    let ?new = "(of_int (int (Suc k)) :: node_id, local_endpoint (of_int (int (Suc k) + 8800)))"
    have snoc: "server_members (int (Suc k)) = server_members (int k) @ [?new]"
      by (simp only: server_members_def up map_append list.map)
    have new: "(of_int (int (Suc k)) :: node_id) \<notin> fst ` set (server_members (int k))"
    proof
      assume "(of_int (int (Suc k)) :: node_id) \<in> fst ` set (server_members (int k))"
      then obtain i where "i \<in> {1..int k}" "(of_int (int (Suc k)) :: node_id) = of_int i"
        by (auto simp: server_members_def)
      with small_ids_inj Suc.prems show False unfolding inj_on_def by fastforce
    qed
    let ?ns = "add_local_nodes (int k) no_nodes"
    have none: "map_of (server_members (int k)) (of_int (int (Suc k))) = None"
      using new by (simp add: map_of_eq_None_iff)
    have none': "of_int (int (Suc k)) \<notin> fst ` set (table ?ns)"
      using new Suc by (auto simp: image_image case_prod_beta)
    have step: "add_local_nodes (int (Suc k)) no_nodes =
        addLocalNodePort (of_int (int (Suc k))) (of_int (int (Suc k) + 8800)) ?ns"
      by (simp only: add_local_nodes_def up fold_append fold_simps o_apply)
    have c: "cfg_nodes (config ?ns) = server_members (int k)"
      and t: "table ?ns = map (\<lambda>(i, e). (i, Some (connector_new e))) (server_members (int k))"
      using Suc by simp_all
    have "cfg_nodes (config (addLocalNodePort (fst ?new) (of_int (int (Suc k) + 8800)) ?ns)) = server_members (int k) @ [?new]"
      using none by (simp add: addLocalNodePort_def nodes_add_def addNode_def c del: of_int_of_nat_eq of_nat_Suc)
    moreover have "table (addLocalNodePort (fst ?new) (of_int (int (Suc k) + 8800)) ?ns) =
        map (\<lambda>(i, e). (i, Some (connector_new e))) (server_members (int k) @ [?new])"
      using update_nonmem [OF none'] by (simp add: addLocalNodePort_def nodes_add_def t del: of_int_of_nat_eq of_nat_Suc)
    ultimately show ?case by (simp only: step snoc fst_conv simp_thms)
  qed
  from this [of "nat n"] assms
  show "cfg_nodes (config (add_local_nodes n no_nodes)) = server_members n"
    "table (add_local_nodes n no_nodes) = map (\<lambda>(i, e). (i, Some (connector_new e))) (server_members n)"
    by simp_all
qed

lemma server_members_ids:
  assumes "0 \<le> n" "n \<le> 20"
  shows "member_ids (server_members n) = of_int ` {1..n}" "card (member_ids (server_members n)) = nat n"
proof -
  show ids: "member_ids (server_members n) = of_int ` {1..n}"
    by (simp add: member_ids_def server_members_def image_image)
  have "inj_on (of_int :: int \<Rightarrow> node_id) {1..n}"
    using small_ids_inj by (rule inj_on_subset) (use assms in auto)
  then show "card (member_ids (server_members n)) = nat n" by (simp add: ids card_image)
qed

lemma of_int_le_small:
  assumes "0 \<le> n" "n \<le> 20"
  shows "(k :: node_id) > 0 \<and> k \<le> of_int n \<longleftrightarrow> k \<in> of_int ` {1..n}"
proof -
  have u: "uint (of_int i :: node_id) = i" if "0 \<le> i" "i \<le> 20" for i
    using that by (simp add: unsigned_of_int take_bit_int_eq_self)
  have "k > 0 \<and> k \<le> of_int n \<longleftrightarrow> 0 < uint k \<and> uint k \<le> n"
    using u [of n] assms by (simp add: word_less_def word_le_def)
  also have "\<dots> \<longleftrightarrow> k \<in> of_int ` {1..n}"
  proof
    assume "0 < uint k \<and> uint k \<le> n"
    then show "k \<in> of_int ` {1..n}" by (intro image_eqI [of _ _ "uint k"]) auto
  next
    assume "k \<in> of_int ` {1..n}"
    then show "0 < uint k \<and> uint k \<le> n" using u assms by auto
  qed
  finally show ?thesis .
qed

text \<open>A node starts exactly when the environment gives a number of nodes from 1 to 20
  and a number of this node among them; its configuration then is the one the cluster's
  theorems assume, the same on every node but for the node's own number, with a connector
  for each member.\<close>

theorem initNodes_configures_cluster:
  "(\<exists>ns. initNodes env no_nodes = (Inr (), ns)) \<longleftrightarrow>
     (\<exists>n k. getEnvInt env c_nodes = Inr n \<and> getEnvInt env c_nodeId = Inr k \<and> 1 \<le> n \<and> n \<le> 20 \<and>
        of_int k \<in> member_ids (server_members n) \<and>
        initNodes env no_nodes =
          (Inr (), \<lparr>config = node_cfg (server_members n) (of_int k),
                    table = map (\<lambda>(i, e). (i, Some (connector_new e))) (server_members n)\<rparr>) \<and>
        card (member_ids (server_members n)) = nat n)"
    (is "?L \<longleftrightarrow> ?R")
proof
  assume ?R
  then show ?L by blast
next
  assume ?L
  then obtain ns where ok: "initNodes env no_nodes = (Inr (), ns)" by blast
  then obtain n where n: "getEnvInt env c_nodes = Inr n"
    by (cases "getEnvInt env c_nodes") (simp_all add: initNodes_def)
  have n1: "1 \<le> n" using ok n by (cases "n > 0") (simp_all add: initNodes_def)
  have n20: "n \<le> 20" using ok n n1 by (cases "n \<le> 20") (simp_all add: initNodes_def)
  obtain k where k: "getEnvInt env c_nodeId = Inr k"
    using ok n n1 n20 by (cases "getEnvInt env c_nodeId") (simp_all add: initNodes_def)
  have k1: "(of_int k :: node_id) > 0"
    using ok n n1 n20 k by (cases "(of_int k :: node_id) > 0") (simp_all add: initNodes_def Let_def)
  have kn: "(of_int k :: node_id) \<le> of_int n"
    using ok n n1 n20 k k1 by (cases "(of_int k :: node_id) \<le> of_int n") (simp_all add: initNodes_def Let_def)
  have mem: "(of_int k :: node_id) \<in> member_ids (server_members n)"
    using of_int_le_small [of n "of_int k"] k1 kn n1 n20 server_members_ids(1) [of n] by simp
  have "initNodes env no_nodes = (Inr (), (add_local_nodes n no_nodes)
      \<lparr>config := setThisNode (of_int k) (config (add_local_nodes n no_nodes))\<rparr>)"
    using n n1 n20 k k1 kn by (simp add: initNodes_def Let_def)
  also have "\<dots> = (Inr (), \<lparr>config = node_cfg (server_members n) (of_int k),
      table = map (\<lambda>(i, e). (i, Some (connector_new e))) (server_members n)\<rparr>)"
    using add_local_nodes_config [of n] n1 n20
    by (cases "add_local_nodes n no_nodes") (simp add: setThisNode_def node_cfg_def)
  finally have "initNodes env no_nodes = \<dots>" .
  with n k n1 n20 mem server_members_ids(2) [of n] show ?R by auto
qed

text \<open>An example: three nodes, this one the second.\<close>

lemma initNodes_example:
  "fst (initNodes [''NODES'' \<mapsto> ''3'', ''NODE_ID'' \<mapsto> '' 2''] no_nodes) = Inr ()"
  by code_simp

lemma initNodes_negative_id:
  "fst (initNodes [''NODES'' \<mapsto> ''3'', ''NODE_ID'' \<mapsto> ''-1''] no_nodes) =
     Inl (Verification ''Node id not in correct range'')"
  by code_simp

end
