(* ===== verification/Progress.thy ===== *)
theory Progress
  imports Cluster
begin

text \<open>
  What the cluster of \<open>Cluster\<close> gets done. The safety theorems there hold however many calls
  are lost; here: as long as the network still delivers, the agreement makes progress. Every
  delivery that has an effect brings some node closer to its decisions, so there are only
  finitely many of them, and once no delivery has an effect any more every message given to
  \<open>apply\<close> has been executed, at its step, by every node.
\<close>

section \<open>Step numbers\<close>

lemma process_steps_next: "next_step (fst (process_steps hook r s)) = next_step r"
proof (induction hook r s rule: process_steps.induct)
  case (1 hook r s)
  then show ?case
    by (simp add: process_steps.simps [of hook r s] split: option.split prod.split bool.split)
qed

lemma with_complete_next: "next_step (fst (with_complete hook i r s)) = next_step r"
  by (simp add: with_complete_def registry_complete_def process_steps_next
      split: option.split prod.split bool.split)

lemma do_effects_next: "next_step (phs (snd (do_effects i es nd))) = next_step (phs nd)"
proof (induction es arbitrary: nd)
  case (Cons e es)
  then show ?case
    using with_complete_next [of voting_onComplete i "phs nd" "executed nd"]
    by (cases e) (simp_all add: split_beta)
qed simp

text \<open>A call mentions its own step and no later one.\<close>

lemma node_call_next:
  assumes "node_call i f nd = (out, nd')" and "i \<noteq> - 1" and "k < next_step (phs nd')"
  shows "k < next_step (phs nd) \<or> k \<le> i"
proof -
  obtain wo r where g: "getPtr voting_new i (phs nd) = (wo, r)" by fastforce
  have "next_step (phs nd') = next_step r"
    using assms(1) g
    by (auto simp: node_call_def phantom_call_def split_beta do_effects_next split: option.splits
        dest!: arg_cong [where f = "\<lambda>p. next_step (phs (snd p))"])
  moreover have "next_step r = next_step (phs nd) \<or> next_step r = i + 1"
    using g by (auto simp: getPtr_def Let_def split: if_splits)
  ultimately show ?thesis
    using assms(3) word_less_Suc_not_max [OF assms(2), of k] by auto
qed

section \<open>Nothing is forgotten\<close>

definition voted_on :: "'m msg set \<Rightarrow> step_id \<Rightarrow> bool" where
  "voted_on ms k \<longleftrightarrow> (\<exists>C src M. VoteMsg k C src M \<in> ms)"

text \<open>
  Nobody skips a step that nobody voted on, a settled step was announced, and what was
  applied is in the vote of the node that applied it.
\<close>

definition progress_inv :: "members \<Rightarrow> 'm cluster \<Rightarrow> bool" where
  "progress_inv mem s \<longleftrightarrow> cluster_inv mem s \<and>
     (\<forall>n \<in> member_ids mem. \<forall>k < next_step (phs (nds s n)). voted_on (net s) k) \<and>
     (\<forall>msg \<in> net s. \<forall>k \<le> msg_step msg. voted_on (net s) k) \<and>
     (\<forall>n \<in> member_ids mem. \<forall>k C. phase (nds s n) k = Inl C \<longrightarrow> CommitMsg k C \<in> net s) \<and>
     (\<forall>k x. (k, x) \<in> applied s \<longrightarrow>
        (\<exists>C M. VoteMsg k C (fst (cm_id x)) M \<in> net s \<and> x \<in> set C))"

lemma voted_on_mono: "voted_on A k \<Longrightarrow> A \<subseteq> B \<Longrightarrow> voted_on B k"
  by (auto simp: voted_on_def)

lemma phase_open_state:
  assumes "cluster_inv mem s" "n \<in> member_ids mem" "phase (nds s n) k = Inr v"
  shows "voting_wf (member_ids mem) (votes_at (net s) k) n v" "v_state v \<noteq> VCompleted"
proof -
  from assms show "voting_wf (member_ids mem) (votes_at (net s) k) n v"
    by (auto simp: cluster_inv_def agree_inv_def)
  then show "v_state v \<noteq> VCompleted" by (auto simp: voting_wf_def)
qed

lemma progress_move:
  assumes inv: "progress_inv mem s" and n: "n \<in> member_ids mem"
    and t: "t = \<lparr>nds = (nds s)(n := nd'), net = net s \<union> set out, applied = A\<rparr>" "cluster_inv mem t"
    and st: "stepped i f (nds s n) out nd'"
    and moves: "\<And>v. phase (nds s n) i = Inr v \<Longrightarrow> voting_moves v (f v)"
    and nxt: "\<And>k. k < next_step (phs nd') \<Longrightarrow> k < next_step (phs (nds s n)) \<or> k \<le> i"
    and voted: "\<And>k. k \<le> i \<Longrightarrow> voted_on (net t) k"
    and A: "\<And>k x. (k, x) \<in> A \<Longrightarrow> (k, x) \<notin> applied s \<Longrightarrow>
      \<exists>C M. VoteMsg k C (fst (cm_id x)) M \<in> net t \<and> x \<in> set C"
  shows "progress_inv mem t"
proof -
  have more: "net s \<subseteq> net t" by (simp add: t)
  have "voted_on (net t) k" if "m \<in> member_ids mem" "k < next_step (phs (nds t m))" for m k
    using that inv nxt [of k] voted [of k] voted_on_mono [OF _ more]
    by (auto simp: t(1) progress_inv_def split: if_splits)
  moreover have "voted_on (net t) k" if "msg \<in> net t" "k \<le> msg_step msg" for msg k
  proof (cases "msg \<in> net s")
    case True
    with inv that(2) voted_on_mono [OF _ more] show ?thesis by (auto simp: progress_inv_def)
  next
    case False
    with that(1) have "msg \<in> set out" by (simp add: t)
    moreover from this obtain v where "phase (nds s n) i = Inr v" "out = msgs_of i (snd (f v))"
      using st by (cases "phase (nds s n) i") (auto simp: stepped_def)
    ultimately have "msg_step msg = i" by (auto intro: msgs_of_step)
    with that(2) show ?thesis by (auto intro: voted)
  qed
  moreover have "CommitMsg k C \<in> net t" if m: "m \<in> member_ids mem" and ph: "phase (nds t m) k = Inl C" for m k C
  proof (cases "phase (nds s m) k = Inl C")
    case True
    with inv m more show ?thesis by (auto simp: progress_inv_def)
  next
    case False
    with ph st have m: "m = n" by (auto simp: t(1) split: if_splits)
    with False ph st obtain v where v: "phase (nds s n) i = Inr v" "k = i"
      "v_state (fst (f v)) = VCompleted" "C = v_carries (fst (f v))" "out = msgs_of i (snd (f v))"
      by (cases "phase (nds s n) i") (auto simp: t(1) stepped_def split: if_splits)
    have "v_state v \<noteq> VCompleted"
      using phase_open_state(2) [OF _ n v(1)] inv by (simp add: progress_inv_def)
    with moves [OF v(1)] v(3) have "BroadcastCommit (v_carries (fst (f v))) \<in> set (snd (f v))"
      by (simp add: voting_moves_def)
    with v show ?thesis by (simp add: t(1) msgs_of_mem)
  qed
  moreover have "\<exists>C M. VoteMsg k C (fst (cm_id x)) M \<in> net t \<and> x \<in> set C" if "(k, x) \<in> applied t" for k x
  proof (cases "(k, x) \<in> applied s")
    case True
    with inv more show ?thesis unfolding progress_inv_def by blast
  next
    case False
    with that A show ?thesis by (simp add: t(1))
  qed
  ultimately show ?thesis using t(2) by (simp add: progress_inv_def)
qed

lemma progress_start: "cluster_start mem s \<Longrightarrow> progress_inv mem s"
  using cluster_start_inv [of mem s]
  by (auto simp: progress_inv_def cluster_start_def node_new_def phantoms_new_def
      phase_new [unfolded node_new_def phantoms_new_def])

text \<open>A delivery, on the view of the receiver.\<close>

definition msg_handler :: "node_id \<Rightarrow> 'm msg \<Rightarrow> 'm voting \<Rightarrow> 'm voting \<times> 'm effect list" where
  "msg_handler n msg =
     (case msg of VoteMsg i C src M \<Rightarrow> voting_vote n C src (ByValue M) | CommitMsg i C \<Rightarrow> voting_commit C)"

lemma deliver_call: "node_deliver n msg nd = node_call (msg_step msg) (msg_handler n msg) nd"
  by (cases msg) (simp_all add: msg_handler_def)

lemma msg_handler_moves: "voting_moves v (msg_handler n msg v)"
  by (cases msg) (simp_all add: msg_handler_def voting_vote_moves voting_commit_moves)

lemma deliver_stepped:
  assumes "cluster_inv mem s" "n \<in> member_ids mem" "msg \<in> net s"
    "node_deliver n msg (nds s n) = (out, nd')"
  shows "stepped (msg_step msg) (msg_handler n msg) (nds s n) out nd'"
  using assms node_call_spec [where f = "msg_handler n msg" and i = "msg_step msg", OF _ _ msg_handler_moves]
  by (auto simp: cluster_inv_def deliver_call)

lemma progress_deliver:
  assumes inv: "progress_inv mem s" and n: "n \<in> member_ids mem" and msg: "msg \<in> net s"
    and run: "node_deliver n msg (nds s n) = (out, nd')"
  shows "progress_inv mem \<lparr>nds = (nds s)(n := nd'), net = net s \<union> set out, applied = applied s\<rparr>"
    (is "progress_inv mem ?t")
proof -
  have ci: "cluster_inv mem s" using inv by (simp add: progress_inv_def)
  then have i: "msg_step msg \<noteq> - 1" using msg by (auto simp: cluster_inv_def)
  show ?thesis
  proof (rule progress_move [OF inv n refl _ deliver_stepped [OF ci n msg run]])
    show "cluster_inv mem ?t" by (rule cluster_deliver_inv [OF ci n msg run])
    show "voting_moves v (msg_handler n msg v)" for v by (rule msg_handler_moves)
    show "k < next_step (phs (nds s n)) \<or> k \<le> msg_step msg" if "k < next_step (phs nd')" for k
      using node_call_next [OF run [unfolded deliver_call] i that] .
    show "voted_on (net ?t) k" if "k \<le> msg_step msg" for k
      using inv msg that voted_on_mono [of "net s" k "net ?t"] by (auto simp: progress_inv_def)
  qed simp
qed

lemma start_votes:
  assumes "N \<noteq> {n}" "n \<in> N"
  shows "BroadcastVote [m] n N \<in> set (snd (voting_start n m N voting_new))"
proof -
  have "N \<noteq> {}" "{n} \<noteq> N" using assms by auto
  then show ?thesis
    using vote_on_initial [of "voting_new\<lparr>v_timer := True\<rparr>" N n "[m]" n]
    by (simp add: voting_start_def voting_new_def carry_union_def)
qed

lemma progress_apply:
  assumes inv: "progress_inv mem s" and n: "n \<in> member_ids mem"
    and i: "next_step (phs (nds s n)) \<noteq> - 1" and mid: "next_mid (nds s n) \<noteq> - 1"
    and run: "node_apply (node_cfg mem n) m (nds s n) = (res, out, nd')"
  defines "x \<equiv> \<lparr>cm_msg = m, cm_id = (n, next_mid (nds s n))\<rparr>" and "k \<equiv> next_step (phs (nds s n))"
  shows "progress_inv mem \<lparr>nds = (nds s)(n := nd'), net = net s \<union> set out, applied = insert (k, x) (applied s)\<rparr>"
    (is "progress_inv mem ?t")
proof -
  let ?N = "member_ids mem"
  have ci: "cluster_inv mem s" using inv by (simp add: progress_inv_def)
  then have nv: "node_inv (nds s n)" and two: "?N \<noteq> {n}"
    using n by (auto simp: cluster_inv_def)
  have cfg: "nodesSet (node_cfg mem n) = ?N" "thisNode (node_cfg mem n) = n"
    by (simp_all add: node_cfg_def nodesSet_def member_ids_def thisNode_def)
  from node_apply_spec [OF nv i run]
  have new: "phase (nds s n) k = Inr voting_new"
    and st: "stepped k (voting_start n x ?N) (nds s n) out nd'"
    and nx: "next_step (phs nd') = k + 1"
    by (simp_all add: cfg x_def k_def)
  have out: "VoteMsg k [x] n ?N \<in> net ?t"
    using st new start_votes [OF two n, of x] by (simp add: stepped_def msgs_of_mem)
  show ?thesis
  proof (rule progress_move [OF inv n refl _ st])
    show "cluster_inv mem ?t"
      unfolding x_def k_def by (rule cluster_apply_inv [OF ci n i mid run])
    show "voting_moves v (voting_start n x ?N v)" if "phase (nds s n) k = Inr v" for v
    proof (rule voting_start_moves)
      show "v_state v \<noteq> VCompleted" using that new by (auto simp: voting_new_def)
    qed
    show "j < next_step (phs (nds s n)) \<or> j \<le> k" if "j < next_step (phs nd')" for j
      using that word_less_Suc_not_max [OF i, of j] by (simp add: nx k_def)
    show "voted_on (net ?t) j" if "j \<le> k" for j
    proof (cases "j = k")
      case True
      with out show ?thesis unfolding voted_on_def by blast
    next
      case False
      with that inv n have "voted_on (net s) j" by (auto simp: progress_inv_def k_def)
      then show ?thesis by (rule voted_on_mono) simp
    qed
    show "\<exists>C M. VoteMsg j C (fst (cm_id y)) M \<in> net ?t \<and> y \<in> set C"
      if "(j, y) \<in> insert (k, x) (applied s)" "(j, y) \<notin> applied s" for j y
    proof -
      from that have "j = k" "y = x" by auto
      with out show ?thesis by (intro exI [of _ "[x]"] exI [of _ ?N]) (simp add: x_def)
    qed
  qed
qed

lemma progress_step: "progress_inv mem s \<Longrightarrow> cluster_step mem s t \<Longrightarrow> progress_inv mem t"
  by (erule cluster_step.cases) (auto intro: progress_apply progress_deliver)

interpretation progress: step_system "cluster_start mem" "cluster_step mem" "progress_inv mem" for mem
  by unfold_locales (auto intro: progress_start progress_step)

section \<open>Quiet clusters\<close>

text \<open>No delivery changes what any node thinks of any step.\<close>

definition quiet :: "members \<Rightarrow> 'm cluster \<Rightarrow> bool" where
  "quiet mem s \<longleftrightarrow> (\<forall>n \<in> member_ids mem. \<forall>msg \<in> net s.
     phase (snd (node_deliver n msg (nds s n))) = phase (nds s n))"

lemma quiet_delivered:
  assumes "cluster_inv mem s" "quiet mem s" "n \<in> member_ids mem" "msg \<in> net s"
    and v: "phase (nds s n) (msg_step msg) = Inr v"
  shows "fst (msg_handler n msg v) = v"
proof -
  obtain out nd' where run: "node_deliver n msg (nds s n) = (out, nd')" by fastforce
  from assms(2-4) run have same: "phase nd' = phase (nds s n)"
    unfolding quiet_def by (metis snd_conv)
  from deliver_stepped [OF assms(1,3,4) run] v
  have "phase nd' = (phase (nds s n))(msg_step msg :=
      if v_state (fst (msg_handler n msg v)) = VCompleted then Inl (v_carries (fst (msg_handler n msg v)))
      else Inr (fst (msg_handler n msg v)))"
    by (simp add: stepped_def)
  with same v show ?thesis by (metis (lifting) Inr_inject fun_upd_same sum.distinct(1))
qed

lemma vote_noticed:
  assumes v: "v_state v = VVoted" "v_nodes v = N" "this \<in> v_voted v" and "N \<noteq> {}" and "src \<notin> v_voted v"
  shows "fst (voting_vote this C src (ByValue N) v) \<noteq> v"
proof (cases "insert src (v_voted v) = N")
  case True
  then have "v_state (fst (voting_vote this C src (ByValue N) v)) = VCompleted"
    using v(1) vote_on_voted [OF v assms(4)] by (simp add: voting_commit_def Let_def)
  with v(1) show ?thesis by auto
next
  case False
  then have "v_voted (fst (voting_vote this C src (ByValue N) v)) = insert src (v_voted v)"
    using vote_on_voted [OF v assms(4)] by (simp add: Let_def)
  with assms(5) show ?thesis by auto
qed

text \<open>In a quiet cluster a step somebody voted on is decided by everybody.\<close>

lemma quiet_decided:
  assumes inv: "progress_inv mem s" and q: "quiet mem s" and k: "voted_on (net s) k"
    and n: "n \<in> member_ids mem"
  shows "\<exists>C. phase (nds s n) k = Inl C"
proof (rule ccontr)
  let ?N = "member_ids mem"
  assume open_n: "\<not> ?thesis"
  then obtain v where v: "phase (nds s n) k = Inr v" by (metis sumE)
  have ci: "cluster_inv mem s" using inv by (simp add: progress_inv_def)
  then have wf: "votes_wf ?N (votes_at (net s) k)"
    by (simp add: cluster_inv_def agree_inv_def)
  have vote: "src \<in> ?N \<and> M = ?N" if "VoteMsg k C src M \<in> net s" for C src M
    using wf that by (auto simp: votes_wf_def votes_at_def)
  from k obtain C src M where msg: "VoteMsg k C src M \<in> net s" by (auto simp: voted_on_def)
  have "\<exists>w. phase (nds s m) k = Inr w \<and> v_state w = VVoted" if m: "m \<in> ?N" for m
  proof (cases "phase (nds s m) k")
    case (Inl D)
    with inv m have "CommitMsg k D \<in> net s" by (auto simp: progress_inv_def)
    from quiet_delivered [OF ci q n this, of v] v phase_open_state(2) [OF ci n v]
    show ?thesis by (auto simp: msg_handler_def voting_commit_def Let_def dest: arg_cong [where f = v_state])
  next
    case (Inr w)
    have "v_state w \<noteq> VInitial"
    proof
      assume init: "v_state w = VInitial"
      then have "v_nodes w = {}" "v_voted w = {}" "v_carries w = []" "?N \<noteq> {}"
        using phase_open_state(1) [OF ci m Inr] m by (auto simp: voting_wf_def)
      from vote_on_initial [OF init this, of m C src] quiet_delivered [OF ci q m msg, of w] Inr init vote [OF msg]
      show False
        by (auto simp: msg_handler_def Let_def voting_commit_def split: if_splits dest: arg_cong [where f = v_state])
    qed
    with phase_open_state [OF ci m Inr] Inr show ?thesis by (auto simp: voting_wf_def)
  qed
  then obtain w where w: "\<And>m. m \<in> ?N \<Longrightarrow> phase (nds s m) k = Inr (w m) \<and> v_state (w m) = VVoted"
    by metis
  have own: "voting_wf ?N (votes_at (net s) k) m (w m)" if "m \<in> ?N" for m
    using phase_open_state(1) [OF ci that] w [OF that] by blast
  then have all: "m \<in> voters (votes_at (net s) k)" if "m \<in> ?N" for m
    using w [OF that] own [OF that] by (auto simp: voting_wf_def)
  have vn: "v_state v = VVoted" "v_nodes v = ?N" "n \<in> v_voted v" "v_voted v \<noteq> ?N"
      "v_voted v \<subseteq> voters (votes_at (net s) k)"
    using w [OF n] own [OF n] v by (auto simp: voting_wf_def)
  have "m \<in> v_voted v" if m: "m \<in> ?N" for m
  proof -
    obtain D where "VoteMsg k D m ?N \<in> net s"
      using all [OF m] vote by (auto simp: voters_def votes_at_def)
    from quiet_delivered [OF ci q n this, of v] v
    have "fst (voting_vote n D m (ByValue ?N) v) = v" by (simp add: msg_handler_def)
    with vote_noticed [OF vn(1-3)] n show ?thesis by blast
  qed
  moreover have "voters (votes_at (net s) k) \<subseteq> ?N"
    using wf by (auto simp: votes_wf_def voters_def)
  ultimately show False using vn(4,5) by blast
qed


text \<open>Every node is past exactly the steps that somebody voted on.\<close>

lemma quiet_cur_step:
  assumes inv: "progress_inv mem s" and q: "quiet mem s" and n: "n \<in> member_ids mem"
  shows "k < cur_step (phs (nds s n)) \<longleftrightarrow> voted_on (net s) k"
proof
  assume "k < cur_step (phs (nds s n))"
  then obtain C where "phase (nds s n) k = Inl C" using phase_settled by blast
  with inv n have "CommitMsg k C \<in> net s" by (auto simp: progress_inv_def)
  moreover have "\<forall>msg \<in> net s. \<forall>k \<le> msg_step msg. voted_on (net s) k"
    using inv by (simp add: progress_inv_def)
  ultimately show "voted_on (net s) k" by fastforce
next
  let ?c = "cur_step (phs (nds s n))"
  assume k: "voted_on (net s) k"
  show "k < ?c"
  proof (rule ccontr)
    assume "\<not> k < ?c"
    then have "?c \<le> k" by simp
    moreover from k obtain msg where "msg \<in> net s" "msg_step msg = k"
      by (auto simp: voted_on_def)
    ultimately have "voted_on (net s) ?c" using inv by (auto simp: progress_inv_def)
    from quiet_decided [OF inv q this n] obtain C where "phase (nds s n) ?c = Inl C" by blast
    moreover have nv: "node_inv (nds s n)" using inv n by (auto simp: progress_inv_def cluster_inv_def)
    then have "phase (nds s n) ?c = Inr (case steps (phs (nds s n)) ?c of Some w \<Rightarrow> wp_obj w | None \<Rightarrow> voting_new)"
      by (intro phase_open) (auto simp: node_inv_def phantoms_idle_def)
    ultimately show False by simp
  qed
qed

lemma quiet_same_log:
  assumes inv: "progress_inv mem s" and q: "quiet mem s"
    and n: "n \<in> member_ids mem" and m: "m \<in> member_ids mem"
  shows "executed (nds s n) = executed (nds s m)"
proof -
  have ci: "cluster_inv mem s" using inv by (simp add: progress_inv_def)
  have "k < cur_step (phs (nds s n)) \<longleftrightarrow> k < cur_step (phs (nds s m))" for k
    by (simp add: quiet_cur_step [OF inv q] n m)
  then have "cur_step (phs (nds s n)) = cur_step (phs (nds s m))"
    by (metis linorder_less_linear order_less_irrefl)
  then have "length (executed (nds s n)) = length (executed (nds s m))"
    using ci n m by (auto simp: cluster_inv_def node_inv_def phantoms_wf_def)
  with logs_prefix [OF ci n m] show ?thesis by (auto simp: prefix_def)
qed

lemma log_entries:
  assumes inv: "cluster_inv mem s" and n: "n \<in> member_ids mem"
  shows "set (concat (map (\<lambda>(k, C). map (Pair k) C) (executed (nds s n)))) \<subseteq> applied s"
proof
  let ?l = "executed (nds s n)"
  have nv: "node_inv (nds s n)" using inv n by (simp add: cluster_inv_def)
  fix y assume "y \<in> set (concat (map (\<lambda>(k, C). map (Pair k) C) ?l))"
  then obtain e where "e \<in> set ?l" "y \<in> Pair (fst e) ` set (snd e)"
    by (auto simp: split_beta)
  then obtain j where "j < length ?l" "y \<in> Pair (fst (?l ! j)) ` set (snd (?l ! j))"
    by (auto simp: in_set_conv_nth)
  with executed_applied(2) [OF inv n, of j] executed_step_numbers(1) [OF nv, of j]
  show "y \<in> applied s" by auto
qed

text \<open>In a quiet cluster what was applied is executed.\<close>

lemma quiet_executed:
  assumes inv: "progress_inv mem s" and q: "quiet mem s" and n: "n \<in> member_ids mem"
    and x: "(k, x) \<in> applied s"
  shows "(k, x) \<in> set (concat (map (\<lambda>(k, C). map (Pair k) C) (executed (nds s n))))"
proof -
  let ?l = "executed (nds s n)"
  have ci: "cluster_inv mem s" using inv by (simp add: progress_inv_def)
  then have nv: "node_inv (nds s n)"
    and agree: "agree_inv (member_ids mem) (\<lambda>n. phase (nds s n) k) (votes_at (net s) k) (commits_at (net s) k)"
    using n by (auto simp: cluster_inv_def)
  obtain C M where v: "VoteMsg k C (fst (cm_id x)) M \<in> net s" "x \<in> set C"
    using inv x unfolding progress_inv_def by blast
  then have "voted_on (net s) k" by (auto simp: voted_on_def)
  then have "k < cur_step (phs (nds s n))" using quiet_cur_step [OF inv q n] by simp
  then have j: "unat k < length ?l" using nv by (simp add: node_inv_def phantoms_wf_def word_less_nat_alt)
  have ph: "phase (nds s n) k = Inl (snd (?l ! unat k))" "fst (?l ! unat k) = k"
    using executed_phase [OF nv j] by simp_all
  with agree n have "set (snd (?l ! unat k)) = vote_union (votes_at (net s) k) (member_ids mem)"
    unfolding agree_inv_def decision_def by blast
  moreover have "(C, fst (cm_id x), M) \<in> votes_at (net s) k" using v(1) by (simp add: votes_at_def)
  moreover from this agree have "fst (cm_id x) \<in> member_ids mem"
    unfolding agree_inv_def votes_wf_def by blast
  ultimately have "x \<in> set (snd (?l ! unat k))" using v(2) by (auto simp: vote_union_def)
  with ph(2) have "(k, x) \<in> (case ?l ! unat k of (k, C) \<Rightarrow> set (map (Pair k) C))"
    by (cases "?l ! unat k") simp
  with j show ?thesis by (fastforce simp: in_set_conv_nth)
qed

section \<open>Deliveries come to an end\<close>

text \<open>How far a step of a node is from its decision.\<close>

fun distance :: "node_id set \<Rightarrow> 'm carry_set + 'm voting \<Rightarrow> nat" where
  "distance N (Inl C) = 0"
| "distance N (Inr v) = (if v_state v = VInitial then card N + 2 else card (N - v_voted v) + 1)"

definition work_left :: "members \<Rightarrow> 'm cluster \<Rightarrow> nat" where
  "work_left mem s =
     (\<Sum>n \<in> member_ids mem. \<Sum>k \<in> UNIV. distance (member_ids mem) (phase (nds s n) k))"

text \<open>A delivery that the receiver notices.\<close>

inductive noticed :: "members \<Rightarrow> 'm cluster \<Rightarrow> 'm cluster \<Rightarrow> bool" for mem where
  noticed: "\<lbrakk>n \<in> member_ids mem; msg \<in> net s; node_deliver n msg (nds s n) = (out, nd');
      phase nd' \<noteq> phase (nds s n)\<rbrakk> \<Longrightarrow>
    noticed mem s \<lparr>nds = (nds s)(n := nd'), net = net s \<union> set out, applied = applied s\<rparr>"

lemma noticed_step: "noticed mem s t \<Longrightarrow> cluster_step mem s t"
  by (erule noticed.cases) (simp add: cluster_step.deliver)

lemma noticed_same: "noticed mem s t \<Longrightarrow> applied t = applied s"
  by (erule noticed.cases) simp

lemma quiet_iff: "quiet mem s \<longleftrightarrow> (\<nexists>t. noticed mem s t)"
proof
  assume "quiet mem s"
  then show "\<nexists>t. noticed mem s t"
    unfolding quiet_def by (metis noticed.cases snd_conv)
next
  assume none: "\<nexists>t. noticed mem s t"
  show "quiet mem s"
    unfolding quiet_def
  proof (intro ballI, rule ccontr)
    fix n msg
    assume "n \<in> member_ids mem" "msg \<in> net s"
      and "phase (snd (node_deliver n msg (nds s n))) \<noteq> phase (nds s n)"
    then have "noticed mem s \<lparr>nds = (nds s)(n := snd (node_deliver n msg (nds s n))),
        net = net s \<union> set (fst (node_deliver n msg (nds s n))), applied = applied s\<rparr>"
      by (intro noticed.noticed) simp_all
    with none show False by blast
  qed
qed


lemma handler_distance:
  assumes inv: "cluster_inv mem s" and n: "n \<in> member_ids mem" and msg: "msg \<in> net s"
    and v: "phase (nds s n) (msg_step msg) = Inr v" and moved: "fst (msg_handler n msg v) \<noteq> v"
  defines "w \<equiv> fst (msg_handler n msg v)"
  shows "distance (member_ids mem) (if v_state w = VCompleted then Inl (v_carries w) else Inr w)
    < distance (member_ids mem) (Inr v)"
proof (cases "v_state w = VCompleted")
  case False
  let ?N = "member_ids mem" and ?V = "votes_at (net s) (msg_step msg)"
  have fin: "finite ?N" by (simp add: member_ids_def)
  note own = phase_open_state [OF inv n v]
  have wf: "votes_wf ?N ?V" using inv by (simp add: cluster_inv_def agree_inv_def)
  obtain k C src M where m: "msg = VoteMsg k C src M"
    using False own(2) by (cases msg) (auto simp: w_def msg_handler_def voting_commit_def Let_def)
  have vote: "(C, src, M) \<in> ?V" using msg m by (simp add: votes_at_def)
  with wf have src: "src \<in> ?N" "M = ?N" by (auto simp: votes_wf_def)
  have w: "w = fst (voting_vote n C src (ByValue ?N) v)" by (simp add: w_def m msg_handler_def src)
  have N: "?N \<noteq> {}" using n by auto
  show ?thesis
  proof (cases "v_state v = VInitial")
    case True
    then have "v_nodes v = {}" "v_voted v = {}" "v_carries v = []"
      using own(1) by (simp_all add: voting_wf_def)
    from vote_on_initial [OF True this N, of n C src] False
    have "v_state w = VVoted"
      by (auto simp: w Let_def voting_commit_def True split: if_splits)
    then show ?thesis using True fin by (simp add: card_mono le_imp_less_Suc)
  next
    case voted: False
    with own(1) have vn: "v_state v = VVoted" "v_nodes v = ?N" "n \<in> v_voted v" "v_voted v \<subseteq> voters ?V"
      "sorted_wrt (<) (carry_ids (v_carries v))" "set (v_carries v) = vote_union ?V (v_voted v)"
      by (simp_all add: voting_wf_def)
    note r = vote_on_voted [OF vn(1-3) N, of C src]
    have ne: "insert src (v_voted v) \<noteq> ?N"
      using False r vn(1) by (auto simp: w voting_commit_def Let_def)
    with r have w': "w = v\<lparr>v_carries := carry_union (v_carries v) C, v_voted := insert src (v_voted v)\<rparr>"
      by (simp add: w Let_def)
    have "src \<notin> v_voted v"
    proof
      assume old: "src \<in> v_voted v"
      with vote vn(6) have "set C \<subseteq> set (v_carries v)" by (auto simp: vote_union_def)
      then have "carry_union (v_carries v) C = v_carries v"
        using vn(5) by (rule carry_union_absorb)
      with old have "w = v" unfolding w' by (simp add: insert_absorb)
      with moved show False by (simp add: w_def)
    qed
    with src(1) fin have "card (?N - insert src (v_voted v)) < card (?N - v_voted v)"
      by (intro psubset_card_mono) auto
    with voted vn(1) show ?thesis by (simp add: w')
  qed
qed simp

lemma noticed_work:
  assumes inv: "cluster_inv mem s" and step: "noticed mem s t"
  shows "work_left mem t < work_left mem s"
  using step
proof cases
  case (noticed n msg out nd')
  let ?N = "member_ids mem" and ?i = "msg_step msg"
  have st: "stepped ?i (msg_handler n msg) (nds s n) out nd'"
    by (rule deliver_stepped [OF inv noticed(2,3,4)])
  with noticed(5) obtain v where v: "phase (nds s n) ?i = Inr v"
    by (cases "phase (nds s n) ?i") (auto simp: stepped_def)
  let ?w = "fst (msg_handler n msg v)"
  have ph: "phase nd' = (phase (nds s n))(?i := if v_state ?w = VCompleted then Inl (v_carries ?w) else Inr ?w)"
    using st v by (simp add: stepped_def)
  have "?w \<noteq> v"
    using noticed(5) v phase_open_state(2) [OF inv noticed(2) v]
    by (auto simp: ph fun_upd_idem split: if_splits)
  note less = handler_distance [OF inv noticed(2,3) v this]
  have "(\<Sum>k \<in> UNIV. distance ?N (phase nd' k)) < (\<Sum>k \<in> UNIV. distance ?N (phase (nds s n) k))"
    by (rule sum_strict_mono_ex1) (use less v in \<open>auto simp: ph\<close>)
  moreover have "nds t = (nds s)(n := nd')" by (simp add: noticed(1))
  ultimately show ?thesis
    unfolding work_left_def using noticed(2)
    by (intro sum_strict_mono_ex1) (auto simp: member_ids_def)
qed


lemma noticed_steps:
  assumes "progress_inv mem s" and "(noticed mem)\<^sup>*\<^sup>* s t"
  shows "progress_inv mem t \<and> applied t = applied s"
  using assms(2,1)
  by (induction rule: rtranclp_induct) (auto simp: noticed_same dest: noticed_step intro: progress_step)

lemma noticed_bounded:
  assumes "progress_inv mem s" and "(noticed mem ^^ j) s t"
  shows "j + work_left mem t \<le> work_left mem s"
  using assms(2)
proof (induction j arbitrary: t)
  case (Suc j)
  then obtain u where u: "(noticed mem ^^ j) s u" "noticed mem u t" by auto
  then have "progress_inv mem u"
    using noticed_steps [OF assms(1)] relpowp_imp_rtranclp by metis
  with noticed_work [OF _ u(2)] Suc.IH [OF u(1)] show ?case by (simp add: progress_inv_def)
qed simp

lemma quiet_reached:
  assumes "progress_inv mem s"
  shows "\<exists>u. (noticed mem)\<^sup>*\<^sup>* s u \<and> quiet mem u"
  using assms
proof (induction "work_left mem s" arbitrary: s rule: less_induct)
  case less
  show ?case
  proof (cases "quiet mem s")
    case False
    then obtain t where t: "noticed mem s t" by (auto simp: quiet_iff)
    have "work_left mem t < work_left mem s"
      using less.prems t by (intro noticed_work) (simp_all add: progress_inv_def)
    moreover have "progress_inv mem t"
      using progress_step [OF less.prems noticed_step [OF t]] .
    ultimately have "work_left mem t < work_left mem s" "progress_inv mem t" .
    from less.hyps [OF this] t show ?thesis by (meson converse_rtranclp_into_rtranclp)
  qed blast
qed

section \<open>What the cluster gets done\<close>

text \<open>The two nodes of \<open>Cluster\<close> again, after the first heard the decision of the second.\<close>

definition two_done :: "'m \<Rightarrow> 'm cluster" where
  "two_done x = \<lparr>nds = (nds (two_decided x))(1 := snd (node_deliver 1 (CommitMsg 0 [first_carry x]) (nds (two_decided x) 1))),
     net = net (two_decided x), applied = applied (two_decided x)\<rparr>"

lemma two_done_run: "(cluster_step two_nodes)\<^sup>*\<^sup>* two_start (two_done (x :: 'm :: equal))"
proof -
  have "fst (node_deliver 1 (CommitMsg 0 [first_carry x]) (nds (two_decided x) 1)) = [CommitMsg 0 [first_carry x]]"
    by code_simp
  then have b: "node_deliver 1 (CommitMsg 0 [first_carry x]) (nds (two_decided x) 1) =
      ([CommitMsg 0 [first_carry x]], nds (two_done x) 1)"
    by (intro prod_eqI) (simp_all add: two_done_def)
  from cluster_step.deliver [of 1 two_nodes "CommitMsg 0 [first_carry x]" "two_decided x", OF _ _ b]
  have "cluster_step two_nodes (two_decided x) (two_done x)"
    by (simp add: two_members two_done_def two_decided_def insert_absorb insert_commute)
  with two_run show ?thesis by (rule rtranclp.rtrancl_into_rtrancl)
qed

lemma two_done_executed:
  "executed (nds (two_done (x :: 'm :: equal)) 1) = [(0, [first_carry x])]"
  "executed (nds (two_done (x :: 'm :: equal)) 2) = [(0, [first_carry x])]"
  by code_simp+

lemma two_done_quiet: "quiet two_nodes (two_done (x :: 'm :: equal))"
proof -
  note ci = cluster.inv_reachable [OF two_start two_done_run [of x]]
  have "phase (snd (node_deliver n msg (nds (two_done x) n))) = phase (nds (two_done x) n)"
    if n: "n \<in> {1, 2}" and msg: "msg \<in> net (two_done x)" for n msg
  proof -
    have n': "n \<in> member_ids two_nodes" using n by (simp add: two_members)
    with ci have nv: "node_inv (nds (two_done x) n)" by (simp add: cluster_inv_def)
    have "phase (nds (two_done x) n) 0 = Inl [first_carry x]"
      using n executed_phase(2) [OF nv, of 0] two_done_executed [of x] by auto
    moreover have "msg_step msg = 0" using msg by (auto simp: two_done_def two_decided_def)
    ultimately show ?thesis
      using deliver_stepped [OF ci n' msg, of _ "snd (node_deliver n msg (nds (two_done x) n))"]
      by (cases "node_deliver n msg (nds (two_done x) n)") (auto simp: stepped_def)
  qed
  then show ?thesis by (simp add: quiet_def two_members)
qed

text \<open>C2: Completeness of the agreement: once every call has been delivered, so that no
  delivery tells any node anything new, all nodes have executed exactly the same sequence of
  steps, and together these are all the messages any node gave to \<open>apply\<close>, each at the step it
  was started at: no applied message is lost.\<close>

theorem quiet_cluster_complete:
  assumes "cluster_start mem s0" and "(cluster_step mem)\<^sup>*\<^sup>* s0 s" and "quiet mem s"
    and "n \<in> member_ids mem" and "m \<in> member_ids mem"
  shows "executed (nds s n) = executed (nds s m) \<and>
    set (concat (map (\<lambda>(k, C). map (Pair k) C) (executed (nds s n)))) = applied s"
proof
  note inv = progress.inv_reachable [OF assms(1,2)]
  show "executed (nds s n) = executed (nds s m)"
    by (rule quiet_same_log [OF inv assms(3-5)])
  have "cluster_inv mem s" using inv by (simp add: progress_inv_def)
  from log_entries [OF this assms(4)] quiet_executed [OF inv assms(3,4)]
  show "set (concat (map (\<lambda>(k, C). map (Pair k) C) (executed (nds s n)))) = applied s"
    by auto
qed

lemma quiet_cluster_complete_witness:
  "executed (nds (two_done (7 :: nat)) 1) = executed (nds (two_done (7 :: nat)) 2) \<and>
   applied (two_done (7 :: nat)) = {(0, first_carry 7)}"
  using quiet_cluster_complete [OF two_start two_done_run two_done_quiet, of 1 2 "7 :: nat"]
  by (simp add: two_members two_done_executed)

text \<open>C5: Progress of the agreement: from any state the cluster can be in, only finitely many
  deliveries can have an effect (\<open>work_left\<close> bounds them), and however they are chosen,
  delivering on leads to a quiet cluster, where everything applied is executed. No delivery
  order, duplication or race between \<open>vote\<close> and \<open>commit\<close> calls makes the agreement hang.\<close>

theorem deliveries_make_progress:
  assumes "cluster_start mem s0" and "(cluster_step mem)\<^sup>*\<^sup>* s0 s" and "(noticed mem ^^ j) s t"
  shows "j \<le> work_left mem s \<and>
    (\<exists>u. (noticed mem)\<^sup>*\<^sup>* t u \<and> quiet mem u \<and> applied u = applied s)"
proof
  note inv = progress.inv_reachable [OF assms(1,2)]
  show "j \<le> work_left mem s" using noticed_bounded [OF inv assms(3)] by simp
  have t: "progress_inv mem t" "applied t = applied s"
    using noticed_steps [OF inv relpowp_imp_rtranclp [OF assms(3)]] by simp_all
  with quiet_reached [OF t(1)] noticed_steps [OF t(1)]
  show "\<exists>u. (noticed mem)\<^sup>*\<^sup>* t u \<and> quiet mem u \<and> applied u = applied s" by metis
qed

lemma deliveries_make_progress_witness:
  "\<exists>u. (noticed two_nodes)\<^sup>*\<^sup>* (two_decided (7 :: nat)) u \<and> quiet two_nodes u \<and>
     applied u = {(0, first_carry 7)}"
proof -
  have "(noticed two_nodes ^^ 0) (two_decided (7 :: nat)) (two_decided 7)" by simp
  from deliveries_make_progress [OF two_start two_run this] show ?thesis
    by (simp add: two_decided_def)
qed

section \<open>Real-time order\<close>

text \<open>A node that has voted on a step, or settled it, gives its later messages later steps.\<close>

lemma voter_next_step:
  assumes inv: "cluster_inv mem s" and m: "m \<in> member_ids mem"
    and k: "m \<in> voters (votes_at (net s) k) \<or> (\<exists>C. phase (nds s m) k = Inl C)"
  shows "k < next_step (phs (nds s m))"
proof (rule ccontr)
  assume late: "\<not> k < next_step (phs (nds s m))"
  have nv: "node_inv (nds s m)" using inv m by (simp add: cluster_inv_def)
  have wf: "cur_step (phs (nds s m)) \<le> next_step (phs (nds s m))"
    "\<And>w. steps (phs (nds s m)) k = Some w \<Longrightarrow> k < next_step (phs (nds s m))"
    using nv by (auto simp: node_inv_def phantoms_wf_def)
  with late have none: "steps (phs (nds s m)) k = None" and cur: "cur_step (phs (nds s m)) \<le> k"
    by (cases "steps (phs (nds s m)) k", auto)
  have new: "phase (nds s m) k = Inr voting_new"
    using phase_open [OF nv cur] none by simp
  from phase_open_state(1) [OF inv m new] have "m \<notin> voters (votes_at (net s) k)"
    by (simp add: voting_wf_def voting_new_def)
  with k new show False by simp
qed

lemma decided_next_step:
  assumes inv: "cluster_inv mem s" and n: "n \<in> member_ids mem" "phase (nds s n) k = Inl C"
    and m: "m \<in> member_ids mem"
  shows "k < next_step (phs (nds s m))"
proof -
  have "decision (member_ids mem) (votes_at (net s) k) (\<lambda>n. phase (nds s n) k) C"
    using inv n unfolding cluster_inv_def agree_inv_def by blast
  with m have "m \<in> voters (votes_at (net s) k) \<or> (\<exists>C. phase (nds s m) k = Inl C)"
    by (auto simp: decision_def)
  from voter_next_step [OF inv m this] show ?thesis .
qed

lemma cluster_next_step:
  assumes inv: "cluster_inv mem s" and step: "cluster_step mem s t" and m: "m \<in> member_ids mem"
  shows "next_step (phs (nds s m)) \<le> next_step (phs (nds t m))"
    and "(k, x) \<in> applied t \<Longrightarrow> (k, x) \<in> applied s \<or> (\<exists>n \<in> member_ids mem. k = next_step (phs (nds s n)))"
proof -
  show "next_step (phs (nds s m)) \<le> next_step (phs (nds t m))"
    using step
  proof cases
    case (applied n msg res out nd')
    have "node_inv (nds s n)" using inv applied(2) by (simp add: cluster_inv_def)
    from node_apply_spec [OF this applied(3,5)] word_less_Suc_not_max [OF applied(3)]
    show ?thesis by (auto simp: applied(1) order.strict_implies_order)
  next
    case (deliver n msg out nd')
    have nv: "node_inv (nds s n)" "msg_step msg \<noteq> - 1" using inv deliver by (auto simp: cluster_inv_def)
    from node_call_spec [OF this msg_handler_moves deliver(4) [unfolded deliver_call]]
    show ?thesis by (auto simp: deliver(1))
  qed
  show "(k, x) \<in> applied t \<Longrightarrow> (k, x) \<in> applied s \<or> (\<exists>n \<in> member_ids mem. k = next_step (phs (nds s n)))"
    using step by cases auto
qed

lemma later_steps:
  assumes "(cluster_step mem)\<^sup>*\<^sup>* s t" and inv: "cluster_inv mem s"
    and k: "\<forall>m \<in> member_ids mem. k < next_step (phs (nds s m))"
  shows "(\<forall>m \<in> member_ids mem. k < next_step (phs (nds t m))) \<and>
    (\<forall>k' x. (k', x) \<in> applied t \<longrightarrow> (k', x) \<in> applied s \<or> k < k')"
  using assms(1)
proof (induction rule: rtranclp_induct)
  case base
  from k show ?case by simp
next
  case (step t u)
  have "cluster_inv mem t" using step(1) inv by (rule cluster.inv_steps)
  note nx = cluster_next_step [OF this step(2)]
  from step.IH nx(1) have "\<forall>m \<in> member_ids mem. k < next_step (phs (nds u m))"
    by (meson order.strict_trans2)
  moreover have "(k', x) \<in> applied s \<or> k < k'" if "(k', x) \<in> applied u" for k' x
  proof (cases "(k', x) \<in> applied t")
    case True
    with step.IH show ?thesis by blast
  next
    case False
    obtain n where "n \<in> member_ids mem" using \<open>cluster_inv mem t\<close> by (fastforce simp: cluster_inv_def)
    from nx(2) [OF this that] False step.IH show ?thesis by blast
  qed
  ultimately show ?case by blast
qed

text \<open>Real-time order: once any node has executed a step, every message that is given to
  \<open>apply\<close> from then on, on whichever node, is started at a later step. With the agreed order of
  the steps this makes replicated calls linearisable: a call that starts after another returned
  comes after it on every replica.\<close>

theorem real_time_order:
  assumes "cluster_start mem s0" and "(cluster_step mem)\<^sup>*\<^sup>* s0 s" and "n \<in> member_ids mem"
    and "(k, C) \<in> set (executed (nds s n))"
    and "(cluster_step mem)\<^sup>*\<^sup>* s t" and "(k', x) \<in> applied t" and "(k', x) \<notin> applied s"
  shows "k < k'"
proof -
  note inv = cluster.inv_reachable [OF assms(1,2)]
  have nv: "node_inv (nds s n)" using inv assms(3) by (simp add: cluster_inv_def)
  from assms(4) obtain j where j: "j < length (executed (nds s n))" "executed (nds s n) ! j = (k, C)"
    by (auto simp: in_set_conv_nth)
  with executed_phase [OF nv j(1)] have "phase (nds s n) k = Inl C" by simp
  from decided_next_step [OF inv assms(3) this] later_steps [OF assms(5) inv, of k] assms(6,7)
  show ?thesis by blast
qed

text \<open>The second node, which has executed step 0, applies a message of its own.\<close>

definition two_next :: "nat cluster" where
  "two_next = (let r = node_apply (node_cfg two_nodes 2) 9 (nds (two_decided 7) 2)
     in \<lparr>nds = (nds (two_decided 7))(2 := snd (snd r)), net = net (two_decided 7) \<union> set (fst (snd r)),
         applied = insert (1, \<lparr>cm_msg = 9, cm_id = (2, 0)\<rparr>) (applied (two_decided 7))\<rparr>)"

lemma real_time_order_witness:
  "executed (nds (two_decided (7 :: nat)) 2) = [(0, [first_carry 7])] \<and>
   (1, \<lparr>cm_msg = 9, cm_id = (2, 0)\<rparr>) \<in> applied two_next \<and> (0 :: step_id) < 1"
proof -
  let ?s = "two_decided (7 :: nat)"
  let ?r = "node_apply (node_cfg two_nodes 2) 9 (nds ?s 2)"
  have c: "next_step (phs (nds ?s 2)) = 1" "next_mid (nds ?s 2) = 0" by code_simp+
  have "?r = (fst ?r, fst (snd ?r), snd (snd ?r))" by simp
  from cluster_step.applied [OF _ _ _ this] c have "cluster_step two_nodes ?s two_next"
    by (simp add: two_members two_next_def Let_def)
  then have run: "(cluster_step two_nodes)\<^sup>*\<^sup>* ?s two_next" by blast
  have x: "(1, \<lparr>cm_msg = 9, cm_id = (2, 0)\<rparr>) \<in> applied two_next"
    "(1, \<lparr>cm_msg = 9, cm_id = (2, 0)\<rparr>) \<notin> applied ?s"
    by (simp_all add: two_next_def two_decided_def Let_def)
  have "(0, [first_carry 7]) \<in> set (executed (nds ?s 2))" by (simp add: two_executed)
  from real_time_order [OF two_start two_run _ this run x] show ?thesis
    using x(1) by (simp add: two_members two_executed)
qed

text \<open>After the run above has come to rest, the second node makes a call of its own, and the
  first node executes it.\<close>

definition later_carry :: "'m \<Rightarrow> 'm carry_msg" where "later_carry x = \<lparr>cm_msg = x, cm_id = (2, 0)\<rparr>"

definition two_later :: "'m \<Rightarrow> 'm \<Rightarrow> 'm cluster" where
  "two_later x y = (let r = node_apply (node_cfg two_nodes 2) y (nds (two_done x) 2)
     in \<lparr>nds = (nds (two_done x))(2 := snd (snd r)), net = net (two_done x) \<union> set (fst (snd r)),
         applied = insert (1, later_carry y) (applied (two_done x))\<rparr>)"

definition two_last :: "'m \<Rightarrow> 'm \<Rightarrow> 'm cluster" where
  "two_last x y = (let r = node_deliver 1 (VoteMsg 1 [later_carry y] 2 {1, 2}) (nds (two_later x y) 1)
     in \<lparr>nds = (nds (two_later x y))(1 := snd r), net = net (two_later x y) \<union> set (fst r),
         applied = applied (two_later x y)\<rparr>)"

lemma two_last_run: "(cluster_step two_nodes)\<^sup>*\<^sup>* (two_done x) (two_last (x :: 'm :: equal) y)"
proof -
  let ?r = "node_apply (node_cfg two_nodes 2) y (nds (two_done x) 2)"
  have c: "next_step (phs (nds (two_done x) 2)) = 1" "next_mid (nds (two_done x) 2) = 0" by code_simp+
  have r: "?r = (fst ?r, fst (snd ?r), snd (snd ?r))" by simp
  from cluster_step.applied [OF _ _ _ r] c have 1: "cluster_step two_nodes (two_done x) (two_later x y)"
    by (simp add: two_members two_later_def later_carry_def Let_def)
  let ?d = "node_deliver 1 (VoteMsg 1 [later_carry y] 2 {1, 2}) (nds (two_later x y) 1)"
  have "fst (snd ?r) = [VoteMsg 1 [later_carry y] 2 {1, 2}]" by code_simp
  then have m: "VoteMsg 1 [later_carry y] 2 {1, 2} \<in> net (two_later x y)" by (simp add: two_later_def Let_def)
  have d: "?d = (fst ?d, snd ?d)" by simp
  from cluster_step.deliver [OF _ m d] have 2: "cluster_step two_nodes (two_later x y) (two_last x y)"
    by (simp add: two_members two_last_def Let_def)
  from 1 2 show ?thesis by (meson converse_rtranclp_into_rtranclp r_into_rtranclp)
qed

lemma two_last_executed:
  "executed (nds (two_last (x :: 'm :: equal) y) 1) = [(0, [first_carry x]), (1, [later_carry y])]"
  by code_simp

end
