(* ===== verification/Apply.thy ===== *)
theory Apply
  imports Progress
begin

text \<open>
  Objects replicated by agreement (\<open>include/synca/once/replob.h\<close>, from
  \<open>ReplobApplySync\<close> on). A call \<open>replob<T>().f(args)\<close> or \<open>MReplobTransactInstance\<close> wraps a
  handler on the node's instance of \<open>T\<close> into a message; every node runs the handler when it
  executes the message, and the node that made the call hands the result to the journey
  that waits for it, through pointers into that journey's frame. A local call reads the
  instance of the node at once.

  Handlers are functions of the instance that do not throw. An operation of the node that
  the model calls an \<open>app_event\<close> is one of: a journey enters \<open>result()\<close> with a new frame,
  the node executes a message, a journey leaves \<open>result()\<close>.
\<close>

section \<open>A call and its frame\<close>

record ('s, 'r) sync_op =
  so_handler :: "'s \<Rightarrow> 'r \<times> 's"
  so_src :: node_id
  so_frame :: nat

datatype 'r frame = Unused | Awaiting | Ready 'r | Left

record ('s, 'r) app =
  inst :: 's
  frames :: "nat \<Rightarrow> 'r frame"

definition app_new :: "'s \<Rightarrow> ('s, 'r) app" where
  "app_new s = \<lparr>inst = s, frames = \<lambda>_. Unused\<rparr>"

text \<open>
  \<open>result()\<close> up to \<open>replobApply\<close>: the message that is sent, with \<open>src_\<close> and the pointers.
\<close>

definition sync_call ::
  "node_id \<Rightarrow> nat \<Rightarrow> ('s \<Rightarrow> 'r \<times> 's) \<Rightarrow> ('s, 'r) app \<Rightarrow> ('s, 'r) sync_op \<times> ('s, 'r) app" where
  "sync_call this fr f a =
     (\<lparr>so_handler = f, so_src = this, so_frame = fr\<rparr>, a\<lparr>frames := (frames a)(fr := Awaiting)\<rparr>)"

text \<open>
  \<open>operator()\<close>. On the node of the call it writes the result through \<open>result_\<close> and calls
  \<open>doer_->done()\<close>: when the frame is gone that is undefined, \<open>None\<close>.
\<close>

definition sync_invoke ::
  "node_id \<Rightarrow> ('s, 'r) sync_op \<Rightarrow> ('s, 'r) app \<Rightarrow> ('s, 'r) app option" where
  "sync_invoke this op a =
     (let (r, s) = so_handler op (inst a)
      in if so_src op = this
         then (case frames a (so_frame op) of
                 Left \<Rightarrow> None
               | _ \<Rightarrow> Some (a\<lparr>inst := s, frames := (frames a)(so_frame op := Ready r)\<rparr>))
         else Some (a\<lparr>inst := s\<rparr>))"

text \<open>The specialisation for handlers without a result: the frame holds the doer only.\<close>

definition sync_invoke_void ::
  "node_id \<Rightarrow> ('s, unit) sync_op \<Rightarrow> ('s, unit) app \<Rightarrow> ('s, unit) app option" where
  "sync_invoke_void this op a =
     (let s = snd (so_handler op (inst a)); a = a\<lparr>inst := s\<rparr>
      in if so_src op = this
         then (if frames a (so_frame op) = Left then None
               else Some (a\<lparr>frames := (frames a)(so_frame op := Ready ())\<rparr>))
         else Some a)"

text \<open>
  \<open>BaseReplob::call\<close> binds the arguments of a member function; \<open>ReplobTransact\<close> passes the
  instance to the body of a transaction.
\<close>

definition replob_call ::
  "node_id \<Rightarrow> nat \<Rightarrow> ('v \<Rightarrow> 's \<Rightarrow> 'r \<times> 's) \<Rightarrow> 'v \<Rightarrow> ('s, 'r) app \<Rightarrow> ('s, 'r) sync_op \<times> ('s, 'r) app" where
  "replob_call this fr f v a = sync_call this fr (f v) a"

text \<open>
  The rest of \<open>result()\<close>: \<open>waitForDone\<close> returns, when the result is there, or throws the
  event of \<open>Timeout\<close> or of a cancellation; either way the frame is left.
\<close>

definition sync_return :: "nat \<Rightarrow> ('s, 'r) app \<Rightarrow> 'r option \<times> ('s, 'r) app" where
  "sync_return fr a =
     ((case frames a fr of Ready r \<Rightarrow> Some r | _ \<Rightarrow> None), a\<lparr>frames := (frames a)(fr := Left)\<rparr>)"

text \<open>\<open>ReplobTransactLocal\<close>, \<open>BaseReplobLocal::call\<close>: the handler gets the instance as const.\<close>

definition local_call :: "('s \<Rightarrow> 'r) \<Rightarrow> ('s, 'r2) app \<Rightarrow> 'r" where
  "local_call f a = f (inst a)"

definition replobLocal_call :: "('v \<Rightarrow> 's \<Rightarrow> 'r) \<Rightarrow> 'v \<Rightarrow> ('s, 'r2) app \<Rightarrow> 'r" where
  "replobLocal_call f v a = local_call (f v) a"

definition transact_local :: "('s \<Rightarrow> 'r) \<Rightarrow> ('s, 'r2) app \<Rightarrow> 'r" where
  "transact_local f a = f (inst a)"

text \<open>\<open>MReplobTransact\<close>: the body of the transaction is the handler.\<close>

definition transact ::
  "node_id \<Rightarrow> nat \<Rightarrow> ('s \<Rightarrow> 'r \<times> 's) \<Rightarrow> ('s, 'r) app \<Rightarrow> ('s, 'r) sync_op \<times> ('s, 'r) app" where
  "transact this fr f a = sync_call this fr f a"

text \<open>\<open>result()\<close> of the specialisation: whether \<open>waitForDone\<close> returned.\<close>

definition sync_return_void :: "nat \<Rightarrow> ('s, unit) app \<Rightarrow> bool \<times> ('s, unit) app" where
  "sync_return_void fr a = (frames a fr = Ready (), a\<lparr>frames := (frames a)(fr := Left)\<rparr>)"

section \<open>A node\<close>

datatype ('s, 'r) app_event = Enter nat | Exec "('s, 'r) sync_op" | Leave nat

fun app_step :: "node_id \<Rightarrow> ('s, 'r) app_event \<Rightarrow> ('s, 'r) app \<Rightarrow> ('s, 'r) app option" where
  "app_step this (Enter fr) a = Some (a\<lparr>frames := (frames a)(fr := Awaiting)\<rparr>)"
| "app_step this (Exec op) a = sync_invoke this op a"
| "app_step this (Leave fr) a = Some (snd (sync_return fr a))"

fun app_run :: "node_id \<Rightarrow> ('s, 'r) app_event list \<Rightarrow> ('s, 'r) app \<Rightarrow> ('s, 'r) app option" where
  "app_run this [] a = Some a"
| "app_run this (e # es) a = (case app_step this e a of None \<Rightarrow> None | Some b \<Rightarrow> app_run this es b)"

fun execs :: "('s, 'r) app_event list \<Rightarrow> ('s, 'r) sync_op list" where
  "execs [] = []"
| "execs (Exec op # es) = op # execs es"
| "execs (e # es) = execs es"

definition apply_ops :: "('s, 'r) sync_op list \<Rightarrow> 's \<Rightarrow> 's" where
  "apply_ops ops s = fold (\<lambda>op s. snd (so_handler op s)) ops s"

lemma apply_ops_simps [simp]:
  "apply_ops [] s = s" "apply_ops (op # ops) s = apply_ops ops (snd (so_handler op s))"
  "apply_ops (xs @ ys) s = apply_ops ys (apply_ops xs s)"
  by (simp_all add: apply_ops_def)

lemma execs_append [simp]: "execs (es @ es') = execs es @ execs es'"
  by (induction es rule: execs.induct) simp_all

lemma app_run_append:
  "app_run this (es @ es') a = (case app_run this es a of None \<Rightarrow> None | Some b \<Rightarrow> app_run this es' b)"
  by (induction es arbitrary: a) (simp_all split: option.split)

lemma sync_invoke_inst:
  "sync_invoke this op a = Some b \<Longrightarrow> inst b = snd (so_handler op (inst a))"
  by (auto simp: sync_invoke_def split_beta Let_def split: if_splits frame.splits)

text \<open>The specialisation is the general case at the type of no result.\<close>

lemma sync_invoke_void_eq: "sync_invoke_void this op a = sync_invoke this op a"
  by (cases "frames a (so_frame op)") (simp_all add: sync_invoke_void_def sync_invoke_def split_beta Let_def)

lemma sync_return_void_eq:
  "sync_return_void fr a = (fst (sync_return fr a) = Some (), snd (sync_return fr a))"
  by (cases "frames a fr") (simp_all add: sync_return_void_def sync_return_def)

lemma app_run_inst:
  "app_run this es a = Some b \<Longrightarrow> inst b = apply_ops (execs es) (inst a)"
proof (induction es arbitrary: a)
  case (Cons e es)
  then show ?case
    by (cases e) (auto simp: sync_return_def dest: sync_invoke_inst split: option.splits)
qed simp

text \<open>A local call shows what the node has executed so far.\<close>

lemma local_reads_executed:
  assumes "app_run this es (app_new s) = Some a"
  shows "replobLocal_call f v a = f v (apply_ops (execs es) s)" "transact_local g a = g (apply_ops (execs es) s)"
  using app_run_inst [OF assms] by (simp_all add: replobLocal_call_def local_call_def transact_local_def app_new_def)

section \<open>Nodes of a cluster\<close>

text \<open>The operations a node executed, in order.\<close>

abbreviation node_ops :: "('s, 'r) sync_op node \<Rightarrow> ('s, 'r) sync_op list" where
  "node_ops \<equiv> node_msgs"

text \<open>C3: Replication of an object: in a cluster of fixed membership, whatever the network
  does, of the instances of two nodes that started equal one is the other after the operations
  it has executed further, however local calls, returns and timeouts are mixed with the executed
  messages on each node.\<close>

theorem replicas_hold_same_state:
  assumes "cluster_start mem s0" and "(cluster_step mem)\<^sup>*\<^sup>* s0 s"
    and "n \<in> member_ids mem" and "m \<in> member_ids mem"
    and "execs es = node_ops (nds s n)" and "app_run n es (app_new st) = Some a"
    and "execs es' = node_ops (nds s m)" and "app_run m es' (app_new st) = Some b"
  shows "\<exists>ops. node_ops (nds s m) = node_ops (nds s n) @ ops \<and> inst b = apply_ops ops (inst a) \<or>
               node_ops (nds s n) = node_ops (nds s m) @ ops \<and> inst a = apply_ops ops (inst b)"
proof -
  have a: "inst a = apply_ops (node_ops (nds s n)) st"
    using app_run_inst [OF assms(6)] assms(5) by (simp add: app_new_def)
  have b: "inst b = apply_ops (node_ops (nds s m)) st"
    using app_run_inst [OF assms(8)] assms(7) by (simp add: app_new_def)
  from logs_prefix [OF cluster.inv_reachable [OF assms(1,2)] assms(3,4)]
  show ?thesis
  proof
    assume "prefix (executed (nds s n)) (executed (nds s m))"
    then obtain ops where "node_ops (nds s m) = node_ops (nds s n) @ ops" using node_msgs_prefix by blast
    with a b show ?thesis by (intro exI [of _ ops]) simp
  next
    assume "prefix (executed (nds s m)) (executed (nds s n))"
    then obtain ops where "node_ops (nds s n) = node_ops (nds s m) @ ops" using node_msgs_prefix by blast
    with a b show ?thesis by (intro exI [of _ ops]) simp
  qed
qed

text \<open>The events that concern the frame \<open>fr\<close> of a call of the node.\<close>

fun touches :: "node_id \<Rightarrow> nat \<Rightarrow> ('s, 'r) app_event \<Rightarrow> bool" where
  "touches this fr (Enter f) = (f = fr)"
| "touches this fr (Exec op) = (so_src op = this \<and> so_frame op = fr)"
| "touches this fr (Leave f) = (f = fr)"

lemma app_step_frame:
  "app_step this e a = Some b \<Longrightarrow> \<not> touches this fr e \<Longrightarrow> frames b fr = frames a fr"
  by (cases e) (auto simp: sync_return_def sync_invoke_def split_beta Let_def
      split: if_splits frame.splits)

lemma app_run_frame:
  "app_run this es a = Some b \<Longrightarrow> \<forall>e \<in> set es. \<not> touches this fr e \<Longrightarrow> frames b fr = frames a fr"
  by (induction es arbitrary: a) (auto dest: app_step_frame split: option.splits)

lemma call_result:
  assumes "so_src op = this" and "app_run this (es @ Exec op # es') (app_new s) = Some a"
    and "\<forall>e \<in> set es'. \<not> touches this (so_frame op) e"
  shows "fst (sync_return (so_frame op) a) = Some (fst (so_handler op (apply_ops (execs es) s)))"
proof -
  obtain b c where b: "app_run this es (app_new s) = Some b"
    and c: "sync_invoke this op b = Some c" "app_run this es' c = Some a"
    using assms(2) by (auto simp: app_run_append split: option.splits)
  have "inst b = apply_ops (execs es) s" using app_run_inst [OF b] by (simp add: app_new_def)
  then have "frames c (so_frame op) = Ready (fst (so_handler op (apply_ops (execs es) s)))"
    using c(1) assms(1) by (auto simp: sync_invoke_def split_beta Let_def split: frame.splits)
  then show ?thesis using app_run_frame [OF c(2) assms(3)] by (simp add: sync_return_def)
qed

text \<open>C13: A call returns what its handler computes on the instance at its place in the agreed
  order: after the operations executed before it on the node, and none that came later.\<close>

theorem sync_call_result:
  assumes "so_src op = this" and "app_run this (es @ Exec op # es') (app_new s) = Some a"
    and "\<forall>e \<in> set es'. \<not> touches this (so_frame op) e"
  shows "fst (sync_return (so_frame op) a) = Some (fst (so_handler op (apply_ops (execs es) s)))"
  by (rule call_result [OF assms])

text \<open>When the wait of a call ended with an event before its message was executed, the
  node of the call writes the result into a frame that is gone.\<close>

theorem result_after_timeout_undefined:
  assumes "sync_call this fr f a = (op, b)"
  shows "app_run this [Leave fr, Exec op] b = None"
  using assms by (auto simp: sync_call_def sync_return_def sync_invoke_def split_beta Let_def)

section \<open>A replicated counter\<close>

text \<open>The run of two nodes above, with a call of node 1 that adds to a number and returns
  what it was; node 2 has executed it.\<close>

definition toggle :: "(bool, bool) sync_op" where
  "toggle = \<lparr>so_handler = \<lambda>s. (s, \<not> s), so_src = 1, so_frame = 0\<rparr>"

definition toggled :: "(bool, bool) app" where
  "toggled = (app_new False)\<lparr>inst := True\<rparr>"

lemma replicas_hold_same_state_witness:
  "\<exists>ops. node_ops (nds (two_decided toggle) 2) = node_ops (nds (two_decided toggle) 1) @ ops \<and>
     inst toggled = apply_ops ops False"
proof -
  have ops: "node_ops (nds (two_decided toggle) 2) = [toggle]"
    by (simp add: node_msgs_def two_executed first_carry_def)
  have "executed (nds (two_decided toggle) 1) = []" by code_simp
  then have none: "node_ops (nds (two_decided toggle) 1) = []" by (simp add: node_msgs_def)
  have run: "app_run 2 [Exec toggle] (app_new False) = Some toggled"
    by (simp add: toggle_def toggled_def sync_invoke_def app_new_def)
  have run1: "app_run 1 [Enter 0] (app_new False) = Some ((app_new False)\<lparr>frames := (frames (app_new False))(0 := Awaiting)\<rparr>)"
    by simp
  have ex: "execs [Exec toggle] = node_ops (nds (two_decided toggle) 2)" by (simp add: ops)
  have ex1: "execs [Enter 0] = node_ops (nds (two_decided toggle) 1)" by (simp add: none)
  from replicas_hold_same_state [OF two_start two_run _ _ ex1 run1 ex run] ops none
  show ?thesis by (auto simp: two_members app_new_def)
qed

lemma sync_call_result_witness:
  "fst (sync_return 0 (the (app_run 1 [Exec (toggle\<lparr>so_src := 2\<rparr>), Enter 0, Exec toggle] (app_new False)))) = Some True"
proof -
  let ?es = "[Exec (toggle\<lparr>so_src := 2\<rparr>), Enter 0]"
  have r: "app_run 1 (?es @ Exec toggle # []) (app_new False) =
      Some (the (app_run 1 (?es @ Exec toggle # []) (app_new False)))"
    by (simp add: toggle_def sync_invoke_def app_new_def)
  have "so_src toggle = 1" by (simp add: toggle_def)
  from sync_call_result [OF this r] show ?thesis by (simp add: toggle_def)
qed

lemma result_after_timeout_undefined_witness:
  "app_run 1 [Leave 0, Exec (fst (sync_call 1 0 (so_handler toggle) (app_new False)))]
     (snd (sync_call 1 0 (so_handler toggle) (app_new False))) = None"
  by (rule result_after_timeout_undefined) (rule prod.collapse [symmetric])

text \<open>C8: Every call comes back: when the network has delivered what was sent, every synchronous
  call that any node made, and did not give up, has its result: what its handler computes after
  exactly the operations that precede it in the agreed order.\<close>

theorem quiet_calls_return:
  assumes "cluster_start mem s0" and "(cluster_step mem)\<^sup>*\<^sup>* s0 s" and "quiet mem s"
    and "n \<in> member_ids mem" and "(k, x) \<in> applied s" and "so_src (cm_msg x) = n"
    and "execs es = node_ops (nds s n)" and "app_run n es (app_new st) = Some a"
    and "\<forall>es1 es2. es = es1 @ Exec (cm_msg x) # es2 \<longrightarrow>
      (\<forall>e \<in> set es2. \<not> touches n (so_frame (cm_msg x)) e)"
  shows "\<exists>ops1 ops2. node_ops (nds s n) = ops1 @ cm_msg x # ops2 \<and>
    fst (sync_return (so_frame (cm_msg x)) a) = Some (fst (so_handler (cm_msg x) (apply_ops ops1 st)))"
proof -
  from quiet_executed [OF progress.inv_reachable [OF assms(1,2)] assms(3,4,5)]
  have "cm_msg x \<in> set (node_ops (nds s n))" by (force simp: node_msgs_def)
  then have "Exec (cm_msg x) \<in> set es"
    unfolding assms(7) [symmetric] by (induction es rule: execs.induct) auto
  then obtain es1 es2 where es: "es = es1 @ Exec (cm_msg x) # es2" by (meson split_list)
  with assms(9) have "\<forall>e \<in> set es2. \<not> touches n (so_frame (cm_msg x)) e" by blast
  from call_result [OF assms(6) assms(8) [unfolded es] this] assms(7)
  show ?thesis by (intro exI [of _ "execs es1"] exI [of _ "execs es2"]) (simp add: es)
qed

lemma toggle_frame: "so_frame toggle = 0"
  by (simp add: toggle_def)

lemma quiet_calls_return_witness:
  "fst (sync_return 0 (the (app_run 1 [Enter 0, Exec toggle] (app_new False)))) = Some False"
proof -
  let ?a = "the (app_run 1 [Enter 0, Exec toggle] (app_new False))"
  have ops: "execs [Enter 0, Exec toggle] = node_ops (nds (two_done toggle) 1)"
    by (simp add: node_msgs_def two_done_executed first_carry_def)
  have x: "(0, first_carry toggle) \<in> applied (two_done toggle)"
    by (simp add: two_done_def two_decided_def)
  have run: "app_run 1 [Enter 0, Exec toggle] (app_new False) = Some ?a"
    by (simp add: toggle_def sync_invoke_def app_new_def)
  have last: "\<forall>es1 es2. [Enter 0, Exec toggle] = es1 @ Exec (cm_msg (first_carry toggle)) # es2 \<longrightarrow>
      (\<forall>e \<in> set es2. \<not> touches 1 (so_frame (cm_msg (first_carry toggle))) e)"
    by (auto simp: first_carry_def Cons_eq_append_conv)
  have src: "so_src (cm_msg (first_carry toggle)) = 1" by (simp add: toggle_def first_carry_def)
  have "1 \<in> member_ids two_nodes" by (simp add: two_members)
  from quiet_calls_return [OF two_start two_done_run two_done_quiet this x src ops run last]
  obtain ops1 ops2 where o: "node_ops (nds (two_done toggle) 1) = ops1 @ toggle # ops2"
    and r: "fst (sync_return 0 ?a) = Some (fst (so_handler toggle (apply_ops ops1 False)))"
    unfolding first_carry_def toggle_frame carry_msg.select_convs by blast
  from o ops have "ops1 = []" by (auto simp: Cons_eq_append_conv)
  with r show ?thesis by (simp add: toggle_def)
qed

text \<open>A decision that any node made is the one every node executes, then or later.\<close>

lemma decided_executed:
  assumes inv: "progress_inv mem s" and n: "n \<in> member_ids mem" "phase (nds s n) k = Inl C"
    and steps: "(cluster_step mem)\<^sup>*\<^sup>* s t" and m: "m \<in> member_ids mem" "phase (nds t m) k = Inl D"
  shows "D = C"
proof -
  have "CommitMsg k C \<in> net s" using inv n by (simp add: progress_inv_def)
  moreover have "net s \<subseteq> net t"
    using steps by (induction rule: rtranclp_induct) (auto elim!: cluster_step.cases)
  ultimately have "C \<in> commits_at (net t) k" by (auto simp: commits_at_def)
  moreover have "cluster_inv mem t"
    using cluster.inv_steps [OF steps] inv by (simp add: progress_inv_def)
  ultimately have "decision (member_ids mem) (votes_at (net t) k) (\<lambda>n. phase (nds t n) k) C"
    "decision (member_ids mem) (votes_at (net t) k) (\<lambda>n. phase (nds t n) k) D"
    using m unfolding cluster_inv_def agree_inv_def by blast+
  then show ?thesis by (auto simp: decision_def intro: sorted_carries_eq)
qed

lemma node_ops_split:
  assumes "i < j" "j < length (executed nd)" and "x \<in> set (snd (executed nd ! i))" "y \<in> set (snd (executed nd ! j))"
  shows "\<exists>ops1 ops2 ops3. node_ops nd = ops1 @ cm_msg x # ops2 @ cm_msg y # ops3"
proof -
  let ?l = "executed nd"
  let ?ops = "\<lambda>es. concat (map (\<lambda>(k, C). map cm_msg C) es)"
  have split: "\<exists>a b. ?ops es = a @ cm_msg z # b" if "(k, C) \<in> set es" "z \<in> set C" for es k C z
  proof -
    have "cm_msg z \<in> set (?ops es)" using that by force
    then show ?thesis by (rule split_list)
  qed
  have "(fst (?l ! i), snd (?l ! i)) \<in> set (take j ?l)"
    using assms(1,2) by (auto simp: in_set_conv_nth intro!: exI [of _ i])
  from split [OF this assms(3)] obtain a b where 1: "?ops (take j ?l) = a @ cm_msg x # b" by blast
  have "(fst (?l ! j), snd (?l ! j)) \<in> set (drop j ?l)"
    using assms(2) by (simp add: Cons_nth_drop_Suc [symmetric])
  from split [OF this assms(4)] obtain c d where 2: "?ops (drop j ?l) = c @ cm_msg y # d" by blast
  have "node_ops nd = ?ops (take j ?l) @ ?ops (drop j ?l)"
    unfolding node_msgs_def by (simp flip: concat_append map_append)
  then show ?thesis unfolding 1 2 by (intro exI [of _ a] exI [of _ "b @ c"] exI [of _ d]) simp
qed

text \<open>C6: Linearisability: when a call was executed on some node, and so before it can return,
  and another call is made after that, on whichever node, then every node that executes the
  second has executed the first before it, so that its result shows the effects of the first.\<close>

theorem calls_linearisable:
  assumes "cluster_start mem s0" and "(cluster_step mem)\<^sup>*\<^sup>* s0 s" and "n \<in> member_ids mem"
    and "(k, C) \<in> set (executed (nds s n))" and "x \<in> set C"
    and "(cluster_step mem)\<^sup>*\<^sup>* s t" and "(k', y) \<in> applied t" and "(k', y) \<notin> applied s"
    and "m \<in> member_ids mem" and "(k', D) \<in> set (executed (nds t m))" and "y \<in> set D"
  shows "\<exists>ops1 ops2 ops3. node_ops (nds t m) = ops1 @ cm_msg x # ops2 @ cm_msg y # ops3"
proof -
  note inv = progress.inv_reachable [OF assms(1,2)]
  then have ci: "cluster_inv mem s" by (simp add: progress_inv_def)
  have ct: "cluster_inv mem t" using cluster.inv_steps [OF assms(6) ci] .
  have nv: "node_inv (nds s n)" and mv: "node_inv (nds t m)"
    using ci ct assms(3,9) by (simp_all add: cluster_inv_def)
  obtain i where i: "i < length (executed (nds s n))" "executed (nds s n) ! i = (k, C)"
    using assms(4) by (auto simp: in_set_conv_nth)
  with executed_phase [OF nv i(1)] have k: "k = of_nat i" "phase (nds s n) k = Inl C" by simp_all
  obtain j where j: "j < length (executed (nds t m))" "executed (nds t m) ! j = (k', D)"
    using assms(10) by (auto simp: in_set_conv_nth)
  with executed_phase(1) [OF mv j(1)] have k': "k' = of_nat j" by simp
  from decided_next_step [OF ci assms(3) k(2)] later_steps [OF assms(6) ci, of k] assms(7,8)
  have "k < k'" by blast
  with executed_step_numbers(2) [OF nv i(1)] executed_step_numbers(2) [OF mv j(1)] k(1) k'
  have ij: "i < j" by (simp add: word_less_nat_alt)
  then have "i < length (executed (nds t m))" using j(1) by simp
  from executed_phase(2) [OF mv this] decided_executed [OF inv assms(3) k(2) assms(6,9)] k(1)
  have "snd (executed (nds t m) ! i) = C" by simp
  with node_ops_split [OF ij j(1), of x y] j(2) assms(5,11) show ?thesis by simp
qed

lemma calls_linearisable_witness:
  "\<exists>ops1 ops2 ops3. node_ops (nds (two_last toggle toggle) 1) = ops1 @ toggle # ops2 @ toggle # ops3"
proof -
  have "(0, [first_carry toggle]) \<in> set (executed (nds (two_done toggle) 2))"
    by (simp add: two_done_executed)
  moreover have "(1, later_carry toggle) \<in> applied (two_last toggle toggle)"
    "(1, later_carry toggle) \<notin> applied (two_done toggle)"
    by (simp_all add: two_last_def two_later_def two_done_def two_decided_def Let_def)
  moreover have "(1, [later_carry toggle]) \<in> set (executed (nds (two_last toggle toggle) 1))"
    by (simp add: two_last_executed)
  moreover have "first_carry toggle \<in> set [first_carry toggle]" "later_carry toggle \<in> set [later_carry toggle]"
    "1 \<in> member_ids two_nodes" "2 \<in> member_ids two_nodes" by (simp_all add: two_members)
  ultimately show ?thesis
    using calls_linearisable [where n = 2 and k = 0 and C = "[first_carry toggle]" and x = "first_carry toggle" and
        k' = 1 and y = "later_carry toggle" and m = 1 and D = "[later_carry toggle]",
        OF two_start two_done_run [of toggle] _ _ _ two_last_run [of toggle toggle]]
    by (simp add: first_carry_def later_carry_def)
qed

end
