(* ===== verification/KeyValue.thy ===== *)
theory KeyValue
  imports Apply "HOL-Library.Multiset"
begin

text \<open>
  The key-value store of \<open>examples/kv.cpp\<close>: an \<open>unordered_map\<close> as an association list with
  distinct keys (the order of iteration is that of the list, the code fixes none), its
  operations, and the calls the program makes on it through agreement.
\<close>

section \<open>The store\<close>

type_synonym kv = "(string \<times> string) list"

definition kv_get :: "string \<Rightarrow> kv \<Rightarrow> string option" where
  "kv_get key m = (if map_of m key = None then None else map_of m key)"

definition kv_set :: "string \<Rightarrow> string option \<Rightarrow> kv \<Rightarrow> kv" where
  "kv_set key v m = (case v of Some x \<Rightarrow> AList.update key x m | None \<Rightarrow> AList.delete key m)"

definition kv_forEach :: "(string \<times> string \<Rightarrow> 'a \<Rightarrow> 'a) \<Rightarrow> kv \<Rightarrow> 'a \<Rightarrow> 'a" where
  "kv_forEach f m a = fold f m a"

text \<open>The values' total size, as the last transaction of \<open>kv()\<close> computes it.\<close>

definition kv_valuesSize :: "kv \<Rightarrow> nat" where
  "kv_valuesSize m = kv_forEach (\<lambda>v sz. sz + length (snd v)) m 0"

section \<open>The store as a map\<close>

definition kv_wf :: "kv \<Rightarrow> bool" where "kv_wf m \<longleftrightarrow> distinct (map fst m)"

text \<open>What the callers of \<open>get\<close> and \<open>set\<close> rely on.\<close>

locale store =
  fixes wf :: "'s \<Rightarrow> bool" and get :: "'k \<Rightarrow> 's \<Rightarrow> 'v option" and put :: "'k \<Rightarrow> 'v option \<Rightarrow> 's \<Rightarrow> 's"
  assumes wf_put: "wf s \<Longrightarrow> wf (put k v s)"
    and get_put: "wf s \<Longrightarrow> get k' (put k v s) = (if k' = k then v else get k' s)"
begin

definition put_all :: "('k \<times> 'v option) list \<Rightarrow> 's \<Rightarrow> 's" where
  "put_all ws s = fold (\<lambda>(k, v). put k v) ws s"

lemma wf_put_all: "wf s \<Longrightarrow> wf (put_all ws s)"
  by (induction ws arbitrary: s) (auto simp: put_all_def wf_put)

lemma get_put_all:
  "wf s \<Longrightarrow> get k (put_all ws s) = (case map_of (rev ws) k of Some v \<Rightarrow> v | None \<Rightarrow> get k s)"
proof (induction ws rule: rev_induct)
  case (snoc w ws)
  obtain a v where "w = (a, v)" by (cases w)
  moreover have "put_all (ws @ [(a, v)]) s = put a v (put_all ws s)" by (simp add: put_all_def)
  ultimately show ?case using snoc wf_put_all [OF snoc.prems] by (auto simp: get_put)
qed (simp add: put_all_def)

text \<open>Writes of different keys commute, as far as \<open>get\<close> can tell.\<close>

lemma put_commute:
  "wf s \<Longrightarrow> k1 \<noteq> k2 \<Longrightarrow> get k (put k1 v1 (put k2 v2 s)) = get k (put k2 v2 (put k1 v1 s))"
  by (auto simp: get_put wf_put)

end

lemma kv_get_map: "kv_get k m = map_of m k"
  by (simp add: kv_get_def)

interpretation kv: store kv_wf kv_get kv_set
  by unfold_locales
    (auto simp: kv_wf_def kv_set_def kv_get_map update_conv' delete_conv' distinct_update distinct_delete
      split: option.split)

section \<open>The program\<close>

text \<open>
  What \<open>kv()\<close> logs, in order. \<open>kv_op\<close> is a call through agreement; the journey waits for
  each, so on its node they are executed one after the other, with the local reads between.
  \<open>others\<close>: what the other nodes' calls do to the store before each of the six calls.
\<close>

datatype logged = LogString string | LogSize nat

definition kv_op :: "(kv \<Rightarrow> kv) \<Rightarrow> (kv \<Rightarrow> 'r \<times> kv) \<Rightarrow> kv \<Rightarrow> 'r \<times> kv" where
  "kv_op other f m = f (other m)"

definition value_or :: "'a option \<Rightarrow> 'a \<Rightarrow> 'a" where
  "value_or x d = (case x of Some v \<Rightarrow> v | None \<Rightarrow> d)"

definition hello :: string where "hello = ''hello''"

text \<open>Dereferencing an empty \<open>optional\<close> is undefined: \<open>None\<close>.\<close>

definition kv_program :: "(nat \<Rightarrow> kv \<Rightarrow> kv) \<Rightarrow> kv \<Rightarrow> logged list option" where
  "kv_program others m =
     (let (_, m) = kv_op (others 0) (\<lambda>m. ((), kv_set hello (Some ''world!'') m)) m;
          (world, m) = kv_op (others 1) (\<lambda>m. (kv_get hello m, m)) m
      in case (world, kv_get hello m) of
        (Some w1, Some w2) \<Rightarrow>
          (let w = value_or (kv_get hello m) ''world!'';
               (_, m) = kv_op (others 2) (\<lambda>m. ((), kv_set hello (Some (''hello '' @ w)) m)) m
           in case kv_get hello m of
             Some w3 \<Rightarrow>
               (let (_, m) = kv_op (others 3) (\<lambda>m.
                      ((), kv_set hello (Some (''hello '' @ value_or (kv_get hello m) ''world!'')) m)) m
                in case kv_get hello m of
                  Some w4 \<Rightarrow>
                    (let len1 = length (value_or (kv_get hello m) '''');
                         (len2, m) = kv_op (others 4) (\<lambda>m.
                            (length (value_or (kv_get hello m) ''''), kv_set ''another'' (kv_get hello m) m)) m
                     in Some [LogString w1, LogString w2, LogString w3, LogString w4,
                              LogSize len1, LogSize len2, LogSize (kv_valuesSize m)])
                | None \<Rightarrow> None)
           | None \<Rightarrow> None)
      | _ \<Rightarrow> None)"

section \<open>What the store promises\<close>

text \<open>After any operations on the store, each an assignment or an erasure, a key holds
  what the last operation on it left, or what it held before; the keys stay distinct.\<close>

theorem kv_last_write_wins:
  assumes "kv_wf m"
  shows "kv_get k (fold (\<lambda>(k, v). kv_set k v) ws m) =
           (case map_of (rev ws) k of Some v \<Rightarrow> v | None \<Rightarrow> kv_get k m) \<and>
         kv_wf (fold (\<lambda>(k, v). kv_set k v) ws m)"
  using kv.get_put_all [OF assms] kv.wf_put_all [OF assms] by (simp add: kv.put_all_def)

lemma kv_last_write_wins_witness:
  "kv_get ''a'' (fold (\<lambda>(k, v). kv_set k v) [(''a'', Some ''x''), (''b'', None), (''a'', Some ''y'')] []) = Some ''y''"
  using kv_last_write_wins [of "[]" "''a''" "[(''a'', Some ''x''), (''b'', None), (''a'', Some ''y'')]"]
  by (simp add: kv_wf_def)

text \<open>The total size of the values does not depend on the order of iteration.\<close>

lemma valuesSize_order: "mset m = mset m' \<Longrightarrow> kv_valuesSize m = kv_valuesSize m'"
proof -
  have "kv_valuesSize m = sum_list (map (length \<circ> snd) m)" for m
    unfolding kv_valuesSize_def kv_forEach_def by (induction m rule: rev_induct) simp_all
  then show "mset m = mset m' \<Longrightarrow> kv_valuesSize m = kv_valuesSize m'"
    by (metis mset_map sum_mset_sum_list)
qed

text \<open>The program \<open>kv()\<close>, started on an empty store with no other writer, logs the
  values its two replicated writes and its two transactions produce.\<close>

theorem kv_program_logs:
  "kv_program (\<lambda>_ m. m) [] =
     Some [LogString ''world!'', LogString ''world!'', LogString ''hello world!'',
           LogString ''hello hello world!'', LogSize 18, LogSize 18, LogSize 36]"
  by code_simp

text \<open>An erasure of the key by another node between a write and the read that follows makes
  the program dereference an empty value.\<close>

lemma kv_program_undefined:
  "kv_program (\<lambda>n m. if n = 1 then kv_set hello None m else m) [] = None"
  by code_simp

section \<open>The store on the cluster\<close>

text \<open>
  The calls of \<open>set\<close> as messages: what the closure has captured is the key and the value. The
  store of a node is what its executed messages have made of an empty one.
\<close>

type_synonym kv_msg = "string \<times> string option"

abbreviation kv_msgs :: "kv_msg node \<Rightarrow> kv_msg list" where
  "kv_msgs \<equiv> node_msgs"

definition kv_store :: "kv_msg node \<Rightarrow> kv" where
  "kv_store nd = fold (\<lambda>(k, v). kv_set k v) (kv_msgs nd) []"

lemma kv_store_get: "kv_get k (kv_store nd) = (case map_of (rev (kv_msgs nd)) k of Some v \<Rightarrow> v | None \<Rightarrow> None)"
  using kv.get_put_all [of "[]" k "kv_msgs nd"]
  by (simp add: kv_store_def kv.put_all_def kv_wf_def kv_get_map split: option.split)

text \<open>C14: On a cluster of fixed membership the stores of two nodes agree on every key that the
  further of the two has not written in the steps the other has not executed yet, and every
  key holds what the last executed write to it left.\<close>

theorem kv_replicas_agree:
  assumes "cluster_start mem s0" "(cluster_step mem)\<^sup>*\<^sup>* s0 s" "n \<in> member_ids mem" "m \<in> member_ids mem"
    and "length (executed (nds s n)) \<le> length (executed (nds s m))"
  shows "\<exists>ws. kv_msgs (nds s m) = kv_msgs (nds s n) @ ws \<and>
    kv_get k (kv_store (nds s m)) =
      (case map_of (rev ws) k of Some v \<Rightarrow> v | None \<Rightarrow> kv_get k (kv_store (nds s n)))"
proof -
  have "prefix (executed (nds s n)) (executed (nds s m))"
    using logs_prefix [OF cluster.inv_reachable [OF assms(1,2)] assms(3,4)] assms(5)
    by (metis prefix_length_prefix prefix_order.order_refl)
  then obtain ws where ws: "kv_msgs (nds s m) = kv_msgs (nds s n) @ ws" using node_msgs_prefix by blast
  then have "kv_get k (kv_store (nds s m)) =
      (case map_of (rev ws) k of Some v \<Rightarrow> v | None \<Rightarrow> kv_get k (kv_store (nds s n)))"
    by (auto simp: kv_store_get map_add_def split: option.splits)
  with ws show ?thesis by blast
qed

lemma kv_replicas_agree_witness:
  "kv_get ''a'' (kv_store (nds (two_decided (''a'', Some ''x'')) 2)) = Some ''x''"
proof -
  let ?s = "two_decided (''a'', Some ''x'')"
  have m2: "kv_msgs (nds ?s 2) = [(''a'', Some ''x'')]"
    by (simp add: node_msgs_def two_executed first_carry_def)
  have "executed (nds ?s 1) = []" by code_simp
  then have m1: "kv_msgs (nds ?s 1) = []" "length (executed (nds ?s 1)) \<le> length (executed (nds ?s 2))"
    by (simp_all add: node_msgs_def)
  have "\<exists>ws. kv_msgs (nds ?s 2) = kv_msgs (nds ?s 1) @ ws \<and> kv_get ''a'' (kv_store (nds ?s 2)) =
      (case map_of (rev ws) ''a'' of Some v \<Rightarrow> v | None \<Rightarrow> kv_get ''a'' (kv_store (nds ?s 1)))"
    by (rule kv_replicas_agree [OF two_start two_run _ _ m1(2)]) (simp_all add: two_members)
  then show ?thesis using m1(1) m2 by auto
qed

end
