(* ===== verification/Detector.thy ===== *)
theory Detector
  imports Nodes
begin

text \<open>
  The failure detectors of \<open>examples/chronos.cpp\<close> and \<open>examples/failure_detector.cpp\<close>. Each
  node remembers when it last heard of every other node, broadcasts a pulse twice a second
  (once a second in the second program), and asks the cluster to remove a node it has not
  heard of for three (two) seconds. Time is that of \<open>steady_clock\<close>, in nanoseconds.
\<close>

section \<open>The detector\<close>

type_synonym time = int

record detector =
  dt_seen :: "(node_id \<times> time) list"
  dt_timer :: "nat option"

text \<open>What an operation does besides: calls it sends, messages it applies, node removals.\<close>

datatype dt_effect =
    SendUpdate node_id node_id
  | ReplobRemove node_id
  | NodeRemoved node_id

definition detector_new :: "nodes_config \<Rightarrow> time \<Rightarrow> detector" where
  "detector_new c now =
     \<lparr>dt_seen = fold (\<lambda>n. AList.update n now) (otherNodes c) [], dt_timer = None\<rparr>"

definition detector_start :: "nat \<Rightarrow> detector \<Rightarrow> detector" where
  "detector_start period d = d\<lparr>dt_timer := Some period\<rparr>"

definition detector_update :: "node_id \<Rightarrow> time \<Rightarrow> detector \<Rightarrow> detector" where
  "detector_update i now d = d\<lparr>dt_seen := AList.update i now (dt_seen d)\<rparr>"

definition second :: time where "second = 10 ^ 9"

definition overdue :: "time \<Rightarrow> time \<Rightarrow> detector \<Rightarrow> node_id list" where
  "overdue limit now d = map fst [p \<leftarrow> dt_seen d. now - snd p > limit]"

text \<open>\<open>removeNode\<close> of \<open>chronos.cpp\<close>, which keeps the entry until the removal is agreed on.\<close>

definition detector_removeNode :: "node_id \<Rightarrow> detector \<Rightarrow> dt_effect list \<times> detector" where
  "detector_removeNode i d =
     (if map_of (dt_seen d) i = None then ([], d) else ([ReplobRemove i], d))"

fun remove_each ::
  "(node_id \<Rightarrow> detector \<Rightarrow> dt_effect list \<times> detector) \<Rightarrow> node_id list \<Rightarrow> detector \<Rightarrow>
     dt_effect list \<times> detector" where
  "remove_each rm [] d = ([], d)"
| "remove_each rm (n # ns) d =
     (let (es, d) = rm n d; (es', d) = remove_each rm ns d in (es @ es', d))"

definition detector_check :: "time \<Rightarrow> detector \<Rightarrow> dt_effect list \<times> detector" where
  "detector_check now d = remove_each detector_removeNode (overdue (3 * second) now d) d"

text \<open>The timer is started again when the scope of \<open>pulse\<close> is left.\<close>

definition detector_pulse :: "nodes_config \<Rightarrow> time \<Rightarrow> detector \<Rightarrow> dt_effect list \<times> detector" where
  "detector_pulse c now d =
     (let sent = map (\<lambda>n. SendUpdate n (thisNode c)) (otherNodes c);
          (es, d) = detector_check now d
      in (sent @ es, detector_start 500 d))"

definition removeNodeComplete ::
  "node_id \<Rightarrow> detector \<times> nodes \<Rightarrow> dt_effect list \<times> detector \<times> nodes" where
  "removeNodeComplete i s =
     (let (d, ns) = s in
      if map_of (dt_seen d) i = None then ([], d, ns)
      else let d = d\<lparr>dt_seen := AList.delete i (dt_seen d)\<rparr>;
               ns = snd (nodes_remove i ns);
               ns = ns\<lparr>config := snd (removeNode i (config ns))\<rparr>
           in ([NodeRemoved i], d, ns))"

subsection \<open>The detector of failure\_detector.cpp\<close>

definition fd_new :: "nodes_config \<Rightarrow> time \<Rightarrow> detector" where
  "fd_new c now =
     \<lparr>dt_seen = fold (\<lambda>n. AList.update n now) (otherNodes c) [], dt_timer = None\<rparr>"

definition fd_start :: "detector \<Rightarrow> detector" where
  "fd_start d = d\<lparr>dt_timer := Some 1000\<rparr>"

definition fd_update :: "node_id \<Rightarrow> time \<Rightarrow> detector \<Rightarrow> detector" where
  "fd_update i now d = d\<lparr>dt_seen := AList.update i now (dt_seen d)\<rparr>"

text \<open>It forgets the node before the removal is agreed on, and does not look for it after.\<close>

definition fd_removeNode :: "node_id \<Rightarrow> detector \<Rightarrow> dt_effect list \<times> detector" where
  "fd_removeNode i d = ([ReplobRemove i], d\<lparr>dt_seen := AList.delete i (dt_seen d)\<rparr>)"

definition fd_check :: "time \<Rightarrow> detector \<Rightarrow> dt_effect list \<times> detector" where
  "fd_check now d = remove_each fd_removeNode (overdue (2 * second) now d) d"

definition fd_pulse :: "nodes_config \<Rightarrow> time \<Rightarrow> detector \<Rightarrow> dt_effect list \<times> detector" where
  "fd_pulse c now d =
     (let sent = map (\<lambda>n. SendUpdate n (thisNode c)) (otherNodes c);
          (es, d) = fd_check now d
      in (sent @ es, fd_start d))"

definition fd_removeNodeComplete :: "node_id \<Rightarrow> nodes \<Rightarrow> nodes" where
  "fd_removeNodeComplete i ns =
     (let ns = snd (nodes_remove i ns) in ns\<lparr>config := snd (removeNode i (config ns))\<rparr>)"

definition detector_cleanup :: "detector \<Rightarrow> detector" where
  "detector_cleanup d = d\<lparr>dt_timer := None\<rparr>"

section \<open>Lemmas\<close>

definition detector_wf :: "detector \<Rightarrow> bool" where
  "detector_wf d \<longleftrightarrow> distinct (map fst (dt_seen d))"

lemma remove_each_keep:
  assumes "\<forall>n \<in> set ns. map_of (dt_seen d) n \<noteq> None"
  shows "remove_each detector_removeNode ns d = (map ReplobRemove ns, d)"
  using assms by (induction ns) (simp_all add: detector_removeNode_def)

lemma overdue_seen: "n \<in> set (overdue l now d) \<Longrightarrow> map_of (dt_seen d) n \<noteq> None"
  by (auto simp: overdue_def map_of_eq_None_iff intro: rev_image_eqI)

lemma overdue_iff:
  assumes "detector_wf d"
  shows "n \<in> set (overdue l now d) \<longleftrightarrow> (\<exists>t. map_of (dt_seen d) n = Some t \<and> now - t > l)"
  using assms by (auto simp: overdue_def detector_wf_def intro: rev_image_eqI dest: map_of_SomeD)

text \<open>A pulse sends one update to every other configured node, asks for the removal of
  exactly the nodes last heard of more than three seconds ago, keeps them until that is
  agreed on, and starts the timer again.\<close>

theorem pulse_reports_silent_nodes:
  assumes "detector_wf d" and "detector_pulse c now d = (es, d')"
  shows "es = map (\<lambda>n. SendUpdate n (thisNode c)) (otherNodes c) @
              map ReplobRemove (overdue (3 * second) now d) \<and>
         (\<forall>n. ReplobRemove n \<in> set es \<longleftrightarrow> (\<exists>t. map_of (dt_seen d) n = Some t \<and> now - t > 3 * second)) \<and>
         dt_seen d' = dt_seen d \<and> dt_timer d' = Some 500"
proof -
  have "detector_check now d = (map ReplobRemove (overdue (3 * second) now d), d)"
    unfolding detector_check_def by (rule remove_each_keep) (blast dest: overdue_seen)
  then have e: "es = map (\<lambda>n. SendUpdate n (thisNode c)) (otherNodes c) @ map ReplobRemove (overdue (3 * second) now d)"
    and d': "d' = detector_start 500 d" using assms(2) by (simp_all add: detector_pulse_def)
  have "ReplobRemove n \<in> set es \<longleftrightarrow> n \<in> set (overdue (3 * second) now d)" for n by (auto simp: e)
  with overdue_iff [OF assms(1)] show ?thesis by (simp add: e d' detector_start_def)
qed

lemma pulse_reports_silent_nodes_witness:
  "fst (detector_pulse \<lparr>cfg_this = 1, cfg_nodes = []\<rparr> (4 * second) \<lparr>dt_seen = [(2, 0), (3, 2 * second)], dt_timer = None\<rparr>) =
     [ReplobRemove 2]"
proof -
  let ?c = "\<lparr>cfg_this = 1, cfg_nodes = []\<rparr>" and ?d = "\<lparr>dt_seen = [(2, 0), (3, 2 * second)], dt_timer = None\<rparr>"
  have "detector_wf ?d" by (simp add: detector_wf_def)
  from pulse_reports_silent_nodes [OF this prod.collapse [symmetric], of ?c "4 * second"]
  show ?thesis by (simp add: otherNodes_def overdue_def second_def)
qed

subsection \<open>Removal\<close>

lemma nodes_remove_ids:
  "nodesSet (config (snd (nodes_remove i ns))) \<subseteq> nodesSet (config ns) \<and>
   nodesSet (config ns) - {i} \<subseteq> nodesSet (config (snd (nodes_remove i ns)))"
  using nodes_remove_config [of i ns] by auto

lemma removeNodeComplete_ids:
  assumes "map_of (dt_seen d) i \<noteq> None"
  shows "nodesSet (config (snd (snd (removeNodeComplete i (d, ns))))) = nodesSet (config ns) - {i}"
  using assms nodes_remove_ids [of i ns] by (auto simp: removeNodeComplete_def Let_def)

text \<open>
  What happens to the detector of a node besides its own pulses, which leave it as it is:
  agreed removals of any node, and updates, which come with the pulses of the other nodes, in
  any order.
\<close>

datatype dt_event = Agreed node_id | Heard node_id time

fun detector_event :: "dt_event \<Rightarrow> detector \<times> nodes \<Rightarrow> dt_effect list \<times> detector \<times> nodes" where
  "detector_event (Agreed i) s = removeNodeComplete i s"
| "detector_event (Heard i now) s = ([], detector_update i now (fst s), snd s)"

fun detector_events :: "dt_event list \<Rightarrow> detector \<times> nodes \<Rightarrow> dt_effect list \<times> detector \<times> nodes" where
  "detector_events [] s = ([], s)"
| "detector_events (e # evs) s =
     (let (es, s) = detector_event e s; (es', s) = detector_events evs s in (es @ es', s))"

definition watched :: "node_id \<Rightarrow> detector \<Rightarrow> bool" where
  "watched i d \<longleftrightarrow> map_of (dt_seen d) i \<noteq> None"

text \<open>How often a node was heard of.\<close>

fun times_heard :: "node_id \<Rightarrow> dt_event list \<Rightarrow> nat" where
  "times_heard i [] = 0"
| "times_heard i (Agreed j # evs) = times_heard i evs"
| "times_heard i (Heard j now # evs) = (if j = i then Suc (times_heard i evs) else times_heard i evs)"

lemma complete_seen:
  assumes "detector_wf d"
  shows "map_of (dt_seen (fst (snd (removeNodeComplete i (d, ns))))) =
           (map_of (dt_seen d))(i := None)"
  using assms by (auto simp: removeNodeComplete_def Let_def delete_conv' fun_upd_idem)

lemma complete_wf: "detector_wf d \<Longrightarrow> detector_wf (fst (snd (removeNodeComplete i (d, ns))))"
  by (auto simp: removeNodeComplete_def Let_def detector_wf_def distinct_delete)

lemma update_watched:
  "watched j (detector_update i now d) \<longleftrightarrow> j = i \<or> watched j d"
  by (simp add: watched_def detector_update_def update_conv')

lemma update_wf: "detector_wf d \<Longrightarrow> detector_wf (detector_update i now d)"
  by (simp add: detector_wf_def detector_update_def distinct_update)

text \<open>One agreed removal: it is reported and carried out if the node is watched, and then
  the node is not watched any more.\<close>

lemma complete_report:
  assumes "detector_wf d" and "removeNodeComplete i (d, ns) = (es, d', ns')"
  shows "es = (if watched i d then [NodeRemoved i] else [])"
    and "watched j d' \<longleftrightarrow> watched j d \<and> j \<noteq> i"
    and "nodesSet (config ns') = nodesSet (config ns) - (if watched i d then {i} else {})"
    and "detector_wf d'"
proof -
  show "es = (if watched i d then [NodeRemoved i] else [])"
    using assms(2) by (auto simp: removeNodeComplete_def watched_def Let_def split: if_splits)
  show "watched j d' \<longleftrightarrow> watched j d \<and> j \<noteq> i"
    using complete_seen [OF assms(1), of i ns] assms(2) by (auto simp: watched_def)
  show "nodesSet (config ns') = nodesSet (config ns) - (if watched i d then {i} else {})"
    using removeNodeComplete_ids [of d i ns] assms(2)
    by (cases "watched i d") (auto simp: watched_def removeNodeComplete_def)
  show "detector_wf d'" using complete_wf [OF assms(1), of i ns] assms(2) by simp
qed

text \<open>Over any events: a node is reported at most once for each time it became watched, and
  what is reported leaves the configuration.\<close>

lemma events_reports:
  assumes "detector_wf d" and "detector_events evs (d, ns) = (es, d', ns')"
  shows "count_list es (NodeRemoved i) + (if watched i d' then 1 else 0)
       \<le> times_heard i evs + (if watched i d then 1 else 0)" (is ?A)
    and "times_heard i evs = 0 \<longrightarrow>
       count_list es (NodeRemoved i) = (if watched i d \<and> Agreed i \<in> set evs then 1 else 0)" (is ?B)
    and "nodesSet (config ns') = nodesSet (config ns) - {j. NodeRemoved j \<in> set es}" (is ?C)
proof -
  have "?A \<and> ?B \<and> ?C" using assms
  proof (induction evs arbitrary: d ns es)
    case Nil
    then show ?case by auto
  next
    case (Cons e evs)
    obtain e1 d1 ns1 where s1: "detector_event e (d, ns) = (e1, d1, ns1)" by (rule prod_cases3)
    obtain e2 d2 ns2 where "detector_events evs (d1, ns1) = (e2, d2, ns2)" by (rule prod_cases3)
    then have s2: "detector_events evs (d1, ns1) = (e2, d', ns')" and es: "es = e1 @ e2"
      using Cons.prems(2) s1 by simp_all
    show ?case
    proof (cases e)
      case (Agreed j)
      then have c: "removeNodeComplete j (d, ns) = (e1, d1, ns1)" using s1 by simp
      note r = complete_report [OF Cons.prems(1) c]
      note IH = Cons.IH [OF r(4) s2]
      show ?thesis using IH es Agreed r(1,3) r(2) [of i] by (auto split: if_splits)
    next
      case (Heard j now)
      then have c: "e1 = []" "d1 = detector_update j now d" "ns1 = ns" using s1 by auto
      note IH = Cons.IH [OF update_wf [OF Cons.prems(1), of j now, folded c(2)] s2]
      show ?thesis using IH es Heard c update_watched [of i j now d] by (auto split: if_splits)
    qed
  qed
  then show ?A ?B ?C by blast+
qed

text \<open>C39: However many nodes ask for a removal, and in whatever order agreed removals and
  pulses of the other nodes come: a node is reported as removed at most once for being watched
  at the start and once for every later pulse of it, so that between two reports there is a
  pulse of it; without such a pulse, a watched node of which a removal is agreed on is reported
  exactly once; and the configuration loses exactly the nodes that are reported.\<close>

theorem removals_once:
  assumes "detector_wf d" and "detector_events evs (d, ns) = (es, d', ns')"
  shows "(\<forall>i. count_list es (NodeRemoved i) \<le> times_heard i evs + (if watched i d then 1 else 0)) \<and>
         (\<forall>i. times_heard i evs = 0 \<longrightarrow>
            count_list es (NodeRemoved i) = (if watched i d \<and> Agreed i \<in> set evs then 1 else 0)) \<and>
         nodesSet (config ns') = nodesSet (config ns) - {i. NodeRemoved i \<in> set es}"
  using events_reports [OF assms] by (metis (no_types, lifting) add_leD1)

lemma removals_once_witness:
  "count_list (fst (detector_events [Agreed 2, Agreed 3, Agreed 2, Heard 3 5, Agreed 3]
     (\<lparr>dt_seen = [(2, 0), (3, 0)], dt_timer = None\<rparr>, \<lparr>config = \<lparr>cfg_this = 1, cfg_nodes = []\<rparr>, table = []\<rparr>)))
       (NodeRemoved 2) = 1 \<and>
   fst (detector_events [Agreed 2, Agreed 3, Agreed 2, Heard 3 5, Agreed 3]
     (\<lparr>dt_seen = [(2, 0), (3, 0)], dt_timer = None\<rparr>, \<lparr>config = \<lparr>cfg_this = 1, cfg_nodes = []\<rparr>, table = []\<rparr>)) =
       [NodeRemoved 2, NodeRemoved 3, NodeRemoved 3]"
proof -
  let ?s = "(\<lparr>dt_seen = [(2, 0), (3, 0)], dt_timer = None\<rparr>, \<lparr>config = \<lparr>cfg_this = 1, cfg_nodes = []\<rparr>, table = []\<rparr>)"
  let ?evs = "[Agreed 2, Agreed 3, Agreed 2, Heard 3 5, Agreed 3]"
  have wf: "detector_wf (fst ?s)" by (simp add: detector_wf_def)
  have ev: "fst (detector_events ?evs ?s) = [NodeRemoved 2, NodeRemoved 3, NodeRemoved 3]" by code_simp
  obtain es d' ns' where r: "detector_events ?evs ?s = (es, d', ns')" by (rule prod_cases3)
  from removals_once [OF wf [unfolded fst_conv] r, THEN conjunct2, THEN conjunct1, THEN spec, of 2] ev r
  show ?thesis by (simp add: watched_def)
qed

text \<open>
  A pulse of a removed node that arrives late puts the node back among those that are
  watched, and after the limit its removal is asked for again.
\<close>

lemma late_update_resurrects:
  assumes "detector_wf d"
  shows "map_of (dt_seen (detector_update i now (fst (snd (removeNodeComplete i (d, ns)))))) i = Some now"
  by (simp add: detector_update_def update_conv')

text \<open>
  In \<open>failure_detector.cpp\<close> a node that was silent is forgotten by the pulse that asks for its
  removal: a pulse of its own that arrives before the removal is agreed on makes it be watched
  again, and the removal goes on nevertheless.
\<close>

lemma fd_update_before_removal:
  "map_of (dt_seen (fd_update i now (snd (fd_removeNode i d)))) i = Some now"
  "fst (fd_removeNode i d) = [ReplobRemove i]"
  by (simp_all add: fd_update_def fd_removeNode_def update_conv')

end
