(* ===== verification/Chronos.thy ===== *)
theory Chronos
  imports Detector "HOL-Library.Multiset"
begin

text \<open>
  The scheduler of \<open>examples/chronos.cpp\<close>: an object replicated on all nodes that runs every
  handler, at its time, on one free node. Its operations are executed as messages the nodes
  agreed on. What must be the same on all nodes is everything but the timer.

  \<open>std::priority_queue\<close> promises that its top is a least event by time, not which of several;
  the choice is the parameter \<open>sel\<close>, the same function on all nodes, which run the same
  library.
\<close>

section \<open>The state\<close>

record 'h event =
  ev_ts :: time
  ev_h :: 'h

record 'h chronos =
  ch_available :: "node_id list"
  ch_events :: "'h event list"
  ch_running :: "(node_id \<times> 'h) list"
  ch_awaiting :: "'h list"
  ch_slots :: "node_id list"
  ch_timer :: "int option"

definition chronos_new :: "nodes_config \<Rightarrow> 'h chronos" where
  "chronos_new c = \<lparr>ch_available = cfg_ids c, ch_events = [], ch_running = [], ch_awaiting = [],
                    ch_slots = cfg_ids c, ch_timer = None\<rparr>"

definition removeElement :: "'a \<Rightarrow> 'a list \<Rightarrow> 'a list" where
  "removeElement e xs = [x \<leftarrow> xs. x \<noteq> e]"

section \<open>The queue of events\<close>

type_synonym 'h selector = "'h event list \<Rightarrow> nat"

definition pq_index :: "'h selector \<Rightarrow> 'h event list \<Rightarrow> nat" where
  "pq_index sel es = sel es mod length es"

definition pq_top :: "'h selector \<Rightarrow> 'h event list \<Rightarrow> 'h event" where
  "pq_top sel es = es ! pq_index sel es"

definition pq_pop :: "'h selector \<Rightarrow> 'h event list \<Rightarrow> 'h event list" where
  "pq_pop sel es = take (pq_index sel es) es @ drop (Suc (pq_index sel es)) es"

text \<open>\<open>Event::operator<\<close> compares the other way round, so that the greatest is the earliest.\<close>

instantiation event_ext :: (type, type) ord
begin

definition less_event_ext :: "('a, 'b) event_ext \<Rightarrow> ('a, 'b) event_ext \<Rightarrow> bool" where
  "e < f \<longleftrightarrow> ev_ts f < ev_ts e"

definition less_eq_event_ext :: "('a, 'b) event_ext \<Rightarrow> ('a, 'b) event_ext \<Rightarrow> bool" where
  "e \<le> f \<longleftrightarrow> \<not> ev_ts e < ev_ts f"

instance ..

end

text \<open>What the library promises of \<open>top\<close>: none is greater.\<close>

definition selects_least :: "'h selector \<Rightarrow> bool" where
  "selects_least sel \<longleftrightarrow> (\<forall>es. es \<noteq> [] \<longrightarrow> (\<forall>e \<in> set es. \<not> pq_top sel es < e))"

lemma selects_least_ts:
  "selects_least sel \<longleftrightarrow> (\<forall>es. es \<noteq> [] \<longrightarrow> (\<forall>e \<in> set es. ev_ts (pq_top sel es) \<le> ev_ts e))"
  by (simp add: selects_least_def less_event_ext_def not_less)

lemma pq_split:
  assumes "es \<noteq> []"
  shows "es = take (pq_index sel es) es @ pq_top sel es # drop (Suc (pq_index sel es)) es"
  using assms by (simp add: pq_top_def pq_index_def id_take_nth_drop [symmetric])

lemma pq_pop_facts:
  assumes "es \<noteq> []"
  shows "length (pq_pop sel es) < length es" "pq_top sel es \<in> set es"
    "set (pq_pop sel es) \<subseteq> set es"
    "add_mset (pq_top sel es) (mset (pq_pop sel es)) = mset es"
proof -
  from arg_cong [OF pq_split [OF assms, of sel], of mset]
  show "add_mset (pq_top sel es) (mset (pq_pop sel es)) = mset es"
    by (simp add: pq_pop_def)
  then have m: "mset es = add_mset (pq_top sel es) (mset (pq_pop sel es))" by simp
  from arg_cong [OF m, of size] show "length (pq_pop sel es) < length es" by simp
  from arg_cong [OF m, of set_mset] show "pq_top sel es \<in> set es" "set (pq_pop sel es) \<subseteq> set es" by auto
qed

section \<open>The operations\<close>

datatype 'h ch_effect = RunHere 'h node_id | CommitTime time

definition executeHandler ::
  "node_id \<Rightarrow> 'h \<Rightarrow> node_id \<Rightarrow> (node_id \<times> 'h) list \<Rightarrow> 'h ch_effect list \<times> (node_id \<times> 'h) list" where
  "executeHandler this h i running =
     (let running = AList.update i h running
      in if this \<noteq> i then ([], running) else ([RunHere h i], running))"

fun trigger_loop ::
  "node_id \<Rightarrow> 'h list \<Rightarrow> node_id list \<Rightarrow> (node_id \<times> 'h) list \<Rightarrow>
     'h ch_effect list \<times> 'h list \<times> node_id list \<times> (node_id \<times> 'h) list" where
  "trigger_loop this (h # hs) (i # is) running =
     (let (es, running) = executeHandler this h i running;
          (es', rest) = trigger_loop this hs is running
      in (es @ es', rest))"
| "trigger_loop this hs is running = ([], hs, is, running)"

definition triggerAwaitings :: "node_id \<Rightarrow> 'h chronos \<Rightarrow> 'h ch_effect list \<times> 'h chronos" where
  "triggerAwaitings this c =
     (let (es, hs, is, running) = trigger_loop this (ch_awaiting c) (ch_slots c) (ch_running c)
      in (es, c\<lparr>ch_awaiting := hs, ch_slots := is, ch_running := running\<rparr>))"

definition scheduleEvents :: "'h selector \<Rightarrow> time \<Rightarrow> 'h chronos \<Rightarrow> 'h ch_effect list" where
  "scheduleEvents sel now c =
     (if ch_events c \<noteq> [] \<and> ev_ts (pq_top sel (ch_events c)) < now then [CommitTime now] else [])"

text \<open>\<open>duration_cast\<close> to milliseconds rounds towards zero.\<close>

definition trunc_ms :: "time \<Rightarrow> int" where
  "trunc_ms d = (if 0 \<le> d then d div 10 ^ 6 else - ((- d) div 10 ^ 6))"

text \<open>The clock is read once for the difference, and again in \<open>scheduleEvents\<close>.\<close>

definition scheduleWait ::
  "'h selector \<Rightarrow> time \<Rightarrow> time \<Rightarrow> 'h chronos \<Rightarrow> 'h ch_effect list \<times> 'h chronos" where
  "scheduleWait sel t1 t2 c =
     (if ch_events c = [] then ([], c\<lparr>ch_timer := None\<rparr>)
      else let diff = trunc_ms (ev_ts (pq_top sel (ch_events c)) - t1)
           in if diff < 0 then (scheduleEvents sel t2 c, c)
              else ([], c\<lparr>ch_timer := Some (diff + 100)\<rparr>))"

definition addEvent ::
  "'h selector \<Rightarrow> time \<Rightarrow> time \<Rightarrow> time \<Rightarrow> 'h \<Rightarrow> 'h chronos \<Rightarrow> 'h ch_effect list \<times> 'h chronos" where
  "addEvent sel t1 t2 ts h c =
     scheduleWait sel t1 t2 (c\<lparr>ch_events := ch_events c @ [\<lparr>ev_ts = ts, ev_h = h\<rparr>]\<rparr>)"

definition addEventAfter ::
  "'h selector \<Rightarrow> time \<Rightarrow> time \<Rightarrow> time \<Rightarrow> time \<Rightarrow> 'h \<Rightarrow> 'h chronos \<Rightarrow> 'h ch_effect list \<times> 'h chronos" where
  "addEventAfter sel t0 t1 t2 diff h c = addEvent sel t1 t2 (diff + t0) h c"

function take_due ::
  "'h selector \<Rightarrow> time \<Rightarrow> 'h event list \<Rightarrow> 'h list \<Rightarrow> 'h event list \<times> 'h list" where
  "take_due sel now es hs =
     (if es \<noteq> [] \<and> ev_ts (pq_top sel es) < now
      then take_due sel now (pq_pop sel es) (hs @ [ev_h (pq_top sel es)])
      else (es, hs))"
  by pat_completeness auto
termination
  by (relation "measure (\<lambda>(sel, now, es, hs). length es)") (simp_all add: pq_pop_facts)

declare take_due.simps [simp del]

definition scheduleEventsUpTo ::
  "'h selector \<Rightarrow> node_id \<Rightarrow> time \<Rightarrow> time \<Rightarrow> time \<Rightarrow> 'h chronos \<Rightarrow> 'h ch_effect list \<times> 'h chronos" where
  "scheduleEventsUpTo sel this t1 t2 now c =
     (let (es, hs) = take_due sel now (ch_events c) (ch_awaiting c);
          (fs, c) = triggerAwaitings this (c\<lparr>ch_events := es, ch_awaiting := hs\<rparr>);
          (gs, c) = scheduleWait sel t1 t2 c
      in (fs @ gs, c))"

definition onHandlerCompleted :: "node_id \<Rightarrow> node_id \<Rightarrow> 'h chronos \<Rightarrow> 'h ch_effect list \<times> 'h chronos" where
  "onHandlerCompleted this i c =
     triggerAwaitings this
       (c\<lparr>ch_running := AList.delete i (ch_running c), ch_slots := ch_slots c @ [i]\<rparr>)"

definition onNodeRemove :: "node_id \<Rightarrow> node_id \<Rightarrow> 'h chronos \<Rightarrow> 'h ch_effect list \<times> 'h chronos" where
  "onNodeRemove this i c =
     (let c = c\<lparr>ch_available := removeElement i (ch_available c), ch_slots := removeElement i (ch_slots c)\<rparr>
      in case map_of (ch_running c) i of
           None \<Rightarrow> ([], c)
         | Some h \<Rightarrow>
             triggerAwaitings this
               (c\<lparr>ch_awaiting := ch_awaiting c @ [h], ch_running := AList.delete i (ch_running c)\<rparr>))"

text \<open>What the nodes agree to do, and how a node with clock readings \<open>t\<close> does it.\<close>

datatype 'h ch_op =
    AddEvent time 'h
  | AddAfter time 'h
  | EventsUpTo time
  | HandlerCompleted node_id
  | NodeRemove node_id

fun chronos_exec ::
  "'h selector \<Rightarrow> node_id \<Rightarrow> time \<times> time \<times> time \<Rightarrow> 'h ch_op \<Rightarrow> 'h chronos \<Rightarrow> 'h ch_effect list \<times> 'h chronos" where
  "chronos_exec sel this (t0, t1, t2) (AddEvent ts h) c = addEvent sel t1 t2 ts h c"
| "chronos_exec sel this (t0, t1, t2) (AddAfter d h) c = addEventAfter sel t0 t1 t2 d h c"
| "chronos_exec sel this (t0, t1, t2) (EventsUpTo now) c = scheduleEventsUpTo sel this t1 t2 now c"
| "chronos_exec sel this t (HandlerCompleted i) c = onHandlerCompleted this i c"
| "chronos_exec sel this t (NodeRemove i) c = onNodeRemove this i c"

fun chronos_run ::
  "'h selector \<Rightarrow> node_id \<Rightarrow> (time \<times> time \<times> time) list \<Rightarrow> 'h ch_op list \<Rightarrow> 'h chronos \<Rightarrow>
     'h ch_effect list \<times> 'h chronos" where
  "chronos_run sel this (t # ts) (op # ops) c =
     (let (es, c) = chronos_exec sel this t op c; (es', c) = chronos_run sel this ts ops c in (es @ es', c))"
| "chronos_run sel this ts ops c = ([], c)"

section \<open>Replicas\<close>

text \<open>Everything but the timer.\<close>

definition ch_core :: "'h chronos \<Rightarrow> 'h chronos" where
  "ch_core c = c\<lparr>ch_timer := None\<rparr>"

lemma ch_core_eq:
  "ch_core c = ch_core d \<longleftrightarrow> ch_available c = ch_available d \<and> ch_events c = ch_events d \<and>
     ch_running c = ch_running d \<and> ch_awaiting c = ch_awaiting d \<and> ch_slots c = ch_slots d"
  by (cases c; cases d) (auto simp: ch_core_def)

lemma trigger_loop_node:
  "snd (trigger_loop this hs is running) = snd (trigger_loop that hs is running)"
proof (induction hs arbitrary: "is" running)
  case (Cons h hs)
  then show ?case by (cases "is") (simp_all add: executeHandler_def Let_def split_beta)
qed simp

lemma triggerAwaitings_node:
  assumes "ch_core c = ch_core d"
  shows "ch_core (snd (triggerAwaitings this c)) = ch_core (snd (triggerAwaitings that d))"
  using assms trigger_loop_node [of this "ch_awaiting d" "ch_slots d" "ch_running d" that]
  by (simp add: triggerAwaitings_def ch_core_eq split_beta)

lemma scheduleWait_core: "ch_core (snd (scheduleWait sel t1 t2 c)) = ch_core c"
  by (simp add: scheduleWait_def ch_core_def Let_def)

definition clockless :: "'h ch_op \<Rightarrow> bool" where
  "clockless op \<longleftrightarrow> (case op of AddAfter d h \<Rightarrow> False | _ \<Rightarrow> True)"

lemma chronos_exec_replicas:
  assumes "clockless op" "ch_core c = ch_core d"
  shows "ch_core (snd (chronos_exec sel this t op c)) = ch_core (snd (chronos_exec sel that u op d))"
proof -
  obtain t0 t1 t2 where t: "t = (t0, t1, t2)" by (rule prod_cases3)
  obtain u0 u1 u2 where u: "u = (u0, u1, u2)" by (rule prod_cases3)
  note tu = t u
  show ?thesis
  proof (cases op)
    case (AddEvent ts h)
    then show ?thesis using assms(2) by (simp add: tu addEvent_def scheduleWait_core) (simp add: ch_core_eq)
  next
    case (AddAfter d h)
    then show ?thesis using assms(1) by (simp add: clockless_def)
  next
    case (EventsUpTo now)
    have "ch_core (c\<lparr>ch_events := es, ch_awaiting := hs\<rparr>) = ch_core (d\<lparr>ch_events := es, ch_awaiting := hs\<rparr>)" for es hs
      using assms(2) by (simp add: ch_core_eq)
    from triggerAwaitings_node [OF this, of this _ _ that] EventsUpTo assms(2)
    show ?thesis by (simp add: tu scheduleEventsUpTo_def split_beta scheduleWait_core ch_core_eq)
  next
    case (HandlerCompleted i)
    then show ?thesis using assms(2)
      by (cases t; cases u) (simp add: onHandlerCompleted_def, intro triggerAwaitings_node, simp add: ch_core_eq)
  next
    case (NodeRemove i)
    have r: "ch_running c = ch_running d" using assms(2) by (simp add: ch_core_eq)
    show ?thesis
    proof (cases "map_of (ch_running d) i")
      case None
      with NodeRemove assms(2) r show ?thesis by (simp add: tu onNodeRemove_def Let_def ch_core_eq)
    next
      case (Some h)
      with NodeRemove assms(2) r show ?thesis
        by (simp add: tu onNodeRemove_def Let_def) (intro triggerAwaitings_node, simp add: ch_core_eq)
    qed
  qed
qed

text \<open>C37: Two nodes that execute the same operations agree on the whole state but the timer,
  whatever their clocks show, as long as no event is given by its distance from now.\<close>

theorem chronos_replicas_agree:
  assumes "list_all clockless ops" and "length ts = length ops" "length us = length ops"
    and "ch_core c = ch_core d"
  shows "ch_core (snd (chronos_run sel this ts ops c)) = ch_core (snd (chronos_run sel that us ops d))"
  using assms
proof (induction ops arbitrary: ts us c d)
  case (Cons op ops)
  obtain t ts' where t: "ts = t # ts'" using Cons.prems(2) by (cases ts) simp_all
  obtain u us' where u: "us = u # us'" using Cons.prems(3) by (cases us) simp_all
  have e: "ch_core (snd (chronos_exec sel this t op c)) = ch_core (snd (chronos_exec sel that u op d))"
    using Cons.prems by (intro chronos_exec_replicas) simp_all
  have "ch_core (snd (chronos_run sel this ts' ops (snd (chronos_exec sel this t op c)))) =
        ch_core (snd (chronos_run sel that us' ops (snd (chronos_exec sel that u op d))))"
    by (rule Cons.IH [OF _ _ _ e]) (use Cons.prems t u in simp_all)
  then show ?case by (simp add: t u split_beta)
qed simp

text \<open>The first of the least events.\<close>

fun first_least :: "'h event list \<Rightarrow> nat" where
  "first_least [] = 0"
| "first_least [e] = 0"
| "first_least (e # es) = (if ev_ts e \<le> ev_ts (es ! first_least es) then 0 else Suc (first_least es))"

lemma first_least_bound: "es \<noteq> [] \<Longrightarrow> first_least es < length es"
  by (induction es rule: first_least.induct) auto

lemma first_least_least:
  "e \<in> set es \<Longrightarrow> ev_ts (es ! first_least es) \<le> ev_ts e"
  by (induction es rule: first_least.induct) (auto intro: order_trans)

lemma first_least_selects: "selects_least first_least"
  by (simp add: selects_least_ts pq_top_def pq_index_def first_least_bound first_least_least)

lemma chronos_replicas_agree_witness:
  "ch_core (snd (chronos_run first_least 1 [(0, 0, 0), (0, 5, 5)] [AddEvent 3 ''h'', EventsUpTo 4]
       (chronos_new \<lparr>cfg_this = 1, cfg_nodes = []\<rparr>))) =
   ch_core (snd (chronos_run first_least 2 [(9, 9, 9), (9, 9, 9)] [AddEvent 3 ''h'', EventsUpTo 4]
       (chronos_new \<lparr>cfg_this = 2, cfg_nodes = []\<rparr>)))"
  by (rule chronos_replicas_agree) (simp_all add: clockless_def chronos_new_def cfg_ids_def ch_core_eq)

text \<open>Two nodes whose clocks differ by five nanoseconds when they execute the addition of an
  event in one second, and then the events up to a moment between.\<close>

definition two_slots :: "string chronos" where
  "two_slots = \<lparr>ch_available = [1, 2], ch_events = [], ch_running = [], ch_awaiting = [],
                ch_slots = [1, 2], ch_timer = None\<rparr>"

text \<open>An event given by its distance from now, as the program gives all of them, is added
  at different times on different nodes; an agreed moment between the two makes one node run
  the handler and take the slot, and the other not.\<close>

theorem chronos_clocks_diverge:
  "\<exists>ops. ch_core (snd (chronos_run first_least 1 [(0, 0, 0), (second, second, second)] ops two_slots)) \<noteq>
         ch_core (snd (chronos_run first_least 2 [(5, 5, 5), (second, second, second)] ops two_slots)) \<and>
         ops = [AddAfter second ''h'', EventsUpTo (second + 3)]"
proof -
  let ?ops = "[AddAfter second ''h'', EventsUpTo (second + 3)]"
  have "ch_running (snd (chronos_run first_least 1 [(0, 0, 0), (second, second, second)] ?ops two_slots)) = [(1, ''h'')]"
    "ch_running (snd (chronos_run first_least 2 [(5, 5, 5), (second, second, second)] ?ops two_slots)) = []"
    by code_simp+
  then show ?thesis by (simp add: ch_core_eq)
qed

section \<open>Every node has one job at most, and no handler is lost\<close>

text \<open>Every available node is free or runs one handler, and handlers wait only while no
  node is free.\<close>

definition slots_ok :: "node_id list \<Rightarrow> node_id list \<Rightarrow> (node_id \<times> 'h) list \<Rightarrow> bool" where
  "slots_ok av is running \<longleftrightarrow> distinct is \<and> distinct (map fst running) \<and>
     set is \<inter> fst ` set running = {} \<and> set is \<union> fst ` set running = set av"

definition chronos_inv :: "'h chronos \<Rightarrow> bool" where
  "chronos_inv c \<longleftrightarrow> distinct (ch_available c) \<and>
     slots_ok (ch_available c) (ch_slots c) (ch_running c) \<and>
     (ch_awaiting c = [] \<or> ch_slots c = [])"

text \<open>The handlers the object holds: to come, waiting, running.\<close>

definition ch_handlers :: "'h chronos \<Rightarrow> 'h multiset" where
  "ch_handlers c = mset (map ev_h (ch_events c)) + mset (ch_awaiting c) + mset (map snd (ch_running c))"

lemma executeHandler_running:
  "i \<notin> fst ` set running \<Longrightarrow> snd (executeHandler this h i running) = running @ [(i, h)]"
  by (simp add: executeHandler_def update_nonmem Let_def)

lemma trigger_loop_ok:
  assumes "slots_ok av is running" "trigger_loop this hs is running = (es, hs', is', running')"
  shows "slots_ok av is' running' \<and> (hs' = [] \<or> is' = []) \<and>
         mset hs' + mset (map snd running') = mset hs + mset (map snd running)"
  using assms
proof (induction hs arbitrary: "is" running es)
  case (Cons h hs)
  show ?case
  proof (cases "is")
    case Nil
    with Cons.prems show ?thesis by simp
  next
    case (Cons i js)
    with Cons.prems(1) have i: "i \<notin> fst ` set running" by (auto simp: slots_ok_def)
    have ok: "slots_ok av js (running @ [(i, h)])"
      using Cons.prems(1) Cons by (auto simp: slots_ok_def)
    obtain es' where "trigger_loop this hs js (running @ [(i, h)]) = (es', hs', is', running')"
      using Cons.prems(2) Cons executeHandler_running [OF i, of this h]
      by (cases "trigger_loop this hs js (running @ [(i, h)])") (simp add: split_beta)
    from Cons.IH [OF ok this] show ?thesis by simp
  qed
qed auto

lemma triggerAwaitings_ok:
  assumes "slots_ok (ch_available c) (ch_slots c) (ch_running c)" "distinct (ch_available c)"
  shows "chronos_inv (snd (triggerAwaitings this c))"
    and "ch_handlers (snd (triggerAwaitings this c)) = ch_handlers c"
    and "ch_available (snd (triggerAwaitings this c)) = ch_available c"
proof -
  obtain es hs "is" r where t: "trigger_loop this (ch_awaiting c) (ch_slots c) (ch_running c) = (es, hs, is, r)"
    by (rule prod_cases4)
  from trigger_loop_ok [OF assms(1) t] assms(2) t
  show "chronos_inv (snd (triggerAwaitings this c))"
    "ch_handlers (snd (triggerAwaitings this c)) = ch_handlers c"
    "ch_available (snd (triggerAwaitings this c)) = ch_available c"
    by (simp_all add: triggerAwaitings_def chronos_inv_def ch_handlers_def ac_simps)
qed

lemma scheduleWait_ok:
  "chronos_inv (snd (scheduleWait sel t1 t2 c)) = chronos_inv c"
  "ch_handlers (snd (scheduleWait sel t1 t2 c)) = ch_handlers c"
  by (simp_all add: scheduleWait_def chronos_inv_def ch_handlers_def Let_def)

lemma take_due_facts:
  assumes "take_due sel now es hs = (es', hs')"
  shows "\<exists>due. hs' = hs @ map ev_h due \<and> mset es = mset es' + mset due \<and>
           (\<forall>e \<in> set due. ev_ts e < now) \<and>
           (selects_least sel \<longrightarrow> sorted (map ev_ts due) \<and> (\<forall>e \<in> set es'. now \<le> ev_ts e))"
  using assms
proof (induction sel now es hs rule: take_due.induct)
  case (1 sel now es hs)
  let ?e = "pq_top sel es"
  show ?case
  proof (cases "es \<noteq> [] \<and> ev_ts ?e < now")
    case True
    then have "take_due sel now (pq_pop sel es) (hs @ [ev_h ?e]) = (es', hs')"
      using 1(2) by (subst (asm) take_due.simps) simp
    from 1(1) [OF True this] obtain due where d: "hs' = (hs @ [ev_h ?e]) @ map ev_h due"
      "mset (pq_pop sel es) = mset es' + mset due" "\<forall>e \<in> set due. ev_ts e < now"
      "selects_least sel \<longrightarrow> sorted (map ev_ts due) \<and> (\<forall>e \<in> set es'. now \<le> ev_ts e)" by blast
    have m: "mset es = mset es' + mset (?e # due)"
      using pq_pop_facts(4) [of es sel] True d(2) by simp
    from arg_cong [OF m, of set_mset] have "set due \<subseteq> set es" by auto
    then have least: "selects_least sel \<longrightarrow> (\<forall>e \<in> set due. ev_ts ?e \<le> ev_ts e)"
      using True by (auto simp: selects_least_ts)
    show ?thesis
      by (rule exI [of _ "?e # due"]) (use d m least True in auto)
  next
    case False
    then have "es' = es" "hs' = hs" using 1(2) by (subst (asm) take_due.simps, auto)+
    moreover have "now \<le> ev_ts e" if "selects_least sel" "e \<in> set es" for e
    proof -
      have "es \<noteq> []" using that(2) by auto
      then have "now \<le> ev_ts ?e" "ev_ts ?e \<le> ev_ts e"
        using False that unfolding selects_least_ts by simp_all
      then show ?thesis by simp
    qed
    ultimately show ?thesis by (intro exI [of _ "[]"]) auto
  qed
qed

lemma delete_running:
  assumes "distinct (map fst r)" "map_of r i = Some h"
  shows "add_mset h (mset (map snd (AList.delete i r))) = mset (map snd r)"
  using assms
proof (induction r)
  case (Cons p r)
  show ?case
  proof (cases "fst p = i")
    case True
    with Cons.prems have "i \<notin> fst ` set r" by auto
    then have "AList.delete i r = r" by (simp add: delete_id)
    with True Cons.prems show ?thesis by (cases p) simp
  next
    case False
    with Cons show ?thesis by (cases p) (simp add: add_mset_commute)
  qed
qed simp

lemma delete_fst: "fst ` set (AList.delete i r) = fst ` set r - {i}"
  using arg_cong [OF delete_keys [of i r], of set] by simp

lemma distinct_delete_fst: "distinct (map fst r) \<Longrightarrow> distinct (map fst (AList.delete i r))"
  by (simp add: delete_keys distinct_removeAll)

lemma delete_slots:
  assumes "slots_ok av is r" "i \<in> fst ` set r"
  shows "slots_ok av (is @ [i]) (AList.delete i r)"
proof -
  have "set (is @ [i]) \<union> (fst ` set r - {i}) = set is \<union> fst ` set r" using assms(2) by auto
  moreover have "i \<notin> set is" using assms by (auto simp: slots_ok_def)
  ultimately show ?thesis using assms(1)
    unfolding slots_ok_def delete_fst by (auto simp: distinct_delete_fst)
qed

lemma remove_slots:
  assumes "slots_ok av is r"
  shows "slots_ok (removeElement i av) (removeElement i is) (AList.delete i r)"
  using assms unfolding slots_ok_def delete_fst removeElement_def
  by (auto simp: distinct_delete_fst)

text \<open>An operation is orderly when a completion comes from a node that runs a handler.\<close>

definition orderly :: "'h ch_op \<Rightarrow> 'h chronos \<Rightarrow> bool" where
  "orderly op c \<longleftrightarrow> (case op of HandlerCompleted i \<Rightarrow> map_of (ch_running c) i \<noteq> None | _ \<Rightarrow> True)"

text \<open>What an operation adds to the handlers, and what it takes away.\<close>

fun ch_added :: "'h ch_op \<Rightarrow> 'h multiset" where
  "ch_added (AddEvent ts h) = {#h#}"
| "ch_added (AddAfter d h) = {#h#}"
| "ch_added op = {#}"

fun ch_completed :: "'h ch_op \<Rightarrow> 'h chronos \<Rightarrow> 'h multiset" where
  "ch_completed (HandlerCompleted i) c = (case map_of (ch_running c) i of Some h \<Rightarrow> {#h#} | None \<Rightarrow> {#})"
| "ch_completed op c = {#}"

lemma eventsUpTo_conserves:
  fixes c :: "'h chronos"
  assumes "chronos_inv c" "c' = snd (chronos_exec sel this t (EventsUpTo now) c)"
  shows "chronos_inv c' \<and> ch_handlers c' = ch_handlers c"
proof -
  obtain t0 t1 t2 where t: "t = (t0, t1, t2)" by (rule prod_cases3)
  obtain ev hs where td: "take_due sel now (ch_events c) (ch_awaiting c) = (ev, hs)" by (rule prod.exhaust)
  from take_due_facts [OF td] obtain due where
    due: "hs = ch_awaiting c @ map ev_h due" "mset (ch_events c) = mset ev + mset due" by blast
  from arg_cong [OF due(2), of "image_mset ev_h"]
  have m: "mset (map ev_h (ch_events c)) = mset (map ev_h ev) + mset (map ev_h due)" by simp
  let ?c = "c\<lparr>ch_events := ev, ch_awaiting := hs\<rparr>"
  have "ch_handlers ?c = ch_handlers c" unfolding ch_handlers_def using due(1) m by simp
  moreover have "slots_ok (ch_available ?c) (ch_slots ?c) (ch_running ?c)" "distinct (ch_available ?c)"
    using assms(1) by (simp_all add: chronos_inv_def)
  note triggerAwaitings_ok [OF this, of this]
  ultimately show ?thesis using td
    by (simp add: assms(2) t scheduleEventsUpTo_def split_beta scheduleWait_ok)
qed

lemma handlerCompleted_conserves:
  assumes "chronos_inv c" "map_of (ch_running c) i = Some h"
    and "c' = snd (chronos_exec sel this t (HandlerCompleted i) c)"
  shows "chronos_inv c' \<and> add_mset h (ch_handlers c') = ch_handlers c"
proof -
  have ok: "slots_ok (ch_available c) (ch_slots c) (ch_running c)" "distinct (ch_available c)"
    using assms(1) by (simp_all add: chronos_inv_def)
  let ?c = "c\<lparr>ch_running := AList.delete i (ch_running c), ch_slots := ch_slots c @ [i]\<rparr>"
  have "i \<in> fst ` set (ch_running c)" using map_of_SomeD [OF assms(2)] by (auto intro: rev_image_eqI)
  then have "slots_ok (ch_available ?c) (ch_slots ?c) (ch_running ?c)" "distinct (ch_available ?c)"
    using delete_slots [OF ok(1)] ok(2) by simp_all
  note triggerAwaitings_ok [OF this, of this]
  moreover have "add_mset h (ch_handlers ?c) = ch_handlers c"
    using delete_running [OF _ assms(2)] ok(1) by (simp add: ch_handlers_def slots_ok_def)
  ultimately show ?thesis by (cases t) (simp add: assms(3) onHandlerCompleted_def)
qed

lemma nodeRemove_conserves:
  assumes "chronos_inv c" "c' = snd (chronos_exec sel this t (NodeRemove i) c)"
  shows "chronos_inv c' \<and> ch_handlers c' = ch_handlers c"
proof -
  obtain t0 t1 t2 where t: "t = (t0, t1, t2)" by (rule prod_cases3)
  have ok: "slots_ok (ch_available c) (ch_slots c) (ch_running c)" "distinct (ch_available c)"
    using assms(1) by (simp_all add: chronos_inv_def)
  let ?b = "c\<lparr>ch_available := removeElement i (ch_available c), ch_slots := removeElement i (ch_slots c)\<rparr>"
  have da: "distinct (removeElement i (ch_available c))" using ok(2) by (simp add: removeElement_def)
  show ?thesis
  proof (cases "map_of (ch_running c) i")
    case None
    then have "i \<notin> fst ` set (ch_running c)" by (simp add: map_of_eq_None_iff)
    then have "AList.delete i (ch_running c) = ch_running c" by (simp add: delete_id)
    with remove_slots [OF ok(1), of i] None da assms(1) show ?thesis
      by (auto simp: assms(2) t onNodeRemove_def Let_def chronos_inv_def ch_handlers_def removeElement_def)
  next
    case (Some h)
    let ?c = "?b\<lparr>ch_awaiting := ch_awaiting c @ [h], ch_running := AList.delete i (ch_running c)\<rparr>"
    have "slots_ok (ch_available ?c) (ch_slots ?c) (ch_running ?c)" "distinct (ch_available ?c)"
      using remove_slots [OF ok(1), of i] da by simp_all
    note triggerAwaitings_ok [OF this, of this]
    moreover have "ch_handlers ?c = ch_handlers c"
      using delete_running [OF _ Some] ok(1) by (simp add: ch_handlers_def slots_ok_def)
    ultimately show ?thesis using Some by (simp add: assms(2) t onNodeRemove_def Let_def)
  qed
qed

lemma exec_conserves:
  assumes "chronos_inv c" "orderly op c"
  shows "chronos_inv (snd (chronos_exec sel this t op c)) \<and>
    ch_handlers (snd (chronos_exec sel this t op c)) + ch_completed op c = ch_handlers c + ch_added op"
proof -
  obtain t0 t1 t2 where t: "t = (t0, t1, t2)" by (rule prod_cases3)
  show ?thesis
  proof (cases op)
    case (AddEvent ts h)
    with assms(1) show ?thesis
      by (simp add: t addEvent_def scheduleWait_ok) (simp add: chronos_inv_def ch_handlers_def)
  next
    case (AddAfter d h)
    with assms(1) show ?thesis
      by (simp add: t addEventAfter_def addEvent_def scheduleWait_ok) (simp add: chronos_inv_def ch_handlers_def)
  next
    case (EventsUpTo now)
    with eventsUpTo_conserves [OF assms(1)] show ?thesis by simp
  next
    case (HandlerCompleted i)
    with assms(2) obtain h where h: "map_of (ch_running c) i = Some h" by (auto simp: orderly_def)
    with HandlerCompleted handlerCompleted_conserves [OF assms(1) h] show ?thesis by simp
  next
    case (NodeRemove i)
    with nodeRemove_conserves [OF assms(1)] show ?thesis by simp
  qed
qed

lemma scheduleWait_available: "ch_available (snd (scheduleWait sel t1 t2 c)) = ch_available c"
  by (simp add: scheduleWait_def Let_def)

lemma triggerAwaitings_available: "ch_available (snd (triggerAwaitings this c)) = ch_available c"
  by (simp add: triggerAwaitings_def split_beta)

lemma exec_available:
  "ch_available (snd (chronos_exec sel this t op c)) = [i \<leftarrow> ch_available c. op \<noteq> NodeRemove i]"
  by (cases t; cases op)
    (simp_all add: addEvent_def addEventAfter_def scheduleEventsUpTo_def onHandlerCompleted_def onNodeRemove_def
      scheduleWait_available triggerAwaitings_available removeElement_def Let_def split_beta
      eq_commute split: option.split)

text \<open>Along a run: every operation is orderly where it is executed, and the handlers completed.\<close>

fun orderly_run ::
  "'h selector \<Rightarrow> node_id \<Rightarrow> (time \<times> time \<times> time) list \<Rightarrow> 'h ch_op list \<Rightarrow> 'h chronos \<Rightarrow> bool" where
  "orderly_run sel this (t # ts) (op # ops) c \<longleftrightarrow>
     orderly op c \<and> orderly_run sel this ts ops (snd (chronos_exec sel this t op c))"
| "orderly_run sel this ts ops c \<longleftrightarrow> True"

fun run_completed ::
  "'h selector \<Rightarrow> node_id \<Rightarrow> (time \<times> time \<times> time) list \<Rightarrow> 'h ch_op list \<Rightarrow> 'h chronos \<Rightarrow> 'h multiset" where
  "run_completed sel this (t # ts) (op # ops) c =
     ch_completed op c + run_completed sel this ts ops (snd (chronos_exec sel this t op c))"
| "run_completed sel this ts ops c = {#}"

lemma run_conserves:
  assumes "chronos_inv c" "orderly_run sel this ts ops c" "length ts = length ops"
  shows "chronos_inv (snd (chronos_run sel this ts ops c)) \<and>
    ch_available (snd (chronos_run sel this ts ops c)) = [i \<leftarrow> ch_available c. NodeRemove i \<notin> set ops] \<and>
    ch_handlers (snd (chronos_run sel this ts ops c)) + run_completed sel this ts ops c =
      ch_handlers c + (\<Sum>op \<leftarrow> ops. ch_added op)"
  using assms
proof (induction ops arbitrary: ts c)
  case (Cons op ops)
  obtain t ts' where t: "ts = t # ts'" using Cons.prems(3) by (cases ts) simp_all
  let ?c = "snd (chronos_exec sel this t op c)"
  have o: "orderly op c" "orderly_run sel this ts' ops ?c" "length ts' = length ops"
    using Cons.prems(2,3) t by simp_all
  from exec_conserves [OF Cons.prems(1) o(1)]
  have e: "chronos_inv ?c" "ch_handlers ?c + ch_completed op c = ch_handlers c + ch_added op" by blast+
  note IH = Cons.IH [OF e(1) o(2,3)]
  have "snd (chronos_run sel this ts (op # ops) c) = snd (chronos_run sel this ts' ops ?c)"
    by (simp add: t split_beta)
  moreover have "[i \<leftarrow> ch_available ?c. NodeRemove i \<notin> set ops] = [i \<leftarrow> ch_available c. NodeRemove i \<notin> set (op # ops)]"
    by (simp add: exec_available) (metis (mono_tags, lifting))
  moreover have "ch_handlers (snd (chronos_run sel this ts' ops ?c)) + run_completed sel this ts (op # ops) c =
      (ch_handlers ?c + (\<Sum>op \<leftarrow> ops. ch_added op)) + ch_completed op c"
    using IH by (simp add: t ac_simps)
  moreover have "\<dots> = (ch_handlers ?c + ch_completed op c) + (\<Sum>op \<leftarrow> ops. ch_added op)" by (simp add: ac_simps)
  ultimately show ?case using IH e(2) by (simp add: ac_simps)
qed simp

lemma chronos_new_inv: "distinct (cfg_ids cfg) \<Longrightarrow> chronos_inv (chronos_new cfg)"
  by (simp add: chronos_inv_def slots_ok_def chronos_new_def)

text \<open>C36: No handler is lost or duplicated from the creation of the scheduler on, whatever the nodes
  agree to add, to complete and to remove, provided that every completion comes from a node that
  runs a handler at that point: the handlers the object holds and the handlers completed are
  together those added, as multisets, so that the removal of a node loses none; every node that was not removed
  is free or runs exactly one handler, and no handler waits while a node is free. The code does
  not enforce the condition (\<open>removed_node_gets_handler\<close>).\<close>

theorem chronos_jobs_conserved:
  fixes ops :: "'h ch_op list"
  assumes "distinct (cfg_ids cfg)" and "length ts = length ops"
    and "orderly_run sel this ts ops (chronos_new cfg)"
    and "c = snd (chronos_run sel this ts ops (chronos_new cfg))"
  shows "ch_handlers c + run_completed sel this ts ops (chronos_new cfg) = (\<Sum>op \<leftarrow> ops. ch_added op) \<and>
    ch_available c = [i \<leftarrow> cfg_ids cfg. NodeRemove i \<notin> set ops] \<and>
    slots_ok (ch_available c) (ch_slots c) (ch_running c) \<and> (ch_awaiting c = [] \<or> ch_slots c = [])"
proof -
  have "ch_handlers (chronos_new cfg :: 'h chronos) = {#}" "ch_available (chronos_new cfg :: 'h chronos) = cfg_ids cfg"
    by (simp_all add: ch_handlers_def chronos_new_def)
  with run_conserves [OF chronos_new_inv [OF assms(1)] assms(3,2)] show ?thesis
    unfolding assms(4) chronos_inv_def by (elim conjE, intro conjI) simp_all
qed

text \<open>Two events come due, the first node to run one is removed, the other completes its own and
  gets that of the first.\<close>

definition pair_of_nodes :: nodes_config where
  "pair_of_nodes = (let e = \<lparr>ep_port = 8801, ep_address = ''127.0.0.1'', ep_type = V4\<rparr>
     in \<lparr>cfg_this = 2, cfg_nodes = [(1, e), (2, e)]\<rparr>)"

lemma chronos_jobs_conserved_witness:
  "let ops = [AddEvent 0 ''a'', AddEvent 0 ''b'', EventsUpTo 1, NodeRemove 1, HandlerCompleted 2];
       c = snd (chronos_run first_least 2 (replicate 5 (0, 0, 0)) ops
         (chronos_new pair_of_nodes))
   in ch_available c = [2] \<and> ch_handlers c + {#''b''#} = {#''a''#} + {#''b''#}"
proof -
  let ?ops = "[AddEvent 0 ''a'', AddEvent 0 ''b'', EventsUpTo 1, NodeRemove 1, HandlerCompleted 2]"
  have "orderly_run first_least 2 (replicate 5 (0, 0, 0)) ?ops (chronos_new pair_of_nodes)" by code_simp
  moreover have "run_completed first_least 2 (replicate 5 (0, 0, 0)) ?ops (chronos_new pair_of_nodes) = {#''b''#}" by code_simp
  ultimately show ?thesis
    using chronos_jobs_conserved [of pair_of_nodes "replicate 5 (0, 0, 0)" ?ops first_least 2, OF _ _ _ refl]
    by (simp add: cfg_ids_def pair_of_nodes_def Let_def)
qed

text \<open>The events up to a moment are handed over exactly when their time is before it, in
  the order of their times, after those that already wait; the rest stay in the queue. The
  loop ends for every queue.\<close>

theorem due_in_time_order:
  assumes "selects_least sel"
  shows "\<exists>due rest hs. take_due sel now es ws = (rest, ws @ hs) \<and> hs = map ev_h due \<and>
           sorted (map ev_ts due) \<and> mset due = filter_mset (\<lambda>e. ev_ts e < now) (mset es) \<and>
           mset rest = filter_mset (\<lambda>e. \<not> ev_ts e < now) (mset es)"
proof -
  obtain rest hs' where td: "take_due sel now es ws = (rest, hs')" by (rule prod.exhaust)
  from take_due_facts [OF td] assms obtain due where
    due: "hs' = ws @ map ev_h due" "mset es = mset rest + mset due" "\<forall>e \<in> set due. ev_ts e < now"
      "sorted (map ev_ts due)" "\<forall>e \<in> set rest. now \<le> ev_ts e" by blast
  have none: "filter_mset (\<lambda>e. ev_ts e < now) (mset rest) = {#}" "filter_mset (\<lambda>e. \<not> ev_ts e < now) (mset due) = {#}"
    using due(3,5) by (auto simp: not_less)
  have all: "filter_mset (\<lambda>e. ev_ts e < now) (mset due) = mset due"
    "filter_mset (\<lambda>e. \<not> ev_ts e < now) (mset rest) = mset rest"
    using due(3,5) by (auto simp: filter_mset_eq_conv not_less)
  have "mset due = filter_mset (\<lambda>e. ev_ts e < now) (mset es)"
    "mset rest = filter_mset (\<lambda>e. \<not> ev_ts e < now) (mset es)"
    using none all by (simp_all only: due(2) filter_union_mset add_0_left add_0_right)
  with td due(1,4) show ?thesis by blast
qed

lemma due_in_time_order_witness:
  "\<exists>(due :: string event list) rest. take_due first_least 5 [\<lparr>ev_ts = 7, ev_h = ''c''\<rparr>, \<lparr>ev_ts = 4, ev_h = ''b''\<rparr>, \<lparr>ev_ts = 1, ev_h = ''a''\<rparr>] [''w''] =
      (rest, [''w'', ''a'', ''b'']) \<and> sorted (map ev_ts due) \<and> map ev_h due = [''a'', ''b'']"
proof -
  let ?es = "[\<lparr>ev_ts = 7, ev_h = ''c''\<rparr>, \<lparr>ev_ts = 4, ev_h = ''b''\<rparr>, \<lparr>ev_ts = 1, ev_h = ''a''\<rparr>]"
  obtain due :: "string event list" and rest hs where d: "take_due first_least 5 ?es [''w''] = (rest, [''w''] @ hs)" "hs = map ev_h due"
    "sorted (map ev_ts due)"
    using due_in_time_order [OF first_least_selects, of 5 ?es "[''w'']"] by (elim exE conjE)
  have "snd (take_due first_least 5 ?es [''w'']) = [''w'', ''a'', ''b'']" by code_simp
  with d(1) have "hs = [''a'', ''b'']" by simp
  with d show ?thesis by (intro exI [of _ due] exI [of _ rest]) simp
qed

text \<open>
  A completion that is agreed on after the removal of its node is not orderly: the node gets
  its slot back, and the next handler is given to a node that is not there.
\<close>

definition late_completion :: "string ch_op list" where
  "late_completion = [AddEvent 0 ''a'', EventsUpTo 1, NodeRemove 1, HandlerCompleted 1, AddEvent 1 ''b'', EventsUpTo 2]"

lemma removed_node_gets_handler:
  "let c = snd (chronos_run first_least 2 (replicate 6 (0, 0, 0)) late_completion two_slots)
   in ch_available c = [2] \<and> map_of (ch_running c) 1 = Some ''b''"
  by code_simp

text \<open>
  \<open>removeNodeComplete\<close> calls \<open>onNodeRemove\<close> from a journey that the agreed message started,
  not from the message itself, so that it may fall before or after another agreed operation.
  The two orders give different states.
\<close>

definition two_due :: "string chronos" where
  "two_due = two_slots\<lparr>ch_events := [\<lparr>ev_ts = 0, ev_h = ''a''\<rparr>, \<lparr>ev_ts = 0, ev_h = ''b''\<rparr>]\<rparr>"

lemma removal_order_matters:
  "ch_awaiting (snd (chronos_run first_least 2 [(0, 0, 0), (0, 0, 0)] [EventsUpTo 1, NodeRemove 1] two_due)) = [''a'']"
  "ch_awaiting (snd (chronos_run first_least 2 [(0, 0, 0), (0, 0, 0)] [NodeRemove 1, EventsUpTo 1] two_due)) = [''b'']"
  by code_simp+

end
