(* ===== verification/ChronosCluster.thy ===== *)
theory ChronosCluster
  imports Chronos Progress
begin

text \<open>
  The scheduler of \<open>examples/chronos.cpp\<close> on a cluster: every node runs the operations it has
  executed on its own copy, with its own clock. What the copies do together is one assignment of
  handlers to nodes, of which each node starts its share.
\<close>

section \<open>Which handlers an operation hands to which nodes\<close>

definition starts :: "'h ch_effect list \<Rightarrow> (node_id \<times> 'h) list" where
  "starts es = [(i, h). RunHere h i \<leftarrow> es]"

fun handed :: "'h selector \<Rightarrow> 'h ch_op \<Rightarrow> 'h chronos \<Rightarrow> (node_id \<times> 'h) list" where
  "handed sel (AddEvent ts h) c = []"
| "handed sel (AddAfter d h) c = []"
| "handed sel (EventsUpTo now) c = zip (ch_slots c) (snd (take_due sel now (ch_events c) (ch_awaiting c)))"
| "handed sel (HandlerCompleted i) c = zip (ch_slots c @ [i]) (ch_awaiting c)"
| "handed sel (NodeRemove i) c =
     (case map_of (ch_running c) i of
        None \<Rightarrow> []
      | Some h \<Rightarrow> zip (removeElement i (ch_slots c)) (ch_awaiting c @ [h]))"

text \<open>The object after operations, and all they handed out, on a clock that stands still.\<close>

definition ch_after :: "'h selector \<Rightarrow> 'h ch_op \<Rightarrow> 'h chronos \<Rightarrow> 'h chronos" where
  "ch_after sel op c = snd (chronos_exec sel 0 (0, 0, 0) op c)"

fun all_handed :: "'h selector \<Rightarrow> 'h ch_op list \<Rightarrow> 'h chronos \<Rightarrow> (node_id \<times> 'h) list" where
  "all_handed sel [] c = []"
| "all_handed sel (op # ops) c = handed sel op c @ all_handed sel ops (ch_after sel op c)"

text \<open>What a node hands out along its own run, on the readings of its own clock.\<close>

fun node_handed ::
  "'h selector \<Rightarrow> node_id \<Rightarrow> (time \<times> time \<times> time) list \<Rightarrow> 'h ch_op list \<Rightarrow> 'h chronos \<Rightarrow>
     (node_id \<times> 'h) list" where
  "node_handed sel this (t # ts) (op # ops) c =
     handed sel op c @ node_handed sel this ts ops (snd (chronos_exec sel this t op c))"
| "node_handed sel this ts ops c = []"

lemma all_handed_append:
  "all_handed sel (ops @ ops') c = all_handed sel ops c @ all_handed sel ops' (fold (ch_after sel) ops c)"
  by (induction ops arbitrary: c) simp_all

lemma starts_append [simp]: "starts (es @ fs) = starts es @ starts fs"
  by (simp add: starts_def)

lemma starts_wait [simp]: "starts (fst (scheduleWait sel t1 t2 c)) = []"
  by (simp add: scheduleWait_def scheduleEvents_def starts_def Let_def)

lemma starts_trigger:
  "starts (fst (triggerAwaitings this c)) = [p \<leftarrow> zip (ch_slots c) (ch_awaiting c). fst p = this]"
proof -
  have "starts (fst (trigger_loop this hs is r)) = [p \<leftarrow> zip is hs. fst p = this]" for hs "is" r
    by (induction this hs "is" r rule: trigger_loop.induct)
      (auto simp: starts_def executeHandler_def Let_def split_beta)
  then show ?thesis by (simp add: triggerAwaitings_def split_beta)
qed

lemma exec_starts:
  assumes "ch_core c = ch_core d"
  shows "starts (fst (chronos_exec sel this t op c)) = [p \<leftarrow> handed sel op d. fst p = this]"
proof -
  obtain t0 t1 t2 where t: "t = (t0, t1, t2)" by (rule prod_cases3)
  show ?thesis
    using assms
    by (cases op) (simp_all add: t addEvent_def addEventAfter_def scheduleEventsUpTo_def onHandlerCompleted_def
      onNodeRemove_def starts_trigger split_beta Let_def ch_core_eq starts_def [of "[]"] split: option.split)
qed

lemma run_starts_handed:
  assumes "length ts = length ops"
  shows "starts (fst (chronos_run sel this ts ops c)) = [p \<leftarrow> node_handed sel this ts ops c. fst p = this]"
  using assms
proof (induction ts ops arbitrary: c rule: list_induct2)
  case Nil
  then show ?case by (simp add: starts_def)
next
  case (Cons t ts op ops)
  then show ?case by (simp add: split_beta exec_starts [OF refl])
qed

lemma handed_core: "ch_core c = ch_core d \<Longrightarrow> handed sel op c = handed sel op d"
  by (cases op) (simp_all add: ch_core_eq split: option.split)

lemma run_core:
  assumes "list_all clockless ops" and "length ts = length ops" and "ch_core c = ch_core d"
  shows "node_handed sel this ts ops c = all_handed sel ops d"
    and "ch_core (snd (chronos_run sel this ts ops c)) = ch_core (fold (ch_after sel) ops d)"
proof -
  have "node_handed sel this ts ops c = all_handed sel ops d \<and>
      ch_core (snd (chronos_run sel this ts ops c)) = ch_core (fold (ch_after sel) ops d)"
    using assms
  proof (induction ops arbitrary: ts c d)
    case (Cons op ops)
    obtain t ts' where t: "ts = t # ts'" using Cons.prems(2) by (cases ts) simp_all
    have e: "ch_core (snd (chronos_exec sel this t op c)) = ch_core (ch_after sel op d)"
      using Cons.prems unfolding ch_after_def by (intro chronos_exec_replicas) simp_all
    from Cons.IH [OF _ _ e, of ts'] Cons.prems handed_core [OF Cons.prems(3), of sel op]
    show ?case by (simp add: t split_beta)
  qed simp
  then show "node_handed sel this ts ops c = all_handed sel ops d"
    and "ch_core (snd (chronos_run sel this ts ops c)) = ch_core (fold (ch_after sel) ops d)" by blast+
qed

section \<open>Handlers run where they were handed to\<close>

lemma set_alist_update: "set (AList.update k v al) \<subseteq> insert (k, v) (set al)"
  by (induction al) auto

lemma trigger_running:
  "set (ch_running (snd (triggerAwaitings this c))) \<subseteq>
     set (ch_running c) \<union> set (zip (ch_slots c) (ch_awaiting c))"
proof -
  have "set (snd (snd (snd (trigger_loop this hs is r)))) \<subseteq> set r \<union> set (zip is hs)" for "is" r hs
  proof (induction hs arbitrary: "is" r)
    case (Cons h hs)
    show ?case
    proof (cases "is")
      case (Cons i js)
      let ?r = "snd (executeHandler this h i r)"
      have "set ?r \<subseteq> insert (i, h) (set r)" by (simp add: executeHandler_def Let_def set_alist_update)
      with Cons.IH [of js ?r] show ?thesis by (auto simp: Cons split_beta Let_def)
    qed simp
  qed simp
  then show ?thesis by (simp add: triggerAwaitings_def split_beta)
qed

lemma trigger_slots: "set (ch_slots (snd (triggerAwaitings this c))) \<subseteq> set (ch_slots c)"
proof -
  have "set (fst (snd (snd (trigger_loop this hs is r)))) \<subseteq> set is" for "is" r hs
  proof (induction hs arbitrary: "is" r)
    case (Cons h hs)
    show ?case
    proof (cases "is")
      case (Cons i js)
      with Cons.IH [of js "snd (executeHandler this h i r)"] show ?thesis by (auto simp: split_beta Let_def)
    qed simp
  qed simp
  then show ?thesis by (simp add: triggerAwaitings_def split_beta)
qed

lemma wait_keeps [simp]:
  "ch_running (snd (scheduleWait sel t1 t2 c)) = ch_running c" "ch_slots (snd (scheduleWait sel t1 t2 c)) = ch_slots c"
  by (simp_all add: scheduleWait_def Let_def)

lemma set_delete: "set (AList.delete i al) \<subseteq> set al" by (auto simp: AList.delete_eq)

lemmas exec_defs = ch_after_def addEvent_def addEventAfter_def scheduleEventsUpTo_def onHandlerCompleted_def
  onNodeRemove_def split_beta Let_def

lemma after_running: "set (ch_running (ch_after sel op c)) \<subseteq> set (ch_running c) \<union> set (handed sel op c)"
proof (cases op)
  case (EventsUpTo now)
  let ?q = "take_due sel now (ch_events c) (ch_awaiting c)"
  show ?thesis using trigger_running [of 0 "c\<lparr>ch_events := fst ?q, ch_awaiting := snd ?q\<rparr>"]
    by (simp add: EventsUpTo exec_defs)
next
  case (HandlerCompleted i)
  show ?thesis
    using trigger_running [of 0 "c\<lparr>ch_running := AList.delete i (ch_running c), ch_slots := ch_slots c @ [i]\<rparr>"]
      set_delete [of i "ch_running c"]
    by (auto simp: HandlerCompleted exec_defs)
next
  case (NodeRemove i)
  let ?c = "c\<lparr>ch_available := removeElement i (ch_available c), ch_slots := removeElement i (ch_slots c)\<rparr>"
  show ?thesis
    using trigger_running [of 0 "?c\<lparr>ch_awaiting := ch_awaiting c @ [h], ch_running := AList.delete i (ch_running c)\<rparr>" for h]
      set_delete [of i "ch_running c"]
    by (auto simp: NodeRemove exec_defs split: option.split)
qed (simp_all add: exec_defs)

text \<open>The nodes of a set do the work when completions are reported for nodes of the set.\<close>

definition reports_in :: "node_id set \<Rightarrow> 'h ch_op \<Rightarrow> bool" where
  "reports_in M op \<longleftrightarrow> (case op of HandlerCompleted i \<Rightarrow> i \<in> M | _ \<Rightarrow> True)"

lemma after_slots:
  assumes "set (ch_slots c) \<subseteq> M" and "reports_in M op"
  shows "set (ch_slots (ch_after sel op c)) \<subseteq> M" and "fst ` set (handed sel op c) \<subseteq> M"
proof -
  have sub: "set (ch_slots (snd (triggerAwaitings this d))) \<subseteq> M" if "set (ch_slots d) \<subseteq> M" for this d
    using trigger_slots that by blast
  have "set (removeElement i (ch_slots c)) \<subseteq> M" for i using assms(1) by (auto simp: removeElement_def)
  with assms show "set (ch_slots (ch_after sel op c)) \<subseteq> M"
    by (cases op) (simp_all add: exec_defs sub reports_in_def split: option.split)
  show "fst ` set (handed sel op c) \<subseteq> M"
    using assms by (cases op) (auto simp: reports_in_def removeElement_def dest!: set_zip_leftD split: option.splits)
qed

lemma all_after:
  assumes "set (ch_slots c) \<subseteq> M" and "list_all (reports_in M) ops"
  shows "fst ` set (all_handed sel ops c) \<subseteq> M"
    and "set (ch_running (fold (ch_after sel) ops c)) \<subseteq> set (ch_running c) \<union> set (all_handed sel ops c)"
proof -
  have "fst ` set (all_handed sel ops c) \<subseteq> M \<and>
      set (ch_running (fold (ch_after sel) ops c)) \<subseteq> set (ch_running c) \<union> set (all_handed sel ops c)"
    using assms
  proof (induction ops arbitrary: c)
    case (Cons op ops)
    then have "reports_in M op" "list_all (reports_in M) ops" by simp_all
    with Cons.IH [of "ch_after sel op c"] after_slots [OF Cons.prems(1), of op sel] after_running [of sel op c]
    show ?case by (simp add: image_Un) blast
  qed simp
  then show "fst ` set (all_handed sel ops c) \<subseteq> M"
    and "set (ch_running (fold (ch_after sel) ops c)) \<subseteq> set (ch_running c) \<union> set (all_handed sel ops c)" by blast+
qed

section \<open>The cluster\<close>

text \<open>The scheduler of node \<open>n\<close> of a cluster, on the readings \<open>ts\<close> of its clock.\<close>

definition chronos_on ::
  "'h selector \<Rightarrow> members \<Rightarrow> 'h ch_op node \<Rightarrow> node_id \<Rightarrow> (time \<times> time \<times> time) list \<Rightarrow>
     'h ch_effect list \<times> 'h chronos" where
  "chronos_on sel mem nd n ts = chronos_run sel n ts (node_msgs nd) (chronos_new (node_cfg mem n))"

lemma node_msgs_applied:
  assumes "cluster_inv mem s" and "n \<in> member_ids mem" and "x \<in> set (node_msgs (nds s n))"
  shows "\<exists>k y. (k, y) \<in> applied s \<and> cm_msg y = x"
proof -
  from assms(3) obtain k C y where "(k, C) \<in> set (executed (nds s n))" "y \<in> set C" "x = cm_msg y"
    by (auto simp: node_msgs_def)
  moreover from this(1) obtain j where "j < length (executed (nds s n))" "executed (nds s n) ! j = (k, C)"
    by (auto simp: in_set_conv_nth)
  ultimately show ?thesis using executed_applied(2) [OF assms(1,2)] by fastforce
qed

definition handed_on ::
  "'h selector \<Rightarrow> members \<Rightarrow> 'h ch_op node \<Rightarrow> node_id \<Rightarrow> (time \<times> time \<times> time) list \<Rightarrow>
     (node_id \<times> 'h) list" where
  "handed_on sel mem nd n ts = node_handed sel n ts (node_msgs nd) (chronos_new (node_cfg mem n))"

text \<open>C15: The scheduler on a cluster, when the operations agreed on read no node's clock (an
  event is added with its time, not with its distance from now) and completions are reported for
  members only: whatever the network and the clocks of the nodes do, what the copy of one node
  has handed out, each handler with the node that is to run it, is a prefix of what the copy of
  a node that is further has; all of it goes to members; each node starts exactly what its own
  copy handed to it, in that order, so that a hand-out is started once, by the node it names;
  and a copy takes to be running only what was handed out.\<close>

theorem jobs_started_once:
  assumes "cluster_start mem s0" and "(cluster_step mem)\<^sup>*\<^sup>* s0 s"
    and "\<forall>(k, x) \<in> applied s. clockless (cm_msg x) \<and> reports_in (member_ids mem) (cm_msg x)"
    and "n \<in> member_ids mem" and "length ts = length (node_msgs (nds s n))"
    and "m \<in> member_ids mem" and "length us = length (node_msgs (nds s m))"
    and "length (executed (nds s n)) \<le> length (executed (nds s m))"
  shows "prefix (handed_on sel mem (nds s n) n ts) (handed_on sel mem (nds s m) m us) \<and>
    fst ` set (handed_on sel mem (nds s m) m us) \<subseteq> member_ids mem \<and>
    starts (fst (chronos_on sel mem (nds s n) n ts)) = [p \<leftarrow> handed_on sel mem (nds s n) n ts. fst p = n] \<and>
    starts (fst (chronos_on sel mem (nds s m) m us)) = [p \<leftarrow> handed_on sel mem (nds s m) m us. fst p = m] \<and>
    set (ch_running (snd (chronos_on sel mem (nds s n) n ts))) \<subseteq> set (handed_on sel mem (nds s n) n ts) \<and>
    set (ch_running (snd (chronos_on sel mem (nds s m) m us))) \<subseteq> set (handed_on sel mem (nds s m) m us)"
proof -
  let ?c = "chronos_new (node_cfg mem n) :: 'a chronos"
  note inv = cluster.inv_reachable [OF assms(1,2)]
  have "prefix (executed (nds s n)) (executed (nds s m))"
    using logs_prefix [OF inv assms(4,6)] assms(8) by (metis prefix_length_prefix prefix_order.order_refl)
  then obtain ops where ops: "node_msgs (nds s m) = node_msgs (nds s n) @ ops" using node_msgs_prefix by blast
  have "\<forall>x \<in> set (node_msgs (nds s i)). clockless x \<and> reports_in (member_ids mem) x" if "i \<in> member_ids mem" for i
    using node_msgs_applied [OF inv that] assms(3) by fastforce
  then have cl: "list_all clockless (node_msgs (nds s i))" "list_all (reports_in (member_ids mem)) (node_msgs (nds s i))"
    if "i \<in> member_ids mem" for i using that by (auto simp: list_all_iff)
  have new: "chronos_new (node_cfg mem i) = ?c" for i by (simp add: chronos_new_def node_cfg_def cfg_ids_def)
  have slots: "set (ch_slots ?c) \<subseteq> member_ids mem" "ch_running ?c = []"
    by (simp_all add: chronos_new_def node_cfg_def cfg_ids_def member_ids_def)
  note core = run_core [where sel = sel and c = ?c and d = ?c, OF cl(1) _ refl]
  note all = all_after [where sel = sel, OF slots(1) cl(2)]
  have m: "all_handed sel (node_msgs (nds s m)) ?c = all_handed sel (node_msgs (nds s n)) ?c @
      all_handed sel ops (fold (ch_after sel) (node_msgs (nds s n)) ?c)" by (simp add: ops all_handed_append)
  have pre: "prefix (handed_on sel mem (nds s n) n ts) (handed_on sel mem (nds s m) m us)"
    unfolding handed_on_def new [of m] core(1) [OF assms(4,5)] core(1) [OF assms(6,7)] m by simp
  note ss = run_starts_handed [OF assms(5), of sel n ?c] run_starts_handed [OF assms(7), of sel m ?c]
  note rr = all(2) [OF assms(4)] all(2) [OF assms(6)]
    core(2) [OF assms(4,5), of n, unfolded ch_core_eq] core(2) [OF assms(6,7), of m, unfolded ch_core_eq]
  show ?thesis
    using pre ss rr all(1) [OF assms(6)] slots(2)
    unfolding chronos_on_def handed_on_def new [of m] core(1) [OF assms(4,5)] core(1) [OF assms(6,7)]
    by auto
qed

text \<open>Two nodes: an event is added, and its time agreed on; the second node has not executed the
  second operation yet. The first node starts the handler.\<close>

definition two_jobs :: "string ch_op cluster" where
  "two_jobs = two_last (AddEvent 3 ''h'') (EventsUpTo 4)"

lemma two_last_behind:
  "executed (nds (two_last (x :: 'm :: equal) y) 2) = [(0, [first_carry x])]"
  by code_simp

lemma two_jobs_msgs:
  "node_msgs (nds two_jobs 1) = [AddEvent 3 ''h'', EventsUpTo 4]" "node_msgs (nds two_jobs 2) = [AddEvent 3 ''h'']"
  "length (executed (nds two_jobs 2)) \<le> length (executed (nds two_jobs 1))"
  by (simp_all add: two_jobs_def node_msgs_def two_last_executed two_last_behind first_carry_def later_carry_def)

lemma two_new: "chronos_new (node_cfg two_nodes n) = two_slots"
  by (simp add: chronos_new_def node_cfg_def cfg_ids_def two_nodes_def two_slots_def)

lemma two_jobs_runs:
  "fst (chronos_run first_least 1 [(0, 0, 0), (0, 5, 5)] [AddEvent 3 ''h'', EventsUpTo 4] two_slots) = [RunHere ''h'' 1]"
  "fst (chronos_run first_least 2 [(9, 9, 9)] [AddEvent 3 ''h''] two_slots) = []"
  by code_simp+

lemma jobs_started_once_witness:
  "prefix (handed_on first_least two_nodes (nds two_jobs 2) 2 [(9, 9, 9)])
     (handed_on first_least two_nodes (nds two_jobs 1) 1 [(0, 0, 0), (0, 5, 5)]) \<and>
   [(1, ''h'')] = [p \<leftarrow> handed_on first_least two_nodes (nds two_jobs 1) 1 [(0, 0, 0), (0, 5, 5)]. fst p = 1] \<and>
   [] = [p \<leftarrow> handed_on first_least two_nodes (nds two_jobs 2) 2 [(9, 9, 9)]. fst p = 2]"
proof -
  have app: "applied two_jobs = {(0, first_carry (AddEvent 3 ''h'')), (1, later_carry (EventsUpTo 4))}"
    by (simp add: two_jobs_def two_last_def two_later_def two_done_def two_decided_def Let_def insert_commute)
  have ok: "\<forall>(k, x) \<in> applied two_jobs. clockless (cm_msg x) \<and> reports_in (member_ids two_nodes) (cm_msg x)"
    by (simp add: app first_carry_def later_carry_def clockless_def reports_in_def)
  have run: "(cluster_step two_nodes)\<^sup>*\<^sup>* two_start two_jobs"
    unfolding two_jobs_def by (rule rtranclp_trans [OF two_done_run two_last_run])
  let ?one = "chronos_on first_least two_nodes (nds two_jobs 1) 1 [(0, 0, 0), (0, 5, 5)]"
  let ?two = "chronos_on first_least two_nodes (nds two_jobs 2) 2 [(9, 9, 9)]"
  have st: "starts (fst ?one) = [(1, ''h'')]" "starts (fst ?two) = []"
    unfolding chronos_on_def two_jobs_msgs(1,2) two_new two_jobs_runs by (simp_all add: starts_def)
  have mem: "2 \<in> member_ids two_nodes" "1 \<in> member_ids two_nodes"
    and len: "length [(9, 9, 9) :: time \<times> time \<times> time] = length (node_msgs (nds two_jobs 2))"
      "length [(0, 0, 0), (0, 5, 5) :: time \<times> time \<times> time] = length (node_msgs (nds two_jobs 1))"
    by (simp_all add: two_members two_jobs_msgs(1,2))
  from jobs_started_once [OF two_start run ok mem(1) len(1) mem(2) len(2) two_jobs_msgs(3), of first_least]
  show ?thesis unfolding st by blast
qed

end
