(* ===== verification/ChronosExamples.thy ===== *)
theory ChronosExamples
  imports ChronosCluster
begin

text \<open>
  The example programs at the end of \<open>examples/chronos.cpp\<close>. What a journey or a handler does is a
  list of acts: lines it logs, times it sleeps, handlers it adds to the scheduler. They run on
  the model of the scheduler, one copy of the object for all nodes: the program on one node, or on
  nodes whose copies agree. Times are in nanoseconds, as \<open>steady_clock\<close> counts.
\<close>

section \<open>What the handlers do\<close>

datatype act = LogLine string | LogEvent int | Sleepa nat | AddJob time job
  and job = Job (job_acts: "act list")

abbreviation seconds :: "int \<Rightarrow> time" where
  "seconds n \<equiv> n * 10 ^ 9"

definition addActionAfterInterval :: "string \<Rightarrow> time \<Rightarrow> act list \<Rightarrow> act" where
  "addActionAfterInterval event diff h =
     AddJob diff (Job ([LogLine (''EVENT '' @ event)] @ h @ [LogLine (''EVENT '' @ event @ '' completed'')]))"

definition addSleepAndAction :: "string \<Rightarrow> act list \<Rightarrow> act" where
  "addSleepAndAction event h =
     AddJob (seconds 1) (Job ([LogLine (''EVENT '' @ event), Sleepa 1000] @ h @
       [LogLine (''EVENT '' @ event @ '' completed'')]))"

definition example1 :: "act list" where
  "example1 =
     [addSleepAndAction ''1''
        [addSleepAndAction ''2'' [LogLine ''HELLO''],
         addSleepAndAction ''3'' [LogLine ''WORLD''],
         LogLine ''HELLO WORLD scheduled'']]"

definition example2 :: "act list" where
  "example2 =
     [addActionAfterInterval ''3'' (seconds 3) [],
      addActionAfterInterval ''1'' (seconds 1) [],
      addActionAfterInterval ''2'' (seconds 2) []]"

definition c_concurrent :: int where "c_concurrent = 3"
definition c_amount :: int where "c_amount = 50"

function scheduleAction :: "int \<Rightarrow> act list" where
  "scheduleAction i =
     (if i < 0 then []
      else [addActionAfterInterval [] (seconds 3) ([LogEvent i, Sleepa 1000] @ scheduleAction (i - c_concurrent))])"
  by pat_completeness auto
termination
  by (relation "measure (\<lambda>i. nat (i + 1))") (simp_all add: c_concurrent_def)

declare scheduleAction.simps [simp del]

text \<open>The journeys that \<open>example3\<close> starts.\<close>

definition example3 :: "act list list" where
  "example3 = map (\<lambda>i. scheduleAction (c_amount - int i)) [0..<nat c_concurrent]"

section \<open>Running them\<close>

text \<open>
  A journey on a node with the acts it has left; the journey of a handler reports its
  completion at its end, as \<open>executeHandler\<close> has it.
\<close>

record thread =
  th_node :: node_id
  th_acts :: "act list"
  th_handler :: bool

record jobs =
  jb_obj :: "job chronos"
  jb_threads :: "thread list"
  jb_log :: "act list"

definition jobs_new :: "nodes_config \<Rightarrow> act list list \<Rightarrow> jobs" where
  "jobs_new cfg ass = \<lparr>jb_obj = chronos_new cfg,
     jb_threads = map (\<lambda>as. \<lparr>th_node = thisNode cfg, th_acts = as, th_handler = False\<rparr>) ass, jb_log = []\<rparr>"

text \<open>An agreed operation is executed, with the clock at \<open>t\<close>, and every handler it hands out is started.\<close>

definition jobs_agreed :: "job selector \<Rightarrow> time \<times> time \<times> time \<Rightarrow> job ch_op \<Rightarrow> jobs \<Rightarrow> jobs" where
  "jobs_agreed sel t op s = s\<lparr>jb_obj := snd (chronos_exec sel 0 t op (jb_obj s)),
     jb_threads := jb_threads s @
       map (\<lambda>(i, h). \<lparr>th_node = i, th_acts = job_acts h, th_handler = True\<rparr>) (handed sel op (jb_obj s))\<rparr>"

definition drop_thread :: "nat \<Rightarrow> jobs \<Rightarrow> jobs" where
  "drop_thread k s = s\<lparr>jb_threads := take k (jb_threads s) @ drop (Suc k) (jb_threads s)\<rparr>"

definition set_acts :: "nat \<Rightarrow> act list \<Rightarrow> jobs \<Rightarrow> jobs" where
  "set_acts k as s = s\<lparr>jb_threads := (jb_threads s)[k := (jb_threads s ! k)\<lparr>th_acts := as\<rparr>]\<rparr>"

text \<open>What happens next: journey \<open>k\<close> goes on, or the events up to a moment are agreed on.\<close>

datatype happening = GoOn nat "time \<times> time \<times> time" | UpTo time "time \<times> time \<times> time"

fun jobs_do :: "job selector \<Rightarrow> happening \<Rightarrow> jobs \<Rightarrow> jobs" where
  "jobs_do sel (GoOn k t) s =
     (if k < length (jb_threads s)
      then case th_acts (jb_threads s ! k) of
          [] \<Rightarrow> (if th_handler (jb_threads s ! k)
                 then jobs_agreed sel t (HandlerCompleted (th_node (jb_threads s ! k))) (drop_thread k s)
                 else drop_thread k s)
        | AddJob d j # as \<Rightarrow> jobs_agreed sel t (AddAfter d j) (set_acts k as s)
        | Sleepa ms # as \<Rightarrow> set_acts k as s
        | line # as \<Rightarrow> set_acts k as s\<lparr>jb_log := jb_log s @ [line]\<rparr>
      else s)"
| "jobs_do sel (UpTo now t) s = jobs_agreed sel t (EventsUpTo now) s"

definition jobs_run :: "job selector \<Rightarrow> happening list \<Rightarrow> jobs \<Rightarrow> jobs" where
  "jobs_run sel hs s = fold (jobs_do sel) hs s"

definition one_cfg :: nodes_config where
  "one_cfg = \<lparr>cfg_this = 1, cfg_nodes = [(1, \<lparr>ep_port = 8801, ep_address = ''127.0.0.1'', ep_type = V4\<rparr>)]\<rparr>"

abbreviation go0 :: happening where "go0 \<equiv> GoOn 0 (0, 0, 0)"

text \<open>\<open>example1\<close> and \<open>example2\<close> on one node whose clock stands still until all is due.\<close>

lemma example1_lines:
  "jb_log (jobs_run first_least
     (replicate 2 go0 @ [UpTo (seconds 2) (0, 0, 0)] @ replicate 7 go0 @ [UpTo (seconds 2) (0, 0, 0)] @ replicate 10 go0)
     (jobs_new one_cfg [example1])) =
   map LogLine [''EVENT 1'', ''HELLO WORLD scheduled'', ''EVENT 1 completed'',
      ''EVENT 2'', ''HELLO'', ''EVENT 2 completed'', ''EVENT 3'', ''WORLD'', ''EVENT 3 completed'']"
  by code_simp

lemma example2_in_time_order:
  "jb_log (jobs_run first_least (replicate 4 go0 @ [UpTo (seconds 4) (0, 0, 0)] @ replicate 9 go0)
     (jobs_new one_cfg [example2])) =
   map LogLine [''EVENT 1'', ''EVENT 1 completed'', ''EVENT 2'', ''EVENT 2 completed'', ''EVENT 3'', ''EVENT 3 completed'']"
  by code_simp

section \<open>The events of \<open>example3\<close>\<close>

text \<open>The events that acts are going to log, by themselves or through the handlers they add.\<close>

fun events_of :: "act list \<Rightarrow> int list" where
  "events_of [] = []"
| "events_of (LogEvent e # as) = e # events_of as"
| "events_of (AddJob d (Job bs) # as) = events_of bs @ events_of as"
| "events_of (LogLine l # as) = events_of as"
| "events_of (Sleepa ms # as) = events_of as"

abbreviation job_events :: "job \<Rightarrow> int list" where
  "job_events j \<equiv> events_of (job_acts j)"

text \<open>Nothing is left to log for a journey that has added a handler that is to log.\<close>

fun linear :: "act list \<Rightarrow> bool" where
  "linear [] \<longleftrightarrow> True"
| "linear (AddJob d (Job bs) # as) \<longleftrightarrow> linear bs \<and> linear as \<and> events_of as = []"
| "linear (a # as) \<longleftrightarrow> linear as"

lemma events_of_append [simp]: "events_of (as @ bs) = events_of as @ events_of bs"
  by (induction as rule: events_of.induct) simp_all

lemma linear_append: "linear as \<Longrightarrow> linear bs \<Longrightarrow> events_of bs = [] \<Longrightarrow> linear (as @ bs)"
  by (induction as rule: linear.induct) simp_all

function chain :: "int \<Rightarrow> int list" where
  "chain i = (if i < 0 then [] else i # chain (i - c_concurrent))"
  by pat_completeness auto
termination
  by (relation "measure (\<lambda>i. nat (i + 1))") (simp_all add: c_concurrent_def)

declare chain.simps [simp del]

lemma scheduleAction_events: "events_of (scheduleAction i) = chain i \<and> linear (scheduleAction i)"
proof (induction i rule: scheduleAction.induct)
  case (1 i)
  then show ?case
    by (subst (1 2) scheduleAction.simps, subst chain.simps)
      (auto simp: addActionAfterInterval_def intro: linear_append)
qed

lemma chain_descends:
  "sorted_wrt (>) (chain i) \<and> set (chain i) = {e. 0 \<le> e \<and> e \<le> i \<and> (i - e) mod c_concurrent = 0}"
proof (induction i rule: chain.induct)
  case (1 i)
  show ?case
  proof (cases "i < 0")
    case True
    then show ?thesis by (simp add: chain.simps)
  next
    case False
    have m: "(i - c_concurrent - e) mod c_concurrent = (i - e) mod c_concurrent" for e
      by (simp add: c_concurrent_def) presburger
    have "{e. 0 \<le> e \<and> e \<le> i \<and> (i - e) mod c_concurrent = 0} =
        insert i {e. 0 \<le> e \<and> e \<le> i - c_concurrent \<and> (i - e) mod c_concurrent = 0}"
      using False by (auto simp: c_concurrent_def; presburger)
    with 1 [OF False] False m show ?thesis
      by (simp add: chain.simps [of i]) (auto simp: c_concurrent_def)
  qed
qed

section \<open>Handlers from the scheduler to the journeys\<close>

text \<open>The handlers of an object that were not handed out, and those that are on their way anywhere.\<close>

definition in_store :: "'h chronos \<Rightarrow> 'h multiset" where
  "in_store c = mset (map ev_h (ch_events c)) + mset (ch_awaiting c)"

lemma trigger_store:
  "in_store (snd (triggerAwaitings this c)) + mset (map snd (zip (ch_slots c) (ch_awaiting c))) = in_store c"
proof -
  have "mset (fst (snd (trigger_loop this hs is r))) + mset (map snd (zip is hs)) = mset hs" for hs "is" r
  proof (induction hs arbitrary: "is" r)
    case (Cons h hs)
    then show ?case by (cases "is") (simp_all add: split_beta Let_def)
  qed simp
  then show ?thesis by (simp add: triggerAwaitings_def in_store_def split_beta ac_simps)
qed

lemma wait_store [simp]: "in_store (snd (scheduleWait sel t1 t2 c)) = in_store c"
  by (simp add: scheduleWait_def in_store_def Let_def)

lemma handed_store:
  assumes "\<forall>i. op \<noteq> NodeRemove i"
  shows "in_store (snd (chronos_exec sel this t op c)) + mset (map snd (handed sel op c)) = in_store c + ch_added op"
proof -
  obtain t0 t1 t2 where t: "t = (t0, t1, t2)" by (rule prod_cases3)
  show ?thesis
  proof (cases op)
    case (EventsUpTo now)
    obtain es hs where td: "take_due sel now (ch_events c) (ch_awaiting c) = (es, hs)" by (rule prod.exhaust)
    from take_due_facts [OF this] obtain due where "hs = ch_awaiting c @ map ev_h due"
      "mset (ch_events c) = mset es + mset due" by blast
    then have "in_store (c\<lparr>ch_events := es, ch_awaiting := hs\<rparr>) = in_store c" by (simp add: in_store_def)
    with trigger_store [of this "c\<lparr>ch_events := es, ch_awaiting := hs\<rparr>"] show ?thesis
      by (simp add: EventsUpTo t td scheduleEventsUpTo_def split_beta)
  next
    case (HandlerCompleted i)
    have "in_store (c\<lparr>ch_running := r, ch_slots := is\<rparr>) = in_store c" for r "is" by (simp add: in_store_def)
    with trigger_store [of this "c\<lparr>ch_running := AList.delete i (ch_running c), ch_slots := ch_slots c @ [i]\<rparr>"]
    show ?thesis by (simp add: HandlerCompleted t onHandlerCompleted_def)
  qed (use assms in \<open>simp_all add: t addEvent_def addEventAfter_def, simp_all add: in_store_def\<close>)
qed

definition outstanding :: "jobs \<Rightarrow> int list multiset" where
  "outstanding s = filter_mset (\<lambda>L. L \<noteq> [])
     (image_mset job_events (in_store (jb_obj s)) + mset (map (events_of \<circ> th_acts) (jb_threads s)))"

definition all_linear :: "jobs \<Rightarrow> bool" where
  "all_linear s \<longleftrightarrow> (\<forall>j \<in># in_store (jb_obj s). linear (job_acts j)) \<and>
     (\<forall>th \<in> set (jb_threads s). linear (th_acts th))"

lemma agreed_outstanding:
  assumes "\<forall>i. op \<noteq> NodeRemove i"
  shows "outstanding (jobs_agreed sel t op s) = outstanding s + filter_mset (\<lambda>L. L \<noteq> []) (image_mset job_events (ch_added op))"
    and "all_linear s \<Longrightarrow> \<forall>j \<in># ch_added op. linear (job_acts j) \<Longrightarrow> all_linear (jobs_agreed sel t op s)"
    and "jb_log (jobs_agreed sel t op s) = jb_log s"
proof -
  let ?h = "handed sel op (jb_obj s)" and ?c = "snd (chronos_exec sel 0 t op (jb_obj s))"
  note st = handed_store [OF assms, of sel 0 t "jb_obj s"]
  have "image_mset job_events (in_store ?c) + mset (map (job_events \<circ> snd) ?h) =
      image_mset job_events (in_store (jb_obj s)) + image_mset job_events (ch_added op)"
    using arg_cong [OF st, of "image_mset job_events"] by (simp add: multiset.map_comp)
  then have "image_mset job_events (in_store ?c) + (mset (map (events_of \<circ> th_acts) (jb_threads s)) + mset (map (job_events \<circ> snd) ?h)) =
      image_mset job_events (in_store (jb_obj s)) + mset (map (events_of \<circ> th_acts) (jb_threads s)) + image_mset job_events (ch_added op)"
    by (simp only: ac_simps)
  from arg_cong [OF this, of "filter_mset (\<lambda>L. L \<noteq> [])"]
  show "outstanding (jobs_agreed sel t op s) = outstanding s + filter_mset (\<lambda>L. L \<noteq> []) (image_mset job_events (ch_added op))"
    by (simp add: outstanding_def jobs_agreed_def comp_def split_beta)
  have sub: "j \<in># in_store (jb_obj s) + ch_added op" if "j \<in># in_store ?c \<or> j \<in> snd ` set ?h" for j
    unfolding st [symmetric] using that by auto
  show "all_linear (jobs_agreed sel t op s)" if "all_linear s" "\<forall>j \<in># ch_added op. linear (job_acts j)"
    using that sub unfolding all_linear_def jobs_agreed_def by fastforce
qed (simp add: jobs_agreed_def)

lemma split_threads:
  assumes "k < length xs"
  shows "mset (map f xs) = add_mset (f (xs ! k)) (mset (map f (take k xs @ drop (Suc k) xs)))"
    and "mset (map f (xs[k := x])) = add_mset (f x) (mset (map f (take k xs @ drop (Suc k) xs)))"
    and "set (xs[k := x]) = insert x (set (take k xs @ drop (Suc k) xs))"
    and "set xs = insert (xs ! k) (set (take k xs @ drop (Suc k) xs))"
proof -
  have "xs = take k xs @ xs ! k # drop (Suc k) xs" using assms by (simp add: id_take_nth_drop)
  then obtain ys x' zs where xs: "xs = ys @ x' # zs" "ys = take k xs" "x' = xs ! k" "zs = drop (Suc k) xs" by blast
  from assms have k: "length ys = k" using xs(2) by simp
  show "mset (map f xs) = add_mset (f (xs ! k)) (mset (map f (take k xs @ drop (Suc k) xs)))"
    "set xs = insert (xs ! k) (set (take k xs @ drop (Suc k) xs))"
    unfolding xs(2-4) [symmetric] by (subst xs(1), simp)+
  show "mset (map f (xs[k := x])) = add_mset (f x) (mset (map f (take k xs @ drop (Suc k) xs)))"
    "set (xs[k := x]) = insert x (set (take k xs @ drop (Suc k) xs))"
    using assms by (simp_all add: upd_conv_take_nth_drop)
qed

abbreviation unless_nil :: "int list \<Rightarrow> int list multiset" where
  "unless_nil L \<equiv> filter_mset (\<lambda>L. L \<noteq> []) {#L#}"

lemma outstanding_of:
  assumes "k < length (jb_threads s)"
  shows "outstanding s = unless_nil (events_of (th_acts (jb_threads s ! k))) + outstanding (drop_thread k s)"
    and "outstanding (set_acts k as s) = unless_nil (events_of as) + outstanding (drop_thread k s)"
    and "all_linear s \<longleftrightarrow> linear (th_acts (jb_threads s ! k)) \<and> all_linear (drop_thread k s)"
    and "all_linear (set_acts k as s) \<longleftrightarrow> linear as \<and> all_linear (drop_thread k s)"
proof -
  note sp = split_threads [OF assms]
  show "outstanding s = unless_nil (events_of (th_acts (jb_threads s ! k))) + outstanding (drop_thread k s)"
    unfolding outstanding_def drop_thread_def sp(1) by simp
  show "outstanding (set_acts k as s) = unless_nil (events_of as) + outstanding (drop_thread k s)"
    unfolding outstanding_def drop_thread_def set_acts_def by (simp add: sp(2) del: mset_map)
  show "all_linear s \<longleftrightarrow> linear (th_acts (jb_threads s ! k)) \<and> all_linear (drop_thread k s)"
    unfolding all_linear_def drop_thread_def sp(4) by auto
  show "all_linear (set_acts k as s) \<longleftrightarrow> linear as \<and> all_linear (drop_thread k s)"
    unfolding all_linear_def drop_thread_def set_acts_def by (auto simp: sp(3))
qed

text \<open>What was logged of the events, of all and of one chain.\<close>

definition logged :: "jobs \<Rightarrow> int list" where
  "logged s = [e. LogEvent e \<leftarrow> jb_log s]"

definition of_chain :: "int \<Rightarrow> int list \<Rightarrow> int list" where
  "of_chain i es = [e \<leftarrow> es. (i - e) mod c_concurrent = 0]"

text \<open>What happens to the outstanding events: nothing, or the first of a journey's is logged.\<close>

lemma jobs_do_outstanding:
  assumes "all_linear s"
  shows "all_linear (jobs_do sel h s) \<and>
    (outstanding (jobs_do sel h s) = outstanding s \<and> logged (jobs_do sel h s) = logged s \<or>
     (\<exists>e L R. outstanding s = add_mset (e # L) R \<and> outstanding (jobs_do sel h s) = unless_nil L + R \<and>
        logged (jobs_do sel h s) = logged s @ [e]))"
proof (cases h)
  case (UpTo now t)
  then show ?thesis
    using agreed_outstanding [where op = "EventsUpTo now :: job ch_op" and sel = sel and t = t and s = s] assms by (simp add: logged_def)
next
  case (GoOn k t)
  show ?thesis
  proof (cases "k < length (jb_threads s)")
    case True
    note o = outstanding_of [OF True]
    have same: "logged (set_acts k as s) = logged s" "logged (drop_thread k s) = logged s" for as
      by (simp_all add: logged_def set_acts_def drop_thread_def)
    have new: "logged (jobs_agreed sel t op s') = logged s'" for op s'
      by (simp add: logged_def jobs_agreed_def)
    show ?thesis
    proof (cases "th_acts (jb_threads s ! k)")
      case Nil
      then show ?thesis
        using True GoOn o(1,3) assms same(2)
          agreed_outstanding [where op = "HandlerCompleted (th_node (jb_threads s ! k)) :: job ch_op" and sel = sel and t = t and s = "drop_thread k s"]
        by (simp add: new)
    next
      case (Cons a as)
      have l: "linear (a # as)" "all_linear (drop_thread k s)" using o(3) Cons assms by simp_all
      show ?thesis
      proof (cases a)
        case (AddJob d j)
        obtain bs where j: "j = Job bs" by (cases j)
        from l(1) have nil: "events_of as = []" "linear bs" "linear as" by (simp_all add: AddJob j)
        then show ?thesis
          using True GoOn Cons o l(2) assms same(1)
            agreed_outstanding [where op = "AddAfter d j :: job ch_op" and sel = sel and t = t and s = "set_acts k as s"]
          by (simp add: AddJob new j)
      next
        case (LogEvent e)
        have "logged (set_acts k as s\<lparr>jb_log := jb_log s @ [LogEvent e]\<rparr>) = logged s @ [e]"
          "outstanding (set_acts k as s\<lparr>jb_log := jb_log s @ [LogEvent e]\<rparr>) = outstanding (set_acts k as s)"
          "all_linear (set_acts k as s\<lparr>jb_log := jb_log s @ [LogEvent e]\<rparr>) = all_linear (set_acts k as s)"
          by (simp_all add: logged_def outstanding_def all_linear_def set_acts_def)
        then show ?thesis
          using True GoOn Cons o(1,2,4) l by (auto simp: LogEvent)
      next
        case (LogLine x)
        have "logged (set_acts k as s\<lparr>jb_log := jb_log s @ [LogLine x]\<rparr>) = logged s"
          "outstanding (set_acts k as s\<lparr>jb_log := jb_log s @ [LogLine x]\<rparr>) = outstanding (set_acts k as s)"
          "all_linear (set_acts k as s\<lparr>jb_log := jb_log s @ [LogLine x]\<rparr>) = all_linear (set_acts k as s)"
          by (simp_all add: logged_def outstanding_def all_linear_def set_acts_def)
        then show ?thesis
          using True GoOn Cons o(1,2,4) l by (auto simp: LogLine)
      next
        case (Sleepa ms)
        then show ?thesis
          using True GoOn Cons o(1,2,4) l same(1) by simp
      qed
    qed
  next
    case False
    with GoOn assms show ?thesis by simp
  qed
qed

section \<open>Every event once, in the order of its chain\<close>

definition left_ok :: "jobs \<Rightarrow> (int \<Rightarrow> int list) \<Rightarrow> bool" where
  "left_ok s left \<longleftrightarrow> outstanding s = filter_mset (\<lambda>L. L \<noteq> []) (mset (map left [48, 49, 50])) \<and>
     (\<forall>i \<in> {48, 49, 50}. of_chain i (logged s) @ left i = chain i) \<and> set (logged s) \<subseteq> {0..50}"

lemma mset_pick:
  assumes "filter_mset P (mset (map f xs)) = add_mset y R"
  shows "\<exists>x \<in> set xs. f x = y"
proof -
  have "y \<in># filter_mset P (mset (map f xs))" using assms by simp
  then show ?thesis by auto
qed

lemma chain_classes:
  assumes "e \<in> set (chain i)" and "i \<in> {48, 49, 50}" "j \<in> {48, 49, 50}"
  shows "of_chain j [e] = (if j = i then [e] else [])"
proof -
  have "(i - e) mod 3 = 0" using chain_descends [of i] assms(1) by (auto simp: c_concurrent_def)
  then have "(j - e) mod 3 = 0 \<longleftrightarrow> j = i" using assms(2,3) by auto presburger+
  then show ?thesis by (simp add: of_chain_def c_concurrent_def)
qed

lemma left_step:
  assumes "left_ok s left" and "outstanding s = add_mset (e # L) R"
    and "outstanding s' = unless_nil L + R" and "logged s' = logged s @ [e]"
  shows "\<exists>left'. left_ok s' left'"
proof -
  from mset_pick [of "\<lambda>L. L \<noteq> []" left "[48, 49, 50]" "e # L" R] assms(1,2)
  obtain i where i: "i \<in> {48, 49, 50}" "left i = e # L" by (auto simp: left_ok_def)
  have eq: "of_chain i (logged s) @ e # L = chain i" using assms(1) i unfolding left_ok_def by metis
  then have e: "e \<in> set (chain i)" by (metis in_set_conv_decomp)
  have "of_chain j (logged s') @ (left(i := L)) j = chain j" if j: "j \<in> {48, 49, 50}" for j
  proof -
    have "of_chain j (logged s') = of_chain j (logged s) @ of_chain j [e]"
      by (simp add: assms(4) of_chain_def)
    moreover have "of_chain j (logged s) @ left j = chain j" using assms(1) j unfolding left_ok_def by blast
    ultimately show ?thesis using chain_classes [OF e i(1) j] eq by auto
  qed
  moreover have "outstanding s' = filter_mset (\<lambda>L. L \<noteq> []) (mset (map (left(i := L)) [48, 49, 50]))"
  proof -
    from assms(1,2) have "add_mset (e # L) R = filter_mset (\<lambda>L. L \<noteq> []) {#left 48, left 49, left 50#}"
      by (simp add: left_ok_def add_mset_commute)
    then show ?thesis using i assms(3) by (elim insertE) (auto simp: add_mset_commute)
  qed
  moreover have "e \<in> {0..50}" using e chain_descends [of i] i(1) by auto
  ultimately show ?thesis
    using assms(1,4) by (intro exI [of _ "left(i := L)"]) (simp add: left_ok_def)
qed

definition example3_inv :: "jobs \<Rightarrow> bool" where
  "example3_inv s \<longleftrightarrow> all_linear s \<and> (\<exists>left. left_ok s left)"

lemma example3_inv_do: "example3_inv s \<Longrightarrow> example3_inv (jobs_do sel h s)"
proof -
  assume "example3_inv s"
  then obtain left where l: "all_linear s" "left_ok s left" by (auto simp: example3_inv_def)
  from jobs_do_outstanding [OF l(1), of sel h] consider
      "all_linear (jobs_do sel h s)" "outstanding (jobs_do sel h s) = outstanding s" "logged (jobs_do sel h s) = logged s"
    | e L R where "all_linear (jobs_do sel h s)" "outstanding s = add_mset (e # L) R"
        "outstanding (jobs_do sel h s) = unless_nil L + R" "logged (jobs_do sel h s) = logged s @ [e]"
    by blast
  then show ?thesis
  proof cases
    case 1
    with l(2) show ?thesis by (auto simp: example3_inv_def left_ok_def)
  next
    case 2
    from left_step [OF l(2) 2(2-4)] 2(1) show ?thesis by (simp add: example3_inv_def)
  qed
qed

lemma example3_inv_run: "example3_inv s \<Longrightarrow> example3_inv (jobs_run sel hs s)"
  unfolding jobs_run_def by (induction hs arbitrary: s) (simp_all add: example3_inv_do)

lemma example3_inv_start: "example3_inv (jobs_new cfg example3)"
proof -
  have e: "example3 = [scheduleAction 50, scheduleAction 49, scheduleAction 48]"
    by (simp add: example3_def c_concurrent_def c_amount_def upt_rec)
  have "chain i \<noteq> []" if "0 \<le> i" for i using that by (subst chain.simps) simp
  then have "left_ok (jobs_new cfg example3) chain"
    by (simp add: left_ok_def outstanding_def jobs_new_def e logged_def of_chain_def in_store_def chronos_new_def
        scheduleAction_events add_mset_commute)
  moreover have "all_linear (jobs_new cfg example3)"
    by (simp add: all_linear_def jobs_new_def e in_store_def chronos_new_def scheduleAction_events)
  ultimately show ?thesis by (auto simp: example3_inv_def)
qed

text \<open>Nothing is to come any more.\<close>

definition jobs_over :: "jobs \<Rightarrow> bool" where
  "jobs_over s \<longleftrightarrow> jb_threads s = [] \<and> ch_events (jb_obj s) = [] \<and> ch_awaiting (jb_obj s) = []"

lemma descending_distinct: "sorted_wrt (>) (xs :: int list) \<Longrightarrow> distinct xs"
  by (induction xs) auto

lemma distinct_count_list: "distinct xs \<Longrightarrow> count_list xs e \<le> 1"
  by (induction xs) (auto simp: count_list_0_iff)

lemma count_list_distinct: "(\<And>e. count_list xs e \<le> 1) \<Longrightarrow> distinct xs"
proof (induction xs)
  case (Cons x xs)
  from Cons.prems [of x] have "x \<notin> set xs" by (simp add: count_list_0_iff)
  moreover have "count_list xs e \<le> 1" for e using Cons.prems [of e] by (auto split: if_splits)
  ultimately show ?case using Cons.IH by simp
qed simp

lemma count_of_chain: "(i - e) mod c_concurrent = 0 \<Longrightarrow> count_list (of_chain i es) e = count_list es e"
  by (induction es) (auto simp: of_chain_def)

lemma example3_logged:
  assumes "example3_inv s"
  shows "i \<in> {48, 49, 50} \<Longrightarrow> prefix (of_chain i (logged s)) (chain i)"
    and "distinct (logged s)" and "set (logged s) \<subseteq> {0..50}"
    and "jobs_over s \<Longrightarrow> set (logged s) = {0..50}"
proof -
  obtain left where l: "left_ok s left" using assms by (auto simp: example3_inv_def)
  show sub: "set (logged s) \<subseteq> {0..50}" using l by (simp add: left_ok_def)
  show pre: "prefix (of_chain i (logged s)) (chain i)" if "i \<in> {48, 49, 50}" for i
    using l that unfolding left_ok_def by (metis prefixI)
  have ex: "\<exists>i \<in> {48, 49, 50}. (i - e) mod c_concurrent = 0" for e :: int
    by (simp add: c_concurrent_def) presburger
  have dc: "distinct (chain i)" for i
    using chain_descends [of i] by (blast intro: descending_distinct)
  have "count_list (logged s) e \<le> 1" for e
  proof -
    from ex [of e] obtain i where i: "i \<in> {48, 49, 50}" "(i - e) mod c_concurrent = 0" by (rule bexE)
    have "distinct (of_chain i (logged s))" using pre [OF i(1)] dc [of i] by (metis distinct_append prefixE)
    moreover have "count_list (of_chain i (logged s)) e = count_list (logged s) e"
      using i(2) by (rule count_of_chain)
    ultimately show ?thesis using distinct_count_list [of "of_chain i (logged s)" e] by simp
  qed
  then show "distinct (logged s)" by (rule count_list_distinct)
  show "set (logged s) = {0..50}" if over: "jobs_over s"
  proof -
    have "outstanding s = {#}" using over by (simp add: jobs_over_def outstanding_def in_store_def)
    then have "left i = []" if "i \<in> {48, 49, 50}" for i
      using l that by (auto simp: left_ok_def split: if_splits)
    then have eq: "of_chain i (logged s) = chain i" if "i \<in> {48, 49, 50}" for i
      using l that unfolding left_ok_def by fastforce
    have "e \<in> set (logged s)" if e: "e \<in> {0..50}" for e
    proof -
      from ex [of e] obtain i where i: "i \<in> {48, 49, 50}" "(i - e) mod c_concurrent = 0" by (rule bexE)
      have "e \<le> i" using i e by (elim insertE emptyE) (simp_all add: c_concurrent_def, presburger+)
      then have "e \<in> set (chain i)" using chain_descends [of i] e i(2) by simp
      then show ?thesis unfolding eq [OF i(1), symmetric] by (simp add: of_chain_def)
    qed
    with sub show ?thesis by blast
  qed
qed

section \<open>The examples come to an end\<close>

text \<open>What is left to do, by acts, by handlers on their way and by journeys.\<close>

fun acts_work :: "act list \<Rightarrow> nat" where
  "acts_work [] = 0"
| "acts_work (AddJob d (Job bs) # as) = 4 + acts_work bs + acts_work as"
| "acts_work (a # as) = Suc (acts_work as)"

definition jobs_work :: "jobs \<Rightarrow> nat" where
  "jobs_work s = (\<Sum>j \<in># in_store (jb_obj s). acts_work (job_acts j)) + 2 * size (in_store (jb_obj s)) +
     length (ch_events (jb_obj s)) + (\<Sum>th \<leftarrow> jb_threads s. Suc (acts_work (th_acts th)))"

lemma agreed_work:
  assumes "\<forall>i. op \<noteq> NodeRemove i"
    and "length (ch_events (jb_obj (jobs_agreed sel t op s))) + m \<le> length (ch_events (jb_obj s)) + size (ch_added op)"
  shows "jobs_work (jobs_agreed sel t op s) + m \<le> jobs_work s +
    (\<Sum>j \<in># ch_added op. acts_work (job_acts j)) + 3 * size (ch_added op)"
proof -
  let ?h = "handed sel op (jb_obj s)" and ?c = "snd (chronos_exec sel 0 t op (jb_obj s))"
  let ?w = "\<lambda>j. acts_work (job_acts j)"
  note st = handed_store [OF assms(1), of sel 0 t "jb_obj s"]
  have w: "(\<Sum>j \<in># in_store ?c. ?w j) + (\<Sum>(i, j) \<leftarrow> ?h. ?w j) = (\<Sum>j \<in># in_store (jb_obj s). ?w j) + (\<Sum>j \<in># ch_added op. ?w j)"
    using arg_cong [OF st, of "\<lambda>M. \<Sum>j \<in># M. ?w j"]
    by (simp add: multiset.map_comp comp_def case_prod_unfold flip: sum_mset_sum_list)
  have n: "size (in_store ?c) + length ?h = size (in_store (jb_obj s)) + size (ch_added op)"
    using arg_cong [OF st, of size] by simp
  have t: "(\<Sum>th \<leftarrow> jb_threads (jobs_agreed sel t op s). Suc (acts_work (th_acts th))) =
      (\<Sum>th \<leftarrow> jb_threads s. Suc (acts_work (th_acts th))) + (\<Sum>(i, j) \<leftarrow> ?h. ?w j) + length ?h"
    by (simp add: jobs_agreed_def sum_list_Suc comp_def case_prod_unfold)
  have o: "jb_obj (jobs_agreed sel t op s) = ?c" by (simp add: jobs_agreed_def)
  show ?thesis using assms(2) w n unfolding jobs_work_def t o by linarith
qed

lemma take_due_idem: "take_due sel now es hs = (es', hs') \<Longrightarrow> take_due sel now es' hs' = (es', hs')"
proof (induction sel now es hs rule: take_due.induct)
  case (1 sel now es hs)
  show ?case
  proof (cases "es \<noteq> [] \<and> ev_ts (pq_top sel es) < now")
    case True
    then show ?thesis using 1(1) [OF True] 1(2) by (simp add: take_due.simps [of sel now es hs])
  next
    case False
    then have "es' = es" "hs' = hs" using 1(2) by (subst (asm) take_due.simps, auto)+
    with 1(2) show ?thesis by simp
  qed
qed

lemma events_left:
  "length (ch_events (snd (chronos_exec sel this t (HandlerCompleted i) c))) = length (ch_events c)"
  "length (ch_events (snd (chronos_exec sel this t (AddAfter d h) c))) = Suc (length (ch_events c))"
  "length (ch_events (snd (chronos_exec sel this t (EventsUpTo now) c))) \<le> length (ch_events c)"
  "\<forall>e \<in> set (ch_events c). ev_ts e < now \<Longrightarrow> ch_events (snd (chronos_exec sel this t (EventsUpTo now) c)) = []"
proof -
  obtain t0 t1 t2 where t: "t = (t0, t1, t2)" by (rule prod_cases3)
  have tr: "ch_events (snd (triggerAwaitings this c)) = ch_events c" for c :: "'a chronos"
    by (simp add: triggerAwaitings_def split_beta)
  have wa: "ch_events (snd (scheduleWait sel t1 t2 c)) = ch_events c" for c :: "'a chronos"
    by (simp add: scheduleWait_def Let_def)
  show "length (ch_events (snd (chronos_exec sel this t (HandlerCompleted i) c))) = length (ch_events c)"
    "length (ch_events (snd (chronos_exec sel this t (AddAfter d h) c))) = Suc (length (ch_events c))"
    by (simp_all add: t onHandlerCompleted_def tr addEventAfter_def addEvent_def wa)
  obtain es hs where td: "take_due sel now (ch_events c) (ch_awaiting c) = (es, hs)" by (rule prod.exhaust)
  then have es: "ch_events (snd (chronos_exec sel this t (EventsUpTo now) c)) = es"
    by (simp add: t scheduleEventsUpTo_def split_beta wa tr)
  from take_due_facts [OF td] obtain due where m: "mset (ch_events c) = mset es + mset due" by blast
  from arg_cong [OF this, of size] es
  show "length (ch_events (snd (chronos_exec sel this t (EventsUpTo now) c))) \<le> length (ch_events c)" by simp
  have "es = []" if "\<forall>e \<in> set (ch_events c). ev_ts e < now"
  proof (rule ccontr)
    assume "es \<noteq> []"
    have "take_due sel now es hs = (es, hs)" using take_due_idem [OF td] .
    moreover have "ev_ts (pq_top sel es) < now"
      using that pq_pop_facts(2) [OF \<open>es \<noteq> []\<close>, of sel] arg_cong [OF m, of set_mset] by auto
    ultimately have "take_due sel now (pq_pop sel es) (hs @ [ev_h (pq_top sel es)]) = (es, hs)"
      using \<open>es \<noteq> []\<close> by (subst (asm) take_due.simps) simp
    from take_due_facts [OF this] show False by (auto dest: arg_cong [of _ _ length])
  qed
  with es show "\<forall>e \<in> set (ch_events c). ev_ts e < now \<Longrightarrow> ch_events (snd (chronos_exec sel this t (EventsUpTo now) c)) = []"
    by simp
qed

text \<open>As long as no node is removed, the nodes that run a handler have a journey each.\<close>

lemma trigger_loop_running:
  assumes "slots_ok av is r"
  shows "snd (snd (snd (trigger_loop this hs is r))) = r @ zip is hs"
  using assms
proof (induction hs arbitrary: "is" r)
  case (Cons h hs)
  show ?case
  proof (cases "is")
    case (Cons i js)
    with Cons.prems have "i \<notin> fst ` set r" by (auto simp: slots_ok_def)
    moreover have "slots_ok av js (r @ [(i, h)])" using Cons.prems Cons by (auto simp: slots_ok_def)
    ultimately show ?thesis using Cons.IH [of js "r @ [(i, h)]"] Cons
      by (simp add: executeHandler_running split_beta Let_def)
  qed simp
qed simp

definition busy_ok :: "jobs \<Rightarrow> bool" where
  "busy_ok s \<longleftrightarrow> chronos_inv (jb_obj s) \<and>
     mset (map th_node (filter th_handler (jb_threads s))) = mset (map fst (ch_running (jb_obj s)))"

lemma agreed_running:
  assumes "chronos_inv c" and "orderly op c" and "\<forall>i. op \<noteq> NodeRemove i"
  shows "ch_running (snd (chronos_exec sel this t op c)) =
    (case op of HandlerCompleted i \<Rightarrow> AList.delete i (ch_running c) | _ \<Rightarrow> ch_running c) @ handed sel op c"
proof -
  obtain t0 t1 t2 where t: "t = (t0, t1, t2)" by (rule prod_cases3)
  have ok: "slots_ok (ch_available c) (ch_slots c) (ch_running c)" using assms(1) by (simp add: chronos_inv_def)
  show ?thesis
  proof (cases op)
    case (EventsUpTo now)
    then show ?thesis
      by (simp add: t scheduleEventsUpTo_def triggerAwaitings_def split_beta trigger_loop_running [OF ok])
  next
    case (HandlerCompleted i)
    with assms(2) have "i \<in> fst ` set (ch_running c)"
      by (simp add: orderly_def) (metis map_of_eq_None_iff option.distinct(1))
    from trigger_loop_running [OF delete_slots [OF ok this]] show ?thesis
      by (simp add: HandlerCompleted t onHandlerCompleted_def triggerAwaitings_def split_beta)
  qed (use assms(3) in \<open>simp_all add: t addEvent_def addEventAfter_def\<close>)
qed

lemma mset_delete_fst:
  assumes "distinct (map fst r)" "i \<in> fst ` set r"
  shows "add_mset i (mset (map fst (AList.delete i r))) = mset (map fst r)"
  using assms by (simp add: delete_keys distinct_remove1_removeAll [symmetric] del: mset_map)

lemma busy_agreed:
  assumes "busy_ok s" and "orderly op (jb_obj s)" and "\<forall>i. op \<noteq> NodeRemove i" "\<forall>i. op \<noteq> HandlerCompleted i"
  shows "busy_ok (jobs_agreed sel t op s)"
proof -
  have "chronos_inv (jb_obj s)" using assms(1) by (simp add: busy_ok_def)
  from exec_conserves [OF this assms(2), of sel 0 t] agreed_running [OF this assms(2,3), of sel 0 t] assms(1,4)
  show ?thesis
    by (cases op) (simp_all add: busy_ok_def jobs_agreed_def filter_map comp_def split_beta)
qed

lemma busy_completed:
  assumes "busy_ok s" and "k < length (jb_threads s)" and "th_handler (jb_threads s ! k)"
  shows "busy_ok (jobs_agreed sel t (HandlerCompleted (th_node (jb_threads s ! k))) (drop_thread k s))"
proof -
  let ?i = "th_node (jb_threads s ! k)" and ?r = "ch_running (jb_obj s)"
  let ?ts = "take k (jb_threads s) @ drop (Suc k) (jb_threads s)"
  have inv: "chronos_inv (jb_obj s)" using assms(1) by (simp add: busy_ok_def)
  have "mset (jb_threads s) = add_mset (jb_threads s ! k) (mset ?ts)"
    using split_threads(1) [OF assms(2), of "\<lambda>x. x"] by simp
  from arg_cong [OF this, of "\<lambda>M. image_mset th_node (filter_mset th_handler M)"] assms(1,3)
  have m: "mset (map fst ?r) = add_mset ?i (mset (map th_node (filter th_handler ?ts)))"
    by (simp add: busy_ok_def)
  from arg_cong [OF m, of set_mset] have i: "?i \<in> fst ` set ?r" by auto
  then have o: "orderly (HandlerCompleted ?i) (jb_obj s)"
    using map_of_eq_None_iff [of ?r ?i] by (simp add: orderly_def)
  have "distinct (map fst ?r)" using inv by (simp add: chronos_inv_def slots_ok_def)
  from mset_delete_fst [OF this i] m
  have "mset (map fst (AList.delete ?i ?r)) = mset (map th_node (filter th_handler ?ts))" by simp
  with exec_conserves [OF inv o, of sel 0 t] agreed_running [OF inv o, of sel 0 t] show ?thesis
    by (simp add: busy_ok_def jobs_agreed_def drop_thread_def filter_map comp_def split_beta)
qed

lemma busy_keep:
  "busy_ok s \<Longrightarrow> k < length (jb_threads s) \<Longrightarrow> busy_ok (set_acts k as s)"
  "busy_ok s \<Longrightarrow> k < length (jb_threads s) \<Longrightarrow> \<not> th_handler (jb_threads s ! k) \<Longrightarrow> busy_ok (drop_thread k s)"
proof -
  assume b: "busy_ok s" and k: "k < length (jb_threads s)"
  let ?th = "jb_threads s ! k"
  note sp = split_threads(1,2) [OF k, where f = "\<lambda>x. x"]
  from sp(1) sp(2) [where x = "?th\<lparr>th_acts := as\<rparr>"]
  have "image_mset th_node (filter_mset th_handler (mset ((jb_threads s)[k := ?th\<lparr>th_acts := as\<rparr>]))) =
      image_mset th_node (filter_mset th_handler (mset (jb_threads s)))" by simp
  with b show "busy_ok (set_acts k as s)" by (simp add: busy_ok_def set_acts_def)
  show "busy_ok (drop_thread k s)" if "\<not> th_handler ?th"
  proof -
    from sp(1) have "mset (jb_threads s) = add_mset ?th (mset (jb_threads (drop_thread k s)))"
      by (simp add: drop_thread_def)
    from arg_cong [OF this, of "\<lambda>M. image_mset th_node (filter_mset th_handler M)"] that b show ?thesis
      by (simp add: busy_ok_def drop_thread_def)
  qed
qed

lemma busy_do: "busy_ok s \<Longrightarrow> busy_ok (jobs_do sel h s)"
proof (cases h)
  case (UpTo now t)
  assume "busy_ok s"
  then show ?thesis using UpTo busy_agreed [of s "EventsUpTo now :: job ch_op"] by (simp add: orderly_def)
next
  case (GoOn k t)
  assume b: "busy_ok s"
  show ?thesis
  proof (cases "k < length (jb_threads s)")
    case True
    note kept = busy_keep [OF b True]
    have log: "busy_ok (set_acts k as s\<lparr>jb_log := l\<rparr>)" for as l using kept(1) [of as] by (simp add: busy_ok_def)
    show ?thesis
      using True b log kept busy_completed [OF b True] busy_agreed [of "set_acts k as s" "AddAfter d j :: job ch_op" for as d j]
      by (auto simp: GoOn orderly_def split: list.split act.split)
  next
    case False
    with GoOn b show ?thesis by simp
  qed
qed

text \<open>A journey that goes on leaves less to do, and so does a time at which all events are due.\<close>

lemma work_split:
  assumes "k < length (jb_threads s)"
  shows "jobs_work s = jobs_work (drop_thread k s) + Suc (acts_work (th_acts (jb_threads s ! k)))"
    and "jobs_work (set_acts k as s) = jobs_work (drop_thread k s) + Suc (acts_work as)"
proof -
  let ?f = "\<lambda>th. Suc (acts_work (th_acts th))"
  have sp: "sum_list (map ?f (jb_threads s)) =
      ?f (jb_threads s ! k) + sum_list (map ?f (take k (jb_threads s) @ drop (Suc k) (jb_threads s)))"
    "sum_list (map ?f ((jb_threads s)[k := th])) =
      ?f th + sum_list (map ?f (take k (jb_threads s) @ drop (Suc k) (jb_threads s)))" for th
    using arg_cong [OF split_threads(1) [OF assms, of ?f], of sum_mset]
      arg_cong [OF split_threads(2) [OF assms, of ?f th], of sum_mset]
    unfolding sum_mset_sum_list sum_mset.add_mset by blast+
  show "jobs_work s = jobs_work (drop_thread k s) + Suc (acts_work (th_acts (jb_threads s ! k)))"
    using sp(1) by (simp add: jobs_work_def drop_thread_def)
  show "jobs_work (set_acts k as s) = jobs_work (drop_thread k s) + Suc (acts_work as)"
    using sp(2) [of "(jb_threads s ! k)\<lparr>th_acts := as\<rparr>"]
    by (simp add: jobs_work_def drop_thread_def set_acts_def)
qed

lemma agreed_events:
  "length (ch_events (jb_obj (jobs_agreed sel t (HandlerCompleted i) s))) = length (ch_events (jb_obj s))"
  "length (ch_events (jb_obj (jobs_agreed sel t (AddAfter d h) s))) = Suc (length (ch_events (jb_obj s)))"
  "length (ch_events (jb_obj (jobs_agreed sel t (EventsUpTo now) s))) \<le> length (ch_events (jb_obj s))"
  "\<forall>e \<in> set (ch_events (jb_obj s)). ev_ts e < now \<Longrightarrow> ch_events (jb_obj (jobs_agreed sel t (EventsUpTo now) s)) = []"
  using events_left(1) [of sel 0 t i "jb_obj s"] events_left(2) [of sel 0 t d h "jb_obj s"]
    events_left(3) [of sel 0 t now "jb_obj s"] events_left(4) [of "jb_obj s" now sel 0 t]
  by (simp_all add: jobs_agreed_def del: chronos_exec.simps)

lemma go_on_work:
  assumes "k < length (jb_threads s)"
  shows "jobs_work (jobs_do sel (GoOn k t) s) < jobs_work s"
proof (cases "th_acts (jb_threads s ! k)")
  case Nil
  have "jobs_work (jobs_agreed sel t (HandlerCompleted i) (drop_thread k s)) \<le> jobs_work (drop_thread k s)" for i
    using agreed_work [of "HandlerCompleted i :: job ch_op" sel t "drop_thread k s" 0]
    by (simp add: agreed_events)
  then show ?thesis using Nil assms work_split(1) [OF assms] by (simp add: le_imp_less_Suc)
next
  case (Cons a as)
  have log: "jobs_work (set_acts k as s\<lparr>jb_log := l\<rparr>) = jobs_work (set_acts k as s)" for l
    by (simp add: jobs_work_def)
  note w = work_split [OF assms]
  show ?thesis
  proof (cases a)
    case (AddJob d j)
    obtain bs where "j = Job bs" by (cases j)
    then show ?thesis
      using AddJob Cons assms w(1) w(2) [of as]
        agreed_work [of "AddAfter d j :: job ch_op" sel t "set_acts k as s" 0]
      by (simp add: agreed_events)
  qed (use Cons assms w(1) w(2) [of as] log in simp_all)
qed

lemma up_to_work:
  "jobs_work (jobs_do sel (UpTo now t) s) \<le> jobs_work s"
  "\<forall>e \<in> set (ch_events (jb_obj s)). ev_ts e < now \<Longrightarrow> ch_events (jb_obj s) \<noteq> [] \<Longrightarrow>
     jobs_work (jobs_do sel (UpTo now t) s) < jobs_work s"
proof -
  show "jobs_work (jobs_do sel (UpTo now t) s) \<le> jobs_work s"
    using agreed_work [of "EventsUpTo now :: job ch_op" sel t s 0]
    by (simp add: agreed_events)
  assume "\<forall>e \<in> set (ch_events (jb_obj s)). ev_ts e < now" and ne: "ch_events (jb_obj s) \<noteq> []"
  from agreed_events(4) [OF this(1), of sel t]
    agreed_work [of "EventsUpTo now :: job ch_op" sel t s "length (ch_events (jb_obj s))"] ne
  have "jobs_work (jobs_agreed sel t (EventsUpTo now) s) + length (ch_events (jb_obj s)) \<le> jobs_work s"
    by simp
  then show "jobs_work (jobs_do sel (UpTo now t) s) < jobs_work s" using ne
    by simp (metis add_leE length_greater_0_conv less_add_same_cancel1 order_less_le_trans)
qed

lemma available_do:
  "ch_available (jb_obj (jobs_do sel h s)) = ch_available (jb_obj s)"
proof -
  have a: "ch_available (jb_obj (jobs_agreed sel t op s)) = ch_available (jb_obj s)" if "\<forall>i. op \<noteq> NodeRemove i" for t op s
    using that by (simp add: jobs_agreed_def exec_available)
  show ?thesis by (cases h) (simp_all add: a drop_thread_def set_acts_def split: list.split act.split)
qed

text \<open>Nothing is stuck: with a node to run them, there is a next step as long as anything is left.\<close>

lemma not_over_step:
  assumes "busy_ok s" and "ch_available (jb_obj s) \<noteq> []" and "\<not> jobs_over s"
  shows "\<exists>h. jobs_work (jobs_do sel h s) < jobs_work s"
proof (cases "jb_threads s = []")
  case False
  then show ?thesis by (intro exI [of _ "GoOn 0 (0, 0, 0)"] go_on_work) simp
next
  case True
  with assms(1) have inv: "chronos_inv (jb_obj s)" "ch_running (jb_obj s) = []" by (simp_all add: busy_ok_def)
  with assms(2) have "ch_slots (jb_obj s) \<noteq> []" by (auto simp: chronos_inv_def slots_ok_def)
  with inv(1) have "ch_awaiting (jb_obj s) = []" by (simp add: chronos_inv_def)
  with True assms(3) have ne: "ch_events (jb_obj s) \<noteq> []" by (simp add: jobs_over_def)
  have "\<forall>e \<in> set (ch_events (jb_obj s)). ev_ts e < Max (ev_ts ` set (ch_events (jb_obj s))) + 1"
    by (auto intro: le_less_trans [OF Max_ge])
  from up_to_work(2) [OF this ne] show ?thesis by blast
qed

lemma can_end:
  assumes "busy_ok s" and "ch_available (jb_obj s) \<noteq> []"
  shows "\<exists>hs. jobs_over (jobs_run sel hs s)"
  using assms
proof (induction "jobs_work s" arbitrary: s rule: less_induct)
  case less
  show ?case
  proof (cases "jobs_over s")
    case True
    then show ?thesis by (intro exI [of _ "[]"]) (simp add: jobs_run_def)
  next
    case False
    from not_over_step [OF less.prems this] obtain h where "jobs_work (jobs_do sel h s) < jobs_work s" by blast
    from less.hyps [OF this busy_do [OF less.prems(1)]] less.prems(2) obtain hs where
      "jobs_over (jobs_run sel hs (jobs_do sel h s))" by (auto simp: available_do)
    then show ?thesis by (intro exI [of _ "h # hs"]) (simp add: jobs_run_def)
  qed
qed

section \<open>\<open>example3\<close>\<close>

lemma example3_order:
  assumes "example3_inv s" and "logged s = xs @ e # ys" and "e + c_concurrent \<le> c_amount"
  shows "e + c_concurrent \<in> set xs"
proof -
  have "\<exists>i \<in> {48, 49, 50}. (i - e) mod c_concurrent = 0" by (simp add: c_concurrent_def) presburger
  then obtain i where i: "i \<in> {48, 49, 50}" "(i - e) mod c_concurrent = 0" by (rule bexE)
  have "0 \<le> e" using example3_logged(3) [OF assms(1)] assms(2) by auto
  moreover have "e + 3 \<le> i"
    using i assms(3) by (elim insertE emptyE) (simp_all add: c_concurrent_def c_amount_def, presburger+)
  moreover have "(i - (e + 3)) mod 3 = 0" using i(2) by (simp add: c_concurrent_def) presburger
  ultimately have e3: "e + 3 \<in> set (chain i)" using chain_descends [of i] by (simp add: c_concurrent_def)
  obtain zs where "chain i = of_chain i (logged s) @ zs"
    using example3_logged(1) [OF assms(1) i(1)] by (auto elim: prefixE)
  then have c: "chain i = of_chain i xs @ e # (of_chain i ys @ zs)"
    using i(2) by (simp add: assms(2) of_chain_def)
  have "sorted_wrt (>) (chain i)" using chain_descends by blast
  then have "\<forall>x \<in> set (of_chain i ys @ zs). x < e" unfolding c by (simp add: sorted_wrt_append)
  then have "e + 3 \<notin> set (of_chain i ys @ zs)" using bspec [where x = "e + 3"] by fastforce
  with e3 have "e + 3 \<in> set (of_chain i xs)" unfolding c by auto
  then show ?thesis by (simp add: of_chain_def c_concurrent_def)
qed



end
