(* ===== verification/Shutdown.thy ===== *)
theory Shutdown
  imports Stats
begin

text \<open>
  How a server of the examples ends (\<open>Server::serve\<close> in \<open>examples/server.h\<close>): the handler of the
  program, \<open>cleanupAll\<close> in a journey of its own, and \<open>waitForAll\<close>, which returns when as many
  journeys are destroyed as were created. The model counts the journeys of the process: the one
  that accepts connections, one for every accepted connection, those of the program, and the one
  that cleans up. The journey of a connection reads packets and ends only with an exception.

  \<open>waitForAll\<close> compares two atomic counters, which it loads one after the other; C++ does not say
  in which order, and journeys are created and destroyed between the two loads. The parameter
  \<open>create_first\<close> tells which is loaded first.
\<close>

datatype serve_pc = InHandler | InWaitForAll | Served

text \<open>Where the thread in \<open>waitForAll\<close> is in the evaluation of the condition.\<close>

datatype load_pc = NoLoad | LoadedCreate "64 word" | LoadedDestroy "64 word"

record serving =
  sv_main :: serve_pc
  sv_loaded :: load_pc
  sv_acceptor :: bool
  sv_cancelled :: bool
  sv_readers :: nat
  sv_others :: nat
  sv_stats :: instances

definition alive :: "serving \<Rightarrow> nat" where
  "alive s = (if sv_acceptor s then 1 else 0) + sv_readers s + sv_others s"

definition sv_created :: "serving \<Rightarrow> serving" where
  "sv_created s = s\<lparr>sv_stats := instance_stat Constructed (sv_stats s)\<rparr>"

definition sv_destroyed :: "serving \<Rightarrow> serving" where
  "sv_destroyed s = s\<lparr>sv_stats := instance_stat Destroyed (sv_stats s)\<rparr>"

text \<open>\<open>Server::start\<close>: the journey that accepts is there.\<close>

definition serve_start :: serving where
  "serve_start = sv_created \<lparr>sv_main = InHandler, sv_loaded = NoLoad, sv_acceptor = True, sv_cancelled = False,
     sv_readers = 0, sv_others = 0, sv_stats = \<lparr>createCounter = 0, destroyCounter = 0\<rparr>\<rparr>"

definition serve_accept :: "serving \<Rightarrow> serving" where
  "serve_accept s = sv_created (s\<lparr>sv_readers := Suc (sv_readers s)\<rparr>)"

definition serve_peer_closes :: "serving \<Rightarrow> serving" where
  "serve_peer_closes s = sv_destroyed (s\<lparr>sv_readers := sv_readers s - 1\<rparr>)"

definition serve_go :: "serving \<Rightarrow> serving" where
  "serve_go s = sv_created (s\<lparr>sv_others := Suc (sv_others s)\<rparr>)"

definition serve_ends :: "serving \<Rightarrow> serving" where
  "serve_ends s = sv_destroyed (s\<lparr>sv_others := sv_others s - 1\<rparr>)"

text \<open>\<open>shutdown\<close> and the call of \<open>waitForAll\<close>.\<close>

definition serve_shutdown :: "serving \<Rightarrow> serving" where
  "serve_shutdown s = (serve_go s)\<lparr>sv_main := InWaitForAll\<rparr>"

text \<open>
  \<open>MsgListener::cleanup\<close>, called by the journey that cleans up: it cancels the journey that
  accepts, which ends when it sees the event, and no other.
\<close>

definition serve_cancel :: "serving \<Rightarrow> serving" where
  "serve_cancel s = s\<lparr>sv_cancelled := True\<rparr>"

definition serve_acceptor_ends :: "serving \<Rightarrow> serving" where
  "serve_acceptor_ends s = sv_destroyed (s\<lparr>sv_acceptor := False\<rparr>)"

text \<open>The condition of \<open>waitForAll\<close>: the first load, and the second with the comparison.\<close>

definition load_counter :: "bool \<Rightarrow> serving \<Rightarrow> serving" where
  "load_counter create_first s =
     s\<lparr>sv_loaded := if create_first then LoadedCreate (createCounter (sv_stats s))
                    else LoadedDestroy (destroyCounter (sv_stats s))\<rparr>"

definition all_destroyed :: "serving \<Rightarrow> bool" where
  "all_destroyed s \<longleftrightarrow>
     (case sv_loaded s of
        NoLoad \<Rightarrow> False
      | LoadedCreate c \<Rightarrow> c = destroyCounter (sv_stats s)
      | LoadedDestroy d \<Rightarrow> createCounter (sv_stats s) = d)"

text \<open>
  What the server does, and what ends the journey of a connection: the peer closes it, the
  network breaks it, or what the peer sent makes it throw. The guards leave out the creation of
  journey number \<open>2 ^ 64\<close>.
\<close>

inductive serve_step :: "bool \<Rightarrow> serving \<Rightarrow> serving \<Rightarrow> bool" for create_first where
  accept: "\<lbrakk>sv_acceptor s; createCounter (sv_stats s) \<noteq> - 1\<rbrakk> \<Longrightarrow> serve_step create_first s (serve_accept s)"
| go: "\<lbrakk>sv_others s \<noteq> 0 \<or> sv_readers s \<noteq> 0 \<or> sv_main s = InHandler; createCounter (sv_stats s) \<noteq> - 1\<rbrakk> \<Longrightarrow>
     serve_step create_first s (serve_go s)"
| ends: "sv_others s \<noteq> 0 \<Longrightarrow> serve_step create_first s (serve_ends s)"
| shutdown: "\<lbrakk>sv_main s = InHandler; createCounter (sv_stats s) \<noteq> - 1\<rbrakk> \<Longrightarrow>
     serve_step create_first s (serve_shutdown s)"
| cancel: "\<lbrakk>sv_main s = InWaitForAll; sv_others s \<noteq> 0\<rbrakk> \<Longrightarrow> serve_step create_first s (serve_cancel s)"
| acceptor: "\<lbrakk>sv_acceptor s; sv_cancelled s\<rbrakk> \<Longrightarrow> serve_step create_first s (serve_acceptor_ends s)"
| load: "\<lbrakk>sv_main s = InWaitForAll; sv_loaded s = NoLoad\<rbrakk> \<Longrightarrow>
     serve_step create_first s (load_counter create_first s)"
| again: "\<lbrakk>sv_main s = InWaitForAll; sv_loaded s \<noteq> NoLoad; \<not> all_destroyed s\<rbrakk> \<Longrightarrow>
     serve_step create_first s (s\<lparr>sv_loaded := NoLoad\<rparr>)"
| return: "\<lbrakk>sv_main s = InWaitForAll; all_destroyed s\<rbrakk> \<Longrightarrow>
     serve_step create_first s (s\<lparr>sv_main := Served\<rparr>)"

inductive peer_step :: "serving \<Rightarrow> serving \<Rightarrow> bool" where
  closes: "sv_readers s \<noteq> 0 \<Longrightarrow> peer_step s (serve_peer_closes s)"

inductive_cases serve_stepE: "serve_step create_first s t"
inductive_cases peer_stepE: "peer_step s t"

definition serving_step :: "bool \<Rightarrow> serving \<Rightarrow> serving \<Rightarrow> bool" where
  "serving_step create_first s t \<longleftrightarrow> serve_step create_first s t \<or> peer_step s t"

lemmas serve_defs = serve_accept_def serve_peer_closes_def serve_go_def serve_ends_def
  serve_shutdown_def serve_cancel_def serve_acceptor_ends_def sv_created_def sv_destroyed_def
  addStat_def

section \<open>destroyCounter loaded first\<close>

text \<open>A value of \<open>destroyCounter\<close> that was loaded is not above what the counter is now.\<close>

definition serve_inv :: "serving \<Rightarrow> bool" where
  "serve_inv s \<longleftrightarrow>
     unat (createCounter (sv_stats s)) = unat (destroyCounter (sv_stats s)) + alive s \<and>
     (case sv_loaded s of LoadedDestroy d \<Rightarrow> d \<le> destroyCounter (sv_stats s) | LoadedCreate _ \<Rightarrow> False | NoLoad \<Rightarrow> True) \<and>
     (sv_main s = Served \<longrightarrow> alive s = 0)"

lemma all_destroyed_alive:
  assumes "serve_inv s" "all_destroyed s"
  shows "alive s = 0"
  using assms by (auto simp: serve_inv_def all_destroyed_def word_le_nat_alt split: load_pc.splits)

lemma served_stays:
  assumes "serve_inv s" "serve_step create_first s t" "sv_main s = Served"
  shows "False"
  using assms(2) by (rule serve_stepE) (use assms(1,3) in \<open>auto simp: serve_inv_def alive_def\<close>)

text \<open>What a creation and a destruction do to the counters.\<close>

lemma counter_up:
  fixes c :: "64 word"
  assumes "c \<noteq> - 1"
  shows "unat (c + 1) = Suc (unat c)"
proof -
  have "1 + c \<noteq> 0" using assms by (metis add.commute add_eq_0_iff)
  then show ?thesis using unatSuc [of c] by (simp add: add.commute)
qed

lemma counter_below_up:
  fixes c d :: "64 word"
  assumes "unat c = unat d + Suc n"
  shows "unat (d + 1) = Suc (unat d)"
proof (rule counter_up)
  have "d < c" using assms by (simp add: word_less_nat_alt)
  then show "d \<noteq> - 1" by auto
qed

lemma created_inv:
  assumes "unat (createCounter (sv_stats s)) = unat (destroyCounter (sv_stats s)) + alive s"
    and "createCounter (sv_stats s) \<noteq> - 1" and "alive t = Suc (alive s)" and "sv_stats t = sv_stats s"
  shows "unat (createCounter (sv_stats (sv_created t))) = unat (destroyCounter (sv_stats (sv_created t))) + alive (sv_created t)"
  using assms counter_up [of "createCounter (sv_stats s)"]
  by (simp add: sv_created_def addStat_def) (simp add: alive_def)

lemma destroyed_inv:
  assumes "unat (createCounter (sv_stats s)) = unat (destroyCounter (sv_stats s)) + alive s"
    and "alive s = Suc (alive t)" and "sv_stats t = sv_stats s"
  shows "unat (createCounter (sv_stats (sv_destroyed t))) = unat (destroyCounter (sv_stats (sv_destroyed t))) + alive (sv_destroyed t)"
    and "destroyCounter (sv_stats s) \<le> destroyCounter (sv_stats (sv_destroyed t))"
proof -
  have "unat (createCounter (sv_stats s)) = unat (destroyCounter (sv_stats s)) + Suc (alive t)"
    using assms(1,2) by simp
  note up = counter_below_up [OF this]
  show "unat (createCounter (sv_stats (sv_destroyed t))) = unat (destroyCounter (sv_stats (sv_destroyed t))) + alive (sv_destroyed t)"
    using up assms by (simp add: sv_destroyed_def addStat_def) (simp add: alive_def)
  show "destroyCounter (sv_stats s) \<le> destroyCounter (sv_stats (sv_destroyed t))"
    using up assms(3) by (simp add: sv_destroyed_def addStat_def word_le_nat_alt)
qed

lemma alive_destroyed [simp]: "alive (sv_destroyed s) = alive s" "alive (sv_created s) = alive s"
  by (simp_all add: alive_def sv_destroyed_def sv_created_def)

lemma created_serve_inv:
  assumes "serve_inv s" and "createCounter (sv_stats s) \<noteq> - 1" and "alive t = Suc (alive s)"
    and "sv_stats t = sv_stats s" "sv_loaded t = sv_loaded s" "sv_main t \<noteq> Served"
  shows "serve_inv (sv_created t)"
proof -
  have "sv_loaded (sv_created t) = sv_loaded s" "sv_main (sv_created t) \<noteq> Served"
    "destroyCounter (sv_stats (sv_created t)) = destroyCounter (sv_stats s)"
    using assms(4-6) by (simp_all add: sv_created_def)
  then show ?thesis using created_inv [of s t] assms(1-4) unfolding serve_inv_def
    by (auto split: load_pc.splits)
qed

lemma destroyed_serve_inv:
  assumes "serve_inv s" and "alive s = Suc (alive t)"
    and "sv_stats t = sv_stats s" "sv_loaded t = sv_loaded s" "sv_main t = sv_main s"
  shows "serve_inv (sv_destroyed t)"
proof -
  have "sv_loaded (sv_destroyed t) = sv_loaded s" "sv_main (sv_destroyed t) = sv_main s"
    using assms(4,5) by (simp_all add: sv_destroyed_def)
  then show ?thesis using destroyed_inv [of s t] assms(1-3) unfolding serve_inv_def
    by (auto split: load_pc.splits)
qed

lemma serve_step_inv:
  assumes inv: "serve_inv s" and step: "serve_step False s t"
  shows "serve_inv t"
proof -
  have run: "sv_main s \<noteq> Served" using served_stays [OF inv step] by blast
  from step show ?thesis
  proof cases
    case accept
    show ?thesis unfolding accept(1) serve_accept_def
      by (rule created_serve_inv [OF inv]) (use accept run in \<open>simp_all add: alive_def\<close>)
  next
    case go
    show ?thesis unfolding go(1) serve_go_def
      by (rule created_serve_inv [OF inv]) (use go run in \<open>simp_all add: alive_def\<close>)
  next
    case ends
    show ?thesis unfolding ends(1) serve_ends_def
      by (rule destroyed_serve_inv [OF inv]) (use ends in \<open>simp_all add: alive_def\<close>)
  next
    case shutdown
    have "serve_inv (serve_go s)" unfolding serve_go_def
      by (rule created_serve_inv [OF inv]) (use shutdown run in \<open>simp_all add: alive_def\<close>)
    then show ?thesis by (auto simp: shutdown(1) serve_shutdown_def serve_inv_def alive_def split: load_pc.splits)
  next
    case acceptor
    show ?thesis unfolding acceptor(1) serve_acceptor_ends_def
      by (rule destroyed_serve_inv [OF inv]) (use acceptor in \<open>simp_all add: alive_def\<close>)
  next
    case return
    then show ?thesis using inv all_destroyed_alive [OF inv]
      by (auto simp: serve_inv_def alive_def split: load_pc.splits)
  qed (use inv run in \<open>auto simp: serve_inv_def alive_def serve_cancel_def load_counter_def split: load_pc.splits\<close>)
qed

lemma peer_step_inv:
  assumes "serve_inv s" "peer_step s t"
  shows "serve_inv t"
  using assms(2)
proof cases
  case closes
  show ?thesis unfolding closes(1) serve_peer_closes_def
    by (rule destroyed_serve_inv [OF assms(1)]) (use closes in \<open>simp_all add: alive_def\<close>)
qed

lemma serve_start_inv: "s = serve_start \<Longrightarrow> serve_inv s"
  by (simp add: serve_inv_def serve_start_def alive_def serve_defs)

interpretation serving: step_system "\<lambda>s. s = serve_start" "serving_step False" serve_inv
  by unfold_locales (auto simp: serving_step_def intro: serve_start_inv serve_step_inv peer_step_inv)

text \<open>With \<open>destroyCounter\<close> loaded first, \<open>serve\<close> returns only when every journey of the process
  has ended, those of the accepted connections included.\<close>

theorem serve_returns_when_all_ended:
  assumes "(serving_step False)\<^sup>*\<^sup>* serve_start s" "sv_main s = Served"
  shows "\<not> sv_acceptor s \<and> sv_readers s = 0 \<and> sv_others s = 0"
proof -
  have "serve_inv s" using serving.inv_reachable [OF refl assms(1)] .
  then show ?thesis using assms(2) by (auto simp: serve_inv_def alive_def split: if_splits)
qed

lemma readers_kept: "serve_step create_first s t \<Longrightarrow> sv_readers s \<le> sv_readers t"
  by (elim serve_stepE) (auto simp: serve_defs load_counter_def)

text \<open>With \<open>destroyCounter\<close> loaded first, readers keep \<open>serve\<close> from returning.\<close>

lemma readers_keep_serving:
  assumes "(serving_step False)\<^sup>*\<^sup>* serve_start s" "sv_readers s \<noteq> 0" "(serve_step False)\<^sup>*\<^sup>* s t"
  shows "sv_main t \<noteq> Served"
proof -
  have inv: "serve_inv s" using serving.inv_reachable [OF refl assms(1)] .
  have "serve_inv t \<and> sv_readers s \<le> sv_readers t"
    using assms(3) by induction (use inv serve_step_inv readers_kept in \<open>auto intro: order_trans\<close>)
  then show ?thesis using assms(2) by (auto simp: serve_inv_def alive_def)
qed

section \<open>createCounter loaded first\<close>

text \<open>
  A peer keeps its connection open. The cleanup runs and ends, and so does the journey that
  accepts; \<open>createCounter\<close> is loaded; the journey of the connection starts another one, which
  ends; \<open>destroyCounter\<close> is loaded, and is what \<open>createCounter\<close> was.
\<close>

abbreviation early_loaded :: serving where
  "early_loaded \<equiv> load_counter True
     (serve_ends (serve_acceptor_ends (serve_cancel (serve_shutdown (serve_accept serve_start)))))"

lemma serve_returns_early:
  "\<exists>s. (serve_step True)\<^sup>*\<^sup>* (serve_accept serve_start) s \<and> serve_step True serve_start (serve_accept serve_start) \<and>
     sv_main s = Served \<and> sv_readers s = 1"
proof -
  let ?s1 = "serve_accept serve_start" and ?e = early_loaded
  note defs = serve_start_def serve_defs load_counter_def
  have "serve_step True serve_start ?s1" by (rule serve_step.accept) (simp_all add: defs)
  moreover have "serve_step True ?s1 (serve_shutdown ?s1)" by (rule serve_step.shutdown) (simp_all add: defs)
  moreover have "serve_step True (serve_shutdown ?s1) (serve_cancel (serve_shutdown ?s1))"
    by (rule serve_step.cancel) (simp_all add: defs)
  moreover have "serve_step True (serve_cancel (serve_shutdown ?s1)) (serve_acceptor_ends (serve_cancel (serve_shutdown ?s1)))"
    by (rule serve_step.acceptor) (simp_all add: defs)
  moreover have "serve_step True (serve_acceptor_ends (serve_cancel (serve_shutdown ?s1)))
      (serve_ends (serve_acceptor_ends (serve_cancel (serve_shutdown ?s1))))"
    by (rule serve_step.ends) (simp add: defs)
  moreover have "serve_step True (serve_ends (serve_acceptor_ends (serve_cancel (serve_shutdown ?s1)))) ?e"
    by (rule serve_step.load) (simp_all add: defs)
  moreover have "serve_step True ?e (serve_go ?e)" by (rule serve_step.go) (simp_all add: defs)
  moreover have "serve_step True (serve_go ?e) (serve_ends (serve_go ?e))"
    by (rule serve_step.ends) (simp add: defs)
  moreover have "serve_step True (serve_ends (serve_go ?e)) (serve_ends (serve_go ?e)\<lparr>sv_main := Served\<rparr>)"
    by (rule serve_step.return) (simp_all add: all_destroyed_def defs)
  moreover have "sv_readers (serve_ends (serve_go ?e)\<lparr>sv_main := Served\<rparr>) = 1" by (simp add: defs)
  ultimately show ?thesis
    by (intro exI [of _ "serve_ends (serve_go ?e)\<lparr>sv_main := Served\<rparr>"] conjI)
      (meson converse_rtranclp_into_rtranclp rtranclp.rtrancl_refl | simp)+
qed

section \<open>Both orders\<close>

text \<open>C31: Whether \<open>serve\<close> waits for its peers depends on the order in which the condition of
  \<open>waitForAll\<close> loads its two counters, which C++ leaves open. With \<open>destroyCounter\<close> first: as long
  as one peer keeps a connection open, \<open>serve\<close> does not return, whatever the server does and however
  its journeys come and go between the two loads, because the cleanup cancels the journey that
  accepts connections, and none of those it has started. With \<open>createCounter\<close> first it can return
  while a peer is connected.\<close>

theorem serve_waits_for_peers:
  "(\<forall>s t. (serving_step False)\<^sup>*\<^sup>* serve_start s \<and> sv_readers s \<noteq> 0 \<and> (serve_step False)\<^sup>*\<^sup>* s t \<longrightarrow>
      sv_main t \<noteq> Served) \<and>
   (\<exists>s t. (serving_step True)\<^sup>*\<^sup>* serve_start s \<and> sv_readers s \<noteq> 0 \<and> (serve_step True)\<^sup>*\<^sup>* s t \<and>
      sv_main t = Served)"
proof (intro conjI allI impI)
  show "sv_main t \<noteq> Served"
    if "(serving_step False)\<^sup>*\<^sup>* serve_start s \<and> sv_readers s \<noteq> 0 \<and> (serve_step False)\<^sup>*\<^sup>* s t" for s t
    using that by (elim conjE) (rule readers_keep_serving)
  obtain t where t: "(serve_step True)\<^sup>*\<^sup>* (serve_accept serve_start) t" "sv_main t = Served"
    "serve_step True serve_start (serve_accept serve_start)" using serve_returns_early by blast
  then have "(serving_step True)\<^sup>*\<^sup>* serve_start (serve_accept serve_start)"
    by (intro r_into_rtranclp) (simp add: serving_step_def)
  moreover have "sv_readers (serve_accept serve_start) \<noteq> 0" by (simp add: serve_start_def serve_defs)
  ultimately show "\<exists>s t. (serving_step True)\<^sup>*\<^sup>* serve_start s \<and> sv_readers s \<noteq> 0 \<and> (serve_step True)\<^sup>*\<^sup>* s t \<and>
      sv_main t = Served" using t by blast
qed

lemma serve_waits_for_peers_witness:
  "sv_main (load_counter False (serve_shutdown (serve_accept serve_start))) \<noteq> Served"
proof -
  have "serve_step False serve_start (serve_accept serve_start)"
    by (rule serve_step.accept) (simp_all add: serve_start_def serve_defs)
  then have r: "(serving_step False)\<^sup>*\<^sup>* serve_start (serve_accept serve_start)"
    by (intro r_into_rtranclp) (simp add: serving_step_def)
  have 1: "serve_step False (serve_accept serve_start) (serve_shutdown (serve_accept serve_start))"
    by (rule serve_step.shutdown) (simp_all add: serve_start_def serve_defs)
  have 2: "serve_step False (serve_shutdown (serve_accept serve_start))
      (load_counter False (serve_shutdown (serve_accept serve_start)))"
    by (rule serve_step.load) (simp_all add: serve_start_def serve_defs)
  from 1 2 have "(serve_step False)\<^sup>*\<^sup>* (serve_accept serve_start)
      (load_counter False (serve_shutdown (serve_accept serve_start)))"
    by (rule converse_rtranclp_into_rtranclp [OF _ r_into_rtranclp])
  with r show ?thesis
    by (intro serve_waits_for_peers [THEN conjunct1, rule_format, of "serve_accept serve_start"])
      (simp add: serve_start_def serve_defs)
qed

end
