(* ===== verification/Crash.thy ===== *)
theory Crash
  imports Cluster
begin

text \<open>
  Nodes that died before a step began, and the timers that let the others go on. One step of
  the agreement among the configured nodes \<open>N\<close>, of which only the survivors \<open>S\<close> are alive.
  The network is that of \<open>Cluster\<close>. The timer of a survivor fires only when the votes of all
  survivors have reached it, which is what the 500 ms of \<open>Voting::start\<close> are meant to ensure;
  \<open>Timeouts\<close> shows what happens without this. Within that assumption the timers are safe: all
  survivors that decide decide the same.
\<close>

section \<open>One step among survivors\<close>

record 'm round =
  votings :: "node_id \<Rightarrow> 'm voting"
  sent :: "'m effect set"
  given :: "'m carry_msg set"

definition round_start :: "'m round \<Rightarrow> bool" where
  "round_start s \<longleftrightarrow> votings s = (\<lambda>_. voting_new) \<and> sent s = {} \<and> given s = {}"

inductive round_step :: "node_id set \<Rightarrow> node_id set \<Rightarrow> 'm round \<Rightarrow> 'm round \<Rightarrow> bool" for N S where
  started: "\<lbrakk>n \<in> S; v_state (votings s n) = VInitial; x = \<lparr>cm_msg = m, cm_id = (n, i)\<rparr>;
      voting_start n x N (votings s n) = (v, es)\<rbrakk> \<Longrightarrow>
    round_step N S s \<lparr>votings = (votings s)(n := v), sent = sent s \<union> set es, given = insert x (given s)\<rparr>"
| vote: "\<lbrakk>n \<in> S; BroadcastVote C src M \<in> sent s; voting_vote n C src (ByValue M) (votings s n) = (v, es)\<rbrakk> \<Longrightarrow>
    round_step N S s (s\<lparr>votings := (votings s)(n := v), sent := sent s \<union> set es\<rparr>)"
| commit: "\<lbrakk>n \<in> S; BroadcastCommit C \<in> sent s; voting_commit C (votings s n) = (v, es)\<rbrakk> \<Longrightarrow>
    round_step N S s (s\<lparr>votings := (votings s)(n := v), sent := sent s \<union> set es\<rparr>)"
| timeout: "\<lbrakk>n \<in> S; v_timer (votings s n); v_state (votings s n) \<noteq> VCompleted; S \<subseteq> v_voted (votings s n);
      voting_timeout n (votings s n) = (v, es)\<rbrakk> \<Longrightarrow>
    round_step N S s (s\<lparr>votings := (votings s)(n := v), sent := sent s \<union> set es\<rparr>)"

section \<open>What is known when\<close>

text \<open>
  \<open>A\<close>: the messages given to the survivors; \<open>W\<close>: the survivors that have voted. Votes for the
  configured nodes carry at least what their sender was given; everything about the survivors
  alone, and every decision, carries all of \<open>A\<close>, and nobody can add to it any more.
\<close>

definition own :: "'m carry_msg set \<Rightarrow> node_id \<Rightarrow> 'm carry_msg set" where
  "own A z = {x \<in> A. fst (cm_id x) = z}"

definition given_ok :: "node_id set \<Rightarrow> node_id set \<Rightarrow> 'm carry_msg set \<Rightarrow> bool" where
  "given_ok S W A \<longleftrightarrow> same_id_same_msg A \<and> (\<forall>x \<in> A. fst (cm_id x) \<in> W)"

fun sent_ok :: "node_id set \<Rightarrow> node_id set \<Rightarrow> node_id set \<Rightarrow> 'm carry_msg set \<Rightarrow> 'm effect \<Rightarrow> bool" where
  "sent_ok N S W A (BroadcastVote C src M) \<longleftrightarrow>
     src \<in> S \<inter> W \<and> set C \<subseteq> A \<and> own A src \<subseteq> set C \<and> (M = N \<or> M = S \<and> S \<subseteq> W \<and> set C = A)"
| "sent_ok N S W A (BroadcastCommit C) \<longleftrightarrow> S \<subseteq> W \<and> set C = A \<and> sorted_wrt (<) (carry_ids C)"
| "sent_ok N S W A _ \<longleftrightarrow> True"

definition voting_ok ::
  "node_id set \<Rightarrow> node_id set \<Rightarrow> node_id set \<Rightarrow> 'm carry_msg set \<Rightarrow> node_id \<Rightarrow> 'm voting \<Rightarrow> bool" where
  "voting_ok N S W A n v \<longleftrightarrow> sorted_wrt (<) (carry_ids (v_carries v)) \<and> set (v_carries v) \<subseteq> A \<and>
     (case v_state v of
        VInitial \<Rightarrow> n \<notin> W \<and> v_nodes v = {} \<and> v_voted v = {} \<and> v_carries v = []
      | VVoted \<Rightarrow> n \<in> W \<and> n \<in> v_voted v \<and> v_voted v \<subseteq> S \<and>
          (v_nodes v = N \<and> v_voted v \<subseteq> W \<and> (\<forall>z \<in> v_voted v. own A z \<subseteq> set (v_carries v)) \<or>
           v_nodes v = S \<and> v_voted v \<noteq> S \<and> S \<subseteq> W \<and> set (v_carries v) = A)
      | VCompleted \<Rightarrow> n \<in> W \<and> S \<subseteq> W \<and> set (v_carries v) = A)"

definition has_voted :: "node_id set \<Rightarrow> 'm round \<Rightarrow> node_id set" where
  "has_voted S s = {n \<in> S. v_state (votings s n) \<noteq> VInitial}"

definition round_inv :: "node_id set \<Rightarrow> node_id set \<Rightarrow> 'm round \<Rightarrow> bool" where
  "round_inv N S s \<longleftrightarrow> given_ok S (has_voted S s) (given s) \<and>
     (\<forall>e \<in> sent s. sent_ok N S (has_voted S s) (given s) e) \<and>
     (\<forall>n \<in> S. voting_ok N S (has_voted S s) (given s) n (votings s n))"

text \<open>What one handler may do to a survivor.\<close>

definition handled ::
  "node_id set \<Rightarrow> node_id set \<Rightarrow> node_id set \<Rightarrow> 'm carry_msg set \<Rightarrow> node_id \<Rightarrow> 'm voting \<times> 'm effect list \<Rightarrow> bool" where
  "handled N S W A n r \<longleftrightarrow> v_state (fst r) \<noteq> VInitial \<and> voting_ok N S (insert n W) A n (fst r) \<and>
     (\<forall>e \<in> set (snd r). sent_ok N S (insert n W) A e)"

lemma sent_ok_mono: "sent_ok N S W A e \<Longrightarrow> W \<subseteq> W' \<Longrightarrow> sent_ok N S W' A e"
  by (cases e) auto

lemma voting_ok_mono:
  "voting_ok N S W A m v \<Longrightarrow> m \<noteq> n \<Longrightarrow> voting_ok N S (insert n W) A m v"
  by (auto simp: voting_ok_def split: vstate.splits)

lemma round_handled:
  assumes inv: "round_inv N S s" and n: "n \<in> S"
    and r: "handled N S (has_voted S s) (given s) n (v, es)"
  shows "round_inv N S (s\<lparr>votings := (votings s)(n := v), sent := sent s \<union> set es\<rparr>)"
proof -
  let ?t = "s\<lparr>votings := (votings s)(n := v), sent := sent s \<union> set es\<rparr>"
  have W: "has_voted S ?t = insert n (has_voted S s)"
    using r n by (auto simp: has_voted_def handled_def)
  have "sent_ok N S (has_voted S ?t) (given s) e" if "e \<in> sent ?t" for e
    using that inv r sent_ok_mono [of N S "has_voted S s" "given s" e "insert n (has_voted S s)"]
    by (auto simp: W round_inv_def handled_def)
  moreover have "voting_ok N S (has_voted S ?t) (given s) m (votings ?t m)" if "m \<in> S" for m
    using that inv r voting_ok_mono [of N S "has_voted S s" "given s" m "votings s m" n]
    by (auto simp: W round_inv_def handled_def)
  moreover have "given_ok S (has_voted S ?t) (given s)"
    using inv by (auto simp: W round_inv_def given_ok_def)
  ultimately show ?thesis by (simp add: round_inv_def)
qed

section \<open>Votes\<close>

lemma vote_on_changed:
  assumes "v_state v \<noteq> VCompleted" "v_nodes v \<noteq> {}" "v_nodes v \<noteq> M"
  shows "voting_vote this C src (ByValue M) v =
    (let v' = v\<lparr>v_carries := carry_union (v_carries v) C, v_state := VInitial,
                v_nodes := set_restrict (v_nodes v) M, v_voted := {this, src}\<rparr>
     in if {this, src} = v_nodes v' then voting_commit (carry_union (v_carries v) C) v'
        else (v'\<lparr>v_state := VVoted\<rparr>, [BroadcastVote (carry_union (v_carries v) C) this (v_nodes v')]))"
  using assms by (simp add: voting_vote_def Let_def insert_commute)

text \<open>A decision, and a new vote, of a survivor that knows everything.\<close>

lemma decided_handled:
  assumes "v_state v \<noteq> VCompleted" "sorted_wrt (<) (carry_ids C)" "set C = A" "S \<subseteq> insert n W"
  shows "handled N S W A n (voting_commit C v)"
  using assms by (simp add: handled_def voting_ok_def voting_commit_def Let_def)

lemma joined_handled:
  assumes "n \<in> S" "src \<in> S" "{n, src} \<noteq> S" "sorted_wrt (<) (carry_ids C)" "set C = A" "S \<subseteq> insert n W"
    and "v_state v = VVoted" "v_nodes v = S" "v_voted v = {n, src}" "v_carries v = C"
  shows "handled N S W A n (v, [BroadcastVote C n S])"
  using assms by (auto simp: handled_def voting_ok_def own_def)

lemma vote_carries:
  assumes "voting_ok N S W A n v" "given_ok S W A" "sent_ok N S W A (BroadcastVote C src M)"
  shows "set (carry_union (v_carries v) C) = set (v_carries v) \<union> set C"
    and "sorted_wrt (<) (carry_ids (carry_union (v_carries v) C))" and "set (v_carries v) \<subseteq> A"
proof -
  show sub: "set (v_carries v) \<subseteq> A" and "sorted_wrt (<) (carry_ids (carry_union (v_carries v) C))"
    using assms(1) by (simp_all add: voting_ok_def carry_union_sorted)
  have "same_id_same_msg (set (v_carries v) \<union> set C)"
    using assms(2,3) sub unfolding given_ok_def same_id_same_msg_def sent_ok.simps by blast
  then show "set (carry_union (v_carries v) C) = set (v_carries v) \<union> set C" by (rule carry_union_set)
qed

lemma first_vote_handled:
  assumes ok: "voting_ok N S W A n v" and S: "n \<in> S" "S \<subset> N" and g: "given_ok S W A"
    and msg: "sent_ok N S W A (BroadcastVote C src M)" and init: "v_state v = VInitial"
  shows "handled N S W A n (voting_vote n C src (ByValue M) v)"
proof -
  note C = vote_carries [OF ok g msg]
  have src: "src \<in> S" "src \<in> W" "own A src \<subseteq> set C" "M = N \<or> M = S \<and> S \<subseteq> W"
    using msg by auto
  have v: "n \<notin> W" "v_nodes v = {}" "v_voted v = {}" "v_carries v = []"
    using ok init by (simp_all add: voting_ok_def)
  with src(4) S(1) have M: "M = N" by auto
  have "own A n = {}" using v(1) g by (auto simp: own_def given_ok_def)
  moreover have "{n, src} \<noteq> N" "N \<noteq> {}" using src S by auto
  ultimately show ?thesis
    using vote_on_initial [OF init v(2-4), of N n C src] M S src C v msg
    by (auto simp: handled_def voting_ok_def Let_def)
qed

lemma same_vote_handled:
  assumes ok: "voting_ok N S W A n v" and S: "n \<in> S" "S \<subset> N" and g: "given_ok S W A"
    and msg: "sent_ok N S W A (BroadcastVote C src M)" and voted: "v_state v = VVoted" and same: "v_nodes v = M"
  shows "handled N S W A n (voting_vote n C src (ByValue M) v)"
proof -
  let ?C = "carry_union (v_carries v) C"
  note C = vote_carries [OF ok g msg]
  have src: "src \<in> S" "src \<in> W" "set C \<subseteq> A" "own A src \<subseteq> set C" "M \<noteq> {}" using msg S by auto
  have v: "n \<in> W" "n \<in> v_voted v" "v_voted v \<subseteq> S" using ok voted by (simp_all add: voting_ok_def)
  then have W: "insert n W = W" by (simp add: insert_absorb)
  note r = vote_on_voted [OF voted same v(2) src(5), of C src]
  show ?thesis
  proof (cases "M = N")
    case True
    have "v_voted v \<subseteq> W" "\<forall>z \<in> v_voted v. own A z \<subseteq> set (v_carries v)"
      using ok voted same S True by (auto simp: voting_ok_def)
    moreover have "insert src (v_voted v) \<noteq> N" using v(3) src S by auto
    ultimately show ?thesis using r True same voted v src C
      by (auto simp: handled_def voting_ok_def W Let_def)
  next
    case False
    then have all: "M = S" "S \<subseteq> W" "set (v_carries v) = A"
      using ok voted same msg by (auto simp: voting_ok_def)
    with C(1) src(3) have CA: "set ?C = A" by auto
    show ?thesis
    proof (cases "insert src (v_voted v) = S")
      case True
      with r all(1) have "voting_vote n C src (ByValue M) v =
          voting_commit ?C (v\<lparr>v_carries := ?C, v_voted := insert src (v_voted v)\<rparr>)" by (simp add: Let_def)
      then show ?thesis using all(2) CA C(2) voted by (simp add: decided_handled subset_insertI2)
    next
      case False
      with r all same CA C(2) voted v src show ?thesis
        by (auto simp: handled_def voting_ok_def W Let_def)
    qed
  qed
qed

lemma changed_vote_handled:
  assumes all: "S \<subseteq> insert n W" "set (carry_union (v_carries v) C) = A" "set_restrict (v_nodes v) M = S"
    and C: "sorted_wrt (<) (carry_ids (carry_union (v_carries v) C))"
    and v: "v_state v \<noteq> VCompleted" "v_nodes v \<noteq> {}" "v_nodes v \<noteq> M" and src: "n \<in> S" "src \<in> S"
  shows "handled N S W A n (voting_vote n C src (ByValue M) v)"
proof (cases "{n, src} = S")
  case True
  with vote_on_changed [OF v, of n C src] all C show ?thesis
    by (simp add: decided_handled Let_def)
next
  case False
  with vote_on_changed [OF v, of n C src] all joined_handled [OF src False C all(2,1)] show ?thesis
    by (simp add: Let_def)
qed

lemma vote_handled:
  assumes ok: "voting_ok N S W A n v" and S: "n \<in> S" "S \<subset> N" and g: "given_ok S W A"
    and msg: "sent_ok N S W A (BroadcastVote C src M)"
  shows "handled N S W A n (voting_vote n C src (ByValue M) v)"
proof (cases "v_state v")
  case VCompleted
  with ok show ?thesis by (simp add: handled_def voting_vote_def voting_ok_def insert_absorb)
next
  case VInitial
  with first_vote_handled [OF assms] show ?thesis by simp
next
  case VVoted
  show ?thesis
  proof (cases "v_nodes v = M")
    case True
    with same_vote_handled [OF assms VVoted] show ?thesis by simp
  next
    case False
    note C = vote_carries [OF ok g msg]
    have "set_restrict N S = S" "set_restrict S N = S" using S by (auto simp: set_restrict_def)
    moreover have "v_nodes v = N \<and> M = S \<and> S \<subseteq> W \<and> set C = A \<or>
        v_nodes v = S \<and> M = N \<and> S \<subseteq> W \<and> set (v_carries v) = A"
      using ok VVoted msg False by (auto simp: voting_ok_def)
    ultimately have "S \<subseteq> insert n W" "set (carry_union (v_carries v) C) = A" "set_restrict (v_nodes v) M = S"
      "v_nodes v \<noteq> {}"
      using C S msg by auto
    with changed_vote_handled [OF this(1-3) C(2) _ this(4) False S(1)] VVoted msg show ?thesis by simp
  qed
qed

section \<open>The other events\<close>

lemma commit_handled:
  assumes "voting_ok N S W A n v" "sent_ok N S W A (BroadcastCommit C)"
  shows "handled N S W A n (voting_commit C v) \<or> v_state v = VCompleted"
  using assms decided_handled [of v C A S n W N] by auto

text \<open>The timer fires on a survivor that knows what all the others were given.\<close>

lemma timeout_handled:
  assumes ok: "voting_ok N S W A n v" and S: "n \<in> S" "S \<subset> N" and g: "given_ok S W A" "W \<subseteq> S"
    and v: "v_state v \<noteq> VCompleted" "S \<subseteq> v_voted v"
  shows "handled N S W A n (voting_timeout n v)"
proof (cases "v_state v")
  case VVoted
  have all: "v_voted v = S" "v_nodes v = N" "S \<subseteq> W" "\<forall>z \<in> S. own A z \<subseteq> set (v_carries v)"
    using ok v(2) VVoted by (auto simp: voting_ok_def)
  have "x \<in> set (v_carries v)" if x: "x \<in> A" for x
  proof -
    have "fst (cm_id x) \<in> S" using g x by (auto simp: given_ok_def)
    with all(4) x show ?thesis unfolding own_def by blast
  qed
  with ok have A: "set (v_carries v) = A" by (auto simp: voting_ok_def)
  show ?thesis
  proof (cases "isConsistent v")
    case True
    have "sorted_wrt (<) (carry_ids (v_carries v))" using ok by (simp add: voting_ok_def)
    then have absorb: "carry_union (v_carries v) (v_carries v) = v_carries v"
      by (simp add: carry_union_absorb)
    have "set_restrict N S = S" "N \<noteq> {}" "N \<noteq> S" using S by (auto simp: set_restrict_def)
    with changed_vote_handled [of S n W v "v_carries v" A S n N] all A absorb ok S v(1) True
    show ?thesis
      by (auto simp: voting_timeout_def voting_ok_def vote_by_reference)
  next
    case False
    with ok VVoted show ?thesis
      by (simp add: voting_timeout_def voting_fail_def handled_def voting_ok_def insert_absorb)
  qed
qed (use ok v S in \<open>auto simp: voting_ok_def\<close>)


lemma start_handled:
  assumes init: "voting_ok N S W A n v" "v_state v = VInitial" and S: "n \<in> S" "S \<subset> N"
    and g: "given_ok S W A" and x: "x = \<lparr>cm_msg = m, cm_id = (n, i)\<rparr>"
  shows "handled N S W (insert x A) n (voting_start n x N v)"
proof -
  let ?v = "v\<lparr>v_timer := True\<rparr>"
  have v: "n \<notin> W" "v_state ?v = VInitial" "v_nodes ?v = {}" "v_voted ?v = {}" "v_carries ?v = []"
    using init by (simp_all add: voting_ok_def)
  have "own (insert x A) n = {x}" using v(1) g x by (auto simp: own_def given_ok_def)
  moreover have "N \<noteq> {}" "{n} \<noteq> N" using S by auto
  ultimately show ?thesis
    using vote_on_initial [OF v(2-5), of N n "[x]" n] S
    by (auto simp: voting_start_def handled_def voting_ok_def Let_def carry_union_def)
qed

text \<open>What was already there stays right when a node joins in with a message of its own:
  nobody can know everything yet.\<close>

lemma given_more:
  assumes "n \<in> S" "n \<notin> W" "given_ok S W A" and x: "x = \<lparr>cm_msg = m, cm_id = (n, i)\<rparr>"
  shows "given_ok S (insert n W) (insert x A)"
    and "sent_ok N S W A e \<Longrightarrow> sent_ok N S (insert n W) (insert x A) e"
    and "voting_ok N S W A k v \<Longrightarrow> k \<noteq> n \<Longrightarrow> voting_ok N S (insert n W) (insert x A) k v"
proof -
  have fresh: "fst (cm_id y) \<noteq> n" if "y \<in> A" for y
    using that assms(2,3) by (auto simp: given_ok_def)
  then have "cm_id y \<noteq> cm_id x" if "y \<in> A" for y using that x by force
  then have "same_id_same_msg (insert x A)"
    using assms(3) unfolding given_ok_def same_id_same_msg_def by (metis insert_iff)
  then show "given_ok S (insert n W) (insert x A)"
    using assms(3) x by (auto simp: given_ok_def)
  have own: "own (insert x A) z = own A z" if "z \<in> W" for z
    using that assms(2) x by (auto simp: own_def)
  have "\<not> S \<subseteq> W" using assms(1,2) by auto
  then show "sent_ok N S W A e \<Longrightarrow> sent_ok N S (insert n W) (insert x A) e"
    using own by (cases e) auto
  show "voting_ok N S W A k v \<Longrightarrow> k \<noteq> n \<Longrightarrow> voting_ok N S (insert n W) (insert x A) k v"
    using own \<open>\<not> S \<subseteq> W\<close> by (auto simp: voting_ok_def subset_iff split: vstate.splits)
qed

lemma round_started:
  assumes inv: "round_inv N S s" and n: "n \<in> S" "S \<subset> N" and init: "v_state (votings s n) = VInitial"
    and x: "x = \<lparr>cm_msg = m, cm_id = (n, i)\<rparr>" and run: "voting_start n x N (votings s n) = (v, es)"
  shows "round_inv N S \<lparr>votings = (votings s)(n := v), sent = sent s \<union> set es, given = insert x (given s)\<rparr>"
    (is "round_inv N S ?t")
proof -
  let ?W = "has_voted S s"
  have g: "given_ok S ?W (given s)" "n \<notin> ?W" and ok: "voting_ok N S ?W (given s) n (votings s n)"
    using inv n init by (simp_all add: round_inv_def has_voted_def)
  note more = given_more [OF n(1) g(2,1) x]
  have h: "handled N S ?W (insert x (given s)) n (v, es)"
    using start_handled [OF ok init n g(1) x] run by simp
  then have W: "has_voted S ?t = insert n ?W"
    using n by (auto simp: has_voted_def handled_def)
  have "sent_ok N S (insert n ?W) (insert x (given s)) e" if "e \<in> sent ?t" for e
    using that inv h more(2) by (auto simp: round_inv_def handled_def)
  moreover have "voting_ok N S (insert n ?W) (insert x (given s)) k (votings ?t k)" if "k \<in> S" for k
    using that inv h more(3) by (auto simp: round_inv_def handled_def)
  ultimately show ?thesis using more(1) by (simp add: round_inv_def W)
qed

lemma round_step_inv:
  assumes S: "S \<subset> N" and inv: "round_inv N S s" and step: "round_step N S s t"
  shows "round_inv N S t"
proof -
  have g: "given_ok S (has_voted S s) (given s)" "has_voted S s \<subseteq> S"
    and ok: "\<And>n. n \<in> S \<Longrightarrow> voting_ok N S (has_voted S s) (given s) n (votings s n)"
    and snt: "\<And>e. e \<in> sent s \<Longrightarrow> sent_ok N S (has_voted S s) (given s) e"
    using inv by (auto simp: round_inv_def has_voted_def)
  from step show ?thesis
  proof cases
    case (started n x m i v es)
    show ?thesis unfolding started(1)
      by (rule round_started [OF inv started(2) S started(3,4,5)])
  next
    case (vote n C src M v es)
    show ?thesis unfolding vote(1)
      using vote_handled [OF ok [OF vote(2)] vote(2) S g(1) snt [OF vote(3)]] vote(4)
      by (intro round_handled [OF inv vote(2)]) simp
  next
    case (commit n C v es)
    show ?thesis
    proof (cases "v_state (votings s n) = VCompleted")
      case True
      with commit have "v = votings s n" "es = []" by (simp_all add: voting_commit_def)
      with inv commit(1) show ?thesis by simp
    next
      case False
      then show ?thesis unfolding commit(1)
        using commit_handled [OF ok [OF commit(2)] snt [OF commit(3)]] commit(4)
        by (intro round_handled [OF inv commit(2)]) simp
    qed
  next
    case (timeout n v es)
    show ?thesis unfolding timeout(1)
      using timeout_handled [OF ok [OF timeout(2)] timeout(2) S g timeout(4,5)] timeout(6)
      by (intro round_handled [OF inv timeout(2)]) simp
  qed
qed

lemma round_start_inv: "round_start s \<Longrightarrow> round_inv N S s"
  by (auto simp: round_start_def round_inv_def given_ok_def same_id_same_msg_def voting_ok_def
      voting_new_def has_voted_def)

interpretation crash: step_system round_start "round_step N S" "\<lambda>s. S \<subset> N \<longrightarrow> round_inv N S s" for N S
  by unfold_locales (auto intro: round_start_inv round_step_inv)

section \<open>What the timers promise\<close>

text \<open>Three nodes, the third dead: the first gives a message, the second votes, the timer of
  the first fires, the second decides and tells the first.\<close>

definition carry17 :: "nat carry_msg" where "carry17 = \<lparr>cm_msg = 7, cm_id = (1, 0)\<rparr>"

definition seen :: "vstate \<Rightarrow> node_id set \<Rightarrow> node_id set \<Rightarrow> bool \<Rightarrow> nat voting" where
  "seen st M V t = \<lparr>v_state = st, v_nodes = M, v_voted = V, v_carries = [carry17], v_timer = t\<rparr>"

definition three_round :: "nat voting \<Rightarrow> nat voting \<Rightarrow> nat effect set \<Rightarrow> nat round" where
  "three_round p q E =
     \<lparr>votings = \<lambda>n. if n = 1 then p else if n = 2 then q else voting_new, sent = E, given = {carry17}\<rparr>"

definition round_new :: "'m round" where
  "round_new = \<lparr>votings = \<lambda>_. voting_new, sent = {}, given = {}\<rparr>"

abbreviation vote17 :: "node_id \<Rightarrow> node_id set \<Rightarrow> nat effect" where "vote17 \<equiv> BroadcastVote [carry17]"

lemma three_round_simps [simp]:
  "votings (three_round p q E) 1 = p" "votings (three_round p q E) 2 = q" "sent (three_round p q E) = E"
  "three_round p q E\<lparr>votings := (votings (three_round p q E))(1 := p'), sent := E'\<rparr> = three_round p' q E'"
  "three_round p q E\<lparr>votings := (votings (three_round p q E))(2 := q'), sent := E'\<rparr> = three_round p q' E'"
  by (simp_all add: three_round_def fun_eq_iff)

lemma three_handlers:
  "voting_start 1 carry17 {1, 2, 3} voting_new = (seen VVoted {1, 2, 3} {1} True, [vote17 1 {1, 2, 3}])"
  "voting_vote 2 [carry17] 1 (ByValue {1, 2, 3}) voting_new =
     (seen VVoted {1, 2, 3} {1, 2} False, [vote17 2 {1, 2, 3}])"
  "voting_vote 1 [carry17] 2 (ByValue {1, 2, 3}) (seen VVoted {1, 2, 3} {1} True) =
     (seen VVoted {1, 2, 3} {1, 2} True, [])"
  "voting_timeout 1 (seen VVoted {1, 2, 3} {1, 2} True) = (seen VVoted {1, 2} {1} True, [vote17 1 {1, 2}])"
  "voting_vote 2 [carry17] 1 (ByValue {1, 2}) (seen VVoted {1, 2, 3} {1, 2} False) =
     (seen VCompleted {1, 2} {1, 2} False, [BroadcastCommit [carry17], CompleteStep])"
  "voting_commit [carry17] (seen VVoted {1, 2} {1} True) =
     (seen VCompleted {1, 2} {1} True, [BroadcastCommit [carry17], CompleteStep])"
  by code_simp+

definition three_last :: "nat round" where
  "three_last = three_round (seen VCompleted {1, 2} {1} True) (seen VCompleted {1, 2} {1, 2} False)
     {vote17 1 {1, 2, 3}, vote17 2 {1, 2, 3}, vote17 1 {1, 2}, BroadcastCommit [carry17], CompleteStep}"

lemma three_rounds_run: "(round_step {1, 2, 3} {1, 2})\<^sup>*\<^sup>* round_new three_last"
proof -
  let ?R = "round_step {1, 2, 3} {1, 2}"
  let ?E = "{vote17 1 {1, 2, 3}, vote17 2 {1, 2, 3}}"
  let ?q = "seen VVoted {1, 2, 3} {1, 2} False"
  have 1: "?R round_new (three_round (seen VVoted {1, 2, 3} {1} True) voting_new {vote17 1 {1, 2, 3}})"
  proof -
    have n: "v_state (votings round_new 1 :: nat voting) = VInitial"
        "voting_start 1 carry17 {1, 2, 3} (votings round_new 1) = (seen VVoted {1, 2, 3} {1} True, [vote17 1 {1, 2, 3}])"
      by (simp_all add: round_new_def three_handlers) (simp add: voting_new_def)
    have "three_round (seen VVoted {1, 2, 3} {1} True) voting_new {vote17 1 {1, 2, 3}} =
        \<lparr>votings = (votings round_new)(1 := seen VVoted {1, 2, 3} {1} True),
         sent = sent round_new \<union> set [vote17 1 {1, 2, 3}], given = insert carry17 (given round_new)\<rparr>"
      by (auto simp: three_round_def round_new_def fun_eq_iff)
    with round_step.started [OF _ n(1) carry17_def n(2), of "{1, 2}"] show ?thesis by simp
  qed
  have 2: "?R (three_round (seen VVoted {1, 2, 3} {1} True) voting_new {vote17 1 {1, 2, 3}})
      (three_round (seen VVoted {1, 2, 3} {1} True) ?q ?E)"
    using round_step.vote [of 2 "{1, 2}" "[carry17]" 1 "{1, 2, 3}"
      "three_round (seen VVoted {1, 2, 3} {1} True) voting_new {vote17 1 {1, 2, 3}}"]
    by (simp add: three_handlers insert_commute)
  have 3: "?R (three_round (seen VVoted {1, 2, 3} {1} True) ?q ?E)
      (three_round (seen VVoted {1, 2, 3} {1, 2} True) ?q ?E)"
    using round_step.vote [of 1 "{1, 2}" "[carry17]" 2 "{1, 2, 3}"
      "three_round (seen VVoted {1, 2, 3} {1} True) ?q ?E"]
    by (simp add: three_handlers insert_commute)
  have 4: "?R (three_round (seen VVoted {1, 2, 3} {1, 2} True) ?q ?E)
      (three_round (seen VVoted {1, 2} {1} True) ?q (insert (vote17 1 {1, 2}) ?E))"
    using round_step.timeout [of 1 "{1, 2}" "three_round (seen VVoted {1, 2, 3} {1, 2} True) ?q ?E"]
    by (simp add: three_handlers insert_commute) (simp add: seen_def)
  have 5: "?R (three_round (seen VVoted {1, 2} {1} True) ?q (insert (vote17 1 {1, 2}) ?E))
      (three_round (seen VVoted {1, 2} {1} True) (seen VCompleted {1, 2} {1, 2} False) (sent three_last))"
    using round_step.vote [of 2 "{1, 2}" "[carry17]" 1 "{1, 2}"
      "three_round (seen VVoted {1, 2} {1} True) ?q (insert (vote17 1 {1, 2}) ?E)"]
    by (simp add: three_handlers three_last_def insert_commute)
  have 6: "?R (three_round (seen VVoted {1, 2} {1} True) (seen VCompleted {1, 2} {1, 2} False) (sent three_last))
      three_last"
    using round_step.commit [of 1 "{1, 2}" "[carry17]"
      "three_round (seen VVoted {1, 2} {1} True) (seen VCompleted {1, 2} {1, 2} False) (sent three_last)"]
    by (simp add: three_handlers three_last_def insert_commute)
  from 1 2 3 4 5 6 show ?thesis by (meson converse_rtranclp_into_rtranclp rtranclp.rtrancl_refl)
qed

text \<open>C9: Crash tolerance: when nodes died before the step and no timer fires before the votes
  of all survivors arrived, all survivors that decide the step decide the same set of
  messages, all that any survivor gave to it, although some may first have waited for
  the dead nodes and others have joined after the membership had shrunk.\<close>

theorem survivors_agree:
  assumes "round_start s0" and "(round_step N S)\<^sup>*\<^sup>* s0 s" and "S \<subset> N"
    and "n \<in> S" "v_state (votings s n) = VCompleted" and "m \<in> S" "v_state (votings s m) = VCompleted"
  shows "v_carries (votings s n) = v_carries (votings s m) \<and> set (v_carries (votings s n)) = given s"
proof -
  have inv: "round_inv N S s" using crash.inv_reachable [OF assms(1,2)] assms(3) by blast
  have c: "sorted_wrt (<) (carry_ids (v_carries (votings s k))) \<and> set (v_carries (votings s k)) = given s"
    if "k \<in> S" "v_state (votings s k) = VCompleted" for k
    using inv that by (auto simp: round_inv_def voting_ok_def)
  from c [OF assms(4,5)] c [OF assms(6,7)] show ?thesis by (auto intro: sorted_carries_eq)
qed

lemma survivors_agree_witness:
  "v_carries (votings three_last 1) = v_carries (votings three_last 2) \<and> given three_last = {carry17}"
proof -
  have "round_start (round_new :: nat round)" by (simp add: round_start_def round_new_def)
  from survivors_agree [OF this three_rounds_run, of 1 2] show ?thesis
    by (auto simp: three_last_def three_round_def seen_def)
qed

end
