(* ===== verification/Throwing.thy ===== *)
theory Throwing
  imports VotingNode
begin

text \<open>
  Messages that throw. The handlers a \<open>Voting\<close> executes come from the user of the library;
  an exception from one of them leaves \<open>exec\<close>, \<open>onComplete\<close>, \<open>tryComplete\<close> and \<open>complete\<close>
  before the step is erased and the current step advanced, and ends the journey that made
  the call. Here is the node of \<open>Voting\<close> again with that path: \<open>fails\<close> tells which messages
  throw, and every operation also returns whether an exception left it.
\<close>

section \<open>The registry\<close>

type_synonym ('o, 's) throwing_hook = "'o with_phantom \<Rightarrow> 's \<Rightarrow> bool \<times> 'o \<times> bool \<times> 's"

definition try_complete ::
  "('o, 's) throwing_hook \<Rightarrow> 'o with_phantom \<Rightarrow> 's \<Rightarrow> bool \<times> bool \<times> 'o with_phantom \<times> 's" where
  "try_complete hook w s =
     (if \<not> wp_completed w then (False, False, w, s)
      else let (threw, obj, c, s') = hook w s in (threw, c, w\<lparr>wp_obj := obj, wp_completed := c\<rparr>, s'))"

function complete_loop ::
  "('o, 's) throwing_hook \<Rightarrow> 'o phantoms \<Rightarrow> 's \<Rightarrow> bool \<times> 'o phantoms \<times> 's" where
  "complete_loop hook r s =
     (if cur_step r < next_step r
      then case steps r (cur_step r) of
             None \<Rightarrow> (False, r, s)
           | Some w \<Rightarrow>
               (case try_complete hook w s of
                  (True, c, w', s') \<Rightarrow> (True, r\<lparr>steps := (steps r)(cur_step r \<mapsto> w')\<rparr>, s')
                | (False, False, w', s') \<Rightarrow> (False, r\<lparr>steps := (steps r)(cur_step r \<mapsto> w')\<rparr>, s')
                | (False, True, w', s') \<Rightarrow>
                    complete_loop hook
                      (r\<lparr>steps := (steps r)(cur_step r := None), cur_step := cur_step r + 1\<rparr>) s')
      else (False, r, s))"
  by auto
termination
proof (relation "measure (\<lambda>(hook, r, s). unat (next_step r) - unat (cur_step r))")
  fix hook :: "('o, 's) throwing_hook" and r :: "'o phantoms"
  assume less: "cur_step r < next_step r"
  then have "cur_step r \<noteq> - 1" by (metis word_not_simps(3))
  then have "unat (cur_step r + 1) = Suc (unat (cur_step r))" by (rule unat_Suc_not_max)
  with less show "((hook, r\<lparr>steps := (steps r)(cur_step r := None), cur_step := cur_step r + 1\<rparr>, s'), hook, r, s)
      \<in> measure (\<lambda>(hook, r, s). unat (next_step r) - unat (cur_step r))" for s s'
    by (simp add: word_less_nat_alt)
qed simp

declare complete_loop.simps [simp del]

definition complete_object ::
  "('o, 's) throwing_hook \<Rightarrow> step_id \<Rightarrow> 'o phantoms \<Rightarrow> 's \<Rightarrow> bool \<times> 'o phantoms \<times> 's" where
  "complete_object hook i r0 s =
     (let r = r0\<lparr>steps := (steps r0)(i := map_option (\<lambda>w. w\<lparr>wp_completed := True\<rparr>) (steps r0 i))\<rparr>
      in case steps r i of
        None \<Rightarrow> (False, r, s)
      | Some p \<Rightarrow>
          if wp_step p \<noteq> cur_step r then (False, r, s)
          else case try_complete hook p s of
                 (True, c, p', s') \<Rightarrow> (True, r\<lparr>steps := (steps r)(i \<mapsto> p')\<rparr>, s')
               | (False, False, p', s') \<Rightarrow> (False, r\<lparr>steps := (steps r)(i \<mapsto> p')\<rparr>, s')
               | (False, True, p', s') \<Rightarrow>
                   complete_loop hook
                     (r\<lparr>steps := (steps r)(cur_step r := None), cur_step := cur_step r + 1\<rparr>) s')"

text \<open>\<open>exec\<close> stops at the first message that throws; the world records what it ran.\<close>

definition throwing_onComplete ::
  "('m \<Rightarrow> bool) \<Rightarrow> ('m voting, (step_id \<times> 'm carry_set) list) throwing_hook" where
  "throwing_onComplete fails w s =
     (let v = (wp_obj w)\<lparr>v_timer := False\<rparr>;
          ran = takeWhile (\<lambda>c. \<not> fails (cm_msg c)) (v_carries v)
      in (ran \<noteq> v_carries v, v, wp_completed w, s @ [(wp_step w, ran)]))"

section \<open>The node\<close>

fun throwing_effects ::
  "('m \<Rightarrow> bool) \<Rightarrow> step_id \<Rightarrow> 'm effect list \<Rightarrow> 'm node \<Rightarrow> bool \<times> 'm msg list \<times> 'm node" where
  "throwing_effects fails i [] nd = (False, [], nd)"
| "throwing_effects fails i (e # es) nd =
     (let (threw, now, nd1) =
        (case e of
           BroadcastVote C src M \<Rightarrow> (False, [VoteMsg i C src M], nd)
         | BroadcastCommit C \<Rightarrow> (False, [CommitMsg i C], nd)
         | CleanupAll \<Rightarrow> (False, [], cleanupAll nd)
         | CompleteStep \<Rightarrow>
             (let (threw, r, ex) = complete_object (throwing_onComplete fails) i (phs nd) (executed nd)
              in (threw, [], nd\<lparr>phs := r, executed := ex\<rparr>)))
      in if threw then (True, now, nd1)
         else let (threw', later, nd2) = throwing_effects fails i es nd1 in (threw', now @ later, nd2))"

definition throwing_call ::
  "('m \<Rightarrow> bool) \<Rightarrow> step_id \<Rightarrow> ('m voting \<Rightarrow> 'm voting \<times> 'm effect list) \<Rightarrow> 'm node \<Rightarrow>
     bool \<times> 'm msg list \<times> 'm node" where
  "throwing_call fails i f nd =
     (let (es, r) = phantom_call voting_new i f (phs nd) in throwing_effects fails i es (nd\<lparr>phs := r\<rparr>))"

fun throwing_deliver ::
  "('m \<Rightarrow> bool) \<Rightarrow> node_id \<Rightarrow> 'm msg \<Rightarrow> 'm node \<Rightarrow> bool \<times> 'm msg list \<times> 'm node" where
  "throwing_deliver fails this (VoteMsg i C src M) nd = throwing_call fails i (voting_vote this C src (ByValue M)) nd"
| "throwing_deliver fails this (CommitMsg i C) nd = throwing_call fails i (voting_commit C) nd"

definition throwing_timeout ::
  "('m \<Rightarrow> bool) \<Rightarrow> node_id \<Rightarrow> step_id \<Rightarrow> 'm node \<Rightarrow> bool \<times> 'm msg list \<times> 'm node" where
  "throwing_timeout fails this i nd =
     (case steps (phs nd) i of
        None \<Rightarrow> (False, [], nd)
      | Some w \<Rightarrow>
          (let (v, es) = voting_timeout this (wp_obj w)
           in throwing_effects fails i es
                (nd\<lparr>phs := (phs nd)\<lparr>steps := (steps (phs nd))(i \<mapsto> w\<lparr>wp_obj := v\<rparr>)\<rparr>\<rparr>)))"

definition throwing_apply ::
  "('m \<Rightarrow> bool) \<Rightarrow> nodes_config \<Rightarrow> 'm \<Rightarrow> 'm node \<Rightarrow> bool \<times> 'm msg list \<times> 'm node" where
  "throwing_apply fails cfg m nd =
     (let (i, mid) = genUniqueId cfg (next_mid nd);
          nd1 = nd\<lparr>next_mid := mid\<rparr>
      in case create voting_new (phs nd1) of
           (Inl e, r) \<Rightarrow> (True, [], nd1\<lparr>phs := r\<rparr>)
         | (Inr w, r) \<Rightarrow>
             (let (v, es) = voting_start (thisNode cfg) \<lparr>cm_msg = m, cm_id = i\<rparr> (nodesSet cfg) (wp_obj w);
                  r' = r\<lparr>steps := (steps r)(wp_step w \<mapsto> w\<lparr>wp_obj := v\<rparr>)\<rparr>
              in throwing_effects fails (wp_step w) es (nd1\<lparr>phs := r'\<rparr>)))"

inductive throwing_step ::
  "('m \<Rightarrow> bool) \<Rightarrow> nodes_config \<Rightarrow> 'm node \<Rightarrow> bool \<Rightarrow> 'm node \<Rightarrow> bool" for fails cfg where
  applied: "\<lbrakk>next_step (phs nd) \<noteq> - 1; throwing_apply fails cfg m nd = (threw, out, nd')\<rbrakk> \<Longrightarrow>
    throwing_step fails cfg nd threw nd'"
| vote: "\<lbrakk>i \<noteq> - 1; throwing_deliver fails (thisNode cfg) (VoteMsg i C src M) nd = (threw, out, nd')\<rbrakk> \<Longrightarrow>
    throwing_step fails cfg nd threw nd'"
| commit: "\<lbrakk>i \<noteq> - 1; throwing_deliver fails (thisNode cfg) (CommitMsg i C) nd = (threw, out, nd')\<rbrakk> \<Longrightarrow>
    throwing_step fails cfg nd threw nd'"
| timeout: "throwing_timeout fails (thisNode cfg) i nd = (threw, out, nd') \<Longrightarrow>
    throwing_step fails cfg nd threw nd'"

section \<open>Nothing throws\<close>

lemma try_complete_quiet:
  "try_complete (throwing_onComplete (\<lambda>_. False)) w s = (False, tryComplete voting_onComplete w s)"
  by (simp add: try_complete_def tryComplete_def throwing_onComplete_def voting_onComplete_def Let_def)

lemma complete_loop_quiet:
  "complete_loop (throwing_onComplete (\<lambda>_. False)) r s = (False, process_steps voting_onComplete r s)"
proof (induction "voting_onComplete :: ('a voting, _) hook" r s rule: process_steps.induct)
  case (1 r s)
  show ?case
    by (subst complete_loop.simps, subst process_steps.simps)
      (auto simp: try_complete_quiet 1 split: option.split prod.split bool.split)
qed

lemma complete_object_quiet:
  "complete_object (throwing_onComplete (\<lambda>_. False)) i r s = (False, with_complete voting_onComplete i r s)"
  by (simp add: complete_object_def with_complete_def registry_complete_def Let_def try_complete_quiet
      complete_loop_quiet split: option.split prod.split bool.split)

lemma throwing_effects_quiet: "throwing_effects (\<lambda>_. False) i es nd = (False, do_effects i es nd)"
proof (induction es arbitrary: nd)
  case (Cons e es)
  then show ?case
    by (cases e) (simp_all add: complete_object_quiet split_beta)
qed simp

text \<open>When no message throws, this is the node of \<open>Voting\<close>.\<close>

lemma throwing_quiet:
  "throwing_deliver (\<lambda>_. False) this msg nd = (False, node_deliver this msg nd)"
  "throwing_timeout (\<lambda>_. False) this i nd = (False, node_timeout this i nd)"
  by (cases msg; simp add: throwing_call_def node_call_def throwing_effects_quiet split_beta)
    (simp add: throwing_timeout_def node_timeout_def throwing_effects_quiet split_beta split: option.split)

section \<open>A stuck node\<close>

definition objects_ok :: "'m voting phantoms \<Rightarrow> bool" where
  "objects_ok r \<longleftrightarrow> cur_step r \<le> next_step r \<and> (\<forall>k w. steps r k = Some w \<longrightarrow> wp_step w = k \<and> k < next_step r \<and>
     (wp_completed w \<longrightarrow> v_state (wp_obj w) = VCompleted))"

lemma objects_ok_upd:
  "\<lbrakk>objects_ok r; wp_step w = i; i < next_step r; wp_completed w \<longrightarrow> v_state (wp_obj w) = VCompleted\<rbrakk> \<Longrightarrow>
   objects_ok (r\<lparr>steps := (steps r)(i \<mapsto> w)\<rparr>)"
  by (auto simp: objects_ok_def)

lemma objects_ok_erase:
  "objects_ok r \<Longrightarrow> cur_step r < next_step r \<Longrightarrow>
   objects_ok (r\<lparr>steps := (steps r)(k := None), cur_step := cur_step r + 1\<rparr>)"
  by (auto simp: objects_ok_def intro: inc_le)

text \<open>The object of the current step is completed, but the step was not left.\<close>

definition stuck_at :: "'o phantoms \<Rightarrow> bool" where
  "stuck_at r \<longleftrightarrow> (\<exists>w. steps r (cur_step r) = Some w \<and> wp_completed w)"

lemma try_complete_cases:
  obtains "\<not> wp_completed w" "try_complete (throwing_onComplete fails) w s = (False, False, w, s)"
  | threw s' where "wp_completed w" "try_complete (throwing_onComplete fails) w s =
      (threw, True, w\<lparr>wp_obj := (wp_obj w)\<lparr>v_timer := False\<rparr>\<rparr>, s')"
  by (cases "wp_completed w") (auto simp: try_complete_def throwing_onComplete_def Let_def)

lemma complete_loop_spec:
  assumes "objects_ok r" and "complete_loop (throwing_onComplete fails) r s = (threw, r', s')"
  shows "objects_ok r' \<and> (threw \<longrightarrow> stuck_at r')"
  using assms
proof (induction "throwing_onComplete fails" r s rule: complete_loop.induct)
  case (1 r s)
  show ?case
  proof (cases "cur_step r < next_step r \<and> steps r (cur_step r) \<noteq> None")
    case False
    then have "\<not> threw" "r' = r"
      using 1(3) by (auto simp: complete_loop.simps [of _ r s] split: if_splits option.splits)
    with 1(2) show ?thesis by simp
  next
    case True
    then obtain w where less: "cur_step r < next_step r" and w: "steps r (cur_step r) = Some w" by auto
    note run = 1(3) [unfolded complete_loop.simps [of _ r s]]
    show ?thesis
    proof (rule try_complete_cases [where w = w and fails = fails and s = s])
      assume "\<not> wp_completed w" "try_complete (throwing_onComplete fails) w s = (False, False, w, s)"
      with run less w have "\<not> threw" "r' = r" by (auto simp: fun_upd_idem)
      with "1.prems"(1) show ?thesis by simp
    next
      fix thrown s1
      assume 2: "wp_completed w" "try_complete (throwing_onComplete fails) w s =
        (thrown, True, w\<lparr>wp_obj := (wp_obj w)\<lparr>v_timer := False\<rparr>\<rparr>, s1)"
      let ?w = "w\<lparr>wp_obj := (wp_obj w)\<lparr>v_timer := False\<rparr>\<rparr>"
      show ?thesis
      proof (cases thrown)
        case True
        with run less w 2 have "threw" "r' = r\<lparr>steps := (steps r)(cur_step r \<mapsto> ?w)\<rparr>" by auto
        with "1.prems"(1) w 2(1) show ?thesis by (auto simp: objects_ok_def stuck_at_def)
      next
        case False
        let ?r = "r\<lparr>steps := (steps r)(cur_step r := None), cur_step := cur_step r + 1\<rparr>"
        from False run less w 2 have "complete_loop (throwing_onComplete fails) ?r s1 = (threw, r', s')" by auto
        moreover have "objects_ok ?r" by (rule objects_ok_erase [OF "1.prems"(1) less])
        ultimately show ?thesis using "1.hyps" [OF less w] 2(2) False by auto
      qed
    qed
  qed
qed

lemma complete_object_spec:
  assumes ok: "objects_ok r" and w: "steps r i = Some w" "v_state (wp_obj w) = VCompleted"
    and run: "complete_object (throwing_onComplete fails) i r s = (threw, r', s')"
  shows "objects_ok r' \<and> (threw \<longrightarrow> stuck_at r')"
    and "i \<noteq> cur_step r \<Longrightarrow> \<not> threw \<and> s' = s \<and> r' = r\<lparr>steps := (steps r)(i \<mapsto> w\<lparr>wp_completed := True\<rparr>)\<rparr>"
proof -
  let ?w = "w\<lparr>wp_completed := True\<rparr>"
  let ?r = "r\<lparr>steps := (steps r)(i \<mapsto> ?w)\<rparr>"
  have i: "wp_step ?w = i" "objects_ok ?r" and less: "i < next_step r"
    using ok w by (auto simp: objects_ok_def)
  show away: "i \<noteq> cur_step r \<Longrightarrow> \<not> threw \<and> s' = s \<and> r' = ?r"
    using run w i(1) by (auto simp: complete_object_def Let_def)
  show "objects_ok r' \<and> (threw \<longrightarrow> stuck_at r')"
  proof (cases "i = cur_step r")
    case False
    with away i(2) show ?thesis by simp
  next
    case here: True
    show ?thesis
    proof (rule try_complete_cases [where w = ?w and fails = fails and s = s])
      assume "\<not> wp_completed ?w"
      then show ?thesis by simp
    next
      fix thrown s1
      assume 2: "wp_completed ?w" "try_complete (throwing_onComplete fails) ?w s =
        (thrown, True, ?w\<lparr>wp_obj := (wp_obj ?w)\<lparr>v_timer := False\<rparr>\<rparr>, s1)"
      let ?on = "?r\<lparr>steps := (steps ?r)(cur_step r := None), cur_step := cur_step r + 1\<rparr>"
      have hw: "steps r (cur_step r) = Some w" "wp_step w = cur_step r" using w i(1) here by simp_all
      have eq: "complete_object (throwing_onComplete fails) i r s =
          (if thrown then (True, ?r\<lparr>steps := (steps ?r)(i \<mapsto> ?w\<lparr>wp_obj := (wp_obj ?w)\<lparr>v_timer := False\<rparr>\<rparr>)\<rparr>, s1)
           else complete_loop (throwing_onComplete fails) ?on s1)"
        unfolding complete_object_def here by (cases thrown) (simp_all add: hw 2(2))
      show ?thesis
      proof (cases thrown)
        case True
        with run eq have r': "r' = ?r\<lparr>steps := (steps ?r)(i \<mapsto> ?w\<lparr>wp_obj := (wp_obj ?w)\<lparr>v_timer := False\<rparr>\<rparr>)\<rparr>"
          by simp
        have "stuck_at r'" by (simp add: stuck_at_def r' here)
        moreover have "objects_ok r'"
          unfolding r' by (rule objects_ok_upd [OF i(2)]) (use i(1) less w(2) in simp_all)
        ultimately show ?thesis by simp
      next
        case False
        with run eq have "complete_loop (throwing_onComplete fails) ?on s1 = (threw, r', s')" by simp
        moreover have "cur_step ?r < next_step ?r" using less here by simp
        from objects_ok_erase [OF i(2) this, of "cur_step r"] have "objects_ok ?on" by simp
        ultimately show ?thesis by (rule complete_loop_spec [rotated])
      qed
    qed
  qed
qed

section \<open>Operations of a stuck node\<close>

lemma throwing_effects_open: "opens es \<Longrightarrow> throwing_effects fails i es nd = (False, msgs_of i es, asked es nd)"
  by (induction es arbitrary: nd) (auto simp: opens_def asked_def cleanupAll_def split: effect.splits)

text \<open>What an operation keeps: a stuck node stays stuck and executes nothing, and an
  exception leaves a stuck node behind.\<close>

definition keeps_stuck :: "'m node \<Rightarrow> bool \<Rightarrow> 'm node \<Rightarrow> bool" where
  "keeps_stuck nd threw nd' \<longleftrightarrow> objects_ok (phs nd') \<and> (threw \<longrightarrow> stuck_at (phs nd')) \<and>
     (stuck_at (phs nd) \<longrightarrow> \<not> threw \<and> stuck_at (phs nd') \<and> executed nd' = executed nd \<and>
        cur_step (phs nd') = cur_step (phs nd))"

lemma effects_keep:
  assumes ok: "objects_ok (phs nd)" and w: "steps (phs nd) i = Some w"
    and moves: "voting_moves (wp_obj w) (v, es)"
    and run: "throwing_effects fails i es (store i w v nd) = (threw, out, nd')"
  shows "keeps_stuck nd threw nd'"
proof (cases "v_state (wp_obj w) = VCompleted")
  case True
  with moves have "v = wp_obj w" and "set es \<subseteq> {CleanupAll}" by (simp_all add: voting_moves_def)
  moreover from this(2) have "opens es" by (auto simp: opens_def)
  ultimately have "\<not> threw" "nd' = asked es nd"
    using run w by (simp_all add: throwing_effects_open store_same)
  with ok show ?thesis by (simp add: keeps_stuck_def)
next
  case open_obj: False
  then have w': "\<not> wp_completed w" "wp_step w = i" using ok w by (auto simp: objects_ok_def)
  have here: "i \<noteq> cur_step (phs nd)" if "stuck_at (phs nd)" using that w w'(1) by (auto simp: stuck_at_def)
  have ok': "objects_ok (phs (store i w v nd))" using ok w w' by (auto simp: objects_ok_def)
  show ?thesis
  proof (cases "v_state v = VCompleted")
    case False
    with moves open_obj have "opens es" by (simp add: voting_moves_def)
    with run have "\<not> threw" "nd' = asked es (store i w v nd)" by (simp_all add: throwing_effects_open)
    with ok' here show ?thesis by (auto simp: keeps_stuck_def stuck_at_def)
  next
    case True
    with moves open_obj have es: "es = [BroadcastCommit (v_carries v), CompleteStep]"
      by (simp add: voting_moves_def)
    obtain t r ex where c: "complete_object (throwing_onComplete fails) i (phs (store i w v nd)) (executed nd) = (t, r, ex)"
      using prod_cases3 by blast
    have nd': "threw = t" "phs nd' = r" "executed nd' = ex"
      using run c by (auto simp: es split: if_splits)
    have w2: "steps (phs (store i w v nd)) i = Some (w\<lparr>wp_obj := v\<rparr>)" by simp
    note spec = complete_object_spec [OF ok' w2 _ c]
    with True here show ?thesis
      by (auto simp: keeps_stuck_def nd' stuck_at_def)
  qed
qed


lemma getPtr_objects:
  assumes ok: "objects_ok r" and "i \<noteq> - 1" and g: "getPtr voting_new i r = (wo, r')"
  shows "objects_ok r' \<and> cur_step r' = cur_step r \<and> (stuck_at r \<longrightarrow> stuck_at r') \<and>
    (case wo of None \<Rightarrow> i < cur_step r \<and> r' = r
     | Some w \<Rightarrow> steps r' i = Some w \<and> wp_step w = i \<and> (steps r i = None \<longrightarrow> wp_obj w = voting_new))"
proof (cases "i < cur_step r")
  case True
  with g ok show ?thesis by (auto simp: getPtr_def)
next
  case False
  define w where "w = (case steps r i of Some w \<Rightarrow> w
      | None \<Rightarrow> \<lparr>wp_obj = voting_new, wp_step = 0, wp_completed = False\<rparr>)\<lparr>wp_step := i\<rparr>"
  have r': "wo = Some w" "r' = r\<lparr>steps := (steps r)(i \<mapsto> w),
      next_step := if next_step r \<le> i then i + 1 else next_step r\<rparr>"
    using g False by (auto simp: getPtr_def Let_def w_def)
  have suc: "i < i + 1" using word_less_Suc_not_max [OF assms(2), of i] by simp
  have w: "wp_step w = i" "wp_completed w \<longrightarrow> v_state (wp_obj w) = VCompleted"
      "steps r i = None \<longrightarrow> wp_obj w = voting_new"
    using ok by (auto simp: w_def objects_ok_def split: option.split)
  have more: "next_step r \<le> next_step r'" "i < next_step r'"
    using suc by (auto simp: r'(2) not_le)
  have "objects_ok (r\<lparr>next_step := next_step r'\<rparr>)"
    using ok more(1) by (force simp: objects_ok_def)
  from objects_ok_upd [OF this w(1) _ w(2)] more(2)
  have "objects_ok ((r\<lparr>next_step := next_step r'\<rparr>)\<lparr>steps := (steps r)(i \<mapsto> w)\<rparr>)" by simp
  moreover have "r' = (r\<lparr>next_step := next_step r'\<rparr>)\<lparr>steps := (steps r)(i \<mapsto> w)\<rparr>"
    by (simp add: r'(2))
  ultimately have "objects_ok r'" by metis
  moreover have "stuck_at r'" if "stuck_at r"
    using that by (auto simp: stuck_at_def r'(2) w_def)
  ultimately show ?thesis using w r' by simp
qed

lemma call_keep:
  assumes ok: "objects_ok (phs nd)" and i: "i \<noteq> - 1" and moves: "\<And>v. voting_moves v (f v)"
    and run: "throwing_call fails i f nd = (threw, out, nd')"
  shows "keeps_stuck nd threw nd'"
proof -
  obtain wo r where g: "getPtr voting_new i (phs nd) = (wo, r)" by fastforce
  note spec = getPtr_objects [OF ok i g]
  show ?thesis
  proof (cases wo)
    case None
    with spec run g have "\<not> threw" "nd' = nd" by (simp_all add: throwing_call_def phantom_call_def)
    with ok show ?thesis by (simp add: keeps_stuck_def)
  next
    case (Some w)
    let ?nd = "nd\<lparr>phs := r\<rparr>"
    have "throwing_effects fails i (snd (f (wp_obj w))) (store i w (fst (f (wp_obj w))) ?nd) = (threw, out, nd')"
      using run g Some by (simp add: throwing_call_def phantom_call_def split_beta store_def)
    from effects_keep [OF _ _ _ this] spec Some moves have "keeps_stuck ?nd threw nd'" by simp
    with spec show ?thesis by (simp add: keeps_stuck_def)
  qed
qed

lemma timeout_keep:
  assumes ok: "objects_ok (phs nd)" and run: "throwing_timeout fails this i nd = (threw, out, nd')"
  shows "keeps_stuck nd threw nd'"
proof (cases "steps (phs nd) i")
  case None
  with ok run show ?thesis by (simp add: throwing_timeout_def keeps_stuck_def)
next
  case (Some w)
  with run have "throwing_effects fails i (snd (voting_timeout this (wp_obj w)))
      (store i w (fst (voting_timeout this (wp_obj w))) nd) = (threw, out, nd')"
    by (simp add: throwing_timeout_def split_beta store_def)
  from effects_keep [OF ok Some _ this] voting_timeout_moves [of "wp_obj w" this] show ?thesis by simp
qed

lemma apply_keep:
  assumes ok: "objects_ok (phs nd)" and i: "next_step (phs nd) \<noteq> - 1"
    and run: "throwing_apply fails cfg m nd = (threw, out, nd')"
  shows "keeps_stuck nd threw nd'"
proof -
  let ?i = "next_step (phs nd)"
  let ?f = "voting_start (thisNode cfg) \<lparr>cm_msg = m, cm_id = (thisNode cfg, next_mid nd)\<rparr> (nodesSet cfg)"
  let ?r0 = "(phs nd)\<lparr>next_step := ?i + 1\<rparr>"
  have suc: "k \<le> ?i \<Longrightarrow> k < ?i + 1" for k using word_less_Suc_not_max [OF i, of k] by simp
  have ok0: "objects_ok ?r0"
    using ok by (auto simp: objects_ok_def dest: suc intro!: suc intro: order.strict_implies_order)
  obtain wo r where g: "getPtr voting_new ?i ?r0 = (wo, r)" by fastforce
  note spec = getPtr_objects [OF ok0 i g]
  have "\<not> ?i < cur_step (phs nd)" and none: "steps (phs nd) ?i = None"
    using ok by (cases "steps (phs nd) ?i"; force simp: objects_ok_def)+
  with spec obtain w where w: "wo = Some w" by (cases wo) auto
  let ?nd = "nd\<lparr>next_mid := next_mid nd + 1, phs := r\<rparr>"
  have wp: "wp_obj w = voting_new" "wp_step w = ?i" "steps (phs ?nd) ?i = Some w"
    using spec w none by simp_all
  have eff: "throwing_effects fails ?i (snd (?f (wp_obj w))) (store ?i w (fst (?f (wp_obj w))) ?nd) = (threw, out, nd')"
    using run g w wp(2)
    by (simp add: throwing_apply_def genUniqueId_def nextId_def create_def get_def split_beta store_def)
  have mv: "voting_moves (wp_obj w) (fst (?f (wp_obj w)), snd (?f (wp_obj w)))"
    using voting_start_moves [of "wp_obj w"] wp(1) by (simp add: voting_new_def)
  have "objects_ok (phs ?nd)" using spec by simp
  from effects_keep [OF this wp(3) mv eff] have "keeps_stuck ?nd threw nd'" .
  moreover have "stuck_at (phs nd) = stuck_at ?r0" by (simp add: stuck_at_def)
  ultimately show ?thesis using spec by (simp add: keeps_stuck_def)
qed

lemma throwing_step_keep:
  assumes "throwing_step fails cfg nd threw nd'" and ok: "objects_ok (phs nd)"
  shows "keeps_stuck nd threw nd'"
  using assms(1)
proof cases
  case (applied m out)
  from apply_keep [OF ok applied] show ?thesis .
next
  case (vote i C src M out)
  from call_keep [OF ok vote(1) voting_vote_moves] vote(2) show ?thesis by simp
next
  case (commit i C out)
  from call_keep [OF ok commit(1) voting_commit_moves] commit(2) show ?thesis by simp
next
  case (timeout i out)
  from timeout_keep [OF ok timeout] show ?thesis .
qed

abbreviation throwing_run :: "('m \<Rightarrow> bool) \<Rightarrow> nodes_config \<Rightarrow> 'm node \<Rightarrow> 'm node \<Rightarrow> bool" where
  "throwing_run fails cfg \<equiv> (\<lambda>nd nd'. \<exists>threw. throwing_step fails cfg nd threw nd')\<^sup>*\<^sup>*"

interpretation throwing: step_system "\<lambda>nd. nd = node_new" "\<lambda>nd nd'. \<exists>threw. throwing_step fails cfg nd threw nd'"
    "\<lambda>nd. objects_ok (phs nd)" for fails cfg
proof unfold_locales
  fix s t :: "'a node"
  show "objects_ok (phs s)" if "s = node_new"
    using that by (simp add: objects_ok_def node_new_def phantoms_new_def)
  show "objects_ok (phs t)" if "objects_ok (phs s)" "\<exists>threw. throwing_step fails cfg s threw t"
    using that throwing_step_keep [of fails cfg s _ t] by (auto simp: keeps_stuck_def)
qed


lemma stuck_run:
  assumes "throwing_run fails cfg nd nd'" and "objects_ok (phs nd)" and "stuck_at (phs nd)"
  shows "objects_ok (phs nd') \<and> stuck_at (phs nd') \<and> executed nd' = executed nd \<and>
    cur_step (phs nd') = cur_step (phs nd)"
  using assms
proof (induction rule: rtranclp_induct)
  case (step nd1 nd2)
  then obtain threw where "throwing_step fails cfg nd1 threw nd2" by blast
  from throwing_step_keep [OF this] step show ?case by (simp add: keeps_stuck_def)
qed simp

section \<open>What an exception costs\<close>

text \<open>C11: An exception from a message that is executed stops the node for good: the current
  step was not left, nobody completes it a second time, and whatever is applied, heard or
  timed out afterwards, the node executes nothing any more, neither the rest of that step nor
  any later one. As every node executes the same messages, this happens to all of them.\<close>

theorem exception_stops_node:
  assumes "throwing_run fails cfg node_new nd" and "throwing_step fails cfg nd True nd'"
    and "throwing_run fails cfg nd' nd''"
  shows "executed nd'' = executed nd' \<and> cur_step (phs nd'') = cur_step (phs nd')"
proof -
  have "objects_ok (phs nd)" by (rule throwing.inv_reachable [OF refl assms(1)])
  from throwing_step_keep [OF assms(2) this] have "objects_ok (phs nd')" "stuck_at (phs nd')"
    by (simp_all add: keeps_stuck_def)
  from stuck_run [OF assms(3) this] show ?thesis by simp
qed

text \<open>Node 2 of two executes the message 7 of node 1, which throws, and then hears message 8,
  decided at the next step.\<close>

abbreviation boom :: "nat \<Rightarrow> bool" where "boom \<equiv> (\<lambda>m. m = 7)"

definition boom_carry :: "nat carry_msg" where "boom_carry = \<lparr>cm_msg = 7, cm_id = (1, 0)\<rparr>"
definition later_carry :: "nat carry_msg" where "later_carry = \<lparr>cm_msg = 8, cm_id = (1, 1)\<rparr>"

definition boom_node :: "nat node" where
  "boom_node = snd (snd (throwing_deliver boom 2 (VoteMsg 0 [boom_carry] 1 {1, 2}) node_new))"

definition later_node :: "nat node" where
  "later_node = snd (snd (throwing_deliver boom 2 (VoteMsg 1 [later_carry] 1 {1, 2}) boom_node))"

lemma exception_stops_node_witness:
  "fst (throwing_deliver boom 2 (VoteMsg 0 [boom_carry] 1 {1, 2}) node_new) \<and>
   executed later_node = [(0, [])] \<and> cur_step (phs later_node) = 0"
proof -
  let ?cfg = "\<lparr>cfg_this = 2, cfg_nodes = []\<rparr>"
  have t: "fst (throwing_deliver boom 2 (VoteMsg 0 [boom_carry] 1 {1, 2}) node_new)"
    "\<not> fst (throwing_deliver boom 2 (VoteMsg 1 [later_carry] 1 {1, 2}) boom_node)"
    "executed boom_node = [(0, [])]" "cur_step (phs boom_node) = 0" by code_simp+
  have 1: "throwing_step boom ?cfg node_new True boom_node"
    by (rule throwing_step.vote [where i = 0 and C = "[boom_carry]" and src = 1 and M = "{1, 2}"
        and out = "fst (snd (throwing_deliver boom 2 (VoteMsg 0 [boom_carry] 1 {1, 2}) node_new))"])
      (use t(1) in \<open>simp_all add: thisNode_def boom_node_def prod_eq_iff\<close>)
  have "throwing_step boom ?cfg boom_node False later_node"
    by (rule throwing_step.vote [where i = 1 and C = "[later_carry]" and src = 1 and M = "{1, 2}"
        and out = "fst (snd (throwing_deliver boom 2 (VoteMsg 1 [later_carry] 1 {1, 2}) boom_node))"])
      (use t(2) in \<open>simp_all add: thisNode_def later_node_def prod_eq_iff\<close>)
  then have "throwing_run boom ?cfg boom_node later_node" by blast
  from exception_stops_node [OF _ 1 this] t show ?thesis by simp
qed

end
