(* ===== verification/Scoped.thy ===== *)
theory Scoped
  imports Replob_Prelude
begin

text \<open>
  Code that may end with an exception, and the objects whose destructors run on the way out:
  \<open>tryCatchFinally\<close> and its relatives (\<open>src/core.cpp\<close>), the cleanup guards of
  \<open>include/synca/once/modifiers.h\<close>, the wrapper of a journey's handler (\<open>src/journey.cpp\<close>), the
  start of a coroutine (\<open>src/coro.cpp\<close>) and of a thread (\<open>src/thread_pool.cpp\<close>). User code can
  throw what is not a \<open>std::exception\<close>; an exception that leaves a \<open>noexcept\<close> function, and a
  destructor is one, ends the process.
\<close>

section \<open>Code and how it ends\<close>

datatype thrown = Std exn | Foreign string

datatype 'a ended = Normal 'a | Thrown thrown | Died

type_synonym ('s, 'a) code = "'s \<Rightarrow> 'a ended \<times> 's"

definition noexcept :: "('s, 'a) code \<Rightarrow> ('s, 'a) code" where
  "noexcept f s = (case f s of (Thrown e, s1) \<Rightarrow> (Died, s1) | r \<Rightarrow> r)"

text \<open>A scope that ends with \<open>r\<close> in state \<open>s\<close>, and a destructor that runs then.\<close>

definition at_exit :: "('s, unit) code \<Rightarrow> 'a ended \<times> 's \<Rightarrow> 'a ended \<times> 's" where
  "at_exit dtor p =
     (case p of
        (Died, s) \<Rightarrow> (Died, s)
      | (r, s) \<Rightarrow> (case noexcept dtor s of (Died, s1) \<Rightarrow> (Died, s1) | (_, s1) \<Rightarrow> (r, s1)))"

section \<open>Finally\<close>

text \<open>\<open>~Finally\<close> swallows what its action throws; \<open>~Finally2\<close> and \<open>~CleanupGuard\<close> do not.\<close>

definition finally_dtor :: "('s, unit) code \<Rightarrow> ('s, unit) code" where
  "finally_dtor f s = (case f s of (Thrown e, s1) \<Rightarrow> (Normal (), s1) | r \<Rightarrow> r)"

definition tryCatchFinally ::
  "('s, unit) code \<Rightarrow> ('s, unit) code \<Rightarrow> ('s, unit) code \<Rightarrow> ('s, unit) code" where
  "tryCatchFinally fTry fCatch fFinally s =
     at_exit (finally_dtor fFinally)
       (case fTry s of
          (Thrown e, s1) \<Rightarrow>
            (case fCatch s1 of (Normal _, s2) \<Rightarrow> (Thrown e, s2) | r \<Rightarrow> r)
        | r \<Rightarrow> r)"

definition tryFinally :: "('s, unit) code \<Rightarrow> ('s, unit) code \<Rightarrow> ('s, unit) code" where
  "tryFinally fTry fFinally s = at_exit (finally_dtor fFinally) (fTry s)"

definition finally2_dtor :: "('s, unit) code \<Rightarrow> ('s, unit) code" where
  "finally2_dtor f = noexcept f"

definition tryFinally2 :: "('s, unit) code \<Rightarrow> ('s, unit) code \<Rightarrow> ('s, unit) code" where
  "tryFinally2 fTry fFinally s = at_exit (finally2_dtor fFinally) (fTry s)"

text \<open>\<open>MCleanup { g }\<close> and the rest of its scope.\<close>

definition with_cleanup :: "('s, unit) code \<Rightarrow> ('s, 'a) code \<Rightarrow> ('s, 'a) code" where
  "with_cleanup g body s = at_exit g (body s)"

fun with_cleanups :: "('s, unit) code list \<Rightarrow> ('s, 'a) code \<Rightarrow> ('s, 'a) code" where
  "with_cleanups [] body = body"
| "with_cleanups (g # gs) body = with_cleanup g (with_cleanups gs body)"

section \<open>Handlers\<close>

text \<open>What \<open>coroHandler\<close> makes of the handler of a journey: a \<open>std::exception\<close> is only logged.\<close>

definition coroHandler :: "('s, unit) code \<Rightarrow> ('s, unit) code" where
  "coroHandler handler s = (case handler s of (Thrown (Std e), s1) \<Rightarrow> (Normal (), s1) | r \<Rightarrow> r)"

definition starter0 :: "('s, unit) code \<Rightarrow> ('s, unit) code" where
  "starter0 handler = noexcept handler"

text \<open>A thread of the pool: its number and its name are set before the handler runs.\<close>

record thread_id =
  t_number :: int
  t_name :: string

definition createThread ::
  "(thread_id \<Rightarrow> ('s, unit) code) \<Rightarrow> int \<Rightarrow> string \<Rightarrow> ('s, unit) code" where
  "createThread handler n name =
     noexcept (\<lambda>s. case handler \<lparr>t_number = n + 1, t_name = name\<rparr> s of
                    (Thrown (Std e), s1) \<Rightarrow> (Normal (), s1) | r \<Rightarrow> r)"

section \<open>What is run on the way out\<close>

definition quiet_code :: "('s, unit) code \<Rightarrow> bool" where
  "quiet_code f \<longleftrightarrow> (\<forall>s. fst (f s) = Normal ())"

lemma at_exit_quiet:
  assumes "quiet_code g" and "fst p \<noteq> Died"
  shows "at_exit g p = (fst p, snd (g (snd p)))"
proof -
  obtain r s where p: "p = (r, s)" by (cases p)
  obtain s1 where g: "g s = (Normal (), s1)"
    using assms(1) by (metis (full_types) quiet_code_def prod.collapse)
  from assms(2) show ?thesis by (cases r) (simp_all add: at_exit_def noexcept_def p g)
qed

lemma finally_dtor_quiet:
  assumes "\<And>s. fst (f s) \<noteq> Died"
  shows "quiet_code (finally_dtor f)"
  unfolding quiet_code_def
proof
  fix s
  obtain r s1 where f: "f s = (r, s1)" by (cases "f s")
  with assms [of s] show "fst (finally_dtor f s) = Normal ()"
    by (cases r) (simp_all add: finally_dtor_def f)
qed

lemma finally2_dtor_quiet:
  assumes "quiet_code f"
  shows "quiet_code (finally2_dtor f)"
  unfolding quiet_code_def
proof
  fix s
  obtain s1 where "f s = (Normal (), s1)"
    using assms by (metis (full_types) quiet_code_def prod.collapse)
  then show "fst (finally2_dtor f s) = Normal ()" by (simp add: finally2_dtor_def noexcept_def)
qed

lemma finally2_dtor_state: "snd (finally2_dtor f s) = snd (f s)"
  by (simp add: finally2_dtor_def noexcept_def split: prod.split ended.split)

text \<open>The action of \<open>tryCatchFinally\<close> runs once on every way out, after the handler of the
  exception; the exception goes on, unless the handler throws another.\<close>

lemma tryCatchFinally_runs:
  assumes "\<And>s. fst (g s) \<noteq> Died" and "fst (f s) \<noteq> Died" and "\<And>s. fst (c s) \<noteq> Died"
  shows "snd (tryCatchFinally f c g s) =
      snd (g (if \<exists>e. fst (f s) = Thrown e then snd (c (snd (f s))) else snd (f s)))"
    and "fst (f s) = Normal () \<Longrightarrow> fst (tryCatchFinally f c g s) = Normal ()"
    and "fst (f s) = Thrown e \<Longrightarrow> quiet_code c \<Longrightarrow> fst (tryCatchFinally f c g s) = Thrown e"
proof -
  have q: "quiet_code (finally_dtor g)" by (rule finally_dtor_quiet [OF assms(1)])
  have st: "snd (finally_dtor g t) = snd (g t)" for t
    by (simp add: finally_dtor_def split: prod.split ended.split)
  obtain r s1 where f: "f s = (r, s1)" by (cases "f s")
  obtain r2 s2 where c: "c s1 = (r2, s2)" by (cases "c s1")
  have "r2 \<noteq> Died" using assms(3) [of s1] c by simp
  with assms(2) f c show "snd (tryCatchFinally f c g s) =
      snd (g (if \<exists>e. fst (f s) = Thrown e then snd (c (snd (f s))) else snd (f s)))"
    by (cases r; cases r2) (simp_all add: tryCatchFinally_def at_exit_quiet [OF q] st)
  show "fst (f s) = Normal () \<Longrightarrow> fst (tryCatchFinally f c g s) = Normal ()"
    using f by (simp add: tryCatchFinally_def at_exit_quiet [OF q])
  show "fst (tryCatchFinally f c g s) = Thrown e" if "fst (f s) = Thrown e" "quiet_code c"
  proof -
    have "r2 = Normal ()" using that(2) c by (metis quiet_code_def fst_conv)
    with that f c show ?thesis by (simp add: tryCatchFinally_def at_exit_quiet [OF q])
  qed
qed

text \<open>Cleanup guards run in the reverse of the order they were made, each once, whether the
  scope returns or throws.\<close>

lemma with_cleanups_lifo:
  assumes "\<forall>g \<in> set gs. quiet_code g" and "fst (body s) \<noteq> Died"
  shows "with_cleanups gs body s = (fst (body s), fold (\<lambda>g s. snd (g s)) (rev gs) (snd (body s)))"
  using assms
proof (induction gs)
  case (Cons g gs)
  then show ?case by (simp add: with_cleanup_def at_exit_quiet)
qed simp

text \<open>The child of an \<open>Awaiter\<close>: its counter is decremented exactly once, whether its handler
  returns or throws, and the coroutine ends normally; what is not a \<open>std::exception\<close>
  ends the process.\<close>

lemma child_runs_finally:
  assumes "quiet_code dec" and "fst (h s) = Normal () \<or> (\<exists>e. fst (h s) = Thrown (Std e))"
  shows "starter0 (coroHandler (tryFinally2 h dec)) s = (Normal (), snd (dec (snd (h s))))"
proof -
  have "fst (h s) \<noteq> Died" using assms(2) by auto
  then have "tryFinally2 h dec s = (fst (h s), snd (dec (snd (h s))))"
    by (simp add: tryFinally2_def at_exit_quiet [OF finally2_dtor_quiet [OF assms(1)]] finally2_dtor_state)
  with assms(2) show ?thesis by (auto simp: starter0_def noexcept_def coroHandler_def)
qed

lemma foreign_ends_process:
  "fst (h s) = Thrown (Foreign x) \<Longrightarrow> fst (starter0 (coroHandler h) s) = Died"
  by (cases "h s") (simp add: starter0_def noexcept_def coroHandler_def)

end
