(* ===== verification/Adapters.thy ===== *)
theory Adapters
  imports Mutex Nodes
begin

text \<open>
  Objects behind adapters (\<open>include/synca/adapter.h\<close>, \<open>include/synca/once/broadcast.h\<close>). An
  \<open>Adapter\<close> turns a call of a method into a call of \<open>call\<close> of its base with the method as a
  function: \<open>BaseValue\<close> and \<open>BaseRef\<close> run it on the object, \<open>BaseLocker\<close> first takes a lock,
  \<open>BaseObjector\<close> makes a closure of it for the instance of the node that runs it.
\<close>

section \<open>The bases without a lock\<close>

text \<open>A method: arguments and object to result and object. \<open>BaseValue\<close> holds the object.\<close>

definition value_call :: "('o \<Rightarrow> 'v \<Rightarrow> 'r \<times> 'o) \<Rightarrow> 'v \<Rightarrow> 'o \<Rightarrow> 'r \<times> 'o" where
  "value_call f v obj = f obj v"

text \<open>\<open>BaseRef\<close> refers to an object of a store.\<close>

definition ref_call :: "nat \<Rightarrow> ('o \<Rightarrow> 'v \<Rightarrow> 'r \<times> 'o) \<Rightarrow> 'v \<Rightarrow> (nat \<Rightarrow> 'o) \<Rightarrow> 'r \<times> (nat \<Rightarrow> 'o)" where
  "ref_call r f v st = (let (res, obj) = f (st r) v in (res, st(r := obj)))"

text \<open>\<open>DECL_FN_ADAPTER\<close>: a method of the adapter gives the method of the type to \<open>call\<close> of its base.
  Over a value or a reference it does what the method does, and to no other object.\<close>

definition adapter_method ::
  "(('o \<Rightarrow> 'v \<Rightarrow> 'r \<times> 'o) \<Rightarrow> 'v \<Rightarrow> 's \<Rightarrow> 'r \<times> 's) \<Rightarrow> ('o \<Rightarrow> 'v \<Rightarrow> 'r \<times> 'o) \<Rightarrow> 'v \<Rightarrow> 's \<Rightarrow> 'r \<times> 's" where
  "adapter_method call m v s = call (\<lambda>t x. m t x) v s"

lemma adapter_transparent:
  "adapter_method value_call m v obj = m obj v"
  "fst (adapter_method (ref_call r) m v st) = fst (m (st r) v)"
  "snd (adapter_method (ref_call r) m v st) = st(r := snd (m (st r) v))"
  by (simp_all add: adapter_method_def value_call_def ref_call_def split_beta)

text \<open>The closure of \<open>BaseObjector\<close>, and its three bases.\<close>

definition objector_closure :: "('v \<Rightarrow> 'o \<Rightarrow> 'o) \<Rightarrow> 'v \<Rightarrow> 'o \<Rightarrow> 'o" where
  "objector_closure f v = (\<lambda>inst. f v inst)"

definition returner_call :: "'f \<Rightarrow> 'f" where
  "returner_call f = f"

definition invoker_call :: "('o \<Rightarrow> 'o) \<Rightarrow> 'o \<Rightarrow> 'o" where
  "invoker_call f inst = f inst"

definition broadcastObjector ::
  "(('o \<Rightarrow> 'o) \<Rightarrow> 'p) \<Rightarrow> ('v \<Rightarrow> 'o \<Rightarrow> 'o) \<Rightarrow> 'v \<Rightarrow> nodes_config \<Rightarrow> (node_id \<times> 'p) list" where
  "broadcastObjector packet f v cfg = broadcast packet (objector_closure f v) cfg"

text \<open>What the nodes do with the packets: they run the closure on their own instance.\<close>

definition deliver_all :: "('p \<Rightarrow> 'o \<Rightarrow> 'o) \<Rightarrow> (node_id \<times> 'p) list \<Rightarrow> (node_id \<Rightarrow> 'o) \<Rightarrow> node_id \<Rightarrow> 'o" where
  "deliver_all unpack ps insts = fold (\<lambda>(n, p) insts. insts(n := unpack p (insts n))) ps insts"

lemma deliver_all_simps [simp]:
  "deliver_all unpack [] insts = insts"
  "deliver_all unpack ((n, p) # ps) insts = deliver_all unpack ps (insts(n := unpack p (insts n)))"
  by (simp_all add: deliver_all_def)

lemma deliver_all_other: "n \<notin> fst ` set ps \<Longrightarrow> deliver_all unpack ps insts n = insts n"
  by (induction ps arbitrary: insts) auto

lemma deliver_all_once:
  "distinct (map fst ps) \<Longrightarrow> (n, p) \<in> set ps \<Longrightarrow> deliver_all unpack ps insts n = unpack p (insts n)"
proof (induction ps arbitrary: insts)
  case (Cons q ps)
  obtain m p' where q: "q = (m, p')" by (cases q)
  show ?case
  proof (cases "m = n")
    case True
    with Cons.prems q have "n \<notin> fst ` set ps" by auto
    moreover from this Cons.prems q True have "p' = p" by (force simp: rev_image_eqI)
    ultimately show ?thesis using q True by (simp add: deliver_all_other)
  next
    case False
    with Cons.prems q have "(n, p) \<in> set ps" by auto
    with Cons.IH Cons.prems(1) q False show ?thesis by simp
  qed
qed simp

text \<open>A broadcast method runs on the instance of every other node, and not on the own one.\<close>

lemma broadcastObjector_runs:
  assumes "\<And>g. unpack (packet g) = g" and "distinct (map fst (cfg_nodes cfg))"
  shows "deliver_all unpack (broadcastObjector packet f v cfg) insts n =
    (if n \<in> set (otherNodes cfg) then f v (insts n) else insts n)"
proof -
  let ?ps = "broadcastObjector packet f v cfg"
  have ps: "map fst ?ps = otherNodes cfg" "\<And>m q. (m, q) \<in> set ?ps \<Longrightarrow> q = packet (objector_closure f v)"
    by (auto simp: broadcastObjector_def broadcast_def Let_def comp_def)
  have "distinct (map fst ?ps)"
    using assms(2) by (simp add: ps(1) otherNodes_def cfg_ids_def)
  then show ?thesis
  proof (cases "n \<in> set (otherNodes cfg)")
    case True
    then obtain q where q: "(n, q) \<in> set ?ps" unfolding ps(1) [symmetric] by auto
    have "deliver_all unpack ?ps insts n = unpack (packet (objector_closure f v)) (insts n)"
      using deliver_all_once [OF \<open>distinct (map fst ?ps)\<close> q, of unpack insts] ps(2) [OF q] by simp
    with True show ?thesis unfolding assms(1) by (simp add: objector_closure_def)
  next
    case False
    then have "n \<notin> fst ` set ?ps" using ps(1) by (metis set_map)
    from deliver_all_other [OF this] False show ?thesis by simp
  qed
qed

section \<open>The base with a lock\<close>

text \<open>
  Journeys that call methods of one object through \<open>BaseLocker\<close> with a \<open>Mutex\<close>. A method makes
  any number of accesses to the object, one after the other, and other journeys may run in
  between. Calls are numbered when they get the lock; \<open>trace\<close> has the calls of the accesses made.
\<close>

record 'o guarded =
  gmx :: msys
  obj :: 'o
  call_of :: "nat \<Rightarrow> nat"
  calls :: nat
  trace :: "nat list"

definition guarded_start :: "'o guarded \<Rightarrow> bool" where
  "guarded_start s \<longleftrightarrow> msys_start (gmx s) \<and> calls s = 0 \<and> trace s = []"

inductive guarded_step :: "'o guarded \<Rightarrow> 'o guarded \<Rightarrow> bool" where
  lock: "\<lbrakk>msys_step (gmx s) m; mode (gmx s) j \<noteq> MIn; inside m = insert j (inside (gmx s))\<rbrakk> \<Longrightarrow>
    guarded_step s (s\<lparr>gmx := m, call_of := (call_of s)(j := calls s), calls := Suc (calls s)\<rparr>)"
| access: "mode (gmx s) j = MIn \<Longrightarrow>
    guarded_step s (s\<lparr>obj := f (obj s), trace := trace s @ [call_of s j]\<rparr>)"
| rest: "\<lbrakk>msys_step (gmx s) m; inside m \<subseteq> inside (gmx s)\<rbrakk> \<Longrightarrow> guarded_step s (s\<lparr>gmx := m\<rparr>)"

text \<open>\<open>rest\<close> has the end of a call, by a return or an exception: \<open>~Lock\<close> unlocks.\<close>

definition guarded_inv :: "'o guarded \<Rightarrow> bool" where
  "guarded_inv s \<longleftrightarrow> msys_inv (gmx s) \<and> distinct (remdups_adj (trace s)) \<and>
     (\<forall>c \<in> set (trace s). c < calls s) \<and>
     (\<forall>j \<in> inside (gmx s). call_of s j < calls s \<and>
        (call_of s j \<in> set (trace s) \<longrightarrow> last (trace s) = call_of s j))"

lemma remdups_adj_snoc:
  "xs \<noteq> [] \<Longrightarrow> remdups_adj (xs @ [x]) = (if last xs = x then remdups_adj xs else remdups_adj xs @ [x])"
  by (induction xs rule: remdups_adj.induct) auto

lemma guarded_step_inv:
  assumes "guarded_inv s" and "guarded_step s t"
  shows "guarded_inv t"
  using assms(2)
proof cases
  case (lock m j)
  have m: "msys_inv m" using lock(2) assms(1) by (auto simp: guarded_inv_def intro: msys_step_inv)
  have only: "k = j" if "k \<in> inside m" for k
    using m that lock(4) by (auto simp: msys_inv_def)
  have old: "\<forall>c \<in> set (trace s). c < calls s" "distinct (remdups_adj (trace s))"
    using assms(1) by (simp_all add: guarded_inv_def)
  then have "\<forall>c \<in> set (trace s). c < Suc (calls s)" "calls s \<notin> set (trace s)" by auto
  moreover have "call_of t k = calls s" if "k \<in> inside m" for k
    using only [OF that] by (simp add: lock(1))
  moreover have "gmx t = m" "trace t = trace s" "calls t = Suc (calls s)" by (simp_all add: lock(1))
  ultimately show ?thesis using old(2) m unfolding guarded_inv_def by simp
next
  case (access j f)
  have j: "j \<in> inside (gmx s)" using access(2) by (simp add: inside_iff)
  have only: "k = j" if "k \<in> inside (gmx s)" for k
    using assms(1) that j by (auto simp: guarded_inv_def msys_inv_def)
  have "distinct (remdups_adj (trace s @ [call_of s j]))"
    using assms(1) j by (cases "trace s = []") (auto simp: remdups_adj_snoc guarded_inv_def)
  moreover have "call_of t k = call_of s j" if "k \<in> inside (gmx s)" for k
    using only [OF that] by (simp add: access(1))
  moreover have "gmx t = gmx s" "trace t = trace s @ [call_of s j]" "calls t = calls s"
    by (simp_all add: access(1))
  ultimately show ?thesis using assms(1) j unfolding guarded_inv_def by auto
next
  case (rest m)
  then show ?thesis using assms(1) by (auto simp: guarded_inv_def intro: msys_step_inv)
qed

lemma guarded_start_inv: "guarded_start s \<Longrightarrow> guarded_inv s"
  by (auto simp: guarded_start_def guarded_inv_def msys_start_def inside_def intro: mutex.inv_start)

interpretation guarded: step_system guarded_start guarded_step guarded_inv
  by unfold_locales (auto intro: guarded_start_inv guarded_step_inv)

lemma contiguous_groups:
  assumes "distinct (remdups_adj xs)" and "i < j" "j < k" "k < length xs" "xs ! i = xs ! k"
  shows "xs ! j = xs ! k"
  using assms
proof (induction xs arbitrary: k rule: rev_induct)
  case (snoc x xs)
  show ?case
  proof (cases "k < length xs")
    case True
    have "distinct (remdups_adj xs)"
      using snoc.prems(1,4) True by (cases "xs = []") (auto simp: remdups_adj_snoc split: if_splits)
    from snoc.IH [OF this snoc.prems(2,3) True] snoc.prems True show ?thesis by (simp add: nth_append)
  next
    case False
    with snoc.prems have k: "k = length xs" "xs ! i = x" "i < length xs" "j < length xs" "xs \<noteq> []"
      by (auto simp: nth_append)
    then have "x \<in> set xs" by (metis nth_mem)
    with snoc.prems(1) k(5) have x: "last xs = x" "distinct (remdups_adj xs)"
      by (auto simp: remdups_adj_snoc split: if_splits)
    have "xs ! j = x"
    proof (cases "j = length xs - 1")
      case True
      with x(1) k(5) show ?thesis by (simp add: last_conv_nth)
    next
      case False
      with k snoc.prems(2) have "xs ! j = xs ! (length xs - 1)"
        using snoc.IH [OF x(2), of "length xs - 1"] x(1) by (simp add: last_conv_nth)
      with x(1) k(5) show ?thesis by (simp add: last_conv_nth)
    qed
    with k show ?thesis by (simp add: nth_append)
  qed
qed simp

text \<open>C25: Calls of an object behind \<open>BaseLocker\<close> are atomic: however journeys suspend, are cancelled
  or time out, and however the lock passes between them, the accesses a call makes to the object
  are never interleaved with those of another call.\<close>

theorem locked_calls_atomic:
  assumes "guarded_start s0" and "guarded_step\<^sup>*\<^sup>* s0 s"
    and "i < j" "j < k" "k < length (trace s)" "trace s ! i = trace s ! k"
  shows "trace s ! j = trace s ! k"
proof -
  have "guarded_inv s" by (rule guarded.inv_reachable [OF assms(1,2)])
  then have "distinct (remdups_adj (trace s))" by (simp add: guarded_inv_def)
  from contiguous_groups [OF this assms(3-6)] show ?thesis .
qed

definition guarded_first :: "nat guarded" where
  "guarded_first = \<lparr>gmx = \<lparr>mx = mutex_new, ws = \<lambda>_. js_initial, mode = \<lambda>_. MOut\<rparr>, obj = 0,
     call_of = \<lambda>_. 0, calls = 0, trace = []\<rparr>"

definition guarded_locked :: "nat list \<Rightarrow> nat \<Rightarrow> nat guarded" where
  "guarded_locked l n = guarded_first\<lparr>
     gmx := set_mode 1 MIn ((gmx guarded_first)\<lparr>mx := \<lparr>acquired = True, doers = []\<rparr>\<rparr>),
     call_of := (\<lambda>_. 0)(1 := 0), calls := 1, trace := l, obj := n\<rparr>"

lemma locked_calls_atomic_witness:
  "trace (guarded_locked [0, 0, 0] 3) ! 1 = trace (guarded_locked [0, 0, 0] 3) ! 2"
proof -
  have start: "guarded_start guarded_first"
    by (simp add: guarded_start_def guarded_first_def msys_start_def js_bits)
  let ?m = "set_mode 1 MIn ((gmx guarded_first)\<lparr>mx := \<lparr>acquired = True, doers = []\<rparr>\<rparr>)"
  have "msys_step (gmx guarded_first) ?m"
    by (rule msys_step.lock) (simp_all add: guarded_first_def mutex_lock_def mutex_new_def q_new_def)
  moreover have "mode (gmx guarded_first) 1 \<noteq> MIn" "inside ?m = insert 1 (inside (gmx guarded_first))"
    by (simp_all add: guarded_first_def inside_def set_mode_def Collect_conv_if)
  ultimately have "guarded_step guarded_first (guarded_first\<lparr>gmx := ?m,
      call_of := (call_of guarded_first)(1 := calls guarded_first), calls := Suc (calls guarded_first)\<rparr>)"
    by (rule guarded_step.lock)
  then have 1: "guarded_step guarded_first (guarded_locked [] 0)"
    by (simp add: guarded_locked_def guarded_first_def)
  have in1: "mode (gmx (guarded_locked l n)) 1 = MIn" for l n
    by (simp add: guarded_locked_def set_mode_def)
  have acc: "guarded_step (guarded_locked l n) (guarded_locked (l @ [0]) (Suc n))" for l n
    using guarded_step.access [OF in1 [of l n], of Suc] by (simp add: guarded_locked_def guarded_first_def)
  from 1 acc [of "[]" 0] acc [of "[0]" 1] acc [of "[0, 0]" 2]
  have "guarded_step\<^sup>*\<^sup>* guarded_first (guarded_locked [0, 0, 0] 3)"
    by (simp add: numeral_eq_Suc)
  from locked_calls_atomic [OF start this, of 0 1 2] show ?thesis by (simp add: guarded_locked_def)
qed

end
