(* ===== verification/Display.thy ===== *)
theory Display
  imports JourneyState "HOL-Library.Signed_Division"
begin

text \<open>
  What the program writes about its state: the word of a journey (\<open>stateToString\<close> in
  \<open>src/journey.cpp\<close>), sets, vectors and carried messages (\<open>include/synca/once/replob.h\<close>,
  \<open>src/replob.cpp\<close>). A log is only of use when it can be read back; it can.
\<close>

section \<open>Numbers\<close>

text \<open>\<open>std::to_string\<close> and the stream operators of the standard library: decimal.\<close>

definition digit :: "nat \<Rightarrow> char" where "digit d = char_of (48 + d)"

fun digits :: "nat \<Rightarrow> string" where
  "digits n = (if n < 10 then [digit n] else digits (n div 10) @ [digit (n mod 10)])"

declare digits.simps [simp del]

definition show_int :: "int \<Rightarrow> string" where
  "show_int i = (if i < 0 then CHR ''-'' # digits (nat (- i)) else digits (nat i))"

definition read_nat :: "string \<Rightarrow> nat" where
  "read_nat ds = fold (\<lambda>c n. 10 * n + (of_char c - 48)) ds 0"

definition read_int :: "string \<Rightarrow> int" where
  "read_int s = (case s of c # ds \<Rightarrow> if c = CHR ''-'' then - int (read_nat ds) else int (read_nat s) | [] \<Rightarrow> 0)"

lemma digit_value: "d < 10 \<Longrightarrow> of_char (digit d) - 48 = (d :: nat)"
  by (simp add: digit_def)

lemma digit_code: "d < 10 \<Longrightarrow> of_char (digit d) = (48 + d :: nat)"
  by (simp add: digit_def)

lemma read_nat_digits: "read_nat (digits n) = n"
proof (induction n rule: digits.induct)
  case (1 n)
  show ?case
  proof (cases "n < 10")
    case True
    then show ?thesis by (simp add: digits.simps [of n] read_nat_def digit_value)
  next
    case False
    then have "read_nat (digits n) = 10 * read_nat (digits (n div 10)) + n mod 10"
      by (simp add: digits.simps [of n] read_nat_def digit_value)
    with 1 False show ?thesis by simp
  qed
qed

lemma digits_decimal: "c \<in> set (digits n) \<Longrightarrow> 48 \<le> (of_char c :: nat) \<and> (of_char c :: nat) < 58"
proof (induction n rule: digits.induct)
  case (1 n)
  then show ?case
    by (cases "n < 10") (auto simp: digits.simps [of n] digit_code)
qed

lemma digits_nonempty: "digits n \<noteq> []"
  by (simp add: digits.simps [of n])

lemma read_show_int: "read_int (show_int i) = i"
proof (cases "i < 0")
  case True
  then show ?thesis by (simp add: show_int_def read_int_def read_nat_digits)
next
  case False
  obtain c ds where d: "digits (nat i) = c # ds" using digits_nonempty by (cases "digits (nat i)") auto
  with digits_decimal [of c "nat i"] have "c \<noteq> CHR ''-''" by auto
  with False d show ?thesis by (simp add: show_int_def read_int_def) (simp flip: d add: read_nat_digits)
qed

lemma show_int_chars: "c \<in> set (show_int i) \<Longrightarrow> c \<noteq> CHR ''|'' \<and> c \<noteq> CHR '',''"
  using digits_decimal [of c] by (auto simp: show_int_def split: if_splits)

section \<open>Splitting\<close>

fun split_on :: "char \<Rightarrow> string \<Rightarrow> string list" where
  "split_on c [] = [[]]"
| "split_on c (x # xs) =
     (if x = c then [] # split_on c xs
      else (case split_on c xs of y # ys \<Rightarrow> (x # y) # ys | [] \<Rightarrow> [[x]]))"

lemma split_on_nonempty: "split_on c xs \<noteq> []"
  by (cases xs) (auto split: list.split)

lemma split_on_append:
  "c \<notin> set a \<Longrightarrow> split_on c (a @ xs) = (a @ hd (split_on c xs)) # tl (split_on c xs)"
proof (induction a)
  case Nil
  then show ?case using split_on_nonempty [of c xs] by simp
qed auto

section \<open>The word of a journey\<close>

definition show_flag :: "jstate \<Rightarrow> jstate \<Rightarrow> string \<Rightarrow> string" where
  "show_flag s f name = (if f AND s = 0 then [] else ''|'' @ name)"

definition stateToString :: "jstate \<Rightarrow> string" where
  "stateToString s =
     show_int (sint (s AND MaskCounter) sdiv sint ValueCounter) @
     show_flag s FlagEntered ''entered'' @ show_flag s FlagEventsEnabled ''enabled'' @
     show_flag s FlagDone ''done'' @ show_flag s FlagCancelled ''cancelled'' @
     show_flag s FlagTimedout ''timedout''"

definition statesToString :: "jstate \<Rightarrow> jstate \<Rightarrow> string" where
  "statesToString old s = stateToString s @ '' <: '' @ stateToString old"

text \<open>Reading a printed word.\<close>

definition read_flag :: "string list \<Rightarrow> string \<Rightarrow> jstate \<Rightarrow> jstate" where
  "read_flag names name f = (if name \<in> set names then f else 0)"

definition read_state :: "string \<Rightarrow> jstate" where
  "read_state str =
     (let parts = split_on CHR ''|'' str; names = tl parts
      in word_of_int (read_int (hd parts) * 32) OR read_flag names ''entered'' FlagEntered OR
         read_flag names ''enabled'' FlagEventsEnabled OR read_flag names ''done'' FlagDone OR
         read_flag names ''cancelled'' FlagCancelled OR read_flag names ''timedout'' FlagTimedout)"

lemma counter_exact: "sint (s AND MaskCounter) sdiv sint ValueCounter * 32 = sint (s AND MaskCounter)"
proof -
  have "take_bit 5 (sint (s AND MaskCounter)) = 0"
    by (rule bit_eqI) (auto simp: bit_take_bit_iff bit_sint_iff bit_and_iff MaskCounter_bits)
  then have d: "32 dvd sint (s AND MaskCounter)" by (simp add: take_bit_eq_mod dvd_eq_mod_eq_0)
  have "sint ValueCounter = 32" by (simp add: ValueCounter_def)
  moreover obtain q where q: "sint (s AND MaskCounter) = 32 * q" using d by (elim dvdE)
  moreover have "32 * q sdiv 32 = q"
    by (simp add: signed_divide_int_def abs_mult sgn_mult sgn_mult_abs)
  ultimately show ?thesis by simp
qed

lemma show_flag_bits:
  "show_flag s FlagEntered n = (if entered s then CHR ''|'' # n else [])"
  "show_flag s FlagEventsEnabled n = (if enabled s then CHR ''|'' # n else [])"
  "show_flag s FlagDone n = (if is_done s then CHR ''|'' # n else [])"
  "show_flag s FlagCancelled n = (if cancelled s then CHR ''|'' # n else [])"
  "show_flag s FlagTimedout n = (if timedout s then CHR ''|'' # n else [])"
  by (simp_all add: show_flag_def flag_test and.commute [of _ s])

lemma read_flags:
  assumes "CHR ''|'' \<notin> set a"
  shows "split_on CHR ''|''
    (a @ (if e then ''|entered'' else []) @ (if n then ''|enabled'' else []) @ (if d then ''|done'' else []) @
         (if c then ''|cancelled'' else []) @ (if t then ''|timedout'' else [])) =
    a # (if e then [''entered''] else []) @ (if n then [''enabled''] else []) @ (if d then [''done''] else []) @
         (if c then [''cancelled''] else []) @ (if t then [''timedout''] else [])"
  unfolding split_on_append [OF assms] by (cases e; cases n; cases d; cases c; cases t; simp)

lemma word_parts:
  "s = (s AND MaskCounter) OR (if entered s then FlagEntered else 0) OR (if enabled s then FlagEventsEnabled else 0) OR
     (if is_done s then FlagDone else 0) OR (if cancelled s then FlagCancelled else 0) OR
     (if timedout s then FlagTimedout else 0)"
proof (rule bit_word_eqI)
  fix n assume "n < LENGTH(32)"
  then have n: "n < 32" by simp
  consider "5 \<le> n" | "n = 0" | "n = 1" | "n = 2" | "n = 3" | "n = 4" by linarith
  then show "bit s n = bit ((s AND MaskCounter) OR (if entered s then FlagEntered else 0) OR
     (if enabled s then FlagEventsEnabled else 0) OR (if is_done s then FlagDone else 0) OR
     (if cancelled s then FlagCancelled else 0) OR (if timedout s then FlagTimedout else 0)) n"
    using n by cases (auto simp: bit_or_iff bit_and_iff MaskCounter_bits flag_bits)
qed

text \<open>A printed word of a journey can be read back: the counter and every flag are in it, and
  two words that differ print differently.\<close>

theorem stateToString_round_trip: "read_state (stateToString s) = s"
proof -
  let ?a = "show_int (sint (s AND MaskCounter) sdiv sint ValueCounter)"
  have a: "CHR ''|'' \<notin> set ?a" using show_int_chars [of "CHR ''|''"] by auto
  have parts: "split_on CHR ''|'' (stateToString s) =
    ?a # (if entered s then [''entered''] else []) @ (if enabled s then [''enabled''] else []) @
      (if is_done s then [''done''] else []) @ (if cancelled s then [''cancelled''] else []) @
      (if timedout s then [''timedout''] else [])"
    unfolding stateToString_def show_flag_bits by (rule read_flags [OF a])
  have "word_of_int (read_int ?a * 32) = s AND MaskCounter"
    unfolding read_show_int counter_exact by simp
  then show ?thesis
    by (subst (2) word_parts) (simp add: read_state_def parts read_flag_def)
qed

section \<open>Collections and messages\<close>

text \<open>The loop with its flag \<open>rest\<close>.\<close>

fun show_elements :: "bool \<Rightarrow> string list \<Rightarrow> string" where
  "show_elements rest [] = []"
| "show_elements rest (t # ts) = (if rest then '', '' else []) @ t @ show_elements True ts"

definition show_set :: "string list \<Rightarrow> string" where
  "show_set ts = ''('' @ show_elements False ts @ '')''"

definition show_vector :: "string list \<Rightarrow> string" where
  "show_vector ts = ''{'' @ show_elements False ts @ ''}''"

definition show_id :: "64 word \<Rightarrow> string" where "show_id i = digits (unat i)"

definition show_CarryMsg2 :: "msg_id \<Rightarrow> string" where
  "show_CarryMsg2 i = ''{'' @ show_id (fst i) @ '','' @ show_id (snd i) @ ''}''"

definition show_CarryMsg :: "step_id \<Rightarrow> msg_id \<Rightarrow> string" where
  "show_CarryMsg k i = ''['' @ show_id k @ '']{'' @ show_id (fst i) @ '':'' @ show_id (snd i) @ ''}''"

definition read_elements :: "string \<Rightarrow> string list" where
  "read_elements s = (if s = [] then [] else (case split_on CHR '','' s of t # ts \<Rightarrow> t # map tl ts | [] \<Rightarrow> []))"

lemma split_elements:
  "\<forall>t \<in> set ts. CHR '','' \<notin> set t \<Longrightarrow> CHR '','' \<notin> set t \<Longrightarrow>
   split_on CHR '','' (t @ show_elements True ts) = t # map ((#) CHR '' '') ts"
proof (induction ts arbitrary: t)
  case Nil
  then show ?case using split_on_append [of "CHR '',''" t "[]"] by simp
next
  case (Cons u ts)
  have "split_on CHR '','' (CHR '' '' # u @ show_elements True ts) = (CHR '' '' # u) # map ((#) CHR '' '') ts"
    using Cons.IH [of u] Cons.prems by simp
  with Cons.prems show ?case by (simp add: split_on_append)
qed

lemma read_show_elements:
  assumes "\<forall>t \<in> set ts. t \<noteq> [] \<and> CHR '','' \<notin> set t"
  shows "read_elements (show_elements False ts) = ts"
proof (cases ts)
  case (Cons t us)
  with assms split_elements [of us t] show ?thesis
    by (simp add: read_elements_def comp_def)
qed (simp add: read_elements_def)

text \<open>Two sets of node numbers that differ print differently.\<close>

lemma show_id_set_inj: "show_set (map show_id xs) = show_set (map show_id ys) \<Longrightarrow> xs = ys"
proof -
  assume "show_set (map show_id xs) = show_set (map show_id ys)"
  then have eq: "show_elements False (map show_id xs) = show_elements False (map show_id ys)"
    by (simp add: show_set_def)
  have "CHR '','' \<notin> set (digits n)" for n
    using digits_decimal [of "CHR '',''" n] by auto
  then have "\<forall>t \<in> set (map show_id zs). t \<noteq> [] \<and> CHR '','' \<notin> set t" for zs
    by (simp add: show_id_def digits_nonempty)
  from read_show_elements [OF this, of xs] read_show_elements [OF this, of ys]
  have "map show_id xs = map show_id ys" unfolding eq by (rule trans [OF sym])
  moreover have "inj show_id"
    by (rule injI) (metis show_id_def read_nat_digits word_unat_eq_iff)
  ultimately show "xs = ys" by (simp add: inj_map_eq_map)
qed

section \<open>Statistics\<close>

text \<open>\<open>StatRegistrar::dump\<close> walks the \<open>std::map\<close> of counters in the order of their names.\<close>

definition dump_stats :: "(string \<times> int) list \<Rightarrow> string list" where
  "dump_stats infos =
     ''dumping statistics'' # map (\<lambda>(n, v). ''--- stat: '' @ n @ '': '' @ show_int v) infos"

lemma dump_stats_reads:
  "map fst infos = map fst infos' \<Longrightarrow> dump_stats infos = dump_stats infos' \<Longrightarrow> infos = infos'"
proof (rule nth_equalityI)
  assume names: "map fst infos = map fst infos'" and dump: "dump_stats infos = dump_stats infos'"
  from names show len: "length infos = length infos'" by (rule map_eq_imp_length_eq)
  fix k assume k: "k < length infos"
  have n: "fst (infos ! k) = fst (infos' ! k)" using names k len by (metis nth_map)
  have "map (\<lambda>(n, v). ''--- stat: '' @ n @ '': '' @ show_int v) infos ! k =
      map (\<lambda>(n, v). ''--- stat: '' @ n @ '': '' @ show_int v) infos' ! k"
    using dump by (simp add: dump_stats_def)
  with k len n have "show_int (snd (infos ! k)) = show_int (snd (infos' ! k))"
    by (simp add: case_prod_unfold)
  then have "snd (infos ! k) = snd (infos' ! k)" by (metis read_show_int)
  with n show "infos ! k = infos' ! k" by (rule prod_eqI)
qed

end
