(* ===== verification/Spawning.thy ===== *)
theory Spawning
  imports Runtime Stats
begin

text \<open>
  Making journeys and getting them onto a scheduler (\<open>src/journey.cpp\<close>): the constructor and the
  index, \<open>schedule0\<close>, \<open>deferProceed\<close>; and what runs through schedulers: the strand \<open>Alone\<close>
  (\<open>src/core.cpp\<close>) and the registration of counters (\<open>src/stats.cpp\<close>).
\<close>

section \<open>A new journey\<close>

record journey_obj =
  jo_coro :: coro_state
  jo_sched :: "nat option"
  jo_index :: "32 word"
  jo_word :: jstate

definition journey_new :: "nat \<Rightarrow> 32 word \<Rightarrow> journey_obj \<times> 32 word" where
  "journey_new sched counter =
     (let i = counter + 1
      in (\<lparr>jo_coro = Suspended, jo_sched = Some sched, jo_index = i, jo_word = js_initial\<rparr>, i))"

fun journeys_made :: "nat list \<Rightarrow> 32 word \<Rightarrow> journey_obj list" where
  "journeys_made [] counter = []"
| "journeys_made (s # ss) counter = (let (j, counter') = journey_new s counter in j # journeys_made ss counter')"

text \<open>The index shown by the logs: that of the current journey, or 0 outside of one.\<close>

definition current_index :: "journey_obj option \<Rightarrow> 32 word" where
  "current_index p = (case p of Some j \<Rightarrow> jo_index j | None \<Rightarrow> 0)"

lemma journeys_made_index:
  "k < length ss \<Longrightarrow> jo_index (journeys_made ss c ! k) = c + of_nat (Suc k)"
proof (induction ss arbitrary: c k)
  case (Cons s ss)
  then show ?case by (cases k) (simp_all add: journey_new_def Let_def add.assoc)
qed simp

lemma length_journeys_made [simp]: "length (journeys_made ss c) = length ss"
  by (induction ss arbitrary: c) (simp_all add: journey_new_def Let_def)

text \<open>The first 2^32 - 1 journeys have indexes of their own, none of them 0.\<close>

lemma journeys_made_distinct:
  assumes "length ss < 2 ^ 32"
  shows "distinct (0 # map jo_index (journeys_made ss 0))"
proof -
  have idx: "map jo_index (journeys_made ss 0) = map of_nat [1..<Suc (length ss)]"
    by (rule nth_equalityI) (simp_all add: journeys_made_index del: upt_Suc)
  have "inj_on (of_nat :: nat \<Rightarrow> 32 word) {0..<Suc (length ss)}"
  proof (rule inj_on_inverseI)
    fix n assume "n \<in> {0..<Suc (length ss)}"
    with assms show "unat (of_nat n :: 32 word) = n" by (simp add: unat_of_nat)
  qed
  then have "distinct (map (of_nat :: nat \<Rightarrow> 32 word) [0..<Suc (length ss)])"
    by (simp add: distinct_map del: upt_Suc)
  moreover have "map of_nat [0..<Suc (length ss)] = 0 # map (of_nat :: nat \<Rightarrow> 32 word) [1..<Suc (length ss)]"
    by (simp add: upt_conv_Cons del: upt_Suc)
  ultimately show ?thesis unfolding idx by metis
qed

section \<open>Scheduling\<close>

text \<open>
  \<open>t_cancellation\<close> is per thread; \<open>schedule0\<close> runs the handler at once when it is not zero and
  the thread is in a journey of the same scheduler.
\<close>

datatype scheduled = AtOnce | Posted nat

definition incCancellation :: "int \<Rightarrow> int" where "incCancellation c = c + 1"
definition decCancellation :: "int \<Rightarrow> int" where "decCancellation c = c - 1"

definition schedule0 :: "int \<Rightarrow> journey_obj option \<Rightarrow> journey_obj \<Rightarrow> scheduled outcome" where
  "schedule0 cancellation current j =
     (case VERIFY (jo_sched j \<noteq> None) ''Scheduler must be set in journey'' of
        Inl e \<Rightarrow> Inl e
      | Inr _ \<Rightarrow>
          Inr (if cancellation \<noteq> 0 \<and> current \<noteq> None \<and> jo_sched (the current) = jo_sched j
               then AtOnce else Posted (the (jo_sched j))))"

text \<open>Nothing in the program increments \<open>t_cancellation\<close>: a new journey is always posted.\<close>

lemma schedule0_posts: "schedule0 0 current (fst (journey_new s c)) = Inr (Posted s)"
  by (simp add: schedule0_def journey_new_def Let_def)

text \<open>
  \<open>deferProceed\<close>: the action gets the handler that marks the journey done, and may call it at
  once or leave it to somebody who calls it during the wait.
\<close>

definition doneHandler :: "jstate \<Rightarrow> jstate" where
  "doneHandler w = snd (js_done w)"

definition journey_deferProceed ::
  "((jstate \<Rightarrow> jstate) \<Rightarrow> jstate \<Rightarrow> jstate) \<Rightarrow> suspension \<Rightarrow> jstate \<Rightarrow> unit outcome \<times> jstate" where
  "journey_deferProceed procHandler suspend w = journey_waitForDone suspend (procHandler doneHandler w)"

text \<open>An action that calls the handler at once: the journey does not suspend.\<close>

lemma deferProceed_at_once:
  "journey_deferProceed (\<lambda>h. h) suspend w = js_handleEvents (doneHandler w)"
proof -
  have "js_isDone (doneHandler w)"
    by (simp add: doneHandler_def js_bits)
  then show ?thesis by (simp add: journey_deferProceed_def journey_waitForDone_def)
qed

section \<open>Alone\<close>

text \<open>
  A strand of \<open>boost::asio\<close> runs the handlers posted to it in the order they were posted, one at
  a time, on any thread of the pool.
\<close>

record 'h alone =
  al_name :: string
  al_posted :: "'h list"
  al_started :: nat
  al_running :: "(nat \<times> 'h) option"

definition alone_new :: "string \<Rightarrow> 'h alone" where
  "alone_new name = \<lparr>al_name = name, al_posted = [], al_started = 0, al_running = None\<rparr>"

definition alone_schedule :: "'h \<Rightarrow> 'h alone \<Rightarrow> 'h alone" where
  "alone_schedule h a = a\<lparr>al_posted := al_posted a @ [h]\<rparr>"

definition alone_name :: "'h alone \<Rightarrow> string" where "alone_name a = al_name a"

inductive alone_step :: "'h alone \<Rightarrow> 'h alone \<Rightarrow> bool" where
  schedule: "alone_step a (alone_schedule h a)"
| start: "\<lbrakk>al_running a = None; al_started a < length (al_posted a)\<rbrakk> \<Longrightarrow>
    alone_step a (a\<lparr>al_running := Some (t, al_posted a ! al_started a), al_started := Suc (al_started a)\<rparr>)"
| finish: "al_running a = Some (t, h) \<Longrightarrow> alone_step a (a\<lparr>al_running := None\<rparr>)"

definition alone_inv :: "'h alone \<Rightarrow> bool" where
  "alone_inv a \<longleftrightarrow> al_started a \<le> length (al_posted a) \<and>
     (\<forall>t h. al_running a = Some (t, h) \<longrightarrow> 0 < al_started a \<and> h = al_posted a ! (al_started a - 1))"

lemma alone_step_inv: "alone_inv a \<Longrightarrow> alone_step a b \<Longrightarrow> alone_inv b"
  by (erule alone_step.cases) (auto simp: alone_inv_def alone_schedule_def nth_append)

interpretation alone: step_system "\<lambda>a. \<exists>name. a = alone_new name" alone_step alone_inv
proof unfold_locales
  show "alone_inv a" if "\<exists>name. a = alone_new name" for a :: "'h alone"
    using that by (auto simp: alone_inv_def alone_new_def)
qed (rule alone_step_inv)

text \<open>Handlers of an \<open>Alone\<close> start in the order they were posted, so that journeys that
  \<open>teleport\<close> to it take turns, from one suspension to the next.\<close>

lemma alone_in_order:
  assumes "alone_step\<^sup>*\<^sup>* (alone_new name) a" and "al_running a = Some (t, h)"
  shows "\<exists>k. h = al_posted a ! k \<and> k < length (al_posted a) \<and> al_started a = Suc k"
proof -
  have "alone_inv a" by (rule alone.inv_reachable [OF _ assms(1)]) blast
  with assms(2) show ?thesis by (intro exI [of _ "al_started a - 1"]) (auto simp: alone_inv_def)
qed

section \<open>Registering counters\<close>

text \<open>The posted handler of \<open>registerStat\<close>: an exception is logged, the registry stays.\<close>

definition registerStat ::
  "(string \<Rightarrow> string) \<Rightarrow> string \<Rightarrow> 'v \<Rightarrow> (string \<rightharpoonup> 'v) \<Rightarrow> (string \<rightharpoonup> 'v) option" where
  "registerStat demangle name v infos =
     map_option (\<lambda>r. case r of Inl e \<Rightarrow> infos | Inr infos' \<Rightarrow> infos') (registerValue demangle name v infos)"

text \<open>The first counter of a name stays registered.\<close>

lemma registerStat_keeps:
  assumes "registerStat demangle name v infos = Some infos'" and "infos n = Some w"
  shows "infos' n = Some w"
  using assms by (auto simp: registerStat_def registerValue_def VERIFY_def split: option.splits if_splits)

end
