(* ===== verification/FirstVersion.thy ===== *)
theory FirstVersion
  imports ReplobV1 Progress
begin

text \<open>
  The first agreement (\<open>Replob\<close>, \<open>src/replob.cpp\<close>) in a cluster of fixed membership, without
  timeouts, and the second one (\<open>Replob2\<close> with \<open>Voting\<close>): every run of a cluster of the first is
  a run of a cluster of the second, call by call, so that what is proved in \<open>Cluster\<close> holds
  for it. The map of voted messages of a step is the set of carried messages, a vote for one
  message is a vote with that set, and counting votes is comparing the voters with the nodes.
\<close>

section \<open>The data of a step and a voting\<close>

definition carry_of :: "'m carry \<Rightarrow> 'm option carry_msg" where
  "carry_of c = \<lparr>cm_msg = ca_msg c, cm_id = ca_id c\<rparr>"

definition carries_of :: "(msg_id \<times> 'm msg_data) list \<Rightarrow> 'm option carry_set" where
  "carries_of l = map (\<lambda>(i, d). \<lparr>cm_msg = md_msg d, cm_id = i\<rparr>) l"

definition data_sim :: "node_id set \<Rightarrow> 'm step_data \<Rightarrow> 'm option voting \<Rightarrow> bool" where
  "data_sim N d v \<longleftrightarrow>
     (case sd_state d of
        StepInitial \<Rightarrow> v_state v = VInitial \<and> v_nodes v = {} \<and> v_voted v = {} \<and> v_carries v = [] \<and>
          votedNodes d = []
      | StepVoted \<Rightarrow> v_state v = VVoted \<and> v_nodes v = N \<and> v_voted v = votedNodesSet d \<and>
          v_carries v = carries_of (votedNodes d)
      | StepCompleted \<Rightarrow> v_state v = VCompleted \<and> v_carries v = map carry_of (sd_msgs d))"

lemma data_sim_timer [simp]: "data_sim N d (v\<lparr>v_timer := b\<rparr>) = data_sim N d v"
  by (simp add: data_sim_def split: step_state.split)

lemma data_sim_new: "data_sim N step_data_new voting_new"
  by (simp add: data_sim_def step_data_new_def voting_new_def)

text \<open>The sorted maps and the sorted sets.\<close>

lemma smap_update_set:
  "sorted_wrt (<) (map fst l) \<Longrightarrow> set (smap_update k v l) = insert (k, v) {e \<in> set l. fst e \<noteq> k}"
proof (induction k v l rule: smap_update.induct)
  case (2 k v l w r)
  then have r: "sorted_wrt (<) (map fst r)" and above: "\<forall>e \<in> set r. l < fst e" by auto
  consider "k < l" | "k = l" | "l < k" by (rule linorder_cases)
  then show ?case
  proof cases
    case 1
    with above have "\<forall>e \<in> set ((l, w) # r). fst e \<noteq> k" by (auto dest: order.strict_trans)
    then have "{e \<in> set ((l, w) # r). fst e \<noteq> k} = set ((l, w) # r)" by blast
    with 1 show ?thesis by simp
  next
    case 2
    with above have "{e \<in> set ((l, w) # r). fst e \<noteq> k} = set r" by auto
    with 2 show ?thesis by simp
  next
    case 3
    then have "{e \<in> set ((l, w) # r). fst e \<noteq> k} = insert (l, w) {e \<in> set r. fst e \<noteq> k}" by auto
    moreover have "\<not> k < l" "k \<noteq> l" using 3 by auto
    ultimately show ?thesis using "2.IH" r by (simp add: insert_commute)
  qed
qed simp

lemma smap_update_sorted:
  "sorted_wrt (<) (map fst l) \<Longrightarrow> sorted_wrt (<) (map fst (smap_update k v l))"
proof (induction k v l rule: smap_update.induct)
  case (2 k v l w r)
  then have r: "sorted_wrt (<) (map fst r)" and above: "\<forall>e \<in> set r. l < fst e" by auto
  have "\<forall>e \<in> set (smap_update k v r). fst e = k \<or> e \<in> set r"
    using smap_update_set [OF r, of k v] by auto
  with 2 r above show ?case by (auto dest: order.strict_trans)
qed simp

lemma carries_of_insert:
  assumes "sorted_wrt (<) (map fst l)" and "\<And>d. (i, d) \<in> set l \<Longrightarrow> md_msg d = md_msg v"
  shows "carries_of (smap_update i v l) = carry_insert \<lparr>cm_msg = md_msg v, cm_id = i\<rparr> (carries_of l)"
  using assms
proof (induction i v l rule: smap_update.induct)
  case (2 k v l w r)
  then show ?case by (auto simp: carries_of_def)
qed (simp add: carries_of_def)

text \<open>
  The votes a node has counted in a step were sent, each for the message it is counted for.
\<close>

definition counted :: "'m step_data \<Rightarrow> 'm call set \<Rightarrow> step_id \<Rightarrow> bool" where
  "counted d calls k \<longleftrightarrow>
     sorted_wrt (<) (map fst (votedNodes d)) \<and>
     (\<forall>(i, md) \<in> set (votedNodes d). \<exists>c. ca_step c = k \<and> ca_id c = i \<and> ca_msg c = md_msg md \<and>
        (\<exists>s. CallVote c s \<in> calls) \<and> (\<forall>s \<in> votedSet md. CallVote c s \<in> calls))"

text \<open>What is known of the votes on their way: one of a node in a step, one message of an id.\<close>

definition votes_unique :: "node_id set \<Rightarrow> 'm call set \<Rightarrow> step_id \<Rightarrow> bool" where
  "votes_unique N calls k \<longleftrightarrow>
     (\<forall>c s. CallVote c s \<in> calls \<and> ca_step c = k \<longrightarrow> s \<in> N) \<and>
     (\<forall>c c' s. CallVote c s \<in> calls \<and> CallVote c' s \<in> calls \<and> ca_step c = k \<and> ca_step c' = k \<longrightarrow>
        ca_id c = ca_id c') \<and>
     (\<forall>c c' s s'. CallVote c s \<in> calls \<and> CallVote c' s' \<in> calls \<and> ca_step c = k \<and> ca_step c' = k \<and>
        ca_id c = ca_id c' \<longrightarrow> ca_msg c = ca_msg c')"

lemma counted_timer [simp]: "counted (d\<lparr>sd_timer := b\<rparr>) calls k = counted d calls k"
  by (simp add: counted_def)

lemma counted_mono: "counted d A k \<Longrightarrow> A \<subseteq> B \<Longrightarrow> counted d B k"
  unfolding counted_def by (fastforce dest: subsetD)

lemma counted_disjoint:
  assumes "counted d calls k" and "votes_unique N calls k"
  shows "one_vote_each d" and "votedNodesSet d \<subseteq> N"
proof -
  have sent: "\<exists>c. ca_step c = k \<and> ca_id c = i \<and> CallVote c s \<in> calls"
    if "(i, md) \<in> set (votedNodes d)" "s \<in> votedSet md" for i md s
    using assms(1) that unfolding counted_def by fastforce
  show "votedNodesSet d \<subseteq> N"
  proof
    fix s assume "s \<in> votedNodesSet d"
    then obtain i md where "(i, md) \<in> set (votedNodes d)" "s \<in> votedSet md"
      by (auto simp: votedNodesSet_def)
    from sent [OF this] assms(2) show "s \<in> N" unfolding votes_unique_def by blast
  qed
  have keys: "distinct (map fst (votedNodes d))"
    using assms(1) by (simp add: counted_def strict_sorted_iff)
  show "one_vote_each d"
    unfolding one_vote_each_def Let_def length_map
  proof (intro allI impI)
    fix p q assume pq: "p < length (votedNodes d)" "q < length (votedNodes d)" "p \<noteq> q"
    let ?p = "votedNodes d ! p" and ?q = "votedNodes d ! q"
    have "fst ?p \<noteq> fst ?q" using nth_eq_iff_index_eq [OF keys] pq by (simp add: nth_map)
    moreover have "fst ?p = fst ?q" if s: "s \<in> votedSet (snd ?p)" "s \<in> votedSet (snd ?q)" for s
    proof -
      have "(fst ?p, snd ?p) \<in> set (votedNodes d)" "(fst ?q, snd ?q) \<in> set (votedNodes d)"
        using pq by simp_all
      from sent [OF this(1) s(1)] sent [OF this(2) s(2)] assms(2) show ?thesis
        unfolding votes_unique_def by metis
    qed
    ultimately have "votedSet (snd ?p) \<inter> votedSet (snd ?q) = {}" by blast
    with pq show "map (\<lambda>v. votedSet (snd v)) (votedNodes d) ! p \<inter>
        map (\<lambda>v. votedSet (snd v)) (votedNodes d) ! q = {}" by simp
  qed
qed

section \<open>The loops that execute steps\<close>

type_synonym 'm log2 = "(step_id \<times> 'm option carry_set) list"

definition log_of :: "(step_id \<times> 'm carry list) list \<Rightarrow> 'm log2" where
  "log_of l = map (\<lambda>(k, cs). (k, map carry_of cs)) l"

definition steps_sim ::
  "node_id set \<Rightarrow> 'm replob \<Rightarrow> 'm option voting phantoms \<Rightarrow> 'm log2 \<Rightarrow> bool" where
  "steps_sim N r p ex \<longleftrightarrow>
     cur_step p = commitingStep r \<and> next_step p = nextStep r \<and> ex = log_of (ran r) \<and>
     (\<forall>k. rel_option (\<lambda>d w. data_sim N d (wp_obj w)) (rsteps r k) (steps p k))"

definition objects_wf :: "'m voting phantoms \<Rightarrow> bool" where
  "objects_wf p \<longleftrightarrow>
     (\<forall>k w. steps p k = Some w \<longrightarrow> wp_step w = k \<and> k < next_step p \<and>
        (wp_completed w \<longleftrightarrow> v_state (wp_obj w) = VCompleted))"

lemma objects_wfD:
  assumes "objects_wf p" and "steps p k = Some w"
  shows "wp_step w = k" "k < next_step p" "wp_completed w \<longleftrightarrow> v_state (wp_obj w) = VCompleted"
  using assms unfolding objects_wf_def by blast+

lemma steps_simD:
  assumes "steps_sim N r p ex"
  shows "cur_step p = commitingStep r" "next_step p = nextStep r" "ex = log_of (ran r)"
    and "rel_option (\<lambda>d w. data_sim N d (wp_obj w)) (rsteps r k) (steps p k)"
  using assms unfolding steps_sim_def by blast+

lemma data_sim_completed: "data_sim N d v \<Longrightarrow> v_state v = VCompleted \<longleftrightarrow> sd_state d = StepCompleted"
  by (simp add: data_sim_def split: step_state.splits)

lemma process_sim:
  "steps_sim N r p ex \<Longrightarrow> objects_wf p \<Longrightarrow>
   steps_sim N (tryProcess_all r) (fst (process_steps voting_onComplete p ex))
     (snd (process_steps voting_onComplete p ex))"
proof (induction r arbitrary: p ex rule: tryProcess_all.induct)
  case (1 r)
  note sim = steps_simD [OF "1.prems"(1)]
  let ?c = "commitingStep r"
  show ?case
  proof (cases "rsteps r ?c")
    case None
    with sim(4) [of ?c] have "steps p ?c = None" by (cases "steps p ?c") auto
    then have "process_steps voting_onComplete p ex = (p, ex)"
      by (simp add: process_steps.simps [of _ p] sim(1))
    moreover have "tryProcess_all r = r" using None by (simp add: tryProcess_all.simps [of r])
    ultimately show ?thesis using "1.prems"(1) by simp
  next
    case (Some d)
    with sim(4) [of ?c] obtain w where w: "steps p ?c = Some w" "data_sim N d (wp_obj w)"
      by (cases "steps p ?c") auto
    note wf = objects_wfD [OF "1.prems"(2) w(1)]
    show ?thesis
    proof (cases "sd_state d = StepCompleted")
      case False
      with w(2) wf have "\<not> wp_completed w" by (simp add: data_sim_completed)
      then have "process_steps voting_onComplete p ex = (p, ex)"
        using w(1) by (simp add: process_steps.simps [of _ p] sim(1) tryComplete_def fun_upd_idem)
      moreover have "tryProcess_all r = r" using Some False by (simp add: tryProcess_all.simps [of r])
      ultimately show ?thesis using "1.prems"(1) by simp
    next
      case True
      let ?r = "r\<lparr>ran := ran r @ [(?c, sd_msgs d)], rsteps := (rsteps r)(?c := None), commitingStep := ?c + 1\<rparr>"
      let ?p = "p\<lparr>steps := (steps p)(?c := None), cur_step := ?c + 1\<rparr>"
      let ?ex = "ex @ [(?c, map carry_of (sd_msgs d))]"
      have "wp_completed w" "v_carries (wp_obj w) = map carry_of (sd_msgs d)"
        using True w(2) wf(3) by (simp_all add: data_sim_completed, simp add: data_sim_def)
      then have "process_steps voting_onComplete p ex = process_steps voting_onComplete ?p ?ex"
        using w(1) wf by (simp add: process_steps.simps [of _ p] sim(1) tryComplete_def voting_onComplete_def Let_def)
      moreover have "tryProcess_all r = tryProcess_all ?r" using Some True by (simp add: tryProcess_all.simps [of r])
      moreover have "steps_sim N ?r ?p ?ex"
        using sim unfolding steps_sim_def by (simp add: log_of_def)
      moreover have "objects_wf ?p" using "1.prems"(2) by (auto simp: objects_wf_def)
      ultimately show ?thesis using "1.IH" [OF Some] True by simp
    qed
  qed
qed

text \<open>A step that was just completed.\<close>

lemma complete_sim:
  assumes sim: "steps_sim N r p ex" and w: "steps p i = Some w" "v_state (wp_obj w) = VCompleted"
    and wf: "objects_wf (p\<lparr>steps := (steps p)(i \<mapsto> w\<lparr>wp_completed := True\<rparr>)\<rparr>)"
  shows "steps_sim N (tryProcess i r) (fst (with_complete voting_onComplete i p ex))
     (snd (with_complete voting_onComplete i p ex))"
proof -
  let ?w = "w\<lparr>wp_completed := True\<rparr>"
  let ?p = "p\<lparr>steps := (steps p)(i \<mapsto> ?w)\<rparr>"
  note s = steps_simD [OF sim]
  have "rel_option (\<lambda>d w. data_sim N d (wp_obj w)) (rsteps r i) (Some ?w)"
    using s(4) [of i] w(1) by (cases "rsteps r i") auto
  with s have sim': "steps_sim N r ?p ex" unfolding steps_sim_def by simp
  have st: "wp_step w = i" "i < next_step p" using objects_wfD [OF wf, of i ?w] by simp_all
  show ?thesis
  proof (cases "i = commitingStep r")
    case False
    then have "with_complete voting_onComplete i p ex = (?p, ex)"
      using w(1) st(1) by (simp add: with_complete_def registry_complete_def s(1))
    with False sim' show ?thesis by (simp add: tryProcess_def)
  next
    case True
    have "process_steps voting_onComplete ?p ex = process_steps voting_onComplete
        (p\<lparr>steps := (steps p)(i := None), cur_step := i + 1\<rparr>) (ex @ [(i, v_carries (wp_obj w))])"
      using st True
      by (subst process_steps.simps) (simp add: s(1) tryComplete_def voting_onComplete_def Let_def)
    then have "with_complete voting_onComplete i p ex = process_steps voting_onComplete ?p ex"
      using w(1) st True
      by (simp add: with_complete_def registry_complete_def s(1) tryComplete_def voting_onComplete_def Let_def)
    with process_sim [OF sim' wf] True show ?thesis by (simp add: tryProcess_def)
  qed
qed

section \<open>Votes\<close>

lemma enter_first:
  assumes "sd_state d = StepInitial" and "votedNodes d = []"
  shows "enter_vote n c src d = (True, d\<lparr>sd_state := StepVoted,
    votedNodes := [(ca_id c, \<lparr>votedSet = {n, src}, md_msg = ca_msg c\<rparr>)]\<rparr>)"
  using assms by (simp add: enter_vote_def getMsg_def Let_def)

lemma enter_later:
  assumes st: "sd_state d = StepVoted" and cnt: "counted d calls k" and un: "votes_unique N calls k"
    and c: "CallVote c src \<in> calls" "ca_step c = k" and e: "enter_vote n c src d = (cv, d2)"
  shows "\<not> cv" "sd_state d2 = StepVoted" "counted d2 calls k"
    "votedNodesSet d2 = insert src (votedNodesSet d)"
    "carries_of (votedNodes d2) = carry_insert (carry_of c) (carries_of (votedNodes d))"
proof -
  have srt: "sorted_wrt (<) (map fst (votedNodes d))" using cnt by (simp add: counted_def)
  define old where "old = (case map_of (votedNodes d) (ca_id c) of Some md \<Rightarrow> votedSet md | None \<Rightarrow> {})"
  have same: "md_msg md = ca_msg c" if md: "(ca_id c, md) \<in> set (votedNodes d)" for md
  proof -
    obtain c' s where c': "ca_step c' = k" "ca_id c' = ca_id c" "ca_msg c' = md_msg md" "CallVote c' s \<in> calls"
      using cnt md unfolding counted_def by fastforce
    then show ?thesis using un c unfolding votes_unique_def by metis
  qed
  let ?md = "\<lparr>votedSet = insert src old, md_msg = ca_msg c\<rparr>"
  have "getMsg c d = \<lparr>votedSet = old, md_msg = ca_msg c\<rparr>"
  proof (cases "map_of (votedNodes d) (ca_id c)")
    case None
    then show ?thesis by (simp add: getMsg_def old_def)
  next
    case (Some md)
    with same [OF map_of_SomeD [OF Some]] show ?thesis by (cases md) (simp add: getMsg_def old_def Let_def)
  qed
  then have d2: "cv = False" "d2 = d\<lparr>votedNodes := smap_update (ca_id c) ?md (votedNodes d)\<rparr>"
    using e st by (simp_all add: enter_vote_def Let_def)
  then show "\<not> cv" "sd_state d2 = StepVoted" using st by simp_all
  have vs: "set (votedNodes d2) = insert (ca_id c, ?md) {e \<in> set (votedNodes d). fst e \<noteq> ca_id c}"
    using smap_update_set [OF srt] by (simp add: d2)
  have keys: "distinct (map fst (votedNodes d))" using srt by (simp add: strict_sorted_iff)
  have old: "\<exists>md. (ca_id c, md) \<in> set (votedNodes d) \<and> votedSet md = old" if "old \<noteq> {}"
    using that by (auto simp: old_def split: option.splits dest: map_of_SomeD)
  have was: "votedSet md = old" if "(ca_id c, md) \<in> set (votedNodes d)" for md
    using map_of_is_SomeI [OF keys that] by (simp add: old_def)
  show "votedNodesSet d2 = insert src (votedNodesSet d)"
  proof
    show "votedNodesSet d2 \<subseteq> insert src (votedNodesSet d)"
      unfolding votedNodesSet_def vs using old by fastforce
    show "insert src (votedNodesSet d) \<subseteq> votedNodesSet d2"
    proof
      fix s assume "s \<in> insert src (votedNodesSet d)"
      then consider "s = src" | i md where "(i, md) \<in> set (votedNodes d)" "s \<in> votedSet md"
        by (auto simp: votedNodesSet_def)
      then show "s \<in> votedNodesSet d2"
      proof cases
        case 2
        show ?thesis
        proof (cases "i = ca_id c")
          case True
          with 2 was have "s \<in> votedSet ?md" by simp
          moreover have "(ca_id c, ?md) \<in> set (votedNodes d2)" by (simp add: vs)
          ultimately show ?thesis by (force simp: votedNodesSet_def)
        next
          case False
          with 2 have "(i, md) \<in> set (votedNodes d2)" by (simp add: vs)
          with 2 show ?thesis by (force simp: votedNodesSet_def)
        qed
      qed (simp add: votedNodesSet_def vs)
    qed
  qed
  show "carries_of (votedNodes d2) = carry_insert (carry_of c) (carries_of (votedNodes d))"
    using carries_of_insert [OF srt, of "ca_id c" ?md] same by (simp add: d2 carry_of_def)
  have "CallVote c s \<in> calls" if "s \<in> old" for s
  proof -
    from old that obtain md where md: "(ca_id c, md) \<in> set (votedNodes d)" "s \<in> votedSet md" by blast
    then obtain c' where c': "ca_step c' = k" "ca_id c' = ca_id c" "ca_msg c' = md_msg md" "CallVote c' s \<in> calls"
      using cnt unfolding counted_def by fastforce
    have "c' = c" using c' c same [OF md(1)] by simp
    with c' show ?thesis by simp
  qed
  then have "\<forall>s \<in> votedSet ?md. CallVote c s \<in> calls" using c(1) by simp
  with c cnt smap_update_sorted [OF srt] show "counted d2 calls k"
    unfolding counted_def vs by (fastforce simp: d2)
qed

section \<open>Handlers\<close>

definition step_at :: "'m replob \<Rightarrow> step_id \<Rightarrow> 'm step_data" where
  "step_at r i = (case rsteps r i of Some d \<Rightarrow> d | None \<Rightarrow> step_data_new)"

definition object_at :: "'m voting phantoms \<Rightarrow> step_id \<Rightarrow> 'm voting" where
  "object_at p i = (case steps p i of Some w \<Rightarrow> wp_obj w | None \<Rightarrow> voting_new)"

definition put_step :: "step_id \<Rightarrow> 'm step_data \<Rightarrow> 'm replob \<Rightarrow> 'm replob" where
  "put_step i d r = r\<lparr>rsteps := (rsteps r)(i \<mapsto> d), nextStep := if nextStep r \<le> i then i + 1 else nextStep r\<rparr>"

definition put_object :: "step_id \<Rightarrow> 'm voting \<Rightarrow> 'm voting phantoms \<Rightarrow> 'm voting phantoms" where
  "put_object i v p =
     p\<lparr>steps := (steps p)(i \<mapsto> \<lparr>wp_obj = v, wp_step = i, wp_completed =
          (case steps p i of Some w \<Rightarrow> wp_completed w | None \<Rightarrow> False)\<rparr>),
       next_step := if next_step p \<le> i then i + 1 else next_step p\<rparr>"

lemma put_step_simps [simp]:
  "rsteps (put_step i d r) = (rsteps r)(i \<mapsto> d)"
  "commitingStep (put_step i d r) = commitingStep r" "ran (put_step i d r) = ran r"
  "cluster_nodes (put_step i d r) = cluster_nodes r" "mid_counter (put_step i d r) = mid_counter r"
  by (simp_all add: put_step_def)

lemma put_object_simps [simp]:
  "cur_step (put_object i v p) = cur_step p"
  "steps (put_object i v p) i = Some \<lparr>wp_obj = v, wp_step = i,
     wp_completed = (case steps p i of Some w \<Rightarrow> wp_completed w | None \<Rightarrow> False)\<rparr>"
  by (simp_all add: put_object_def)

lemma put_put [simp]: "put_step i d' (put_step i d r) = put_step i d' r"
  by (auto simp: put_step_def)

lemma put_step_get:
  "\<not> i < commitingStep r \<Longrightarrow> sd_state (step_at r i) \<noteq> StepCompleted \<Longrightarrow>
     getStep i r = (Some (step_at r i), put_step i (step_at r i) r)"
  by (simp add: getStep_def step_at_def [symmetric] updateCurrentStepId_def put_step_def Let_def)

lemma put_step_closed:
  "i < commitingStep r \<or> sd_state (step_at r i) = StepCompleted \<Longrightarrow> getStep i r = (None, r)"
  by (auto simp: getStep_def step_at_def step_data_new_def fun_upd_idem Let_def split: option.splits)

lemma put_sim:
  assumes "steps_sim N r p ex" and "data_sim N d v"
  shows "steps_sim N (put_step i d r) (put_object i v p) ex"
  using assms by (simp add: steps_sim_def put_step_def put_object_def)

lemma at_sim:
  assumes "steps_sim N r p ex"
  shows "data_sim N (step_at r i) (object_at p i)"
  using steps_simD(4) [OF assms, of i]
  by (auto simp: step_at_def object_at_def data_sim_new option.rel_sel split: option.splits)

lemma put_object_wf:
  assumes "objects_wf p" and "i \<noteq> - 1" and "v_state (object_at p i) \<noteq> VCompleted"
  shows "objects_wf ((put_object i v p)\<lparr>steps := (steps (put_object i v p))(i \<mapsto>
     \<lparr>wp_obj = v, wp_step = i, wp_completed = (v_state v = VCompleted)\<rparr>)\<rparr>)"
proof -
  have "i < i + 1" using assms(2) by (simp add: word_less_Suc_not_max)
  moreover have "k < i + 1" if "k < next_step p" "next_step p \<le> i" for k
    using that \<open>i < i + 1\<close> by (meson order.strict_trans order.strict_trans2)
  ultimately show ?thesis
    using assms(1) unfolding objects_wf_def put_object_def by (auto simp: not_le split: if_splits)
qed

lemma call_on_object:
  assumes wf: "objects_wf p" and i: "\<not> i < cur_step p"
  shows "phantom_call voting_new i f p = (snd (f (object_at p i)), put_object i (fst (f (object_at p i))) p)"
proof (cases "steps p i")
  case None
  then show ?thesis
    using i by (simp add: phantom_call_def getPtr_def object_at_def put_object_def Let_def split_beta)
next
  case (Some w)
  from objects_wfD(1) [OF wf Some] have "w\<lparr>wp_step := i\<rparr> = w" by simp
  with Some i objects_wfD(1) [OF wf Some] show ?thesis
    by (cases w) (simp add: phantom_call_def getPtr_def object_at_def put_object_def Let_def split_beta)
qed

text \<open>What the handlers of the first version do on a step that is open.\<close>

definition completed_data :: "'m carry list \<Rightarrow> 'm step_data \<Rightarrow> 'm step_data" where
  "completed_data msgs d = d\<lparr>sd_msgs := msgs, votedNodes := [], sd_state := StepCompleted, sd_timer := False\<rparr>"

lemma completed_data_simps [simp]:
  "sd_state (completed_data msgs d) = StepCompleted" "sd_msgs (completed_data msgs d) = msgs"
  by (simp_all add: completed_data_def)

lemma step_at_put [simp]: "step_at (put_step i d r) i = d"
  by (simp add: step_at_def)

lemma commit_open:
  assumes "msgs \<noteq> []" and "\<not> ca_step (hd msgs) < commitingStep r"
    and "sd_state (step_at r (ca_step (hd msgs))) \<noteq> StepCompleted"
  shows "replob_commit msgs r = (Inr (), [CallCommit msgs], tryProcess (ca_step (hd msgs))
    (put_step (ca_step (hd msgs)) (completed_data msgs (step_at r (ca_step (hd msgs)))) r))"
proof -
  let ?i = "ca_step (hd msgs)"
  have "(put_step ?i d r)\<lparr>rsteps := (rsteps (put_step ?i d r))(?i \<mapsto> d')\<rparr> = put_step ?i d' r" for d d'
    by (simp add: put_step_def)
  with assms(1) put_step_get [OF assms(2,3)] show ?thesis
    by (simp add: replob_commit_def VERIFY_def completed_data_def Let_def)
qed

lemma vote_open:
  assumes "\<not> ca_step c < commitingStep r" and "sd_state (step_at r (ca_step c)) \<noteq> StepCompleted"
    and e: "enter_vote (thisNode (config (cluster_nodes r))) c src (step_at r (ca_step c)) = (cv, d)"
  shows "replob_vote c src r =
    (if mayCommit (config (cluster_nodes r)) d
     then (Inr (), [CallCommit (voted_msgs (ca_step c) d)], tryProcess (ca_step c)
            (put_step (ca_step c) (completed_data (voted_msgs (ca_step c) d) d) r))
     else if cv then (Inr (), [CallVote c (thisNode (config (cluster_nodes r)))],
            put_step (ca_step c) (d\<lparr>sd_timer := True\<rparr>) r)
     else (Inr (), [], put_step (ca_step c) d r))"
proof -
  let ?i = "ca_step c"
  have put: "(put_step ?i d r)\<lparr>rsteps := (rsteps (put_step ?i d r))(?i \<mapsto> d')\<rparr> = put_step ?i d' r" for d d'
    by (simp add: put_step_def)
  have d: "votedNodes d \<noteq> []" "sd_state d \<noteq> StepCompleted"
    using enter_vote_data [OF e] assms(2) by auto
  then have msgs: "voted_msgs ?i d \<noteq> []" "ca_step (hd (voted_msgs ?i d)) = ?i"
    by (auto simp: voted_msgs_def hd_map)
  have "replob_commit (voted_msgs ?i d) (put_step ?i d r) = (Inr (), [CallCommit (voted_msgs ?i d)], tryProcess ?i
      (put_step ?i (completed_data (voted_msgs ?i d) d) r))"
    using commit_open [OF msgs(1), of "put_step ?i d r"] msgs(2) assms(1) d(2) by simp
  with put_step_get [OF assms(1,2)] e put show ?thesis
    by (simp add: replob_vote_def Let_def)
qed

lemma tryProcess_all_frame:
  "cluster_nodes (tryProcess_all r) = cluster_nodes r \<and> mid_counter (tryProcess_all r) = mid_counter r \<and>
   rsteps (tryProcess_all r) \<subseteq>\<^sub>m rsteps r"
proof (induction r rule: tryProcess_all.induct)
  case (1 r)
  show ?case
  proof (cases "\<exists>d. rsteps r (commitingStep r) = Some d \<and> sd_state d = StepCompleted")
    case False
    then have "tryProcess_all r = r" by (subst tryProcess_all.simps) (auto split: option.split)
    then show ?thesis by simp
  next
    case True
    then obtain d where d: "rsteps r (commitingStep r) = Some d" "sd_state d = StepCompleted" by blast
    have "tryProcess_all r = tryProcess_all (r\<lparr>ran := ran r @ [(commitingStep r, sd_msgs d)],
        rsteps := (rsteps r)(commitingStep r := None), commitingStep := commitingStep r + 1\<rparr>)"
      using d by (subst tryProcess_all.simps) simp
    with "1.IH" [OF d(1)] d(2) map_le_trans [OF _ upd_None_map_le, of _ "rsteps r" "commitingStep r"]
    show ?thesis by (simp del: fun_upd_apply)
  qed
qed

lemma tryProcess_frame:
  "cluster_nodes (tryProcess i r) = cluster_nodes r" "mid_counter (tryProcess i r) = mid_counter r"
  "rsteps (tryProcess i r) k = Some d \<Longrightarrow> rsteps r k = Some d"
  using tryProcess_all_frame [of r]
  by (auto simp: tryProcess_def map_le_def dom_def split: if_splits)

section \<open>The two versions, handler by handler\<close>

definition node_sim :: "node_id set \<Rightarrow> 'm replob \<Rightarrow> 'm option node \<Rightarrow> bool" where
  "node_sim N r nd \<longleftrightarrow> steps_sim N r (phs nd) (executed nd) \<and> next_mid nd = mid_counter r"

fun call_msg :: "node_id set \<Rightarrow> 'm call \<Rightarrow> 'm option msg" where
  "call_msg N (CallVote c src) = VoteMsg (ca_step c) [carry_of c] src N"
| "call_msg N (CallCommit msgs) = CommitMsg (ca_step (hd msgs)) (map carry_of msgs)"
| "call_msg N (CallDisconnect l) = CommitMsg (- 1) []"

fun call_ok :: "'m call \<Rightarrow> bool" where
  "call_ok (CallVote c src) \<longleftrightarrow> True"
| "call_ok (CallCommit msgs) \<longleftrightarrow> msgs \<noteq> []"
| "call_ok (CallDisconnect l) \<longleftrightarrow> False"

definition handled :: "node_id set \<Rightarrow> 'm call set \<Rightarrow> step_id \<Rightarrow> 'm replob \<Rightarrow> 'm call list \<Rightarrow> 'm replob \<Rightarrow>
    'm option msg list \<Rightarrow> 'm option node \<Rightarrow> bool" where
  "handled N calls i r out r' out2 nd' \<longleftrightarrow>
     node_sim N r' nd' \<and> out2 = map (call_msg N) out \<and> cluster_nodes r' = cluster_nodes r \<and>
     (\<forall>call \<in> set out. call_ok call) \<and>
     (\<forall>k d. rsteps r' k = Some d \<and> sd_state d = StepVoted \<longrightarrow>
        rsteps r k = Some d \<or> k = i \<and> counted d (calls \<union> set out) i)"

text \<open>A step that is settled.\<close>

lemma closed_handled:
  assumes sim: "node_sim N r nd" and wf: "objects_wf (phs nd)"
    and cl: "i < commitingStep r \<or> sd_state (step_at r i) = StepCompleted"
    and f: "\<And>v. v_state v = VCompleted \<Longrightarrow> \<exists>b. f v = (v\<lparr>v_timer := b\<rparr>, [])"
    and call: "node_call i f nd = (out2, nd')"
  shows "handled N calls i r [] r out2 nd'"
proof (cases "i < commitingStep r")
  case True
  then have "out2 = [] \<and> nd' = nd"
    using call sim by (simp add: node_call_def phantom_call_def getPtr_def node_sim_def steps_sim_def)
  with sim show ?thesis by (simp add: handled_def)
next
  case False
  let ?p = "phs nd" and ?v = "object_at (phs nd) i"
  from sim have ss: "steps_sim N r ?p (executed nd)" by (simp add: node_sim_def)
  note s = steps_simD [OF ss]
  from cl False have d: "sd_state (step_at r i) = StepCompleted" by simp
  then obtain d where d': "rsteps r i = Some d" "step_at r i = d"
    by (cases "rsteps r i") (simp_all add: step_at_def step_data_new_def)
  with s(4) [of i] obtain w where "steps ?p i = Some w" by (cases "steps ?p i") auto
  with objects_wfD(2) [OF wf] s(2) have "i < nextStep r" by auto
  then have same: "put_step i (step_at r i) r = r"
    using d' by (auto simp: put_step_def fun_upd_idem)
  have ds: "data_sim N (step_at r i) ?v" by (rule at_sim [OF ss])
  with d have "v_state ?v = VCompleted" by (simp add: data_sim_completed)
  from f [OF this] obtain b where fv: "f ?v = (?v\<lparr>v_timer := b\<rparr>, [])" by blast
  have "out2 = [] \<and> nd' = nd\<lparr>phs := put_object i (?v\<lparr>v_timer := b\<rparr>) ?p\<rparr>"
    using call False call_on_object [OF wf, of i f] fv s(1) by (simp add: node_call_def)
  moreover have "steps_sim N r (put_object i (?v\<lparr>v_timer := b\<rparr>) ?p) (executed nd)"
    using put_sim [OF ss, of "step_at r i" "?v\<lparr>v_timer := b\<rparr>" i] ds same by simp
  ultimately show ?thesis using sim by (simp add: handled_def node_sim_def)
qed

text \<open>A step that is settled now.\<close>

lemma finish_handled:
  assumes sim: "node_sim N r nd" and wf: "objects_wf (phs nd)" and i: "i \<noteq> - 1"
    and op: "v_state (object_at (phs nd) i) \<noteq> VCompleted"
    and v: "v_state v = VCompleted" "v_carries v = map carry_of msgs"
    and d: "sd_state d = StepCompleted" "sd_msgs d = msgs"
    and msgs: "msgs \<noteq> []" "ca_step (hd msgs) = i"
    and run: "do_effects i [BroadcastCommit (map carry_of msgs), CompleteStep]
        (nd\<lparr>phs := put_object i v (phs nd)\<rparr>) = (out2, nd')"
  shows "handled N calls i r [CallCommit msgs] (tryProcess i (put_step i d r)) out2 nd'"
proof -
  let ?p = "put_object i v (phs nd)"
  let ?w = "\<lparr>wp_obj = v, wp_step = i,
     wp_completed = (case steps (phs nd) i of Some w \<Rightarrow> wp_completed w | None \<Rightarrow> False)\<rparr>"
  have "data_sim N d v" using v d by (simp add: data_sim_def)
  with sim have ss: "steps_sim N (put_step i d r) ?p (executed nd)"
    by (intro put_sim) (simp_all add: node_sim_def)
  have "objects_wf (?p\<lparr>steps := (steps ?p)(i \<mapsto> ?w\<lparr>wp_completed := True\<rparr>)\<rparr>)"
    using put_object_wf [OF wf i op, of v] v(1) by simp
  from complete_sim [OF ss _ _ this] v(1)
  have "steps_sim N (tryProcess i (put_step i d r)) (fst (with_complete voting_onComplete i ?p (executed nd)))
      (snd (with_complete voting_onComplete i ?p (executed nd)))" by simp
  moreover have "out2 = [CommitMsg i (map carry_of msgs)]"
    "nd' = nd\<lparr>phs := fst (with_complete voting_onComplete i ?p (executed nd)),
       executed := snd (with_complete voting_onComplete i ?p (executed nd))\<rparr>"
    using run by (simp_all add: split_beta)
  ultimately show ?thesis
    using sim msgs d(1)
    by (auto simp: handled_def node_sim_def tryProcess_frame(1,2) dest!: tryProcess_frame(3) split: if_splits)
qed

lemma v1_commit_handled:
  assumes sim: "node_sim N r nd" and wf: "objects_wf (phs nd)"
    and msgs: "msgs \<noteq> []" "ca_step (hd msgs) = i" and i: "i \<noteq> - 1"
    and run: "replob_commit msgs r = (res, out, r')"
    and call: "node_call i (voting_commit (map carry_of msgs)) nd = (out2, nd')"
  shows "handled N calls i r out r' out2 nd'"
proof (cases "i < commitingStep r \<or> sd_state (step_at r i) = StepCompleted")
  case True
  with run msgs have eq: "out = []" "r' = r"
    by (simp_all add: replob_commit_def VERIFY_def put_step_closed)
  have "\<exists>b. voting_commit (map carry_of msgs) v = (v\<lparr>v_timer := b\<rparr>, [])" if "v_state v = VCompleted" for v
    using that by (intro exI [of _ "v_timer v"]) (simp add: voting_commit_def)
  from closed_handled [where f = "voting_commit (map carry_of msgs)", OF sim wf True this call]
  show ?thesis unfolding eq by simp
next
  case False
  let ?v = "object_at (phs nd) i"
  let ?v' = "?v\<lparr>v_state := VCompleted, v_carries := map carry_of msgs\<rparr>"
  have ss: "steps_sim N r (phs nd) (executed nd)" using sim by (simp add: node_sim_def)
  have op: "v_state ?v \<noteq> VCompleted"
    using False data_sim_completed [OF at_sim [OF ss, of i]] by simp
  have v1: "replob_commit msgs r = (Inr (), [CallCommit msgs],
      tryProcess i (put_step i (completed_data msgs (step_at r i)) r))"
    using commit_open [OF msgs(1), of r] msgs(2) False by simp
  have "voting_commit (map carry_of msgs) ?v = (?v', [BroadcastCommit (map carry_of msgs), CompleteStep])"
    using op by (simp add: voting_commit_def Let_def)
  then have "do_effects i [BroadcastCommit (map carry_of msgs), CompleteStep]
      (nd\<lparr>phs := put_object i ?v' (phs nd)\<rparr>) = (out2, nd')"
    using call call_on_object [OF wf, of i "voting_commit (map carry_of msgs)"] False steps_simD(1) [OF ss]
    by (simp add: node_call_def)
  from finish_handled [OF sim wf i op _ _ _ _ msgs this, of "completed_data msgs (step_at r i)"] v1 run
  show ?thesis by simp
qed

text \<open>A vote that is entered, in both versions.\<close>

lemma vote_entered:
  assumes ds: "data_sim N d v" and op: "sd_state d \<noteq> StepCompleted"
    and e: "enter_vote n c src d = (cv, d2)" and i: "ca_step c = i" and N: "n \<in> N" "src \<in> N"
    and voted: "sd_state d = StepVoted \<Longrightarrow>
      counted d calls i \<and> n \<in> votedNodesSet d \<and> CallVote c src \<in> calls"
    and un: "votes_unique N calls i" and src: "src = n \<or> CallVote c src \<in> calls"
  obtains w where
    "voting_vote n [carry_of c] src (ByValue N) v =
      (if votedNodesSet d2 = N then voting_commit (v_carries w) w
       else (w, if cv then [BroadcastVote [carry_of c] n N] else []))"
    and "v_state w \<noteq> VCompleted" "v_carries w = carries_of (votedNodes d2)"
    and "votedNodesSet d2 \<noteq> N \<longrightarrow> data_sim N d2 w"
    and "votedNodesSet d2 \<subseteq> N" "one_vote_each d2" "sd_state d2 = StepVoted"
    and "counted d2 (if cv then insert (CallVote c n) calls else calls) i"
proof -
  have N0: "N \<noteq> {}" using N by auto
  consider (first) "sd_state d = StepInitial" | (later) "sd_state d = StepVoted"
    using op by (cases "sd_state d") auto
  then show ?thesis
  proof cases
    case first
    with ds have v: "v_state v = VInitial" "v_nodes v = {}" "v_voted v = {}" "v_carries v = []"
      and none: "votedNodes d = []" by (simp_all add: data_sim_def)
    have d2: "cv" "d2 = d\<lparr>sd_state := StepVoted, votedNodes := [(ca_id c, \<lparr>votedSet = {n, src}, md_msg = ca_msg c\<rparr>)]\<rparr>"
      using e enter_first [OF first none] by simp_all
    have set: "votedNodesSet d2 = {n, src}" by (simp add: d2(2) votedNodesSet_def)
    let ?v = "v\<lparr>v_carries := [carry_of c], v_nodes := N, v_voted := {n, src}\<rparr>"
    let ?w = "if {n, src} = N then ?v else ?v\<lparr>v_state := VVoted\<rparr>"
    have "carry_union [] [carry_of c] = [carry_of c]" by (simp add: carry_union_def)
    then have "voting_vote n [carry_of c] src (ByValue N) v =
      (if votedNodesSet d2 = N then voting_commit (v_carries ?w) ?w
       else (?w, if cv then [BroadcastVote [carry_of c] n N] else []))"
      using vote_on_initial [OF v N0, of n "[carry_of c]" src] d2(1) set by (simp add: Let_def)
    then show ?thesis
    proof (rule that)
      show "v_state ?w \<noteq> VCompleted" "v_carries ?w = carries_of (votedNodes d2)"
        using v(1) by (simp_all add: d2(2) carries_of_def carry_of_def)
      show "votedNodesSet d2 \<noteq> N \<longrightarrow> data_sim N d2 ?w"
        using set by (simp add: data_sim_def d2(2) carries_of_def carry_of_def)
      show "votedNodesSet d2 \<subseteq> N" "one_vote_each d2" "sd_state d2 = StepVoted"
        using N set by (simp_all add: d2(2) one_vote_each_def)
      show "counted d2 (if cv then insert (CallVote c n) calls else calls) i"
        using src i by (auto simp: counted_def d2)
    qed
  next
    case later
    with ds have v: "v_state v = VVoted" "v_nodes v = N" "v_voted v = votedNodesSet d"
      "v_carries v = carries_of (votedNodes d)" by (simp_all add: data_sim_def)
    note vd = voted [OF later]
    note el = enter_later [OF later conjunct1 [OF vd] un _ i e]
    have c: "CallVote c src \<in> calls" using vd by blast
    let ?w = "v\<lparr>v_carries := carry_insert (carry_of c) (v_carries v), v_voted := insert src (v_voted v)\<rparr>"
    have "carry_union (v_carries v) [carry_of c] = carry_insert (carry_of c) (v_carries v)"
      by (simp add: carry_union_def)
    then have "voting_vote n [carry_of c] src (ByValue N) v =
      (if votedNodesSet d2 = N then voting_commit (v_carries ?w) ?w
       else (?w, if cv then [BroadcastVote [carry_of c] n N] else []))"
      using vote_on_voted [OF v(1,2) _ N0, of n "[carry_of c]" src] vd el(1,4) [OF c] v(3)
      by (simp add: Let_def)
    then show ?thesis
    proof (rule that)
      show "v_state ?w \<noteq> VCompleted" "v_carries ?w = carries_of (votedNodes d2)"
        using v el(5) [OF c] by simp_all
      show "votedNodesSet d2 \<noteq> N \<longrightarrow> data_sim N d2 ?w"
        using v el(2,4,5) [OF c] by (simp add: data_sim_def)
      show "votedNodesSet d2 \<subseteq> N" "one_vote_each d2"
        using counted_disjoint [OF el(3) [OF c] un] by simp_all
      show "sd_state d2 = StepVoted" by (rule el(2) [OF c])
      show "counted d2 (if cv then insert (CallVote c n) calls else calls) i"
        using el(1,3) [OF c] by simp
    qed
  qed
qed

text \<open>The vote of another node, or the own first one (\<open>g\<close> then starts the timer).\<close>

lemma v1_vote_handled:
  assumes sim: "node_sim N r nd" and wf: "objects_wf (phs nd)" and i: "ca_step c = i" "i \<noteq> - 1"
    and cfg: "thisNode (config (cluster_nodes r)) = n" "nodesSet (config (cluster_nodes r)) = N"
      "distinct (map fst (cfg_nodes (config (cluster_nodes r))))"
    and N: "n \<in> N" "src \<in> N"
    and voted: "\<And>d. rsteps r i = Some d \<Longrightarrow> sd_state d = StepVoted \<Longrightarrow>
      counted d calls i \<and> n \<in> votedNodesSet d \<and> CallVote c src \<in> calls"
    and un: "votes_unique N calls i" and src: "src = n \<or> CallVote c src \<in> calls"
    and g: "\<And>v. \<exists>b. g v = v\<lparr>v_timer := b\<rparr>"
    and run: "replob_vote c src r = (res, out, r')"
    and call: "node_call i (\<lambda>v. voting_vote n [carry_of c] src (ByValue N) (g v)) nd = (out2, nd')"
  shows "handled N calls i r out r' out2 nd'"
proof (cases "i < commitingStep r \<or> sd_state (step_at r i) = StepCompleted")
  case True
  with run i have eq: "out = []" "r' = r" by (simp_all add: replob_vote_def put_step_closed)
  have "\<exists>b. voting_vote n [carry_of c] src (ByValue N) (g v) = (v\<lparr>v_timer := b\<rparr>, [])"
    if "v_state v = VCompleted" for v
  proof -
    obtain b where "g v = v\<lparr>v_timer := b\<rparr>" using g by blast
    with that show ?thesis by (intro exI [of _ b]) (simp add: voting_vote_def)
  qed
  from closed_handled [where f = "\<lambda>v. voting_vote n [carry_of c] src (ByValue N) (g v)", OF sim wf True this call]
  show ?thesis unfolding eq by simp
next
  case False
  let ?d = "step_at r i" and ?v = "object_at (phs nd) i" and ?x = "carry_of c"
  let ?f = "\<lambda>v. voting_vote n [?x] src (ByValue N) (g v)"
  have ss: "steps_sim N r (phs nd) (executed nd)" using sim by (simp add: node_sim_def)
  have ds: "data_sim N ?d ?v" by (rule at_sim [OF ss])
  have op: "v_state ?v \<noteq> VCompleted" using False data_sim_completed [OF ds] by simp
  obtain b where gv: "g ?v = ?v\<lparr>v_timer := b\<rparr>" using g by blast
  have do: "do_effects i (snd (?f ?v)) (nd\<lparr>phs := put_object i (fst (?f ?v)) (phs nd)\<rparr>) = (out2, nd')"
    using call call_on_object [OF wf, of i ?f] False steps_simD(1) [OF ss] by (simp add: node_call_def)
  obtain cv d2 where e: "enter_vote n c src ?d = (cv, d2)" by fastforce
  have vd: "counted ?d calls i \<and> n \<in> votedNodesSet ?d \<and> CallVote c src \<in> calls" if "sd_state ?d = StepVoted"
    using that voted by (auto simp: step_at_def step_data_new_def split: option.splits)
  from ds gv have dg: "data_sim N ?d (g ?v)" by simp
  from False have od: "sd_state ?d \<noteq> StepCompleted" by simp
  obtain w where w: "?f ?v = (if votedNodesSet d2 = N then voting_commit (v_carries w) w
       else (w, if cv then [BroadcastVote [?x] n N] else []))"
    and w_op: "v_state w \<noteq> VCompleted" "v_carries w = carries_of (votedNodes d2)"
    and w_sim: "votedNodesSet d2 \<noteq> N \<longrightarrow> data_sim N d2 w"
    and d2: "votedNodesSet d2 \<subseteq> N" "one_vote_each d2" "sd_state d2 = StepVoted"
    and cnt: "counted d2 (if cv then insert (CallVote c n) calls else calls) i"
    by (rule vote_entered [OF dg od e i(1) N vd un src])
  have may: "mayCommit (config (cluster_nodes r)) d2 \<longleftrightarrow> votedNodesSet d2 = N"
    using mayCommit_all_voted [OF d2(2) _ cfg(3)] d2(1) cfg(2) by simp
  have v1: "replob_vote c src r =
    (if votedNodesSet d2 = N
     then (Inr (), [CallCommit (voted_msgs i d2)], tryProcess i (put_step i (completed_data (voted_msgs i d2) d2) r))
     else if cv then (Inr (), [CallVote c n], put_step i (d2\<lparr>sd_timer := True\<rparr>) r)
     else (Inr (), [], put_step i d2 r))"
    using vote_open [of c r src cv d2] False e i(1) cfg(1) may by simp
  show ?thesis
  proof (cases "votedNodesSet d2 = N")
    case True
    let ?w = "w\<lparr>v_state := VCompleted, v_carries := v_carries w\<rparr>"
    have msgs: "voted_msgs i d2 \<noteq> []" "ca_step (hd (voted_msgs i d2)) = i"
      using enter_vote_data [OF e] by (auto simp: voted_msgs_def hd_map)
    have C: "v_carries w = map carry_of (voted_msgs i d2)"
      by (simp add: w_op(2) voted_msgs_def carries_of_def carry_of_def comp_def case_prod_unfold)
    have "?f ?v = (?w, [BroadcastCommit (map carry_of (voted_msgs i d2)), CompleteStep])"
      using w True w_op(1) by (simp add: voting_commit_def Let_def C)
    with do have "do_effects i [BroadcastCommit (map carry_of (voted_msgs i d2)), CompleteStep]
        (nd\<lparr>phs := put_object i ?w (phs nd)\<rparr>) = (out2, nd')" by simp
    from finish_handled [OF sim wf i(2) op _ _ _ _ msgs this, of "completed_data (voted_msgs i d2) d2"]
      v1 run True C show ?thesis by simp
  next
    case no: False
    have eq: "out2 = map (call_msg N) out" "nd' = nd\<lparr>phs := put_object i w (phs nd)\<rparr>"
      using do w no v1 run i(1) by (auto split: if_splits)
    have r': "r' = put_step i (if cv then d2\<lparr>sd_timer := True\<rparr> else d2) r"
      and out: "out = (if cv then [CallVote c n] else [])" using v1 run no by (auto split: if_splits)
    have "data_sim N (if cv then d2\<lparr>sd_timer := True\<rparr> else d2) w"
      using w_sim no by (simp add: data_sim_def votedNodesSet_def split: step_state.splits)
    from put_sim [OF ss this, of i] have "node_sim N r' nd'"
      using sim by (simp add: node_sim_def eq(2) r')
    moreover have "counted (if cv then d2\<lparr>sd_timer := True\<rparr> else d2) (calls \<union> set out) i"
      using cnt by (cases cv) (simp_all add: out)
    ultimately show ?thesis unfolding handled_def by (auto simp: eq(1) r' out split: if_splits)
  qed
qed

lemma node_apply_call:
  assumes nv: "node_inv nd"
  defines "i \<equiv> next_step (phs nd)"
  shows "node_apply cfg m nd = (Inr (), node_call i
    (voting_start (thisNode cfg) \<lparr>cm_msg = m, cm_id = (thisNode cfg, next_mid nd)\<rparr> (nodesSet cfg))
    (nd\<lparr>next_mid := next_mid nd + 1, phs := (phs nd)\<lparr>next_step := i + 1\<rparr>\<rparr>))"
proof -
  have "\<not> i < cur_step (phs nd)" using nv by (simp add: node_inv_def phantoms_wf_def i_def not_less)
  then show ?thesis
    by (simp add: node_apply_def node_call_def phantom_call_def create_def get_def getPtr_def
        genUniqueId_def nextId_def i_def [symmetric] split_beta Let_def split: option.split)
qed

lemma node_inv_objects: "node_inv nd \<Longrightarrow> objects_wf (phs nd)"
  by (auto simp: node_inv_def phantoms_wf_def objects_wf_def)

lemma apply_handled:
  assumes sim: "node_sim N r nd" and nv: "node_inv nd" and i: "nextStep r \<noteq> - 1"
    and cfg: "config (cluster_nodes r) = cfg" "nodesSet cfg = N" "distinct (map fst (cfg_nodes cfg))" "thisNode cfg \<in> N"
    and un: "votes_unique N calls (nextStep r)" and run: "replob_apply m r = (res, out, r')"
  shows "\<exists>res2 out2 nd'. node_apply cfg (Some m) nd = (res2, out2, nd') \<and>
    handled N calls (nextStep r) r out r' out2 nd'"
proof -
  let ?i = "nextStep r" and ?n = "thisNode cfg"
  have ss: "steps_sim N r (phs nd) (executed nd)" and mid: "next_mid nd = mid_counter r"
    using sim by (simp_all add: node_sim_def)
  note s = steps_simD [OF ss]
  let ?r = "r\<lparr>nextStep := ?i + 1, mid_counter := mid_counter r + 1\<rparr>"
  let ?nd = "nd\<lparr>next_mid := next_mid nd + 1, phs := (phs nd)\<lparr>next_step := ?i + 1\<rparr>\<rparr>"
  let ?c = "\<lparr>ca_msg = Some m, ca_step = ?i, ca_id = (?n, mid_counter r)\<rparr>"
  have sim': "node_sim N ?r ?nd"
    using s mid by (simp add: node_sim_def steps_sim_def)
  have up: "k < ?i + 1" if "k < ?i" for k
    using that word_less_Suc_not_max [OF i, of k] by simp
  have wf: "objects_wf (phs ?nd)"
    using node_inv_objects [OF nv] s(2) up by (auto simp: objects_wf_def)
  have "steps (phs nd) ?i = None"
    using objects_wfD(2) [OF node_inv_objects [OF nv], of ?i] s(2) by (cases "steps (phs nd) ?i") auto
  with s(4) [of ?i] have none: "rsteps ?r ?i = None" by (cases "rsteps r ?i") auto
  have v1: "replob_vote ?c ?n ?r = (res, out, r')"
    using run cfg(1) by (simp add: replob_apply_def nextStepId_def genUniqueId_def nextId_def)
  obtain out2 nd' where call: "node_call ?i
      (\<lambda>v. voting_vote ?n [carry_of ?c] ?n (ByValue N) (v\<lparr>v_timer := True\<rparr>)) ?nd = (out2, nd')" by fastforce
  have "handled N calls ?i ?r out r' out2 nd'"
    by (rule v1_vote_handled [where g = "\<lambda>v. v\<lparr>v_timer := True\<rparr>", OF sim' wf _ i _ _ _ cfg(4,4) _ un _ _ v1 call])
      (use none cfg in auto)
  moreover have "voting_start ?n (carry_of ?c) N = (\<lambda>v. voting_vote ?n [carry_of ?c] ?n (ByValue N) (v\<lparr>v_timer := True\<rparr>))"
    by (simp add: fun_eq_iff voting_start_def)
  ultimately show ?thesis
    using node_apply_call [OF nv, of cfg "Some m"] call cfg(2) s(2) mid
    by (simp add: handled_def carry_of_def)
qed

section \<open>Clusters\<close>

record 'm cluster1 =
  rps :: "node_id \<Rightarrow> 'm replob"
  calls1 :: "'m call set"
  given1 :: "(step_id \<times> 'm option carry_msg) set"

definition first_start :: "members \<Rightarrow> 'm cluster1 \<Rightarrow> bool" where
  "first_start mem s \<longleftrightarrow> 2 \<le> card (member_ids mem) \<and> distinct (map fst mem) \<and>
     (\<forall>n. \<exists>ns. rps s n = replob_new ns \<and> config ns = node_cfg mem n) \<and> calls1 s = {} \<and> given1 s = {}"

text \<open>The network is that of \<open>Cluster\<close>; no timer fires, so that no node is disconnected.\<close>

inductive first_step :: "members \<Rightarrow> 'm cluster1 \<Rightarrow> 'm cluster1 \<Rightarrow> bool" for mem where
  applied: "\<lbrakk>n \<in> member_ids mem; nextStep (rps s n) \<noteq> - 1; mid_counter (rps s n) \<noteq> - 1;
      replob_apply m (rps s n) = (res, out, r')\<rbrakk> \<Longrightarrow>
    first_step mem s \<lparr>rps = (rps s)(n := r'), calls1 = calls1 s \<union> set out,
      given1 = insert (nextStep (rps s n), \<lparr>cm_msg = Some m, cm_id = (n, mid_counter (rps s n))\<rparr>) (given1 s)\<rparr>"
| vote: "\<lbrakk>n \<in> member_ids mem; CallVote c src \<in> calls1 s; replob_vote c src (rps s n) = (res, out, r')\<rbrakk> \<Longrightarrow>
    first_step mem s \<lparr>rps = (rps s)(n := r'), calls1 = calls1 s \<union> set out, given1 = given1 s\<rparr>"
| commit: "\<lbrakk>n \<in> member_ids mem; CallCommit msgs \<in> calls1 s; replob_commit msgs (rps s n) = (res, out, r')\<rbrakk> \<Longrightarrow>
    first_step mem s \<lparr>rps = (rps s)(n := r'), calls1 = calls1 s \<union> set out, given1 = given1 s\<rparr>"

definition cluster_sim :: "members \<Rightarrow> 'm cluster1 \<Rightarrow> 'm option cluster \<Rightarrow> bool" where
  "cluster_sim mem s t \<longleftrightarrow> distinct (map fst mem) \<and>
     (\<forall>n \<in> member_ids mem. node_sim (member_ids mem) (rps s n) (nds t n) \<and>
        config (cluster_nodes (rps s n)) = node_cfg mem n \<and>
        (\<forall>k d. rsteps (rps s n) k = Some d \<and> sd_state d = StepVoted \<longrightarrow> counted d (calls1 s) k)) \<and>
     (\<forall>call \<in> calls1 s. call_ok call) \<and> net t = call_msg (member_ids mem) ` calls1 s \<and> applied t = given1 s"

lemma handled_cluster:
  assumes sim: "cluster_sim mem s t" and n: "n \<in> member_ids mem"
    and h: "handled (member_ids mem) (calls1 s) i (rps s n) out r' out2 nd'"
  shows "cluster_sim mem \<lparr>rps = (rps s)(n := r'), calls1 = calls1 s \<union> set out, given1 = A\<rparr>
    \<lparr>nds = (nds t)(n := nd'), net = net t \<union> set out2, applied = A\<rparr>"
proof -
  have "counted d (calls1 s \<union> set out) k"
    if "rsteps r' k = Some d" "sd_state d = StepVoted" for k d
    using h sim n that unfolding handled_def cluster_sim_def by (metis counted_mono Un_upper1)
  moreover have "counted d (calls1 s \<union> set out) k"
    if "m \<in> member_ids mem" "rsteps (rps s m) k = Some d" "sd_state d = StepVoted" for m k d
    using sim that unfolding cluster_sim_def by (metis counted_mono Un_upper1)
  ultimately show ?thesis
    using sim n h by (auto simp: cluster_sim_def handled_def)
qed

lemma sim_unique:
  assumes sim: "cluster_sim mem s t" and inv: "cluster_inv mem t"
  shows "votes_unique (member_ids mem) (calls1 s) k"
proof -
  let ?N = "member_ids mem"
  have net: "VoteMsg (ca_step c) [carry_of c] src ?N \<in> net t" if "CallVote c src \<in> calls1 s" for c src
    using sim that unfolding cluster_sim_def by (metis call_msg.simps(1) imageI)
  have wf: "votes_wf ?N (votes_at (net t) k)"
    using inv by (simp add: cluster_inv_def agree_inv_def)
  have at: "([carry_of c], src, ?N) \<in> votes_at (net t) k" if "CallVote c src \<in> calls1 s" "ca_step c = k" for c src
    using net that by (auto simp: votes_at_def)
  have ap: "(k, carry_of c) \<in> applied t" if "CallVote c src \<in> calls1 s" "ca_step c = k" for c src
    using inv net [OF that(1)] that(2) unfolding cluster_inv_def carried_by_def by fastforce
  have inj: "inj_on (\<lambda>(k, x). cm_id x) (applied t)" using inv by (simp add: cluster_inv_def applied_wf_def)
  have same: "ca_msg c = ca_msg c'" if "CallVote c src \<in> calls1 s" "CallVote c' src' \<in> calls1 s"
    "ca_step c = k" "ca_step c' = k" "ca_id c = ca_id c'" for c c' src src'
    using inj_onD [OF inj _ ap [OF that(1,3)] ap [OF that(2,4)]] that(5) by (simp add: carry_of_def)
  have one: "ca_id c = ca_id c'" if "CallVote c src \<in> calls1 s" "CallVote c' src \<in> calls1 s"
    "ca_step c = k" "ca_step c' = k" for c c' src
    using wf at [OF that(1,3)] at [OF that(2,4)] unfolding votes_wf_def
    by (metis carry_msg.select_convs(2) carry_of_def list.inject)
  have "src \<in> ?N" if "CallVote c src \<in> calls1 s" "ca_step c = k" for c src
    using wf at [OF that] unfolding votes_wf_def by blast
  with same one show ?thesis unfolding votes_unique_def by (intro conjI allI impI) blast+
qed

lemma sim_call:
  assumes sim: "cluster_sim mem s t" and call: "call \<in> calls1 s"
  shows "call_msg (member_ids mem) call \<in> net t" "call_ok call"
  using assms unfolding cluster_sim_def by blast+

lemma sim_node:
  assumes sim: "cluster_sim mem s t" and n: "n \<in> member_ids mem"
  shows "node_sim (member_ids mem) (rps s n) (nds t n)" "config (cluster_nodes (rps s n)) = node_cfg mem n"
    "distinct (map fst mem)"
  using assms unfolding cluster_sim_def by blast+

lemma sim_voted:
  assumes sim: "cluster_sim mem s t" and inv: "cluster_inv mem t" and n: "n \<in> member_ids mem"
    and d: "rsteps (rps s n) k = Some d" "sd_state d = StepVoted"
  shows "counted d (calls1 s) k \<and> n \<in> votedNodesSet d"
proof
  show "counted d (calls1 s) k" using sim n d unfolding cluster_sim_def by blast
  let ?nd = "nds t n"
  have nv: "node_inv ?nd" using inv n by (simp add: cluster_inv_def)
  have "rel_option (\<lambda>d w. data_sim (member_ids mem) d (wp_obj w)) (Some d) (steps (phs ?nd) k)"
    using sim_node(1) [OF sim n] d(1) steps_simD(4) unfolding node_sim_def by metis
  then obtain w where w: "steps (phs ?nd) k = Some w" "data_sim (member_ids mem) d (wp_obj w)"
    by (cases "steps (phs ?nd) k") auto
  then have v: "v_state (wp_obj w) = VVoted" "v_voted (wp_obj w) = votedNodesSet d"
    using d(2) by (simp_all add: data_sim_def)
  have "\<not> wp_completed w" using objects_wfD(3) [OF node_inv_objects [OF nv] w(1)] v(1) by simp
  moreover have "cur_step (phs ?nd) \<le> k" using nv w(1) by (auto simp: node_inv_def phantoms_wf_def)
  ultimately have ph: "phase ?nd k = Inr (wp_obj w)"
    using phase_open [OF nv, of k] w(1) by simp
  have ag: "agree_inv (member_ids mem) (\<lambda>n. phase (nds t n) k) (votes_at (net t) k) (commits_at (net t) k)"
    using inv by (simp add: cluster_inv_def)
  then have "voting_wf (member_ids mem) (votes_at (net t) k) n (wp_obj w)"
    using n ph unfolding agree_inv_def by blast
  with v show "n \<in> votedNodesSet d" by (simp add: voting_wf_def)
qed

lemma timer_same: "\<exists>b. (v :: 'm voting) = v\<lparr>v_timer := b\<rparr>"
  by (rule exI [of _ "v_timer v"]) simp

text \<open>Every step of a cluster of the first version is a step of one of the second.\<close>

lemma first_step_sim:
  assumes sim: "cluster_sim mem s t" and inv: "cluster_inv mem t" and step: "first_step mem s s'"
  shows "\<exists>t'. cluster_step mem t t' \<and> cluster_sim mem s' t'"
  using step
proof cases
  case (applied n m res out r')
  note nd = sim_node [OF sim applied(2)]
  have nv: "node_inv (nds t n)" using inv applied(2) by (simp add: cluster_inv_def)
  have same: "next_step (phs (nds t n)) = nextStep (rps s n)" "next_mid (nds t n) = mid_counter (rps s n)"
    using nd(1) by (simp_all add: node_sim_def steps_sim_def)
  have cfg: "nodesSet (node_cfg mem n) = member_ids mem" "thisNode (node_cfg mem n) = n"
    "cfg_nodes (node_cfg mem n) = mem"
    by (simp_all add: node_cfg_def nodesSet_def member_ids_def thisNode_def)
  from apply_handled [OF nd(1) nv applied(3) nd(2) cfg(1) _ _ sim_unique [OF sim inv] applied(5)] cfg nd(3) applied(2)
  obtain res2 out2 nd' where a: "node_apply (node_cfg mem n) (Some m) (nds t n) = (res2, out2, nd')"
    and h: "handled (member_ids mem) (calls1 s) (nextStep (rps s n)) (rps s n) out r' out2 nd'" by auto
  from cluster_step.applied [OF applied(2) _ _ a] applied(3,4) same handled_cluster [OF sim applied(2) h] sim
  show ?thesis unfolding applied(1) cluster_sim_def by metis
next
  case (vote n c src res out r')
  note nd = sim_node [OF sim vote(2)]
  have nv: "node_inv (nds t n)" and msg: "VoteMsg (ca_step c) [carry_of c] src (member_ids mem) \<in> net t"
    using inv vote(2) sim_call(1) [OF sim vote(3)] by (simp_all add: cluster_inv_def)
  then have i: "ca_step c \<noteq> - 1" using inv unfolding cluster_inv_def by force
  have cfg: "nodesSet (node_cfg mem n) = member_ids mem" "thisNode (node_cfg mem n) = n"
    "cfg_nodes (node_cfg mem n) = mem"
    by (simp_all add: node_cfg_def nodesSet_def member_ids_def thisNode_def)
  note un = sim_unique [OF sim inv, of "ca_step c"]
  then have src: "src \<in> member_ids mem" using vote(3) unfolding votes_unique_def by blast
  obtain out2 nd' where d: "node_deliver n (VoteMsg (ca_step c) [carry_of c] src (member_ids mem)) (nds t n) = (out2, nd')"
    by fastforce
  have "handled (member_ids mem) (calls1 s) (ca_step c) (rps s n) out r' out2 nd'"
    by (rule v1_vote_handled [where g = "\<lambda>v. v" and n = n, OF nd(1) node_inv_objects [OF nv] refl i _ _ _ vote(2) src _ un _ _ vote(4)])
      (use nd cfg vote(3) d sim_voted [OF sim inv vote(2)] in \<open>auto intro: timer_same\<close>)
  from handled_cluster [OF sim vote(2) this] cluster_step.deliver [OF vote(2) msg d] sim
  show ?thesis unfolding vote(1) cluster_sim_def by metis
next
  case (commit n msgs res out r')
  note nd = sim_node [OF sim commit(2)]
  have nv: "node_inv (nds t n)" and msg: "CommitMsg (ca_step (hd msgs)) (map carry_of msgs) \<in> net t" and ne: "msgs \<noteq> []"
    using inv commit(2) sim_call [OF sim commit(3)] by (simp_all add: cluster_inv_def)
  then have i: "ca_step (hd msgs) \<noteq> - 1" using inv unfolding cluster_inv_def by force
  obtain out2 nd' where d: "node_deliver n (CommitMsg (ca_step (hd msgs)) (map carry_of msgs)) (nds t n) = (out2, nd')"
    by fastforce
  from v1_commit_handled [OF nd(1) node_inv_objects [OF nv] ne refl i commit(4)] d
  have "handled (member_ids mem) (calls1 s) (ca_step (hd msgs)) (rps s n) out r' out2 nd'" by simp
  from handled_cluster [OF sim commit(2) this] cluster_step.deliver [OF commit(2) msg d] sim
  show ?thesis unfolding commit(1) cluster_sim_def by metis
qed

definition matching :: "'m cluster1 \<Rightarrow> 'm option cluster" where
  "matching s = \<lparr>nds = \<lambda>_. node_new, net = {}, applied = {}\<rparr>"

lemma start_sim:
  assumes "first_start mem s"
  shows "cluster_sim mem s (matching s)" "cluster_start mem (matching s)"
proof -
  have "node_sim (member_ids mem) (rps s n) node_new \<and> config (cluster_nodes (rps s n)) = node_cfg mem n \<and>
      rsteps (rps s n) = Map.empty" for n
  proof -
    obtain ns where "rps s n = replob_new ns" "config ns = node_cfg mem n"
      using assms unfolding first_start_def by blast
    then show ?thesis
      by (simp add: replob_new_def node_sim_def steps_sim_def node_new_def phantoms_new_def log_of_def)
  qed
  then show "cluster_sim mem s (matching s)"
    using assms by (simp add: cluster_sim_def matching_def first_start_def)
  show "cluster_start mem (matching s)"
    using assms by (simp add: cluster_start_def matching_def first_start_def)
qed

lemma first_run_sim:
  assumes "first_start mem s0" and "(first_step mem)\<^sup>*\<^sup>* s0 s"
  shows "\<exists>t. (cluster_step mem)\<^sup>*\<^sup>* (matching s0) t \<and> cluster_sim mem s t"
  using assms(2)
proof (induction rule: rtranclp_induct)
  case base
  with start_sim(1) [OF assms(1)] show ?case by blast
next
  case (step s s')
  then obtain t where t: "(cluster_step mem)\<^sup>*\<^sup>* (matching s0) t" "cluster_sim mem s t" by blast
  have "cluster_inv mem t" by (rule cluster.inv_reachable [OF start_sim(2) [OF assms(1)] t(1)])
  from first_step_sim [OF t(2) this step(2)] t(1) show ?case by (meson rtranclp.rtrancl_into_rtrancl)
qed

lemma log_of_ids: "map (\<lambda>(k, C). carry_ids C) (log_of l) = map (\<lambda>(k, cs). map ca_id cs) l"
  by (simp add: log_of_def carry_of_def comp_def case_prod_unfold)

text \<open>A run of two nodes: the first applies a message, the second hears its vote and decides.\<close>

definition first_two :: "nat cluster1" where
  "first_two = \<lparr>rps = \<lambda>n. replob_new \<lparr>config = node_cfg two_nodes n, table = []\<rparr>, calls1 = {}, given1 = {}\<rparr>"

definition first_voted :: "nat cluster1" where
  "first_voted = (let r = replob_apply 7 (rps first_two 1)
     in \<lparr>rps = (rps first_two)(1 := snd (snd r)), calls1 = set (fst (snd r)),
         given1 = {(0, \<lparr>cm_msg = Some 7, cm_id = (1, 0)\<rparr>)}\<rparr>)"

definition first_vote :: "nat carry" where
  "first_vote = \<lparr>ca_msg = Some 7, ca_step = 0, ca_id = (1, 0)\<rparr>"

definition first_decided :: "nat cluster1" where
  "first_decided = (let r = replob_vote first_vote 1 (rps first_voted 2)
     in \<lparr>rps = (rps first_voted)(2 := snd (snd r)), calls1 = calls1 first_voted \<union> set (fst (snd r)),
         given1 = given1 first_voted\<rparr>)"

lemma first_two_start: "first_start two_nodes first_two"
proof -
  have "distinct (map fst two_nodes)" by (simp add: two_nodes_def)
  then show ?thesis by (auto simp: first_start_def first_two_def two_members)
qed

lemma first_two_run: "(first_step two_nodes)\<^sup>*\<^sup>* first_two first_decided"
proof -
  let ?a = "replob_apply 7 (rps first_two 1)"
  have "nextStep (rps first_two 1) = 0" "mid_counter (rps first_two 1) = 0" by code_simp+
  moreover have "?a = (fst ?a, fst (snd ?a), snd (snd ?a))" by simp
  ultimately have 1: "first_step two_nodes first_two first_voted"
    using first_step.applied [of 1 two_nodes first_two 7 "fst ?a" "fst (snd ?a)" "snd (snd ?a)"]
    by (simp add: two_members first_voted_def first_two_def Let_def)
  let ?v = "replob_vote first_vote 1 (rps first_voted 2)"
  have "fst (snd ?a) = [CallVote first_vote 1]" by code_simp
  then have "CallVote first_vote 1 \<in> calls1 first_voted" by (simp add: first_voted_def Let_def)
  moreover have "?v = (fst ?v, fst (snd ?v), snd (snd ?v))" by simp
  ultimately have 2: "first_step two_nodes first_voted first_decided"
    using first_step.vote [of 2 two_nodes first_vote 1 first_voted "fst ?v" "fst (snd ?v)" "snd (snd ?v)"]
    by (simp add: two_members first_decided_def Let_def)
  from 1 2 show ?thesis by (meson converse_rtranclp_into_rtranclp r_into_rtranclp)
qed

lemma first_two_ran: "ran (rps first_decided 2) = [(0, [first_vote])]"
  by code_simp

section \<open>What the first version promises\<close>

text \<open>C18: The first agreement refines the second: without timeouts, every run of a cluster of
  \<open>Replob\<close> is matched by a run of a cluster of \<open>Replob2\<close> in which the same calls are sent,
  the same messages applied at the same steps, and the same sets executed by every node.\<close>

theorem first_version_refines:
  assumes "first_start mem s0" and "(first_step mem)\<^sup>*\<^sup>* s0 s"
  shows "\<exists>t0 t. cluster_start mem t0 \<and> (cluster_step mem)\<^sup>*\<^sup>* t0 t \<and>
    net t = call_msg (member_ids mem) ` calls1 s \<and> applied t = given1 s \<and>
    (\<forall>n \<in> member_ids mem. executed (nds t n) = log_of (ran (rps s n)))"
proof -
  obtain t where t: "(cluster_step mem)\<^sup>*\<^sup>* (matching s0) t" "cluster_sim mem s t"
    using first_run_sim [OF assms] by blast
  from t(2) have "net t = call_msg (member_ids mem) ` calls1 s" "applied t = given1 s"
    "\<forall>n \<in> member_ids mem. executed (nds t n) = log_of (ran (rps s n))"
    unfolding cluster_sim_def node_sim_def steps_sim_def by blast+
  with t(1) start_sim(2) [OF assms(1)] show ?thesis by blast
qed

text \<open>C17: Replication with the first version: without timeouts, any two nodes have executed the
  same messages at the same steps, one possibly further, and no node executes a message twice.\<close>

theorem first_version_agrees:
  assumes "first_start mem s0" and "(first_step mem)\<^sup>*\<^sup>* s0 s"
    and "n \<in> member_ids mem" and "m \<in> member_ids mem"
  shows "(prefix (log_of (ran (rps s n))) (log_of (ran (rps s m))) \<or>
      prefix (log_of (ran (rps s m))) (log_of (ran (rps s n)))) \<and>
    distinct (concat (map (\<lambda>(k, cs). map ca_id cs) (ran (rps s n))))"
proof -
  obtain t where t: "(cluster_step mem)\<^sup>*\<^sup>* (matching s0) t" "cluster_sim mem s t"
    using first_run_sim [OF assms(1,2)] by blast
  note inv = cluster.inv_reachable [OF start_sim(2) [OF assms(1)] t(1)]
  from t(2) have ex: "\<forall>n \<in> member_ids mem. executed (nds t n) = log_of (ran (rps s n))"
    unfolding cluster_sim_def node_sim_def steps_sim_def by blast
  have "node_inv (nds t n)" "inj_on (\<lambda>(k, x). cm_id x) (applied t)"
    using inv assms(3) by (simp_all add: cluster_inv_def applied_wf_def)
  then have "distinct (concat (map (\<lambda>(k, C). carry_ids C) (executed (nds t n))))"
    by (rule valid_log [THEN conjunct2]) (rule executed_applied [OF inv assms(3)], assumption)+
  with logs_prefix [OF inv assms(3,4)] ex assms(3,4) show ?thesis by (simp add: log_of_ids)
qed

lemma first_version_refines_witness:
  "\<exists>t0 t. cluster_start two_nodes t0 \<and> (cluster_step two_nodes)\<^sup>*\<^sup>* t0 t \<and>
     executed (nds t 2) = [(0, [\<lparr>cm_msg = Some (7 :: nat), cm_id = (1, 0)\<rparr>])]"
  using first_version_refines [OF first_two_start first_two_run] first_two_ran
  by (auto simp: two_members log_of_def carry_of_def first_vote_def)

lemma first_version_agrees_witness:
  "ran (rps first_decided 2) = [(0, [first_vote])] \<and>
   (prefix (log_of (ran (rps first_decided 2))) (log_of (ran (rps first_decided 1))) \<or>
    prefix (log_of (ran (rps first_decided 1))) (log_of (ran (rps first_decided 2))))"
  using first_version_agrees [OF first_two_start first_two_run, of 2 1] by (simp add: two_members first_two_ran)

end
