(* ===== verification/FirstStall.thy ===== *)
theory FirstStall
  imports ReplobV1
begin

text \<open>
  What the availability timer of the first agreement (\<open>src/replob.cpp\<close>) leaves open. It removes the
  nodes that have not voted, but whether a step may commit is only looked at when a vote comes:
  when all votes of the remaining nodes are already in, none comes any more. Calls are delivered
  once here, as a connection that does not break delivers them.
\<close>

section \<open>Nodes on connections\<close>

record 'm wired =
  wr_nodes :: "node_id \<Rightarrow> 'm replob"
  wr_wire :: "(node_id \<times> 'm call) list"

text \<open>A broadcast goes to every other node that is configured.\<close>

definition send_out :: "'m call list \<Rightarrow> 'm replob \<Rightarrow> (node_id \<times> 'm call) list" where
  "send_out out r = concat (map (\<lambda>call. map (\<lambda>n. (n, call)) (otherNodes (config (cluster_nodes r)))) out)"

fun replob_handle :: "'m call \<Rightarrow> 'm replob \<Rightarrow> 'm call list \<times> 'm replob" where
  "replob_handle (CallVote c src) r = snd (replob_vote c src r)"
| "replob_handle (CallCommit msgs) r = snd (replob_commit msgs r)"
| "replob_handle (CallDisconnect l) r = disconnectNodes l r"

text \<open>One step of a node that lives: only those of \<open>L\<close> do anything.\<close>

inductive wired_step :: "node_id set \<Rightarrow> 'm wired \<Rightarrow> 'm wired \<Rightarrow> bool" for L where
  applied: "\<lbrakk>n \<in> L; nextStep (wr_nodes s n) \<noteq> - 1; replob_apply m (wr_nodes s n) = (res, out, r')\<rbrakk> \<Longrightarrow>
    wired_step L s \<lparr>wr_nodes = (wr_nodes s)(n := r'), wr_wire = wr_wire s @ send_out out r'\<rparr>"
| deliver: "\<lbrakk>n \<in> L; wr_wire s = a @ (n, call) # b; replob_handle call (wr_nodes s n) = (out, r')\<rbrakk> \<Longrightarrow>
    wired_step L s \<lparr>wr_nodes = (wr_nodes s)(n := r'), wr_wire = (a @ b) @ send_out out r'\<rparr>"
| timeout: "\<lbrakk>n \<in> L; rsteps (wr_nodes s n) k = Some d; sd_timer d; replob_onTimeout k (wr_nodes s n) = (out, r')\<rbrakk> \<Longrightarrow>
    wired_step L s \<lparr>wr_nodes = (wr_nodes s)(n := r'), wr_wire = wr_wire s @ send_out out r'\<rparr>"

section \<open>A node that waits for ever\<close>

text \<open>The first step is voted on, no call about it is on the way, and later steps wait for it.\<close>

definition stalled :: "'m replob \<Rightarrow> bool" where
  "stalled r \<longleftrightarrow> commitingStep r = 0 \<and> ran r = [] \<and> nextStep r \<noteq> 0 \<and>
     (\<exists>d. rsteps r 0 = Some d \<and> sd_state d = StepVoted) \<and> rsteps r (- 1) = None"

definition later_step :: "step_id \<Rightarrow> bool" where "later_step i \<longleftrightarrow> i \<noteq> 0 \<and> i \<noteq> - 1"

fun later_call :: "'m call \<Rightarrow> bool" where
  "later_call (CallVote c src) = later_step (ca_step c)"
| "later_call (CallCommit msgs) = (msgs = [] \<or> later_step (ca_step (hd msgs)))"
| "later_call (CallDisconnect l) = True"

lemma stalled_put:
  "stalled r \<Longrightarrow> later_step i \<Longrightarrow> stalled (r\<lparr>rsteps := (rsteps r)(i \<mapsto> d)\<rparr>)"
  by (auto simp: stalled_def later_step_def)

lemma getStep_stalled:
  assumes "stalled r" and "later_step i" and "getStep i r = (d, r1)"
  shows "stalled r1 \<and> cluster_nodes r1 = cluster_nodes r"
proof -
  have "i + 1 \<noteq> 0" using assms(2) by (auto simp: later_step_def add_eq_0_iff2)
  with assms show ?thesis
    by (auto simp: getStep_def updateCurrentStepId_def stalled_def later_step_def Let_def split: if_splits)
qed

lemma commit_stalled:
  assumes "stalled r" and "later_call (CallCommit msgs)" and "replob_commit msgs r = (res, out, r')"
  shows "stalled r' \<and> list_all later_call out"
proof (cases "msgs = []")
  case True
  with assms show ?thesis by (simp add: replob_commit_def)
next
  case False
  obtain d r1 where g: "getStep (ca_step (hd msgs)) r = (d, r1)" by fastforce
  from getStep_stalled [OF assms(1) _ g] assms(2) False
  have "stalled r1" and i: "later_step (ca_step (hd msgs))" by auto
  moreover from this have "commitingStep r1 = 0" by (simp add: stalled_def)
  ultimately show ?thesis using assms(3) False g
    by (cases d) (auto simp: replob_commit_def tryProcess_def later_step_def Let_def stalled_put)
qed

lemma vote_stalled:
  assumes "stalled r" and "later_step (ca_step c)" and "replob_vote c src r = (res, out, r')"
  shows "stalled r' \<and> list_all later_call out"
proof -
  obtain d r1 where g: "getStep (ca_step c) r = (d, r1)" by fastforce
  note r1 = getStep_stalled [OF assms(1,2) g]
  show ?thesis
  proof (cases d)
    case None
    with assms(3) g r1 show ?thesis by (simp add: replob_vote_def)
  next
    case (Some d0)
    let ?cfg = "config (cluster_nodes r)"
    obtain can d1 where e: "enter_vote (thisNode ?cfg) c src d0 = (can, d1)" by fastforce
    let ?r2 = "r1\<lparr>rsteps := (rsteps r1)(ca_step c \<mapsto> d1)\<rparr>"
    have r2: "stalled ?r2" using stalled_put r1 assms(2) by blast
    show ?thesis
    proof (cases "mayCommit ?cfg d1")
      case True
      have "later_call (CallCommit (voted_msgs (ca_step c) d1))"
        using assms(2) by (cases "votedNodes d1") (simp_all add: voted_msgs_def)
      moreover have "replob_commit (voted_msgs (ca_step c) d1) ?r2 = (res, out, r')"
        using True assms(3) g e Some by (simp add: replob_vote_def Let_def)
      ultimately show ?thesis by (rule commit_stalled [OF r2])
    next
      case False
      with assms(2,3) g e Some r2 stalled_put [OF r2 assms(2)] show ?thesis
        by (auto simp: replob_vote_def Let_def split: if_splits)
    qed
  qed
qed

lemma apply_stalled:
  assumes "stalled r" and "nextStep r \<noteq> - 1" and "replob_apply m r = (res, out, r')"
  shows "stalled r' \<and> list_all later_call out"
proof -
  have "later_step (nextStep r)" using assms(1,2) by (simp add: later_step_def stalled_def)
  moreover have "nextStep r + 1 \<noteq> 0" using assms(2) by (simp add: add_eq_0_iff2)
  then have "stalled (r\<lparr>nextStep := nextStep r + 1, mid_counter := k\<rparr>)" for k
    using assms(1) by (simp add: stalled_def)
  moreover have "replob_vote \<lparr>ca_msg = Some m, ca_step = nextStep r,
        ca_id = (thisNode (config (cluster_nodes r)), mid_counter r)\<rparr> (thisNode (config (cluster_nodes r)))
      (r\<lparr>nextStep := nextStep r + 1, mid_counter := mid_counter r + 1\<rparr>) = (res, out, r')"
    using assms(3) by (simp add: replob_apply_def nextStepId_def genUniqueId_def nextId_def Let_def)
  ultimately show ?thesis by (intro vote_stalled) simp_all
qed

lemma disconnect_stalled:
  assumes "stalled r" and "disconnectNodes l r = (out, r')"
  shows "stalled r' \<and> list_all later_call out"
proof -
  have "stalled (r\<lparr>cluster_nodes := ns\<rparr>)" for ns using assms(1) by (simp add: stalled_def)
  with assms(2) show ?thesis by (auto simp: disconnectNodes_def split_beta Let_def split: if_splits)
qed

lemma timeout_stalled:
  assumes "stalled r" and "rsteps r k = Some d" and "replob_onTimeout k r = (out, r')"
  shows "stalled r' \<and> list_all later_call out"
proof -
  obtain od r1 where g: "getStep k r = (od, r1)" by fastforce
  have "stalled r1"
  proof (cases "k = 0")
    case True
    from assms(1) obtain d0 where d0: "rsteps r 0 = Some d0" "sd_state d0 = StepVoted" "commitingStep r = 0" "nextStep r \<noteq> 0"
      by (auto simp: stalled_def)
    then have "(rsteps r)(0 \<mapsto> d0) = rsteps r" by (simp add: fun_upd_idem)
    with d0 g True have "r1 = r" by (simp add: getStep_def updateCurrentStepId_def)
    with assms(1) show ?thesis by simp
  next
    case False
    with assms(1,2) have "later_step k" by (auto simp: later_step_def stalled_def)
    with getStep_stalled [OF assms(1) _ g] show ?thesis by blast
  qed
  with assms(3) g show ?thesis
    by (cases od) (auto simp: replob_onTimeout_def Let_def disconnect_stalled split: if_splits dest: disconnect_stalled)
qed

text \<open>So it stays, whatever the living nodes do.\<close>

definition all_stalled :: "node_id set \<Rightarrow> 'm wired \<Rightarrow> bool" where
  "all_stalled L s \<longleftrightarrow> (\<forall>n \<in> L. stalled (wr_nodes s n)) \<and> (\<forall>(n, call) \<in> set (wr_wire s). n \<in> L \<longrightarrow> later_call call)"

lemma handle_stalled:
  assumes "stalled r" and "later_call call" and "replob_handle call r = (out, r')"
  shows "stalled r' \<and> list_all later_call out"
proof (cases call)
  case (CallVote c src)
  with assms(3) have "replob_vote c src r = (fst (replob_vote c src r), out, r')" by (simp add: prod_eq_iff)
  with vote_stalled [OF assms(1)] assms(2) CallVote show ?thesis by simp
next
  case (CallCommit msgs)
  with assms(3) have "replob_commit msgs r = (fst (replob_commit msgs r), out, r')" by (simp add: prod_eq_iff)
  with commit_stalled [OF assms(1)] assms(2) CallCommit show ?thesis by blast
next
  case (CallDisconnect l)
  with assms(1,3) show ?thesis by (simp add: disconnect_stalled)
qed

lemma send_out_later: "list_all later_call out \<Longrightarrow> (n, call) \<in> set (send_out out r) \<Longrightarrow> later_call call"
  by (auto simp: send_out_def list_all_iff)

lemma all_stalled_step:
  assumes "all_stalled L s" and "wired_step L s t"
  shows "all_stalled L t"
  using assms(2)
proof cases
  case (applied n m res out r')
  with apply_stalled [of "wr_nodes s n" m res out r'] assms(1) send_out_later [of out] show ?thesis
    by (fastforce simp: all_stalled_def)
next
  case (deliver n a call b out r')
  then have "stalled (wr_nodes s n)" "later_call call" using assms(1) by (auto simp: all_stalled_def)
  then have "stalled r' \<and> list_all later_call out"
    using handle_stalled deliver(4) by blast
  with deliver assms(1) send_out_later [of out] show ?thesis by (fastforce simp: all_stalled_def)
next
  case (timeout n k d out r')
  with timeout_stalled [of "wr_nodes s n" k d out r'] assms(1) send_out_later [of out] show ?thesis
    by (fastforce simp: all_stalled_def)
qed

lemma all_stalled_run: "(wired_step L)\<^sup>*\<^sup>* s t \<Longrightarrow> all_stalled L s \<Longrightarrow> all_stalled L t"
  by (induction rule: rtranclp_induct) (auto intro: all_stalled_step)

section \<open>How it comes to that\<close>

datatype 'm wired_event = WApply node_id 'm | WDeliver nat | WTimeout node_id step_id

type_synonym 'm wires = "(node_id \<Rightarrow> 'm replob) \<times> (node_id \<times> 'm call) list"

text \<open>One event, when it is possible, to evaluate runs.\<close>

fun run_wired :: "node_id list \<Rightarrow> 'm wired_event \<Rightarrow> 'm wires \<Rightarrow> 'm wires option" where
  "run_wired L (WApply n m) (f, w) =
     (if n \<in> set L \<and> nextStep (f n) \<noteq> - 1
      then let (res, out, r) = replob_apply m (f n) in Some (f(n := r), w @ send_out out r) else None)"
| "run_wired L (WDeliver i) (f, w) =
     (if i < length w \<and> fst (w ! i) \<in> set L
      then let (out, r) = replob_handle (snd (w ! i)) (f (fst (w ! i)))
           in Some (f(fst (w ! i) := r), (take i w @ drop (Suc i) w) @ send_out out r) else None)"
| "run_wired L (WTimeout n k) (f, w) =
     (if n \<in> set L \<and> (case rsteps (f n) k of Some d \<Rightarrow> sd_timer d | None \<Rightarrow> False)
      then let (out, r) = replob_onTimeout k (f n) in Some (f(n := r), w @ send_out out r) else None)"

fun run_wireds :: "node_id list \<Rightarrow> 'm wired_event list \<Rightarrow> 'm wires \<Rightarrow> 'm wires option" where
  "run_wireds L [] c = Some c"
| "run_wireds L (e # es) c = Option.bind (run_wired L e c) (run_wireds L es)"

lemma wired_event_step:
  assumes "run_wired L e (f, w) = Some (g, v)"
  shows "wired_step (set L) \<lparr>wr_nodes = f, wr_wire = w\<rparr> \<lparr>wr_nodes = g, wr_wire = v\<rparr>"
proof (cases e)
  case (WApply n m)
  obtain res out r where a: "replob_apply m (f n) = (res, out, r)" by (rule prod_cases3)
  with assms WApply wired_step.applied [of n "set L" "\<lparr>wr_nodes = f, wr_wire = w\<rparr>" m res out r] show ?thesis
    by (auto split: if_splits)
next
  case (WDeliver i)
  obtain out r where h: "replob_handle (snd (w ! i)) (f (fst (w ! i))) = (out, r)" by fastforce
  from assms WDeliver have i: "i < length w" "fst (w ! i) \<in> set L" by (auto split: if_splits)
  from i(1) have "w = take i w @ (fst (w ! i), snd (w ! i)) # drop (Suc i) w" by (simp add: id_take_nth_drop)
  then have "wr_wire \<lparr>wr_nodes = f, wr_wire = w\<rparr> = take i w @ (fst (w ! i), snd (w ! i)) # drop (Suc i) w" by simp
  from wired_step.deliver [OF i(2) this] h
  have "wired_step (set L) \<lparr>wr_nodes = f, wr_wire = w\<rparr>
      \<lparr>wr_nodes = f(fst (w ! i) := r), wr_wire = (take i w @ drop (Suc i) w) @ send_out out r\<rparr>" by simp
  with assms WDeliver i h show ?thesis by simp
next
  case (WTimeout n k)
  obtain out r where t: "replob_onTimeout k (f n) = (out, r)" by fastforce
  from assms WTimeout obtain d where "n \<in> set L" "rsteps (f n) k = Some d" "sd_timer d"
    by (auto split: if_splits option.splits)
  with assms WTimeout t wired_step.timeout [of n "set L" "\<lparr>wr_nodes = f, wr_wire = w\<rparr>" k d out r] show ?thesis
    by auto
qed

lemma run_wireds_run:
  assumes "run_wireds L es (f, w) = Some (g, v)"
  shows "(wired_step (set L))\<^sup>*\<^sup>* \<lparr>wr_nodes = f, wr_wire = w\<rparr> \<lparr>wr_nodes = g, wr_wire = v\<rparr>"
  using assms
proof (induction es arbitrary: f w)
  case (Cons e es)
  then obtain h u where "run_wired L e (f, w) = Some (h, u)" "run_wireds L es (h, u) = Some (g, v)"
    by (auto simp: bind_eq_Some_conv)
  with wired_event_step Cons.IH show ?case by (metis converse_rtranclp_into_rtranclp)
qed simp

text \<open>Three nodes, of which the third is dead. The first applies a message, the second votes for it;
  both timers fire, and the third node is removed everywhere.\<close>

definition three_of :: "node_id \<Rightarrow> nodes" where
  "three_of n = nodes_of n [(1, port 8001), (2, port 8002), (3, port 8003)]"

definition crash_start :: "nat wired" where
  "crash_start = \<lparr>wr_nodes = \<lambda>n. replob_new (three_of n), wr_wire = []\<rparr>"

definition crash_script :: "nat wired_event list" where
  "crash_script = [WApply 1 7, WDeliver 0, WDeliver 1, WTimeout 1 0, WDeliver 2, WDeliver 2, WTimeout 2 0]"

definition blocked :: "nat replob \<Rightarrow> bool" where
  "blocked r \<longleftrightarrow> commitingStep r = 0 \<and> ran r = [] \<and> nextStep r \<noteq> 0 \<and>
     (case rsteps r 0 of Some d \<Rightarrow> sd_state d = StepVoted | None \<Rightarrow> False) \<and> Option.is_none (rsteps r (- 1))"

lemma blocked_stalled: "blocked r \<Longrightarrow> stalled r"
  by (auto simp: blocked_def stalled_def Option.is_none_def split: option.splits)

lemma crash_run:
  "map_option (\<lambda>(f, w). (blocked (f 1), blocked (f 2), map fst w, cfg_ids (config (cluster_nodes (f 1))),
      cfg_ids (config (cluster_nodes (f 2)))))
     (run_wireds [1, 2] crash_script (\<lambda>n. replob_new (three_of n), [])) =
   Some (True, True, [3, 3], [1, 2], [1, 2])"
  by code_simp

text \<open>When the second node removes the dead one before it hears of the step, its vote comes after
  the removal, and the step is executed.\<close>

lemma crash_passed_by:
  "map_option (\<lambda>(f, w). length (ran (f 1)))
     (run_wireds [1, 2] [WApply 1 (7 :: nat), WDeliver 0, WTimeout 2 0, WDeliver 3, WDeliver 1] (\<lambda>n. replob_new (three_of n), [])) =
   Some 1"
  by code_simp

text \<open>C19: The first agreement can get stuck on a crash: there is a run of three nodes of which the
  third is dead, to a point where the timers have fired, the living nodes have removed the dead
  one, and every call to a living node is delivered, and from which no living node executes
  anything, whatever the living nodes apply, deliver and time out. (Other runs from the same
  start do execute the step, see \<open>crash_passed_by\<close>.)\<close>

theorem crash_blocks_first_version:
  "\<exists>s. (wired_step {1, 2})\<^sup>*\<^sup>* crash_start s \<and>
     (\<forall>n \<in> {1, 2}. cfg_ids (config (cluster_nodes (wr_nodes s n))) = [1, 2]) \<and>
     rsteps (wr_nodes s 1) 0 \<noteq> None \<and> (\<forall>(n, call) \<in> set (wr_wire s). n = 3) \<and>
     (\<forall>t. (wired_step {1, 2})\<^sup>*\<^sup>* s t \<longrightarrow> ran (wr_nodes t 1) = [] \<and> ran (wr_nodes t 2) = [])"
proof -
  obtain f w where r: "run_wireds [1, 2] crash_script (\<lambda>n. replob_new (three_of n), []) = Some (f, w)"
    and b: "blocked (f 1)" "blocked (f 2)" and w: "map fst w = [3, 3]"
    and c: "cfg_ids (config (cluster_nodes (f 1))) = [1, 2]" "cfg_ids (config (cluster_nodes (f 2))) = [1, 2]"
    using crash_run by (auto simp: map_option_eq_Some)
  let ?s = "\<lparr>wr_nodes = f, wr_wire = w\<rparr>"
  have "set (map fst w) = {3}" unfolding w by simp
  then have wire: "\<forall>(n, call) \<in> set w. n = 3" by force
  then have "all_stalled {1, 2} ?s" using b by (fastforce simp: all_stalled_def blocked_stalled)
  then have "\<forall>t. (wired_step {1, 2})\<^sup>*\<^sup>* ?s t \<longrightarrow> ran (wr_nodes t 1) = [] \<and> ran (wr_nodes t 2) = []"
    using all_stalled_run by (fastforce simp: all_stalled_def stalled_def)
  moreover have "(wired_step {1, 2})\<^sup>*\<^sup>* crash_start ?s"
    using run_wireds_run [OF r] by (simp add: crash_start_def)
  moreover have "rsteps (f 1) 0 \<noteq> None" using b(1) by (auto simp: blocked_def split: option.splits)
  ultimately show ?thesis using wire c by (intro exI [of _ ?s]) simp
qed

lemma crash_blocks_first_version_witness:
  "\<exists>s. (wired_step {1, 2})\<^sup>*\<^sup>* crash_start s \<and> rsteps (wr_nodes s 1) 0 \<noteq> None \<and>
     ran (wr_nodes s 1) = [] \<and> cfg_ids (config (cluster_nodes (wr_nodes s 1))) = [1, 2]"
  using crash_blocks_first_version by blast

end
