(* ===== verification/Sending.thy ===== *)
theory Sending
  imports Nodes Packets
begin

text \<open>
  A message on its way from \<open>send\<close> (\<open>src/node.cpp\<close>) through the \<open>Connector\<close> and its retries to the
  loop of \<open>MsgListener\<close>. The network is an argument: what each attempt to write or to connect
  meets, and how much of what a connection has accepted arrives at the other end. A write that
  succeeds has only been accepted; what was accepted arrives in order, and the rest of it is lost
  when the connection breaks.
\<close>

section \<open>send\<close>

definition node_send ::
  "addr \<Rightarrow> addr \<Rightarrow> addr \<Rightarrow> ints \<Rightarrow> (connector \<Rightarrow> bytes \<Rightarrow> 's \<Rightarrow> (unit outcome \<times> 's) option) \<Rightarrow>
     node_id \<Rightarrow> nodes \<Rightarrow> 's \<Rightarrow> (unit outcome \<times> 's) option" where
  "node_send base vsize vtotal msg write dst ns s =
     (case serializeToPacket base vsize vtotal msg of
        Inl e \<Rightarrow> Some (Inl e, s)
      | Inr buf \<Rightarrow> nodes_send write dst buf ns s)"

section \<open>The link of a connector\<close>

text \<open>
  What an attempt to write meets: all is accepted, or only so many bytes before the connection
  breaks, by itself or because another journey calls \<open>disconnect\<close>. A \<open>connect\<close> succeeds, fails,
  or is ended by a \<open>disconnect\<close>. What all attempts meet, as long as the connector lives, are two
  sequences without an end; \<open>ln_w\<close> and \<open>ln_c\<close> count the attempts made.
\<close>

datatype write_event = Through | Cut nat | CutByDisconnect nat
datatype connect_event = Connected | Refused | RefusedByDisconnect

record link =
  ln_open :: bool
  ln_conns :: "bytes list"
  ln_down :: bool
  ln_writes :: "nat \<Rightarrow> write_event"
  ln_w :: nat
  ln_connects :: "nat \<Rightarrow> connect_event"
  ln_c :: nat

definition link_new :: "(nat \<Rightarrow> write_event) \<Rightarrow> (nat \<Rightarrow> connect_event) \<Rightarrow> link" where
  "link_new ws cs = \<lparr>ln_open = False, ln_conns = [], ln_down = False, ln_writes = ws, ln_w = 0,
     ln_connects = cs, ln_c = 0\<rparr>"

definition accept_bytes :: "bytes \<Rightarrow> link \<Rightarrow> link" where
  "accept_bytes bs l = l\<lparr>ln_conns := butlast (ln_conns l) @ [last (ln_conns l) @ bs]\<rparr>"

definition link_write :: "bytes \<Rightarrow> link action" where
  "link_write bs l =
     (if \<not> ln_open l then (Inl NetworkError, l)
      else case ln_writes l (ln_w l) of
        Through \<Rightarrow> (Inr (), accept_bytes bs l\<lparr>ln_w := Suc (ln_w l)\<rparr>)
      | Cut n \<Rightarrow> (Inl NetworkError, accept_bytes (take n bs) l\<lparr>ln_open := False, ln_w := Suc (ln_w l)\<rparr>)
      | CutByDisconnect n \<Rightarrow>
          (Inl NetworkError, accept_bytes (take n bs) l\<lparr>ln_open := False, ln_down := True, ln_w := Suc (ln_w l)\<rparr>))"

definition link_connect :: "link action" where
  "link_connect l =
     (case ln_connects l (ln_c l) of
        Connected \<Rightarrow> (Inr (), l\<lparr>ln_open := True, ln_conns := ln_conns l @ [[]], ln_c := Suc (ln_c l)\<rparr>)
      | Refused \<Rightarrow> (Inl NetworkError, l\<lparr>ln_c := Suc (ln_c l)\<rparr>)
      | RefusedByDisconnect \<Rightarrow> (Inl NetworkError, l\<lparr>ln_down := True, ln_c := Suc (ln_c l)\<rparr>))"

abbreviation link_send :: "bytes \<Rightarrow> link \<Rightarrow> (unit outcome \<times> link) option" where
  "link_send \<equiv> connector_write ln_down link_connect link_write"

text \<open>The writers of a connector one after the other, in the order its mutex lets them in.\<close>

fun send_all :: "bytes list \<Rightarrow> link \<Rightarrow> (unit outcome list \<times> link) option" where
  "send_all [] l = Some ([], l)"
| "send_all (b # bs) l =
     Option.bind (link_send b l) (\<lambda>(r, l1).
       map_option (\<lambda>(rs, l2). (r # rs, l2)) (send_all bs l1))"

text \<open>The messages that \<open>MsgListener\<close> invokes for a connection on which \<open>bs\<close> arrives.\<close>

definition received :: "(nat \<Rightarrow> addr) \<Rightarrow> (ints \<Rightarrow> 'm) \<Rightarrow> bytes \<Rightarrow> 'm list" where
  "received base msg bs =
     (case listen_loop base (\<lambda>m s. (Inr (), s @ [msg m])) 0 bs [] of None \<Rightarrow> [] | Some (e, s) \<Rightarrow> s)"

section \<open>Packets that arrive in part\<close>

abbreviation fits :: "ints \<Rightarrow> bool" where "fits v \<equiv> 4 * length v < 10 * 1024 * 1024"

lemma length_packet: "length (packet v) = 8 + 4 * length v"
  by (simp add: packet_def)

lemma read_packet_part:
  assumes "fits v" and "strict_prefix r (packet v)"
  shows "read_packet r = Inl NetworkError"
proof (cases "length r < 8")
  case True
  then show ?thesis by (simp add: read_packet_def sock_read_def)
next
  case False
  have u: "unat (of_nat (4 * length v) :: 64 word) = 4 * length v"
    using assms(1) by (intro of_nat_inverse) simp_all
  have lt: "(of_nat (4 * length v) :: 64 word) < 10 * 1024 * 1024"
    unfolding word_less_nat_alt u using assms(1) by simp
  from assms(2) obtain t where t: "packet v = r @ t" "t \<noteq> []" by (auto simp: strict_prefix_def prefix_def)
  then have l: "length r < 8 + 4 * length v" using length_packet [of v] by (cases t) auto
  from t False have "take 8 r = take 8 (packet v)" by simp
  then have "take 8 r = to_bytes 8 (of_nat (4 * length v) :: 64 word)" by (simp add: packet_def)
  with False l lt u show ?thesis
    by (simp add: read_packet_def sock_read_def of_to_bytes_64 VERIFY_def less_diff_conv2 del: of_nat_mult)
qed

lemma prefix_of_packets:
  assumes "prefix bs (concat (map packet vs) @ r)" and "r = [] \<or> (\<exists>v. fits v \<and> strict_prefix r (packet v))"
    and "list_all fits vs"
  shows "\<exists>j r'. j \<le> length vs \<and> bs = concat (map packet (take j vs)) @ r' \<and>
    (r' = [] \<or> (\<exists>v. fits v \<and> strict_prefix r' (packet v)))"
  using assms
proof (induction vs arbitrary: bs)
  case Nil
  then have "bs = [] \<or> (\<exists>v. fits v \<and> strict_prefix bs (packet v))"
    by (auto intro: prefix_order.le_less_trans)
  then show ?case by simp
next
  case (Cons v vs)
  show ?case
  proof (cases "length bs < length (packet v)")
    case True
    with Cons.prems(1) have "strict_prefix bs (packet v)"
      by (auto simp: strict_prefix_def prefix_def append_eq_append_conv2)
    then show ?thesis using Cons.prems(3) by (intro exI [of _ 0] exI [of _ bs]) auto
  next
    case False
    with Cons.prems(1) have "prefix (packet v) bs"
      by (intro prefix_length_prefix [of "packet v" "packet v @ concat (map packet vs) @ r" bs]) simp_all
    then obtain b where b: "bs = packet v @ b" by (auto simp: prefix_def)
    with Cons.prems(1) have pb: "prefix b (concat (map packet vs) @ r)" by simp
    from Cons.IH [OF pb Cons.prems(2)] Cons.prems(3) obtain j r' where
      "j \<le> length vs" "b = concat (map packet (take j vs)) @ r'"
      "r' = [] \<or> (\<exists>v. fits v \<and> strict_prefix r' (packet v))" by auto
    with b show ?thesis by (intro exI [of _ "Suc j"] exI [of _ r']) simp
  qed
qed

definition readable :: "(nat \<Rightarrow> addr) \<Rightarrow> (ints \<Rightarrow> 'm) \<Rightarrow> (ints \<Rightarrow> 'm) \<Rightarrow> ints \<Rightarrow> bool" where
  "readable base msg sent v \<longleftrightarrow> fits v \<and> (\<forall>k. \<exists>m. deserialize (base k) 0 v = Some (Inr m) \<and> msg m = sent v)"

lemma listen_packets:
  assumes "\<forall>v \<in> set vs. readable base msg sent v"
    and "r = [] \<or> (\<exists>v. fits v \<and> strict_prefix r (packet v))"
  shows "listen_loop base (\<lambda>m s. (Inr (), s @ [msg m])) k (concat (map packet vs) @ r) s =
    Some (NetworkError, s @ map sent vs)"
  using assms(1)
proof (induction vs arbitrary: k s)
  case Nil
  have "read_packet r = Inl NetworkError" using assms(2) read_packet_part read_packet_end by blast
  then show ?case by (subst listen_loop.simps) simp
next
  case (Cons v vs)
  then obtain m where m: "deserialize (base k) 0 v = Some (Inr m)" "msg m = sent v" "fits v"
    unfolding readable_def by fastforce
  then show ?case using Cons
    by (subst listen_loop.simps) (simp add: read_packet_packet)
qed

lemma received_packets:
  assumes "\<forall>v \<in> set vs. readable base msg sent v"
    and "r = [] \<or> (\<exists>v. fits v \<and> strict_prefix r (packet v))"
  shows "received base msg (concat (map packet vs) @ r) = map sent vs"
  unfolding received_def using listen_packets [OF assms, of 0 "[]"] by simp

lemma received_prefix:
  assumes "\<forall>v \<in> set vs. readable base msg sent v"
    and "r = [] \<or> (\<exists>v. fits v \<and> strict_prefix r (packet v))"
    and "prefix bs (concat (map packet vs) @ r)"
  shows "prefix (received base msg bs) (received base msg (concat (map packet vs) @ r))"
proof -
  have "list_all fits vs" using assms(1) by (auto simp: readable_def list_all_iff)
  with prefix_of_packets [OF assms(3,2)] obtain j r' where
    bs: "bs = concat (map packet (take j vs)) @ r'"
    and r': "r' = [] \<or> (\<exists>v. fits v \<and> strict_prefix r' (packet v))" by blast
  have "\<forall>v \<in> set (take j vs). readable base msg sent v" using assms(1) by (meson in_set_takeD)
  from received_packets [OF this r'] received_packets [OF assms(1,2)]
  show ?thesis unfolding bs by (simp add: map_mono_prefix take_is_prefix)
qed

section \<open>What the connector writes\<close>

text \<open>A connection has accepted whole packets and perhaps a part of one more, after which it broke.\<close>

type_synonym wire = "ints list \<times> bytes"

definition wire_bytes :: "wire \<Rightarrow> bytes" where
  "wire_bytes c = concat (map packet (fst c)) @ snd c"

definition wire_ok :: "wire \<Rightarrow> bool" where
  "wire_ok c \<longleftrightarrow> snd c = [] \<or> (\<exists>v. fits v \<and> strict_prefix (snd c) (packet v))"

definition link_ok :: "link \<Rightarrow> wire list \<Rightarrow> bool" where
  "link_ok l cs \<longleftrightarrow> ln_conns l = map wire_bytes cs \<and> list_all wire_ok cs \<and>
     (ln_open l \<longrightarrow> cs \<noteq> [] \<and> snd (last cs) = [])"

definition whole :: "wire list \<Rightarrow> ints list" where "whole cs = concat (map fst cs)"

lemma link_connect_ok:
  assumes "link_ok l cs" and "link_connect l = (r, l')"
  shows "\<exists>cs'. link_ok l' cs' \<and> whole cs' = whole cs \<and> (r = Inr () \<and> ln_open l' \<or> r = Inl NetworkError)"
proof -
  have new: "link_ok (l\<lparr>ln_open := True, ln_conns := ln_conns l @ [[]], ln_c := c\<rparr>) (cs @ [([], [])])"
    "whole (cs @ [([], [])]) = whole cs" for c
    using assms(1) by (simp_all add: link_ok_def wire_bytes_def wire_ok_def whole_def)
  have old: "link_ok (l\<lparr>ln_c := c\<rparr>) cs" "link_ok (l\<lparr>ln_down := d, ln_c := c\<rparr>) cs" for c d
    using assms(1) by (simp_all add: link_ok_def)
  show ?thesis
    using assms(2) new old by (cases "ln_connects l (ln_c l)") (fastforce simp: link_connect_def)+
qed

lemma reconnect_ok:
  assumes "link_ok l cs" and "connector_reconnect ln_down link_connect l = Some (r, l')"
  shows "\<exists>cs'. link_ok l' cs' \<and> whole cs' = whole cs \<and>
    (r = Inr () \<and> ln_open l' \<or> r = Inl (ConnectorError ''Disconnected''))"
  using assms(2) unfolding connector_reconnect_def
proof (rule networkRetry_rule [where P = "\<lambda>l. \<exists>cs'. link_ok l cs' \<and> whole cs' = whole cs"
      and M = "\<lambda>l. \<exists>cs'. link_ok l cs' \<and> whole cs' = whole cs"])
  show "\<exists>cs'. link_ok l cs' \<and> whole cs' = whole cs" using assms(1) by blast
qed (fastforce dest: link_connect_ok split: if_splits)+

text \<open>One attempt to write leaves the message on the wire, or a part of it.\<close>

lemma accept_ok:
  assumes "link_ok l cs" and "ln_open l" and "fits v"
  shows "link_ok (accept_bytes (packet v) l) (butlast cs @ [(fst (last cs) @ [v], [])])"
    and "whole (butlast cs @ [(fst (last cs) @ [v], [])]) = whole cs @ [v]"
    and "n < length (packet v) \<Longrightarrow>
      link_ok (accept_bytes (take n (packet v)) l\<lparr>ln_open := False\<rparr>) (butlast cs @ [(fst (last cs), take n (packet v))])"
    and "whole (butlast cs @ [(fst (last cs), take n (packet v))]) = whole cs"
proof -
  from assms(1,2) obtain ds ws where cs: "cs = ds @ [(ws, [])]"
    by (cases cs rule: rev_cases) (auto simp: link_ok_def)
  with assms(1) have c: "ln_conns l = map wire_bytes ds @ [concat (map packet ws)]" "list_all wire_ok ds"
    by (simp_all add: link_ok_def wire_bytes_def)
  show "link_ok (accept_bytes (packet v) l) (butlast cs @ [(fst (last cs) @ [v], [])])"
    using c by (simp add: cs link_ok_def accept_bytes_def wire_bytes_def wire_ok_def)
  show "whole (butlast cs @ [(fst (last cs) @ [v], [])]) = whole cs @ [v]"
    "whole (butlast cs @ [(fst (last cs), take n (packet v))]) = whole cs" by (simp_all add: cs whole_def)
  assume "n < length (packet v)"
  then have "strict_prefix (take n (packet v)) (packet v)"
    by (metis length_take less_irrefl min.absorb4 strict_prefixI take_is_prefix)
  with c assms(3) show "link_ok (accept_bytes (take n (packet v)) l\<lparr>ln_open := False\<rparr>)
      (butlast cs @ [(fst (last cs), take n (packet v))])"
    by (auto simp: cs link_ok_def accept_bytes_def wire_bytes_def wire_ok_def)
qed

lemma link_ok_other [simp]:
  "link_ok (l\<lparr>ln_w := k\<rparr>) cs = link_ok l cs" "link_ok (l\<lparr>ln_down := d\<rparr>) cs = link_ok l cs"
  by (simp_all add: link_ok_def)

lemma accept_bytes_other:
  "accept_bytes b (l\<lparr>ln_w := k\<rparr>) = (accept_bytes b l)\<lparr>ln_w := k\<rparr>"
  "accept_bytes b (l\<lparr>ln_down := d\<rparr>) = (accept_bytes b l)\<lparr>ln_down := d\<rparr>"
  by (simp_all add: accept_bytes_def)

lemma cut_ok:
  assumes "link_ok l cs" and "ln_open l" and "fits v"
  shows "\<exists>cs' n. link_ok (accept_bytes (take m (packet v)) l\<lparr>ln_open := False\<rparr>) cs' \<and>
    whole cs' = whole cs @ replicate n v"
proof (cases "m < length (packet v)")
  case True
  with accept_ok(3) [OF assms True] accept_ok(4) [OF assms] show ?thesis
    by (intro exI conjI) (assumption, simp add: exI [of _ 0])
next
  case False
  have "link_ok (accept_bytes (packet v) l\<lparr>ln_open := False\<rparr>) (butlast cs @ [(fst (last cs) @ [v], [])])"
    using accept_ok(1) [OF assms] by (simp add: link_ok_def accept_bytes_def)
  moreover have "whole (butlast cs @ [(fst (last cs) @ [v], [])]) = whole cs @ replicate 1 v"
    using accept_ok(2) [OF assms] by simp
  moreover have "take m (packet v) = packet v" using False by simp
  ultimately show ?thesis by metis
qed

lemma link_write_ok:
  assumes "link_ok l cs" and "fits v" and "link_write (packet v) l = (r, l')"
  shows "\<exists>cs' n. link_ok l' cs' \<and> whole cs' = whole cs @ replicate n v \<and> (r = Inr () \<and> 0 < n \<or> r = Inl NetworkError)"
proof (cases "ln_open l")
  case False
  with assms show ?thesis by (intro exI [of _ cs] exI [of _ 0]) (simp add: link_write_def)
next
  case True
  show ?thesis
  proof (cases "ln_writes l (ln_w l)")
    case Through
    with assms(3) True have "r = Inr ()" "l' = (accept_bytes (packet v) l)\<lparr>ln_w := Suc (ln_w l)\<rparr>"
      by (simp_all add: link_write_def accept_bytes_other)
    with accept_ok(1,2) [OF assms(1) True assms(2)] show ?thesis
      by (intro exI [of _ "butlast cs @ [(fst (last cs) @ [v], [])]"] exI [of _ 1]) simp
  next
    case (Cut m)
    with assms(3) True have "r = Inl NetworkError"
      "l' = accept_bytes (take m (packet v)) l\<lparr>ln_open := False\<rparr>\<lparr>ln_w := Suc (ln_w l)\<rparr>"
      by (simp_all add: link_write_def)
    moreover obtain cs' n where "link_ok (accept_bytes (take m (packet v)) l\<lparr>ln_open := False\<rparr>) cs'"
      "whole cs' = whole cs @ replicate n v" using cut_ok [OF assms(1) True assms(2), of m] by blast
    ultimately show ?thesis by (intro exI [of _ cs'] exI [of _ n]) (simp only: link_ok_other simp_thms)
  next
    case (CutByDisconnect m)
    with assms(3) True have "r = Inl NetworkError"
      "l' = accept_bytes (take m (packet v)) l\<lparr>ln_open := False\<rparr>\<lparr>ln_down := True\<rparr>\<lparr>ln_w := Suc (ln_w l)\<rparr>"
      by (simp_all add: link_write_def)
    moreover obtain cs' n where "link_ok (accept_bytes (take m (packet v)) l\<lparr>ln_open := False\<rparr>) cs'"
      "whole cs' = whole cs @ replicate n v" using cut_ok [OF assms(1) True assms(2), of m] by blast
    ultimately show ?thesis by (intro exI [of _ cs'] exI [of _ n]) (simp only: link_ok_other simp_thms)
  qed
qed

text \<open>When a call of \<open>write\<close> returns, the message is on the wire, at least once when it returns
  normally.\<close>

lemma link_send_ok:
  assumes "link_ok l cs" and "fits v" and "link_send (packet v) l = Some (r, l')"
  shows "\<exists>cs' n. link_ok l' cs' \<and> whole cs' = whole cs @ replicate n v \<and>
    (r = Inr () \<and> 0 < n \<or> r = Inl (ConnectorError ''Disconnected''))"
  using assms(3) unfolding connector_write_def performOp_def
proof (rule networkRetry_rule [where P = "\<lambda>l. \<exists>cs' n. link_ok l cs' \<and> whole cs' = whole cs @ replicate n v"
      and M = "\<lambda>l. \<exists>cs' n. link_ok l cs' \<and> whole cs' = whole cs @ replicate n v"])
  show "\<exists>cs' n. link_ok l cs' \<and> whole cs' = whole cs @ replicate n v"
    using assms(1) by (intro exI [of _ cs] exI [of _ 0]) simp
next
  fix s s' assume "\<exists>cs' n. link_ok s cs' \<and> whole cs' = whole cs @ replicate n v"
  then obtain cs1 n where p: "link_ok s cs1" "whole cs1 = whole cs @ replicate n v" by blast
  have written: "\<exists>cs' n'. link_ok s' cs' \<and> whole cs' = whole cs @ replicate n' v \<and>
      (r1 = Inr () \<and> 0 < n' \<or> r1 = Inl NetworkError)"
    if w: "link_write (packet v) s = (r1, s')" for r1
  proof -
    obtain cs2 n1 where "link_ok s' cs2" "whole cs2 = whole cs1 @ replicate n1 v"
      "r1 = Inr () \<and> 0 < n1 \<or> r1 = Inl NetworkError" using link_write_ok [OF p(1) assms(2) w] by blast
    with p(2) show ?thesis by (intro exI [of _ cs2] exI [of _ "n + n1"]) (auto simp: replicate_add)
  qed
  have connected: "\<exists>cs' n'. link_ok s' cs' \<and> whole cs' = whole cs @ replicate n' v"
    "r1 = Inr () \<or> r1 = Inl (ConnectorError ''Disconnected'')"
    if "connector_reconnect ln_down link_connect s = Some (r1, s')" for r1
    using reconnect_ok [OF p(1) that] p(2) by auto
  { fix u :: unit assume "link_write (packet v) s = (Inr u, s')"
    from written [OF this]
    show "\<exists>cs' n. link_ok s' cs' \<and> whole cs' = whole cs @ replicate n v \<and>
      (Inr u = Inr () \<and> 0 < n \<or> Inr u = Inl (ConnectorError ''Disconnected''))" by auto }
  { assume "link_write (packet v) s = (Inl NetworkError, s')"
    from written [OF this]
    show "\<exists>cs' n. link_ok s' cs' \<and> whole cs' = whole cs @ replicate n v" by blast }
  { fix e assume "link_write (packet v) s = (Inl e, s')" "e \<noteq> NetworkError"
    with written [OF this(1)]
    show "\<exists>cs' n. link_ok s' cs' \<and> whole cs' = whole cs @ replicate n v \<and>
      (Inl e = Inr () \<and> 0 < n \<or> Inl e = Inl (ConnectorError ''Disconnected''))" by auto }
  { fix u :: unit assume "connector_reconnect ln_down link_connect s = Some (Inr u, s')"
    then show "\<exists>cs' n. link_ok s' cs' \<and> whole cs' = whole cs @ replicate n v" by (rule connected(1)) }
  { fix e assume "connector_reconnect ln_down link_connect s = Some (Inl e, s')"
    from connected [OF this]
    show "\<exists>cs' n. link_ok s' cs' \<and> whole cs' = whole cs @ replicate n v \<and>
      (Inl e = Inr () \<and> 0 < n \<or> Inl e = Inl (ConnectorError ''Disconnected''))" by auto }
qed

lemma send_all_ok:
  assumes "link_ok l cs" and "list_all fits vs" and "send_all (map packet vs) l = Some (rs, l')"
  shows "\<exists>cs' ns. link_ok l' cs' \<and> length rs = length vs \<and> length ns = length vs \<and>
    whole cs' = whole cs @ concat (map2 replicate ns vs) \<and> (\<forall>i < length vs. rs ! i = Inr () \<longrightarrow> 0 < ns ! i)"
  using assms
proof (induction vs arbitrary: l cs rs)
  case Nil
  then show ?case by (intro exI [of _ cs]) simp
next
  case (Cons v vs)
  obtain r l1 rs' where r: "link_send (packet v) l = Some (r, l1)" "send_all (map packet vs) l1 = Some (rs', l')"
    "rs = r # rs'" using Cons.prems(3) by (auto simp: bind_eq_Some_conv)
  obtain cs1 n where 1: "link_ok l1 cs1"
    "whole cs1 = whole cs @ replicate n v" "r = Inr () \<and> 0 < n \<or> r = Inl (ConnectorError ''Disconnected'')"
    using link_send_ok [OF Cons.prems(1) _ r(1)] Cons.prems(2) unfolding list.pred_inject by blast
  obtain cs2 ns where 2: "link_ok l' cs2" "length rs' = length vs" "length ns = length vs"
    "whole cs2 = whole cs1 @ concat (map2 replicate ns vs)" "\<forall>i < length vs. rs' ! i = Inr () \<longrightarrow> 0 < ns ! i"
    using Cons.IH [OF 1(1) _ r(2)] Cons.prems(2) by auto
  have "\<forall>i < length (v # vs). (r # rs') ! i = Inr () \<longrightarrow> 0 < (n # ns) ! i"
    using 1(3) 2(5) by (auto simp: nth_Cons split: nat.split)
  with 1 2 r(3) show ?case by (intro exI [of _ cs2] exI [of _ "n # ns"]) auto
qed

section \<open>When the writes return\<close>

abbreviation same_net :: "link \<Rightarrow> link \<Rightarrow> bool" where
  "same_net l l' \<equiv> ln_writes l' = ln_writes l \<and> ln_connects l' = ln_connects l"

abbreviation reconnects :: "link \<Rightarrow> bool" where
  "reconnects l \<equiv> \<exists>r l'. connector_reconnect ln_down link_connect l = Some (r, l') \<and> same_net l l' \<and>
     ln_w l' = ln_w l \<and> (r = Inr () \<longrightarrow> ln_open l')"

text \<open>
  A call of \<open>connect\<close> that is not refused, now or later, ends the loop of \<open>reconnect\<close>: it
  connects, or it was ended by a \<open>disconnect\<close>, and then the loop throws.
\<close>

lemma reconnect_at_once:
  assumes "ln_down l \<or> ln_connects l (ln_c l) \<noteq> Refused"
  shows "reconnects l"
proof (cases "ln_down l")
  case True
  then show ?thesis by (auto simp: reconnect_disconnected)
next
  case False
  show ?thesis
  proof (cases "ln_connects l (ln_c l)")
    case Connected
    with False have "connector_reconnect ln_down link_connect l =
        Some (Inr (), l\<lparr>ln_open := True, ln_conns := ln_conns l @ [[]], ln_c := Suc (ln_c l)\<rparr>)"
      by (simp add: connector_reconnect_def networkRetry_success link_connect_def)
    then show ?thesis by simp
  next
    case Refused
    with False assms show ?thesis by simp
  next
    case RefusedByDisconnect
    let ?l = "l\<lparr>ln_down := True, ln_c := Suc (ln_c l)\<rparr>"
    have "connector_reconnect ln_down link_connect l = connector_reconnect ln_down link_connect ?l"
      unfolding connector_reconnect_def
      by (rule networkRetry_again) (simp_all add: False RefusedByDisconnect link_connect_def)
    also have "\<dots> = Some (Inl (ConnectorError ''Disconnected''), ?l)" by (simp add: reconnect_disconnected)
    finally show ?thesis by auto
  qed
qed

lemma reconnect_returns:
  assumes "ln_connects l (ln_c l + d) \<noteq> Refused"
  shows "reconnects l"
  using assms
proof (induction d arbitrary: l)
  case 0
  then show ?case by (intro reconnect_at_once) simp
next
  case (Suc d)
  show ?case
  proof (cases "ln_down l \<or> ln_connects l (ln_c l) \<noteq> Refused")
    case True
    then show ?thesis by (rule reconnect_at_once)
  next
    case False
    let ?l = "l\<lparr>ln_c := Suc (ln_c l)\<rparr>"
    have "connector_reconnect ln_down link_connect l = connector_reconnect ln_down link_connect ?l"
      unfolding connector_reconnect_def
      by (rule networkRetry_again) (use False in \<open>simp_all add: link_connect_def\<close>)
    with Suc.IH [of ?l] Suc.prems show ?thesis by simp
  qed
qed

text \<open>The network works again and again: connects are not refused for ever, writes not cut for ever.\<close>

definition connects_again :: "(nat \<Rightarrow> connect_event) \<Rightarrow> bool" where
  "connects_again cs \<longleftrightarrow> (\<forall>k. \<exists>d. cs (k + d) \<noteq> Refused)"

definition writes_again :: "(nat \<Rightarrow> write_event) \<Rightarrow> bool" where
  "writes_again ws \<longleftrightarrow> (\<forall>k. \<exists>d. ws (k + d) = Through)"

lemma send_retry:
  assumes "link_write b l = (Inl NetworkError, l1)" and "same_net l l1" and "connects_again (ln_connects l)"
  shows "(\<exists>r l'. link_send b l = Some (r, l') \<and> same_net l l') \<or>
    (\<exists>l2. link_send b l = link_send b l2 \<and> same_net l l2 \<and> ln_w l2 = ln_w l1 \<and> ln_open l2)"
proof -
  obtain d where "ln_connects l1 (ln_c l1 + d) \<noteq> Refused" using assms(2,3) by (auto simp: connects_again_def)
  then have "reconnects l1" by (rule reconnect_returns)
  then obtain r l2 where c: "connector_reconnect ln_down link_connect l1 = Some (r, l2)" "same_net l1 l2"
    "ln_w l2 = ln_w l1" "r = Inr () \<longrightarrow> ln_open l2" by blast
  show ?thesis
  proof (cases r)
    case (Inl e)
    then have "link_send b l = Some (Inl e, l2)"
      unfolding connector_write_def performOp_def
      using assms(1) c(1) by (intro networkRetry_onRetry_throws) simp_all
    with c(2) assms(2) show ?thesis by simp
  next
    case (Inr u)
    then have "link_send b l = link_send b l2"
      unfolding connector_write_def performOp_def
      using assms(1) c(1) by (intro networkRetry_again) simp_all
    with c Inr assms(2) show ?thesis by (intro disjI2 exI [of _ l2]) simp
  qed
qed

lemma send_open_returns:
  assumes "ln_open l" and "ln_writes l (ln_w l + d) = Through" and "connects_again (ln_connects l)"
  shows "\<exists>r l'. link_send b l = Some (r, l') \<and> same_net l l'"
  using assms
proof (induction d arbitrary: l)
  case 0
  then have "link_send b l = Some (Inr (), accept_bytes b l\<lparr>ln_w := Suc (ln_w l)\<rparr>)"
    by (simp add: connector_write_def performOp_def networkRetry_success link_write_def)
  then show ?case by (simp add: accept_bytes_def)
next
  case (Suc d)
  show ?case
  proof (cases "ln_writes l (ln_w l) = Through")
    case True
    then have "link_send b l = Some (Inr (), accept_bytes b l\<lparr>ln_w := Suc (ln_w l)\<rparr>)"
      using Suc.prems(1) by (simp add: connector_write_def performOp_def networkRetry_success link_write_def)
    then show ?thesis by (simp add: accept_bytes_def)
  next
    case False
    then obtain l1 where w: "link_write b l = (Inl NetworkError, l1)" "same_net l l1" "ln_w l1 = Suc (ln_w l)"
      using Suc.prems(1) by (cases "ln_writes l (ln_w l)") (simp_all add: link_write_def accept_bytes_def)
    from send_retry [OF w(1,2) Suc.prems(3)] show ?thesis
    proof
      assume "\<exists>l2. link_send b l = link_send b l2 \<and> same_net l l2 \<and> ln_w l2 = ln_w l1 \<and> ln_open l2"
      then obtain l2 where l2: "link_send b l = link_send b l2" "same_net l l2" "ln_w l2 = ln_w l1" "ln_open l2"
        by blast
      with Suc.IH [of l2] Suc.prems(2,3) w(3) show ?thesis by simp
    qed
  qed
qed

lemma send_returns:
  assumes "writes_again (ln_writes l)" and "connects_again (ln_connects l)"
  shows "\<exists>r l'. link_send b l = Some (r, l') \<and> same_net l l'"
proof -
  have opened: "\<exists>r l'. link_send b k = Some (r, l') \<and> same_net l l'" if up: "ln_open k" "same_net l k" for k
  proof -
    obtain d where "ln_writes k (ln_w k + d) = Through" using assms(1) up(2) by (auto simp: writes_again_def)
    from send_open_returns [OF up(1) this] up(2) assms(2) show ?thesis by simp
  qed
  show ?thesis
  proof (cases "ln_open l")
    case True
    then show ?thesis by (intro opened) simp_all
  next
    case False
    then have "link_write b l = (Inl NetworkError, l)" by (simp add: link_write_def)
    from send_retry [OF this _ assms(2)] opened show ?thesis by force
  qed
qed

lemma send_all_returns:
  assumes "writes_again (ln_writes l)" and "connects_again (ln_connects l)"
  shows "\<exists>rs l'. send_all bs l = Some (rs, l')"
  using assms
proof (induction bs arbitrary: l)
  case (Cons b bs)
  obtain r l1 where "link_send b l = Some (r, l1)" "same_net l l1" using send_returns [OF Cons.prems] by blast
  moreover from this Cons obtain rs l2 where "send_all bs l1 = Some (rs, l2)" by fastforce
  ultimately show ?case by simp
qed simp

text \<open>To a peer that refuses every connection a write never returns.\<close>

lemma refused_for_ever:
  assumes "ln_connects l = (\<lambda>_. Refused)" and "\<not> ln_down l" and "\<not> ln_open l"
  shows "link_send b l = None"
proof -
  let ?P = "\<lambda>l. ln_connects l = (\<lambda>_. Refused) \<and> \<not> ln_down l \<and> \<not> ln_open l"
  have never: False if "connector_reconnect ln_down link_connect k = Some (r, k')" "?P k" for r k k'
    using that(1) unfolding connector_reconnect_def
    by (rule networkRetry_rule [where P = ?P and M = ?P and Q = "\<lambda>_ _. False"])
      (use that(2) in \<open>auto simp: link_connect_def\<close>)
  have False if "link_send b l = Some (r, l')" for r l'
    using that unfolding connector_write_def performOp_def
    by (rule networkRetry_rule [where P = ?P and M = ?P and Q = "\<lambda>_ _. False"])
      (use assms never in \<open>auto simp: link_write_def\<close>)
  then show ?thesis by (cases "link_send b l") auto
qed

section \<open>From sender to receiver\<close>


text \<open>Two messages without pointers. The first connection takes the first message whole and then
  breaks, the second breaks within the second message.\<close>

definition msg_one :: ints where "msg_one = [7, 0, 2]"
definition msg_two :: ints where "msg_two = [8, 0, 2]"

lemma two_readable: "\<forall>v \<in> set [msg_one, msg_two]. readable (\<lambda>_. 0x2000) (\<lambda>m. m) (\<lambda>v. v) v"
proof -
  have "deserialize 0x2000 0 msg_one = Some (Inr msg_one)" "deserialize 0x2000 0 msg_two = Some (Inr msg_two)"
    by code_simp+
  then show ?thesis by (simp add: readable_def) (simp add: msg_one_def msg_two_def)
qed

lemma link_send_once:
  "link_write b l = (Inr (), l') \<Longrightarrow> link_send b l = Some (Inr (), l')"
  by (simp add: connector_write_def performOp_def networkRetry_success)

lemma link_send_again:
  assumes "link_write b l = (Inl NetworkError, l1)" and "connector_reconnect ln_down link_connect l1 = Some (Inr (), l2)"
  shows "link_send b l = link_send b l2"
  using assms unfolding connector_write_def performOp_def by (rule networkRetry_again)

lemma reconnect_once:
  "\<not> ln_down l \<Longrightarrow> link_connect l = (Inr (), l') \<Longrightarrow> connector_reconnect ln_down link_connect l = Some (Inr (), l')"
  by (simp add: connector_reconnect_def networkRetry_success)

lemma reconnect_again:
  assumes "\<not> ln_down l" and "link_connect l = (Inl NetworkError, l')"
  shows "connector_reconnect ln_down link_connect l = connector_reconnect ln_down link_connect l'"
  using assms unfolding connector_reconnect_def by (intro networkRetry_again) simp_all

lemmas link_run = link_send_once link_send_again reconnect_once reconnect_again
  link_write_def link_connect_def accept_bytes_def link_new_def

definition two_writes :: "nat \<Rightarrow> write_event" where
  "two_writes k = (if k = 0 then Cut 20 else if k = 2 then Cut 5 else Through)"

definition two_connects :: "nat \<Rightarrow> connect_event" where
  "two_connects k = (if k = 1 then Refused else Connected)"

lemma two_sent:
  assumes "length p = 20"
  shows "send_all [p, q] (link_new two_writes two_connects) =
     Some ([Inr (), Inr ()], \<lparr>ln_open = True, ln_conns = [p, p @ take 5 q, q],
       ln_down = False, ln_writes = two_writes, ln_w = 4, ln_connects = two_connects, ln_c = 4\<rparr>)"
  using assms by (simp add: link_run two_writes_def two_connects_def eval_nat_numeral)


text \<open>A message can be lost although its \<open>write\<close> returned normally: the connection that accepted
  it breaks before it arrived, the next \<open>write\<close> reconnects, and nothing sends the first again.\<close>

theorem accepted_message_lost:
  "\<exists>l arrived. send_all [packet msg_one, packet msg_two] (link_new (\<lambda>k. if k = 1 then Cut 0 else Through) (\<lambda>_. Connected)) =
       Some ([Inr (), Inr ()], l) \<and> list_all2 prefix arrived (ln_conns l) \<and>
     concat (map (received (\<lambda>_. 0x2000) (\<lambda>m. m)) arrived) = [msg_two]"
proof -
  have "send_all [packet msg_one, packet msg_two] (link_new (\<lambda>k. if k = 1 then Cut 0 else Through) (\<lambda>_. Connected)) =
      Some ([Inr (), Inr ()], \<lparr>ln_open = True, ln_conns = [packet msg_one, packet msg_two],
        ln_down = False, ln_writes = (\<lambda>k. if k = 1 then Cut 0 else Through), ln_w = 3,
        ln_connects = (\<lambda>_. Connected), ln_c = 2\<rparr>)"
    by (simp add: link_run eval_nat_numeral)
  moreover have "list_all2 prefix [[], packet msg_two] [packet msg_one, packet msg_two]" by simp
  moreover have "received (\<lambda>_. 0x2000) (\<lambda>m. m) [] = ([] :: ints list)"
    "received (\<lambda>_. 0x2000) (\<lambda>m. m) (packet msg_two) = [msg_two]"
    using received_packets [of "[]" _ _ "\<lambda>v. v" "[]"] received_packets [of "[msg_two]" _ _ "\<lambda>v. v" "[]"] two_readable
    by simp_all
  then have "concat (map (received (\<lambda>_. 0x2000) (\<lambda>m. m)) [[], packet msg_two]) = [msg_two]" by simp
  ultimately show ?thesis by (metis link.select_convs(2))
qed

end
