(* ===== verification/Programs.thy ===== *)
theory Programs
  imports Server ChronosExamples
begin

text \<open>
  The programs of \<open>examples/\<close>: \<open>main\<close> serves a starter on the node that the environment names, and
  the starter of \<open>chronos.cpp\<close> sends its journey to the other nodes. What the journeys ask for is
  recorded as tasks; sleeping and logging leave none.
\<close>

section \<open>main\<close>

text \<open>The exit code, and what the starter asked for. Every exception of the model is a
  \<open>std::exception\<close>, which \<open>main\<close> catches.\<close>

definition program_main :: "(nodes_config \<Rightarrow> 'r outcome) \<Rightarrow> environment \<Rightarrow> int \<times> 'r option" where
  "program_main starter env =
     (case initNodes env no_nodes of
        (Inl e, ns) \<Rightarrow> (1, None)
      | (Inr _, ns) \<Rightarrow> (case starter (config ns) of Inl e \<Rightarrow> (1, None) | Inr r \<Rightarrow> (0, Some r)))"

section \<open>The starters\<close>

datatype task = StartDetector | GoJourney "act list" | RunKv

text \<open>\<open>chronos\<close>, with the journeys \<open>example3\<close> starts.\<close>

definition chronos_journey :: "nodes_config \<Rightarrow> task list" where
  "chronos_journey c =
     StartDetector # (if thisNode c \<noteq> 1 then [] else map GoJourney example3)"

definition chronos_starter ::
  "((nodes_config \<Rightarrow> task list) \<Rightarrow> 'p) \<Rightarrow> nodes_config \<Rightarrow> ((node_id \<times> 'p) list \<times> task list) outcome" where
  "chronos_starter packet c =
     Inr (if thisNode c = 1 then (broadcast packet chronos_journey c, chronos_journey c) else ([], []))"

definition kv_starter :: "nodes_config \<Rightarrow> task list outcome" where
  "kv_starter c = Inr (if thisNode c = 1 then [RunKv] else [])"

definition detector_starter :: "nodes_config \<Rightarrow> task list outcome" where
  "detector_starter c = Inr [StartDetector]"

text \<open>The three programs.\<close>

definition chronos_main ::
  "((nodes_config \<Rightarrow> task list) \<Rightarrow> 'p) \<Rightarrow> environment \<Rightarrow> int \<times> ((node_id \<times> 'p) list \<times> task list) option" where
  "chronos_main packet = program_main (chronos_starter packet)"

definition kv_main :: "environment \<Rightarrow> int \<times> task list option" where
  "kv_main = program_main kv_starter"

definition detector_main :: "environment \<Rightarrow> int \<times> task list option" where
  "detector_main = program_main detector_starter"

section \<open>What the programs do\<close>

text \<open>The environment of node \<open>k\<close> of a cluster of \<open>n\<close>.\<close>

definition env_ok :: "int \<Rightarrow> int \<Rightarrow> environment \<Rightarrow> bool" where
  "env_ok n k env \<longleftrightarrow> getEnvInt env c_nodes = Inr n \<and> getEnvInt env c_nodeId = Inr k"

lemma program_main_runs:
  assumes "env_ok n k env" and "1 \<le> k" "k \<le> n" "n \<le> 20"
  shows "program_main starter env =
    (case starter (node_cfg (server_members n) (of_int k)) of Inl e \<Rightarrow> (1, None) | Inr r \<Rightarrow> (0, Some r))"
proof -
  have k: "(of_int k :: node_id) > 0 \<and> (of_int k :: node_id) \<le> of_int n"
    using of_int_le_small [of n "of_int k"] assms(2-4) by simp
  then have "fst (initNodes env no_nodes) = Inr ()"
    using assms by (simp add: initNodes_def env_ok_def Let_def)
  then obtain ns where "initNodes env no_nodes = (Inr (), ns)" by (metis prod.collapse)
  with initNodes_configures_cluster [of env] obtain n' k' where
    "getEnvInt env c_nodes = Inr n'" "getEnvInt env c_nodeId = Inr k'"
    "initNodes env no_nodes = (Inr (), \<lparr>config = node_cfg (server_members n') (of_int k'),
       table = map (\<lambda>(i, e). (i, Some (connector_new e))) (server_members n')\<rparr>)" by blast
  with assms(1) show ?thesis by (simp add: program_main_def env_ok_def)
qed

lemma small_ids_eq:
  assumes "n \<le> 20" and "i \<in> {0..n}" "j \<in> {0..n}"
  shows "(of_int i :: node_id) = of_int j \<longleftrightarrow> i = j"
  using inj_on_eq_iff [OF small_ids_inj, of i j] assms by auto

text \<open>\<open>chronos\<close> sends its journey from the first node to all others, and runs it there itself; the
  other nodes ask for nothing of their own. The journey starts the detector everywhere, and
  \<open>example3\<close> on the first node.\<close>

lemma chronos_program_runs:
  assumes "env_ok n k env" and "1 \<le> k" "k \<le> n" "n \<le> 20"
  shows "chronos_main packet env = (0, Some (if k = 1
    then (map (\<lambda>i. (i, packet chronos_journey)) (otherNodes (node_cfg (server_members n) 1)),
      StartDetector # map GoJourney example3) else ([], [])))"
  using program_main_runs [OF assms, of "chronos_starter packet"] small_ids_eq [of n k 1] assms(2-4)
  by (auto simp: chronos_main_def chronos_starter_def chronos_journey_def broadcast_def node_cfg_def thisNode_def Let_def)

text \<open>\<open>kv\<close> runs on the first node only; a node with an environment that is not valid ends with 1
  and starts nothing.\<close>

lemma kv_program_runs:
  assumes "env_ok n k env" and "1 \<le> k" "k \<le> n" "n \<le> 20"
  shows "kv_main env = (0, Some (if k = 1 then [RunKv] else []))"
  using program_main_runs [OF assms, of kv_starter] small_ids_eq [of n k 1] assms(2-4)
  by (auto simp: kv_main_def kv_starter_def node_cfg_def thisNode_def)

lemma program_main_refuses:
  assumes "getEnvInt env c_nodes = Inr n" and "\<not> (1 \<le> n \<and> n \<le> 20)"
  shows "program_main starter env = (1, None)"
  using assms by (auto simp: program_main_def initNodes_def VERIFY_def)

lemma detector_program_runs:
  assumes "env_ok n k env" and "1 \<le> k" "k \<le> n" "n \<le> 20"
  shows "detector_main env = (0, Some [StartDetector])"
  using program_main_runs [OF assms, of detector_starter] by (simp add: detector_main_def detector_starter_def)

end
