(* ===== verification/Singletons.thy ===== *)
theory Singletons
  imports Replob_Prelude
begin

text \<open>
  \<open>single<T>()\<close> (\<open>include/synca/common.h\<close>), a static object constructed on its first use, and the
  objects \<open>WithCleanup\<close> that register themselves for \<open>cleanupAll\<close> (\<open>src/cleanup.cpp\<close>). A server
  (\<open>examples/server.h\<close>) has such an object, its \<open>MsgListener\<close>, on the stack.
\<close>

section \<open>Construction on first use\<close>

text \<open>
  A class: its tag, whether it is a \<open>WithCleanup\<close>, and the singletons its constructor uses, in
  order. The base \<open>WithCleanup\<close> is constructed before the body of the constructor runs.
\<close>

datatype 't ctor = Ctor (c_tag: 't) (c_cleanup: bool) (c_uses: "'t ctor list")

datatype 't owner = Static 't | Local nat

record 't statics =
  st_built :: "'t list"
  st_cleanups :: "'t owner list"
  st_gone :: "nat set"

definition statics_new :: "'t statics" where
  "statics_new = \<lparr>st_built = [], st_cleanups = [], st_gone = {}\<rparr>"

definition withCleanup :: "'t owner \<Rightarrow> 't statics \<Rightarrow> 't statics" where
  "withCleanup x s = s\<lparr>st_cleanups := st_cleanups s @ [x]\<rparr>"

fun single :: "'t ctor \<Rightarrow> 't statics \<Rightarrow> 't statics" where
  "single (Ctor t cl us) s =
     (if t \<in> set (st_built s) then s
      else let s = (if cl then withCleanup (Static t) s else s);
               s = fold single us s
           in s\<lparr>st_built := st_built s @ [t]\<rparr>)"

text \<open>\<open>cleanupAll\<close> calls the objects in the order they registered; one that is gone is undefined
  behaviour.\<close>

definition cleanup_all :: "'t statics \<Rightarrow> 't owner list option" where
  "cleanup_all s = (if \<exists>n \<in> st_gone s. Local n \<in> set (st_cleanups s) then None else Some (st_cleanups s))"

text \<open>\<open>Server::serve\<close>: the listener of server \<open>n\<close>, the uses of singletons while it runs, the
  cleanup, the destruction of the server.\<close>

definition serve_cleanup :: "nat \<Rightarrow> 't ctor list \<Rightarrow> 't statics \<Rightarrow> ('t owner list \<times> 't statics) option" where
  "serve_cleanup n uses s =
     (let s = fold single uses (withCleanup (Local n) s)
      in case cleanup_all s of
           None \<Rightarrow> None
         | Some order \<Rightarrow> Some (order, s\<lparr>st_gone := insert n (st_gone s)\<rparr>))"

section \<open>Each object once\<close>

fun tags :: "'t ctor \<Rightarrow> 't set" where
  "tags (Ctor t cl us) = insert t (\<Union>u \<in> set us. tags u)"

text \<open>The classes of a program: one for each tag, and none uses itself while it is constructed.\<close>

fun proper :: "('t \<Rightarrow> 't ctor) \<Rightarrow> 't ctor \<Rightarrow> bool" where
  "proper C (Ctor t cl us) \<longleftrightarrow> C t = Ctor t cl us \<and> t \<notin> (\<Union>u \<in> set us. tags u) \<and> (\<forall>u \<in> set us. proper C u)"

definition used_before :: "('t \<Rightarrow> 't ctor) \<Rightarrow> 't list \<Rightarrow> bool" where
  "used_before C ts \<longleftrightarrow> (\<forall>i < length ts. \<forall>u \<in> set (c_uses (C (ts ! i))). c_tag u \<in> set (take i ts))"

definition statics_inv :: "('t \<Rightarrow> 't ctor) \<Rightarrow> 't set \<Rightarrow> 't owner set \<Rightarrow> 't statics \<Rightarrow> bool" where
  "statics_inv C P L s \<longleftrightarrow> distinct (st_built s) \<and> P \<inter> set (st_built s) = {} \<and>
     distinct (st_cleanups s) \<and>
     set (st_cleanups s) = Static ` {t \<in> set (st_built s) \<union> P. c_cleanup (C t)} \<union> L \<and>
     used_before C (st_built s)"

lemma used_before_snoc:
  assumes "used_before C ts" and "c_tag ` set (c_uses (C t)) \<subseteq> set ts"
  shows "used_before C (ts @ [t])"
  using assms by (auto simp: used_before_def nth_append less_Suc_eq)

lemma single_inv:
  assumes "proper C c" and "tags c \<inter> P = {}" and "statics_inv C P L s" and "Static -` L = {}"
  shows "statics_inv C P L (single c s) \<and> set (st_built s) \<subseteq> set (st_built (single c s)) \<and>
    c_tag c \<in> set (st_built (single c s)) \<and> st_gone (single c s) = st_gone s"
  using assms
proof (induction c s arbitrary: P rule: single.induct)
  case (1 t cl us s)
  show ?case
  proof (cases "t \<in> set (st_built s)")
    case True
    with 1 show ?thesis by simp
  next
    case False
    let ?s = "if cl then withCleanup (Static t) s else s"
    have C: "C t = Ctor t cl us" and P: "t \<notin> P" using 1 by auto
    have inv: "statics_inv C (insert t P) L ?s"
      using 1(4,5) False C P by (auto simp: statics_inv_def withCleanup_def)
    have "statics_inv C (insert t P) L (fold single vs r) \<and> set (st_built r) \<subseteq> set (st_built (fold single vs r)) \<and>
        c_tag ` set vs \<subseteq> set (st_built (fold single vs r)) \<and> st_gone (fold single vs r) = st_gone r"
      if "set vs \<subseteq> set us" "statics_inv C (insert t P) L r" for vs r
      using that
    proof (induction vs arbitrary: r)
      case (Cons v vs)
      have v: "proper C v" "tags v \<inter> insert t P = {}" using 1(2,3) Cons.prems(1) by auto
      have "statics_inv C (insert t P) L (single v r) \<and> set (st_built r) \<subseteq> set (st_built (single v r)) \<and>
        c_tag v \<in> set (st_built (single v r)) \<and> st_gone (single v r) = st_gone r"
        using 1(1) [OF False refl, of v "insert t P"] v Cons.prems 1(5) by auto
      with Cons show ?case by (simp; blast)
    qed simp
    from this [OF subset_refl inv] have all: "statics_inv C (insert t P) L (fold single us ?s)"
      "set (st_built s) \<subseteq> set (st_built (fold single us ?s))" "st_gone (fold single us ?s) = st_gone s"
      "c_tag ` set us \<subseteq> set (st_built (fold single us ?s))" by (auto simp: withCleanup_def)
    have "used_before C (st_built (fold single us ?s) @ [t])"
      using all(1,4) C by (intro used_before_snoc) (simp_all add: statics_inv_def)
    with all P show ?thesis using False by (auto simp: statics_inv_def Let_def)
  qed
qed

lemma singles_inv:
  assumes "list_all (proper C) us" and "statics_inv C {} L s" and "Static -` L = {}"
  shows "statics_inv C {} L (fold single us s) \<and> c_tag ` set us \<subseteq> set (st_built (fold single us s)) \<and>
    set (st_built s) \<subseteq> set (st_built (fold single us s)) \<and> st_gone (fold single us s) = st_gone s"
  using assms(1,2)
proof (induction us arbitrary: s)
  case (Cons u us)
  have "statics_inv C {} L (single u s) \<and> set (st_built s) \<subseteq> set (st_built (single u s)) \<and>
      c_tag u \<in> set (st_built (single u s)) \<and> st_gone (single u s) = st_gone s"
    using Cons.prems by (intro single_inv assms(3)) auto
  with Cons.IH [of "single u s"] Cons.prems(1) show ?case by auto
qed simp

text \<open>In a process that runs one server, every singleton that is used is constructed once, after
  those its constructor uses (so that it is destroyed before them), and \<open>cleanupAll\<close> meets the
  listener and every constructed \<open>WithCleanup\<close> exactly once, none of them destroyed.\<close>

theorem cleanup_meets_each_once:
  assumes "list_all (proper C) uses"
  shows "\<exists>order s. serve_cleanup n uses statics_new = Some (order, s) \<and> distinct order \<and>
    set order = insert (Local n) (Static ` {t \<in> set (st_built s). c_cleanup (C t)}) \<and>
    distinct (st_built s) \<and> c_tag ` set uses \<subseteq> set (st_built s) \<and> used_before C (st_built s)"
proof -
  have i: "statics_inv C {} {Local n} (withCleanup (Local n) statics_new)"
    by (simp add: statics_inv_def withCleanup_def statics_new_def used_before_def)
  have l: "Static -` {Local n} = {}" by auto
  note r = singles_inv [OF assms i l]
  let ?r = "fold single uses (withCleanup (Local n) statics_new)"
  have "st_gone ?r = {}" using r by (simp add: withCleanup_def statics_new_def)
  then have "serve_cleanup n uses statics_new = Some (st_cleanups ?r, ?r\<lparr>st_gone := {n}\<rparr>)"
    by (simp add: serve_cleanup_def cleanup_all_def Let_def)
  with r show ?thesis
    by (intro exI [of _ "st_cleanups ?r"] exI [of _ "?r\<lparr>st_gone := {n}\<rparr>"]) (simp add: statics_inv_def)
qed

text \<open>Two classes of the program: \<open>Phantom\<close> registers itself, and its object uses the configuration.\<close>

definition config_ctor :: "string ctor" where "config_ctor = Ctor ''NodesConfig'' False []"
definition phantom_ctor :: "string ctor" where "phantom_ctor = Ctor ''Phantom'' True [config_ctor]"

definition program_ctors :: "string \<Rightarrow> string ctor" where
  "program_ctors t = (if t = ''Phantom'' then phantom_ctor else if t = ''NodesConfig'' then config_ctor
     else Ctor t False [])"

lemma program_proper: "list_all (proper program_ctors) [phantom_ctor, config_ctor, phantom_ctor]"
  by (simp add: program_ctors_def phantom_ctor_def config_ctor_def)

lemma cleanup_meets_each_once_witness:
  "\<exists>order s. serve_cleanup 0 [phantom_ctor, config_ctor, phantom_ctor] statics_new = Some (order, s) \<and>
     distinct order \<and> Local 0 \<in> set order"
  using cleanup_meets_each_once [OF program_proper, of 0] by (elim exE conjE) auto

text \<open>Nothing ever leaves the list: a second server of the process, on whatever state the first one
  left, calls the listener of the first, which is gone.\<close>

lemma single_keeps: "set (st_cleanups s) \<subseteq> set (st_cleanups (single c s)) \<and> st_gone (single c s) = st_gone s"
proof (induction c s rule: single.induct)
  case (1 t cl us s)
  have "set (st_cleanups r) \<subseteq> set (st_cleanups (fold single vs r)) \<and> st_gone (fold single vs r) = st_gone r"
    if "t \<notin> set (st_built s)" "set vs \<subseteq> set us" for vs r
    using that(2)
  proof (induction vs arbitrary: r)
    case (Cons v vs)
    from 1 [OF that(1) refl, of v r] Cons show ?case by auto
  qed simp
  from this [OF _ subset_refl, of "if cl then withCleanup (Static t) s else s"] show ?case
    by (auto simp: Let_def withCleanup_def)
qed

lemma singles_keep:
  "set (st_cleanups s) \<subseteq> set (st_cleanups (fold single us s)) \<and> st_gone (fold single us s) = st_gone s"
  by (induction us arbitrary: s) (use single_keeps in \<open>fastforce+\<close>)

theorem second_server_undefined:
  assumes "serve_cleanup n uses s = Some (order, s')"
  shows "serve_cleanup m uses' s' = None"
proof -
  let ?s = "fold single uses (withCleanup (Local n) s)"
  have "Local n \<in> set (st_cleanups ?s)"
    using singles_keep [of "withCleanup (Local n) s" uses] by (auto simp: withCleanup_def)
  moreover have "s' = ?s\<lparr>st_gone := insert n (st_gone ?s)\<rparr>"
    using assms by (simp add: serve_cleanup_def Let_def split: option.splits)
  ultimately have "Local n \<in> set (st_cleanups s')" "n \<in> st_gone s'" by simp_all
  with singles_keep [of "withCleanup (Local m) s'" uses']
  have "Local n \<in> set (st_cleanups (fold single uses' (withCleanup (Local m) s')))"
    "n \<in> st_gone (fold single uses' (withCleanup (Local m) s'))" by (auto simp: withCleanup_def)
  then show ?thesis by (auto simp: serve_cleanup_def cleanup_all_def Let_def)
qed

end
