(* ===== verification/LogLines.thy ===== *)
theory LogLines
  imports Display
begin

text \<open>
  The macros of \<open>include/synca/log.h\<close>. A line goes to \<open>std::cerr\<close> in pieces, one for each
  \<open><<\<close>, and other threads write in between unless the program was built with \<open>flagLOG_MUTEX\<close>;
  then a \<open>std::lock_guard\<close> holds one mutex for the whole line.
\<close>

section \<open>The pieces of a line\<close>

type_synonym line = "string list"

definition SLOG :: "string \<Rightarrow> line \<Rightarrow> line" where
  "SLOG date msg = [date, '': ''] @ msg @ [[CHR 0x0A]]"

definition TLOG :: "string \<Rightarrow> int \<Rightarrow> line \<Rightarrow> line" where
  "TLOG name number msg = [name, ''#'', show_int number, '': ''] @ msg"

definition JLOG :: "string \<Rightarrow> int \<Rightarrow> int \<Rightarrow> line \<Rightarrow> line" where
  "JLOG name number index msg = TLOG name number ([''['', show_int index, ''] ''] @ msg)"

text \<open>\<open>LOG\<close> writes only in a build with \<open>flagLOG_DEBUG\<close>, \<open>RLOG\<close> always.\<close>

definition LOG :: "bool \<Rightarrow> string \<Rightarrow> line \<Rightarrow> line list" where
  "LOG debug date msg = (if debug then [SLOG date msg] else [])"

definition RLOG :: "string \<Rightarrow> line \<Rightarrow> line list" where
  "RLOG date msg = [SLOG date msg]"

section \<open>Threads that log\<close>

text \<open>
  For each thread the lines it has still to write and what is left of the one it is writing; the
  pieces on \<open>cerr\<close>; and, to speak of them, the lines that were begun with their threads.
\<close>

record logging =
  lg_todo :: "nat \<Rightarrow> line list"
  lg_cur :: "nat \<Rightarrow> line option"
  lg_out :: line
  lg_begun :: "(nat \<times> line) list"

definition log_start :: "(nat \<Rightarrow> line list) \<Rightarrow> logging" where
  "log_start todo = \<lparr>lg_todo = todo, lg_cur = (\<lambda>_. None), lg_out = [], lg_begun = []\<rparr>"

inductive log_step :: "bool \<Rightarrow> logging \<Rightarrow> logging \<Rightarrow> bool" for mutex :: bool where
  start_line: "\<lbrakk>lg_cur s i = None; lg_todo s i = l # ls; mutex \<longrightarrow> (\<forall>j. lg_cur s j = None)\<rbrakk> \<Longrightarrow>
    log_step mutex s (s\<lparr>lg_todo := (lg_todo s)(i := ls), lg_cur := (lg_cur s)(i \<mapsto> l),
                        lg_begun := lg_begun s @ [(i, l)]\<rparr>)"
| piece: "lg_cur s i = Some (p # ps) \<Longrightarrow>
    log_step mutex s (s\<lparr>lg_cur := (lg_cur s)(i \<mapsto> ps), lg_out := lg_out s @ [p]\<rparr>)"
| finish: "lg_cur s i = Some [] \<Longrightarrow> log_step mutex s (s\<lparr>lg_cur := (lg_cur s)(i := None)\<rparr>)"

section \<open>Whole lines\<close>

definition log_inv :: "(nat \<Rightarrow> line list) \<Rightarrow> logging \<Rightarrow> bool" where
  "log_inv todo s \<longleftrightarrow>
     (\<forall>i j. lg_cur s i \<noteq> None \<longrightarrow> lg_cur s j \<noteq> None \<longrightarrow> i = j) \<and>
     (\<forall>i l. lg_cur s i = Some l \<longrightarrow> concat (map snd (lg_begun s)) = lg_out s @ l) \<and>
     ((\<forall>i. lg_cur s i = None) \<longrightarrow> concat (map snd (lg_begun s)) = lg_out s) \<and>
     (\<forall>i. map snd [b \<leftarrow> lg_begun s. fst b = i] @ lg_todo s i = todo i)"

lemma log_step_inv:
  assumes "log_inv todo s" and "log_step True s t"
  shows "log_inv todo t"
  using assms(2)
proof cases
  case (start_line i l ls)
  have "map snd [b \<leftarrow> lg_begun s. fst b = i] @ l # ls = todo i"
    using assms(1) start_line(3) unfolding log_inv_def by metis
  with assms(1) start_line show ?thesis by (simp add: log_inv_def)
next
  case (piece i p ps)
  have "lg_cur s j = None" if "j \<noteq> i" for j
    using assms(1) piece(2) that unfolding log_inv_def by blast
  with assms(1) piece show ?thesis by (auto simp: log_inv_def)
next
  case (finish i)
  have "lg_cur s j = None" if "j \<noteq> i" for j
    using assms(1) finish(2) that unfolding log_inv_def by blast
  with assms(1) finish show ?thesis by (auto simp: log_inv_def)
qed

interpretation logs: step_system "\<lambda>s. s = log_start todo" "log_step True" "log_inv todo"
  for todo :: "nat \<Rightarrow> line list"
proof unfold_locales
  show "log_inv todo s" if "s = log_start todo" for s
    using that by (simp add: log_inv_def log_start_def)
qed (rule log_step_inv)

text \<open>With \<open>flagLOG_MUTEX\<close> the output of any number of threads, at a moment when none is writing,
  is a sequence of whole lines in which those of each thread come in its order, and a thread that
  has written all its lines has all of them there.\<close>

theorem log_lines_whole:
  assumes "(log_step True)\<^sup>*\<^sup>* (log_start todo) s" and "\<forall>i. lg_cur s i = None"
  shows "\<exists>ls. lg_out s = concat (map snd ls) \<and>
    (\<forall>i. map snd [b \<leftarrow> ls. fst b = i] @ lg_todo s i = todo i)"
  using logs.inv_reachable [OF refl assms(1)] assms(2)
  by (intro exI [of _ "lg_begun s"]) (simp add: log_inv_def)

text \<open>Two threads with one line each.\<close>

definition two_lines :: "nat \<Rightarrow> line list" where
  "two_lines i = (if i = 0 then [[''a'', ''b'']] else if i = 1 then [[''c'', ''d'']] else [])"

definition logged :: "nat \<Rightarrow> line \<Rightarrow> logging \<Rightarrow> logging" where
  "logged i l s = s\<lparr>lg_todo := (lg_todo s)(i := tl (lg_todo s i)), lg_begun := lg_begun s @ [(i, l)],
                    lg_out := lg_out s @ l\<rparr>"

lemma pieces_written:
  assumes "lg_cur s i = Some l"
  shows "(log_step m)\<^sup>*\<^sup>* s (s\<lparr>lg_cur := (lg_cur s)(i := None), lg_out := lg_out s @ l\<rparr>)"
  using assms
proof (induction l arbitrary: s)
  case Nil
  have "s\<lparr>lg_cur := f, lg_out := lg_out s @ []\<rparr> = s\<lparr>lg_cur := f\<rparr>" for f by simp
  then show ?case using log_step.finish [OF Nil, of m] by (metis r_into_rtranclp)
next
  case (Cons p ps)
  let ?t = "s\<lparr>lg_cur := (lg_cur s)(i \<mapsto> ps), lg_out := lg_out s @ [p]\<rparr>"
  have "log_step m s ?t" by (rule log_step.piece [OF Cons.prems])
  moreover have "(log_step m)\<^sup>*\<^sup>* ?t (s\<lparr>lg_cur := (lg_cur s)(i := None), lg_out := lg_out s @ p # ps\<rparr>)"
    using Cons.IH [of ?t] by (simp add: fun_upd_def cong: if_cong)
  ultimately show ?case by (rule converse_rtranclp_into_rtranclp)
qed

lemma line_written:
  assumes "\<forall>j. lg_cur s j = None" and "lg_todo s i = l # ls"
  shows "(log_step m)\<^sup>*\<^sup>* s (logged i l s)"
proof -
  let ?t = "s\<lparr>lg_todo := (lg_todo s)(i := ls), lg_cur := (lg_cur s)(i \<mapsto> l), lg_begun := lg_begun s @ [(i, l)]\<rparr>"
  have "log_step m s ?t" by (rule log_step.start_line) (use assms in auto)
  moreover have "(log_step m)\<^sup>*\<^sup>* ?t (logged i l s)"
  proof -
    have "(lg_cur s)(i := None) = lg_cur s" using assms(1) by auto
    with pieces_written [of ?t i l m] assms(2) show ?thesis by (simp add: logged_def)
  qed
  ultimately show ?thesis by (rule converse_rtranclp_into_rtranclp)
qed

lemma log_lines_whole_witness:
  "\<exists>ls. [''c'', ''d'', ''a'', ''b''] = concat (map snd ls) \<and> map snd [b \<leftarrow> ls. fst b = (0 :: nat)] = [[''a'', ''b'']]"
proof -
  let ?s = "logged 0 [''a'', ''b''] (logged 1 [''c'', ''d''] (log_start two_lines))"
  have "(log_step True)\<^sup>*\<^sup>* (log_start two_lines) ?s"
    by (rule rtranclp_trans [OF line_written line_written]) (auto simp: logged_def log_start_def two_lines_def)
  moreover have "\<forall>i. lg_cur ?s i = None" by (simp add: logged_def log_start_def)
  ultimately obtain ls where "lg_out ?s = concat (map snd ls)"
    "\<forall>i. map snd [b \<leftarrow> ls. fst b = i] @ lg_todo ?s i = two_lines i"
    using log_lines_whole [of two_lines ?s] by blast
  from this(1) this(2) [rule_format, of 0] show ?thesis by (auto simp: logged_def log_start_def two_lines_def)
qed

text \<open>Without the mutex lines are mixed.\<close>

lemma log_lines_mixed:
  "\<exists>s. (log_step False)\<^sup>*\<^sup>* (log_start two_lines) s \<and> (\<forall>i. lg_cur s i = None) \<and>
     lg_out s = [''a'', ''c'', ''d'', ''b'']"
proof -
  let ?s0 = "log_start two_lines"
  let ?s1 = "?s0\<lparr>lg_todo := two_lines(0 := []), lg_cur := [0 \<mapsto> [''a'', ''b'']], lg_begun := [(0, [''a'', ''b''])]\<rparr>"
  let ?s2 = "?s1\<lparr>lg_cur := [0 \<mapsto> [''b'']], lg_out := [''a'']\<rparr>"
  let ?s3 = "?s2\<lparr>lg_todo := two_lines(0 := [], 1 := []), lg_cur := [0 \<mapsto> [''b''], 1 \<mapsto> [''c'', ''d'']],
    lg_begun := [(0, [''a'', ''b'']), (1, [''c'', ''d''])]\<rparr>"
  have "log_step False ?s0 ?s1" using log_step.start_line [of ?s0 0 "[''a'', ''b'']" "[]" False]
    by (simp add: log_start_def two_lines_def)
  moreover have "log_step False ?s1 ?s2" using log_step.piece [of ?s1 0 "''a''" "[''b'']" False]
    by (simp add: log_start_def)
  moreover have "log_step False ?s2 ?s3" using log_step.start_line [of ?s2 1 "[''c'', ''d'']" "[]" False]
    by (simp add: log_start_def two_lines_def)
  moreover note pieces_written [of ?s3 1 "[''c'', ''d'']" False, simplified]
  ultimately have 1: "(log_step False)\<^sup>*\<^sup>* ?s0 (?s3\<lparr>lg_cur := (lg_cur ?s3)(1 := None), lg_out := lg_out ?s3 @ [''c'', ''d'']\<rparr>)"
    by (auto simp: log_start_def intro: converse_rtranclp_into_rtranclp)
  let ?s4 = "?s3\<lparr>lg_cur := (lg_cur ?s3)(1 := None), lg_out := lg_out ?s3 @ [''c'', ''d'']\<rparr>"
  have "(log_step False)\<^sup>*\<^sup>* ?s4 (?s4\<lparr>lg_cur := (lg_cur ?s4)(0 := None), lg_out := lg_out ?s4 @ [''b'']\<rparr>)"
    by (rule pieces_written) simp
  from rtranclp_trans [OF 1 this] show ?thesis by (intro exI conjI, assumption) (auto simp: log_start_def)
qed

end
