(* ===== verification/Spec2Isabelle.thy ===== *)
theory Spec2Isabelle
  imports Mutex Channel Completers GoResults Timers Sockets Piping ThreadPool Runtime Stats Packets
    WellFormed ReplobV1 Server KeyValue ChronosExamples Shutdown Crash Throwing Scoped Adapters
    Display Spawning FirstVersion FirstStall Sending
    ChronosCluster Programs Singletons LogLines
begin

text \<open>
  A verification of the replication prototype \<open>ReplobPrototype\<close>: objects replicated by agreement
  over coroutines ("journeys") on \<open>boost::asio\<close>. The program has four layers. At the bottom a pool
  of threads runs posted handlers, and journeys are scheduled on it: a journey suspends, and is
  woken by \<open>done\<close>, a cancellation or a timeout, which any thread may raise. On these waits rest
  the primitives: mutex, channel, awaiters, timers, socket operations. Above them nodes hold
  connections to each other, send closures as packets, and agree on an order of messages
  (\<open>Replob2\<close> with \<open>Voting\<close>, and the first version \<open>Replob\<close>). At the top objects are replicated by
  executing the agreed messages: a key-value store and a scheduler of timed events.

  Theories and sources, in the order of the layers:

  \<^item> \<open>Replob_Prelude\<close>: exceptions, identifiers, compare-and-exchange loops (\<open>cas_loop\<close>), and the
    locale \<open>step_system\<close> through which every invariant of a step relation is used.
  \<^item> \<open>JourneyState\<close> (\<open>src/journey.h\<close>, \<open>src/journey.cpp\<close>): the 32-bit word of a journey, its flags
    and 27-bit counter, every operation on it, the lock-free loops and their linearisation.
  \<^item> \<open>Journey\<close> (\<open>src/journey.cpp\<close>, \<open>src/coro.cpp\<close>): a coroutine, its scheduler and any number of
    threads that wake it, one access to the word per step; it runs alone and no wake-up is lost.
    \<open>journey_waitForDone\<close> and the other waits are functions of what happens while suspended.
  \<^item> \<open>Oers\<close> (\<open>src/oers.cpp\<close>): \<open>Doer\<close>, \<open>Goer\<close>, \<open>DetachableDoer\<close>, the queue, and the search for a live
    handle that \<open>Mutex\<close> (\<open>src/mutex.cpp\<close>) and \<open>Channel\<close> (\<open>include/synca/channel.h\<close>) share.
  \<^item> \<open>Completers\<close> and \<open>GoResults\<close> (\<open>src/core.cpp\<close>, \<open>include/synca/once/core.h\<close>): waiting for
    children with \<open>Awaiter\<close>, \<open>Awaiter2\<close>, \<open>AsyncWaiter\<close>, \<open>DetachableAwaiter\<close>, \<open>goAnyWait\<close>,
    \<open>goAnyResult\<close> and \<open>goWait\<close>. What is proved is that no child touches a frame that is gone, and
    that the parent wakes; and where that fails, a run that shows it.
  \<^item> \<open>Timers\<close> (\<open>src/core.cpp\<close>): \<open>Timer\<close>, \<open>Timeout\<close>, \<open>sleepa\<close> on a \<open>deadline_timer\<close>.
  \<^item> \<open>Sockets\<close> (\<open>src/network.cpp\<close>, \<open>src/listener.cpp\<close>): an asynchronous operation with the
    \<open>CloseOnError\<close> guard, and the accept loop.
  \<^item> \<open>Piping\<close> (\<open>include/synca/once/data.h\<close>): pipes between channels.
  \<^item> \<open>ThreadPool\<close> (\<open>src/thread_pool.cpp\<close>): the threads and \<open>wait\<close>.
  \<^item> \<open>Runtime\<close> (\<open>include/synca/common.h\<close>, \<open>src/gc.cpp\<close>, \<open>src/cleanup.cpp\<close>, \<open>src/portal.cpp\<close>): slots,
    thread-local pointers and their guards, cleanup actions, \<open>teleport\<close>, \<open>Portal\<close>.
  \<^item> \<open>Stats\<close> (\<open>src/stats.cpp\<close>, \<open>src/stats.h\<close>, \<open>src/common.cpp\<close>): counters, their names, \<open>waitFor\<close>.
  \<^item> \<open>Serialization\<close> and \<open>Packets\<close> (\<open>src/serialization.cpp\<close>, \<open>include/synca/once/serialization.h\<close>,
    \<open>src/node.cpp\<close>): the allocator into a buffer, the relocation of its pointers, and packets.
  \<^item> \<open>Connector\<close> and \<open>Nodes\<close> (\<open>src/connector.cpp\<close>, \<open>src/node.cpp\<close>): retries, membership, broadcast.
  \<^item> \<open>Sending\<close> (\<open>src/node.cpp\<close>, \<open>src/connector.cpp\<close>, \<open>src/network.cpp\<close>): \<open>send\<close>, the connector, the
    packets and the listener together, over connections that break: what is repeated or lost there
    is what the network of \<open>Cluster\<close> may do.
  \<^item> \<open>Spawning\<close> (\<open>src/journey.cpp\<close>, \<open>src/core.cpp\<close>, \<open>src/stats.cpp\<close>): new journeys and their indexes,
    \<open>schedule0\<close>, \<open>deferProceed\<close>, the strand \<open>Alone\<close>, the registration of counters.
  \<^item> \<open>Scoped\<close> (\<open>src/core.cpp\<close>, \<open>include/synca/once/modifiers.h\<close>, \<open>src/journey.cpp\<close>, \<open>src/coro.cpp\<close>,
    \<open>src/thread_pool.cpp\<close>): \<open>tryCatchFinally\<close>, cleanup guards, and where exceptions end.
  \<^item> \<open>Adapters\<close> (\<open>include/synca/adapter.h\<close>, \<open>include/synca/once/broadcast.h\<close>): what the bases of an
    \<open>Adapter\<close> do with a call; calls behind a mutex are atomic.
  \<^item> \<open>Display\<close> (\<open>src/journey.cpp\<close>, \<open>include/synca/once/replob.h\<close>, \<open>src/replob.cpp\<close>,
    \<open>src/stats.cpp\<close>): the text of the state and of the counters in the logs, which can be read back.
  \<^item> \<open>Phantom\<close>, \<open>Voting\<close>, \<open>VotingNode\<close>, \<open>Cluster\<close> (\<open>include/synca/once/phantom.h\<close>,
    \<open>include/synca/once/replob.h\<close>): the registry of one voting per step, the voting, a node seen
    step by step, and the cluster with a network that delays, reorders, repeats and loses calls.
  \<^item> \<open>Progress\<close>, \<open>Crash\<close>, \<open>Timeouts\<close>, \<open>WellFormed\<close>, \<open>Throwing\<close> over these: what is reached when
    everything was delivered and that it is reached; the survivors of crashed nodes; the
    availability timeout, what it breaks and what stays true with it; messages that throw.
  \<^item> \<open>ReplobV1\<close>, \<open>FirstVersion\<close>, \<open>FirstStall\<close> (\<open>src/replob.cpp\<close>): the first agreement; the cluster of its
    nodes, which without timeouts is one of the second version; and how, unlike the second, it
    can stop for ever when a node dies.
  \<^item> \<open>Apply\<close> (\<open>include/synca/once/replob.h\<close>, from \<open>ReplobApplySync\<close> on): calls on replicated objects.
  \<^item> \<open>Singletons\<close> (\<open>include/synca/common.h\<close>, \<open>src/cleanup.cpp\<close>): objects constructed on first use and
    the clean-up that meets each of them once, in a process that runs one server.
  \<^item> \<open>LogLines\<close> (\<open>include/synca/log.h\<close>): lines that threads log, whole only under the mutex.
  \<^item> \<open>ChronosCluster\<close> and \<open>Programs\<close> (\<open>examples/\<close>): the scheduler on the cluster of \<open>Cluster\<close>, where every
    handler that is due is started by one node; and the programs from \<open>main\<close> on, on all nodes.
  \<^item> \<open>Shutdown\<close> (\<open>examples/server.h\<close>, \<open>src/listener.cpp\<close>): the end of a server, over the counters of
    \<open>Stats\<close>, which \<open>waitForAll\<close> loads one after the other, in either order.
  \<^item> \<open>Server\<close>, \<open>KeyValue\<close>, \<open>Detector\<close>, \<open>Chronos\<close> (\<open>examples/\<close>): the environment of a node, the store,
    the failure detector between the pulses of the other nodes, and the scheduler.
  \<^item> \<open>ChronosExamples\<close> (\<open>examples/chronos.cpp\<close>): the example programs as journeys and handlers that
    run step by step on one copy of the scheduler.
\<close>

text \<open>
  Abstract specifications and refinements. The lock-free loops of the journey word refine one
  atomic decision (\<open>cas_loop_linearises\<close>). A node of \<open>Voting\<close> refines a view in which each step is
  open or settled (\<open>stepped\<close>), and the cluster of such views has one agreed log of which every
  node's is a prefix (\<open>logs_prefix\<close>), all of it once the network is quiet (\<open>quiet_cluster_complete\<close>).
  The first version refines that cluster (\<open>first_version_refines\<close>), as long as no timer fires. The
  calls are linearisable: the agreed order respects real time (\<open>calls_linearisable\<close>); the replicated object refines the fold of the agreed
  operations (\<open>Apply\<close>), and on it the store is a map with last-write-wins (locale \<open>store\<close>). The
  pipes refine \<open>map\<close> over the source, the queue of waiters a sequence (locale \<open>fifo\<close>), and
  \<open>deserialize\<close> is the inverse of \<open>serialize\<close> up to relocation.

  Interfaces. \<open>step_system\<close> is interpreted by the step relations of the components;
  \<open>phantom_client\<close>, what the registry of \<open>Phantom\<close> asks of its objects, by \<open>Voting\<close>;
  \<open>acquirable\<close> and \<open>fifo\<close> by the handles and the queue of \<open>Oers\<close>; \<open>store\<close> by the store of \<open>kv.cpp\<close>.

  Bounds and fuel. Loops that end are recursive functions with their measure
  (\<open>take_due\<close>, \<open>scheduleAction\<close>, the allocator's and the serializer's loops). \<open>replaceAll\<close>,
  \<open>waitFor\<close> and the retries of a connector may run for ever: they are partial functions into
  \<open>option\<close>. That \<open>replaceAll\<close> returns is proved, and when the others do: \<open>waitFor\<close> at the first
  evaluation that holds, a \<open>write\<close> when the network, described by endless sequences of what the
  attempts to write and to connect meet, works again and again (\<open>Sending\<close>). There is no fuel but the
  list of attempts of a compare-and-exchange loop, which is what the other threads do; a loop
  that runs out of it has not returned. Words have
  their width: the journey word has 32 bits and its counter wraps after 2^27 events; steps,
  message numbers and counters of instances have 64. Children of an awaiter, threads and loop
  counters of \<open>waitFor\<close> are counted in integers: they stay far below 2^31.

  What outside code is relied on for. \<open>boost::asio\<close> appears as its documented behaviour: an
  \<open>io_service\<close> stops when its last work is finished and stays stopped until \<open>reset\<close>; the handler
  of an asynchronous operation runs once; cancelling a timer leaves queued handlers alone. Reads
  and writes of sockets, the clock, the environment, the hash order of maps, the choice of a
  priority queue among equals and \<open>demangle\<close> are arguments. Atomic operations are taken one
  after the other: the memory ordering of the code, mostly relaxed, is not modelled.

  Not modelled: the switch of stacks (\<open>boost::context\<close>); sockets, endpoints and name resolution
  as such; what runs inside the synchronous branch of \<open>schedule0\<close>, which nothing in the program
  turns on (\<open>incCancellation\<close> is never called); handlers that throw on the first version of the
  agreement; tests; and code that is commented out.
\<close>

end
